(* ===== verification/Prelude.thy ===== *)
theory Prelude
  imports Main "HOL-Library.Word"
begin

text \<open>
  Shared vocabulary of the development: the C integer types as words, the shape of a C
  operation that works on a mutable object and may fail, the byte orders, and the generic
  facts on words and lists that the component theories rely on.

  A C function that mutates an object of type \<open>'s\<close>, writes an out-parameter of type \<open>'a\<close>
  and returns 1 or 0 is a function \<open>'s \<Rightarrow> 'a option \<times> 's\<close>: \<open>None\<close> is the return value 0,
  \<open>Some a\<close> the return value 1 with the out-parameter set to \<open>a\<close>, and the second component
  is the object after the call, on the failing paths too.
\<close>

unbundle bit_operations_syntax

named_theorems st_simps
named_theorems codec_simps

type_synonym byte = "8 word"
type_synonym u16 = "16 word"
type_synonym u32 = "32 word"
type_synonym u64 = "64 word"
type_synonym ('s, 'a) stm = "'s \<Rightarrow> 'a option \<times> 's"

subsection \<open>Sequencing of fallible operations on a mutable object\<close>

definition st_return :: "'a \<Rightarrow> ('s, 'a) stm" where
  "st_return a s = (Some a, s)"

definition st_fail :: "('s, 'a) stm" where
  "st_fail s = (None, s)"

definition st_bind :: "('s, 'a) stm \<Rightarrow> ('a \<Rightarrow> ('s, 'b) stm) \<Rightarrow> ('s, 'b) stm" where
  "st_bind m f s = (case m s of (None, s') \<Rightarrow> (None, s') | (Some a, s') \<Rightarrow> f a s')"

definition st_assert :: "bool \<Rightarrow> ('s, unit) stm" where
  "st_assert b s = (if b then (Some (), s) else (None, s))"

text \<open>\<open>size_t\<close> is 64 bits wide on the platforms the pods are built for: additions wrap.\<close>

definition size_add :: "nat \<Rightarrow> nat \<Rightarrow> nat" where
  "size_add a b = (a + b) mod 2 ^ 64"

definition size_mul :: "nat \<Rightarrow> nat \<Rightarrow> nat" where
  "size_mul a b = (a * b) mod 2 ^ 64"

definition SIZE_MAX :: nat where
  "SIZE_MAX = 2 ^ 64 - 1"

definition UINT64_MAX :: u64 where
  "UINT64_MAX = - 1"

definition INT_MAX :: nat where
  "INT_MAX = 2 ^ 31 - 1"

text \<open>Writing a run of bytes into a memory block, as memcpy, memset and memmove do.\<close>

definition mem_store :: "'a list \<Rightarrow> nat \<Rightarrow> 'a list \<Rightarrow> 'a list" where
  "mem_store mem p bs = take p mem @ bs @ drop (p + length bs) mem"

subsection \<open>Big-endian numbers, the reference for the byte-order code\<close>

primrec be_bytes :: "nat \<Rightarrow> nat \<Rightarrow> byte list" where
  "be_bytes 0 v = []"
| "be_bytes (Suc n) v = be_bytes n (v div 256) @ [of_nat v]"

definition be_nat :: "byte list \<Rightarrow> nat" where
  "be_nat bs = foldl (\<lambda>r b. r * 256 + unat b) 0 bs"

subsection \<open>Lemmas on sequencing\<close>

lemma st_return_apply [simp]: "st_return a s = (Some a, s)"
  by (simp add: st_return_def)

lemma st_fail_apply [simp]: "st_fail s = (None, s)"
  by (simp add: st_fail_def)

lemma st_assert_apply [simp]: "st_assert b s = (if b then (Some (), s) else (None, s))"
  by (simp add: st_assert_def)

lemma st_bind_Some [simp]: "m s = (Some a, s') \<Longrightarrow> st_bind m f s = f a s'"
  by (simp add: st_bind_def)

lemma st_bind_None [simp]: "m s = (None, s') \<Longrightarrow> st_bind m f s = (None, s')"
  by (simp add: st_bind_def)

lemma st_bind_eq_Some:
  "st_bind m f s = (Some b, s'') \<longleftrightarrow> (\<exists>a s'. m s = (Some a, s') \<and> f a s' = (Some b, s''))"
  by (auto simp: st_bind_def split: prod.splits option.splits)

lemma st_bindE:
  assumes "st_bind m f s = (Some b, s'')"
  obtains a s' where "m s = (Some a, s')" and "f a s' = (Some b, s'')"
  using assms by (auto simp: st_bind_eq_Some)

lemma st_bind_split:
  "P (st_bind m f s) \<longleftrightarrow>
     (\<forall>s'. m s = (None, s') \<longrightarrow> P (None, s')) \<and>
     (\<forall>a s'. m s = (Some a, s') \<longrightarrow> P (f a s'))"
  by (auto simp: st_bind_def split: prod.splits option.splits)

lemma st_bind_split_asm:
  "P (st_bind m f s) \<longleftrightarrow>
     \<not> ((\<exists>s'. m s = (None, s') \<and> \<not> P (None, s')) \<or>
        (\<exists>a s'. m s = (Some a, s') \<and> \<not> P (f a s')))"
  by (subst st_bind_split) auto

lemmas st_splits = st_bind_split st_bind_split_asm

lemma st_bind_assoc: "st_bind (st_bind m f) g s = st_bind m (\<lambda>a. st_bind (f a) g) s"
  by (auto simp: st_bind_def split: prod.splits option.splits)

subsection \<open>Lemmas on sizes and memory\<close>

lemma size_add_small [simp]: "a + b < 2 ^ 64 \<Longrightarrow> size_add a b = a + b"
  by (simp add: size_add_def)

lemma size_mul_small [simp]: "a * b < 2 ^ 64 \<Longrightarrow> size_mul a b = a * b"
  by (simp add: size_mul_def)

text \<open>The idiom \<open>a + b < a\<close> detects exactly the additions that wrap.\<close>

lemma size_add_overflow_iff:
  assumes "a < 2 ^ 64" and "b < 2 ^ 64"
  shows "size_add a b < a \<longleftrightarrow> 2 ^ 64 \<le> a + b"
proof (cases "a + b < 2 ^ 64")
  case True
  then show ?thesis by simp
next
  case False
  with assms have "(a + b) mod 2 ^ 64 = a + b - 2 ^ 64"
    by (simp add: mod_nat_eqI)
  with False assms show ?thesis by (simp add: size_add_def)
qed

lemma length_mem_store [simp]:
  "p + length bs \<le> length mem \<Longrightarrow> length (mem_store mem p bs) = length mem"
  by (simp add: mem_store_def)

lemma take_mem_store [simp]: "n \<le> p \<Longrightarrow> p \<le> length mem \<Longrightarrow> take n (mem_store mem p bs) = take n mem"
  by (simp add: mem_store_def)

lemma take_mem_store_end:
  "p \<le> length mem \<Longrightarrow> take (p + length bs) (mem_store mem p bs) = take p mem @ bs"
  by (simp add: mem_store_def)

lemma mem_store_nil [simp]: "mem_store mem p [] = mem"
  by (simp add: mem_store_def)

subsection \<open>Lemmas on words\<close>

lemma or_push_bit_eq_add:
  fixes r v :: "'a::len word"
  assumes "take_bit n v = v"
  shows "push_bit n r OR v = push_bit n r + v"
proof -
  have "push_bit n r AND v = 0"
  proof (rule bit_word_eqI)
    fix i
    have "bit v i \<Longrightarrow> i < n"
      using assms by (metis bit_take_bit_iff)
    then show "bit (push_bit n r AND v) i \<longleftrightarrow> bit (0 :: 'a word) i"
      by (auto simp: bit_simps)
  qed
  then show ?thesis
    by (rule disjunctive_add_eq_or [symmetric])
qed

lemma be_step_word:
  "push_bit 8 r OR ucast (b :: byte) = r * 256 + ucast (b :: byte)" for r :: u64
proof -
  have "take_bit 8 (ucast b :: u64) = ucast b"
    by (rule bit_word_eqI) (auto simp: bit_simps dest: bit_imp_le_length)
  from or_push_bit_eq_add [OF this, of r] show ?thesis
    by (simp add: push_bit_eq_mult mult.commute)
qed

lemma byte_bound: "unat (b :: byte) < 256"
  using unsigned_less [of b] by simp

lemma u16_bound: "unat (a :: u16) < 2 ^ 16"
proof -
  have "unat a < 2 ^ LENGTH(16)" by (rule unsigned_less)
  then show ?thesis by simp
qed

lemma u32_bound: "unat (a :: u32) < 2 ^ 32"
proof -
  have "unat a < 2 ^ LENGTH(32)" by (rule unsigned_less)
  then show ?thesis by simp
qed

lemma u64_bound: "unat (a :: u64) < 2 ^ 64"
proof -
  have "unat a < 2 ^ LENGTH(64)" by (rule unsigned_less)
  then show ?thesis by simp
qed

lemma word_xor_eq_0_iff: "a XOR b = 0 \<longleftrightarrow> a = b" for a b :: "'a::len word"
proof
  assume "a XOR b = 0"
  then have "(a XOR b) XOR b = 0 XOR b" by simp
  then show "a = b" by (simp add: xor.assoc)
qed simp

subsection \<open>Lemmas on big-endian numbers\<close>

lemma be_nat_Nil [simp]: "be_nat [] = 0"
  by (simp add: be_nat_def)

lemma be_nat_snoc [simp]: "be_nat (bs @ [b]) = be_nat bs * 256 + unat b"
  by (simp add: be_nat_def)

lemma length_be_bytes [simp]: "length (be_bytes n v) = n"
  by (induction n arbitrary: v) simp_all

lemma be_nat_be_bytes: "be_nat (be_bytes n v) = v mod 256 ^ n"
proof (induction n arbitrary: v)
  case 0
  then show ?case by simp
next
  case (Suc n)
  have "v div 256 mod 256 ^ n * 256 + v mod 256 = v mod (256 * 256 ^ n)"
    by (simp add: mod_mult2_eq)
  with Suc show ?case
    by (simp add: unat_of_nat)
qed

lemma be_nat_less: "be_nat bs < 256 ^ length bs"
proof (induction bs rule: rev_induct)
  case Nil
  then show ?case by simp
next
  case (snoc b bs)
  then have "Suc (be_nat bs) * 256 \<le> 256 ^ length bs * 256"
    by (simp only: mult_le_mono1 Suc_le_eq)
  with byte_bound [of b] show ?case by simp
qed

lemma be_bytes_be_nat: "be_bytes (length bs) (be_nat bs) = bs"
proof (induction bs rule: rev_induct)
  case Nil
  then show ?case by simp
next
  case (snoc b bs)
  have "(be_nat bs * 256 + unat b) div 256 = be_nat bs"
    using byte_bound [of b] by simp
  moreover have "(of_nat (be_nat bs * 256 + unat b) :: byte) = b"
    by (rule word_unat_eq_iff [THEN iffD2]) (simp add: unat_of_nat byte_bound del: of_nat_add of_nat_mult)
  ultimately show ?case
    using snoc by simp
qed

lemma be_nat_Cons: "be_nat (b # bs) = unat b * 256 ^ length bs + be_nat bs"
proof (induction bs rule: rev_induct)
  case Nil
  then show ?case by (simp add: be_nat_def)
next
  case (snoc c bs)
  have "be_nat (b # bs @ [c]) = be_nat (b # bs) * 256 + unat c"
    using be_nat_snoc [of "b # bs" c] by simp
  with snoc show ?case by (simp add: algebra_simps)
qed

lemma be_nat_inj: "length xs = length ys \<Longrightarrow> be_nat xs = be_nat ys \<Longrightarrow> xs = ys"
  by (metis be_bytes_be_nat)

lemma be_nat_append: "be_nat (xs @ ys) = be_nat xs * 256 ^ length ys + be_nat ys"
  by (induction xs) (simp_all add: be_nat_Cons power_add algebra_simps)

subsection \<open>Bits of the constants of the code, and casts\<close>

lemma unat_of_nat_be_nat: "length bs \<le> 8 \<Longrightarrow> unat (of_nat (be_nat bs) :: u64) = be_nat bs"
proof -
  assume "length bs \<le> 8"
  then have "(256::nat) ^ length bs \<le> 256 ^ 8"
    by (rule power_increasing) simp
  with be_nat_less [of bs] have "be_nat bs < 2 ^ 64"
    by simp
  then show ?thesis by (simp add: unat_of_nat)
qed

lemma bit_mask_int: "bit (2 ^ k - 1 :: int) n \<longleftrightarrow> n < k"
proof -
  have "(2 ^ k - 1 :: int) = mask k" by (simp add: mask_eq_exp_minus_1)
  then show ?thesis by (simp only: bit_mask_iff possible_bit_def) auto
qed

lemma bit_const_int:
  "bit (0x7f :: int) n \<longleftrightarrow> n < 7"
  "bit (0x80 :: int) n \<longleftrightarrow> n = 7"
  "bit (0x1f :: int) n \<longleftrightarrow> n < 5"
  "bit (0x3f :: int) n \<longleftrightarrow> n < 6"
  "bit (0x0f :: int) n \<longleftrightarrow> n < 4"
  "bit (0xff :: int) n \<longleftrightarrow> n < 8"
  "bit (0x1fffffff :: int) n \<longleftrightarrow> n < 29"
  using bit_mask_int [of 7 n] bit_mask_int [of 5 n] bit_mask_int [of 6 n] bit_mask_int [of 8 n] bit_mask_int [of 29 n]
    bit_exp_iff [of 7 n, where 'a = int] bit_mask_int [of 4 n] by auto

lemma bit_e0_int: "bit (0xe0 :: int) n \<longleftrightarrow> n = 5 \<or> n = 6 \<or> n = 7"
proof -
  have "(0xe0 :: int) = push_bit 5 (2 ^ 3 - 1)" by (simp add: push_bit_eq_mult)
  then have "bit (0xe0 :: int) n \<longleftrightarrow> 5 \<le> n \<and> n - 5 < 3"
    by (simp only: bit_push_bit_iff_int bit_mask_int)
  then show ?thesis by auto
qed

lemmas bit_consts = bit_const_int bit_e0_int

lemma and_exp_eq_0_iff: "b AND 2 ^ k = 0 \<longleftrightarrow> \<not> bit b k" for b :: "'a::len word"
proof
  assume "b AND 2 ^ k = 0"
  then have "\<not> bit (b AND 2 ^ k) k" by simp
  then show "\<not> bit b k"
    by (auto simp: bit_simps dest: bit_imp_le_length)
next
  assume "\<not> bit b k"
  then show "b AND 2 ^ k = 0"
    by (auto intro!: bit_word_eqI simp: bit_simps)
qed

lemma high_bit_iff: "b AND 0x80 = 0 \<longleftrightarrow> \<not> bit b 7" for b :: byte
  using and_exp_eq_0_iff [of b 7] by simp

lemma unat_ucast_mod: "unat (ucast w :: 'b::len word) = unat w mod 2 ^ LENGTH('b)" for w :: "'a::len word"
  by (simp add: unsigned_ucast_eq take_bit_eq_mod)

lemma unat_ucast_up:
  "LENGTH('a) \<le> LENGTH('b) \<Longrightarrow> unat (ucast w :: 'b::len word) = unat w" for w :: "'a::len word"
proof -
  assume "LENGTH('a) \<le> LENGTH('b)"
  then have "(2 :: nat) ^ LENGTH('a) \<le> 2 ^ LENGTH('b)" by simp
  with unsigned_less [of w] have "unat w < 2 ^ LENGTH('b)"
    by (rule less_le_trans)
  then show ?thesis by (simp add: unat_ucast_mod)
qed

lemma bit_e0000000_int: "bit (0xe0000000 :: int) n \<longleftrightarrow> n = 29 \<or> n = 30 \<or> n = 31"
proof -
  have "(0xe0000000 :: int) = push_bit 29 (2 ^ 3 - 1)" by (simp add: push_bit_eq_mult)
  then have "bit (0xe0000000 :: int) n \<longleftrightarrow> 29 \<le> n \<and> n - 29 < 3"
    by (simp only: bit_push_bit_iff_int bit_mask_int)
  then show ?thesis by auto
qed

lemma ucast_64_32 [simp]: "(ucast (ucast w :: u64) :: u32) = w"
  by (rule bit_word_eqI) (simp add: bit_simps)

lemma bit_small_nat: "n < 2 ^ j \<Longrightarrow> j \<le> i \<Longrightarrow> \<not> bit n i" for n :: nat
proof -
  assume "n < 2 ^ j" "j \<le> i"
  then have "n < 2 ^ i" by (rule_tac less_le_trans [of n "2 ^ j"]) simp_all
  then show ?thesis by (simp add: bit_iff_odd)
qed

lemma of_nat_small_byte: "n < 128 \<Longrightarrow> (of_nat n :: byte) AND 0x80 = 0"
  using bit_small_nat [of n 7 7] by (simp add: high_bit_iff bit_simps)

lemma drop_bit_eq_0_unat: "drop_bit k w = 0 \<longleftrightarrow> unat w < 2 ^ k" for w :: "'a::len word"
proof -
  have "drop_bit k w = 0 \<longleftrightarrow> unat (drop_bit k w) = 0" by (simp only: unat_eq_0)
  also have "\<dots> \<longleftrightarrow> unat w < 2 ^ k"
    by (simp only: unat_drop_bit_eq) (simp add: drop_bit_eq_div div_eq_0_iff)
  finally show ?thesis .
qed

lemma be_bytes_cong_mod: "x mod 256 ^ n = y mod 256 ^ n \<Longrightarrow> be_bytes n x = be_bytes n y"
  by (metis be_nat_be_bytes be_nat_inj length_be_bytes)

lemma byte_high_bit_ge: "b AND 0x80 = 0 \<longleftrightarrow> unat b < 128" for b :: byte
proof -
  have "b AND 0x80 = 0 \<longleftrightarrow> drop_bit 7 b = 0"
  proof -
    have "drop_bit 7 b = of_bool (bit b 7)"
    proof (rule bit_word_eqI)
      fix n
      show "bit (drop_bit 7 b) n = bit (of_bool (bit b 7) :: byte) n"
        by (cases n) (auto simp: bit_simps dest: bit_imp_le_length)
    qed
    then have "drop_bit 7 b = 0 \<longleftrightarrow> \<not> bit b 7" by simp
    then show ?thesis by (simp add: high_bit_iff)
  qed
  then show ?thesis by (simp add: drop_bit_eq_0_unat)
qed

lemma unat_not: "unat (NOT w) = 2 ^ LENGTH('a) - 1 - unat w" for w :: "'a::len word"
proof -
  have "NOT w = - 1 - w" by (simp add: not_eq_complement)
  moreover have "unat (- 1 - w) = unat (- 1 :: 'a word) - unat w"
    by (rule unat_sub) (simp add: word_le_nat_alt unsigned_minus_1_eq_mask mask_eq_exp_minus_1 Suc_leI less_eq_Suc_le [symmetric] le_diff_conv2)
  ultimately show ?thesis by (simp add: unsigned_minus_1_eq_mask mask_eq_exp_minus_1)
qed

lemma unat_not_byte: "unat (NOT b :: byte) = 255 - unat b"
  by (simp add: unat_not)

lemma be_bytes_map: "be_bytes n x = map (\<lambda>i. of_nat (x div 256 ^ i)) (rev [0..<n])"
proof (induction n arbitrary: x)
  case 0
  then show ?case by simp
next
  case (Suc n)
  have "[0..<Suc n] = 0 # map Suc [0..<n]"
    by (simp add: map_Suc_upt upt_conv_Cons del: upt_Suc)
  with Suc show ?case
    by (simp add: rev_map comp_def div_mult2_eq del: upt_Suc)
qed

lemma st_bind_assoc_fun: "st_bind (st_bind m f) g = st_bind m (\<lambda>a. st_bind (f a) g)"
  by (simp add: fun_eq_iff st_bind_assoc)

lemma unat_less_bits: "unat u < 2 ^ k \<longleftrightarrow> (\<forall>i. bit u i \<longrightarrow> i < k)" for u :: "'a::len word"
proof -
  have "unat u < 2 ^ k \<longleftrightarrow> drop_bit k u = 0" by (simp add: drop_bit_eq_0_unat)
  also have "\<dots> \<longleftrightarrow> (\<forall>i. bit u i \<longrightarrow> i < k)"
  proof
    assume z: "drop_bit k u = 0"
    show "\<forall>i. bit u i \<longrightarrow> i < k"
    proof (intro allI impI)
      fix i assume "bit u i"
      then show "i < k" using arg_cong [OF z, of "\<lambda>w. bit w (i - k)"] by (cases "i < k") (simp_all add: bit_drop_bit_eq)
    qed
  next
    assume a: "\<forall>i. bit u i \<longrightarrow> i < k"
    show "drop_bit k u = 0"
    proof (rule bit_word_eqI)
      fix i
      have "\<not> bit u (k + i)" using a by force
      then show "bit (drop_bit k u) i = bit 0 i" by (simp add: bit_drop_bit_eq)
    qed
  qed
  finally show ?thesis .
qed

lemma st_bind_return [simp]: "st_bind m st_return = m"
  by (auto simp: fun_eq_iff st_bind_def split: prod.splits option.splits)

lemma unat_drop: "unat (drop_bit k l) = unat l div 2 ^ k" for l :: "'a::len word"
  by (metis drop_bit_eq_div unat_drop_bit_eq)

subsection \<open>Loops\<close>

text \<open>
  A loop of the code that may run forever is \<open>c_loop\<close>, whose value is None when it does. Its body goes on with a
  new state (Inl), leaves the loop with a result (Inr), or has no result itself (None).
\<close>

partial_function (option) c_loop :: "('a \<Rightarrow> ('a + 'b) option) \<Rightarrow> 'a \<Rightarrow> 'b option" where
  "c_loop body s = Option.bind (body s) (\<lambda>r. case r of Inl s' \<Rightarrow> c_loop body s' | Inr b \<Rightarrow> Some b)"

declare c_loop.simps [code]

lemma c_loop_total:
  assumes "wf R" "I s"
    and step: "\<And>s. I s \<Longrightarrow> \<exists>r. body s = Some r \<and> (case r of Inl s' \<Rightarrow> I s' \<and> (s', s) \<in> R | Inr b \<Rightarrow> Q b)"
  shows "\<exists>b. c_loop body s = Some b \<and> Q b"
  using assms(1,2)
proof (induction s rule: wf_induct_rule)
  case (less s)
  obtain r where r: "body s = Some r" "case r of Inl s' \<Rightarrow> I s' \<and> (s', s) \<in> R | Inr b \<Rightarrow> Q b"
    using step [OF less(2)] by blast
  show ?case
  proof (cases r)
    case (Inl s')
    then show ?thesis using r less(1) [of s'] by (subst c_loop.simps) simp
  next
    case (Inr b)
    then show ?thesis using r by (subst c_loop.simps) simp
  qed
qed

lemma c_loop_partial:
  assumes "c_loop body s = Some b" "I s"
    and step: "\<And>s r. I s \<Longrightarrow> body s = Some r \<Longrightarrow> (case r of Inl s' \<Rightarrow> I s' | Inr b \<Rightarrow> Q b)"
  shows "Q b"
proof -
  have "body = body \<longrightarrow> I s \<longrightarrow> Q b"
  proof (rule c_loop.raw_induct [where P = "\<lambda>body' s b. body' = body \<longrightarrow> I s \<longrightarrow> Q b", OF _ assms(1)], intro impI)
    fix lp body' s b
    assume IH: "\<And>body' s b. lp body' s = Some b \<Longrightarrow> body' = body \<longrightarrow> I s \<longrightarrow> Q b"
      and res: "Option.bind (body' s) (\<lambda>r. case r of Inl s' \<Rightarrow> lp body' s' | Inr b \<Rightarrow> Some b) = Some b" "body' = body" "I s"
    then obtain r where r: "body s = Some r" "(case r of Inl s' \<Rightarrow> lp body s' | Inr b \<Rightarrow> Some b) = Some b"
      by (auto simp: bind_eq_Some_conv)
    then show "Q b" using step [OF res(3) r(1)] IH [of body _ b] by (cases r) auto
  qed
  then show ?thesis using assms(2) by simp
qed

end
