(* ===== verification/Mem.thy ===== *)
theory Mem
  imports Prelude
begin

text \<open>
  crypto/mem.c and the parts of crypto/internal.h the components use: the allocation
  wrappers, the memory and C-string helpers, the constant-time masks and the byte swaps.

  libc's malloc is the parameter \<open>malloc\<close>: \<open>malloc n = Some b\<close> when the request for \<open>n\<close> bytes
  succeeds, \<open>b\<close> being what the block happens to hold. \<open>malloc_sized\<close> is the documented
  contract, that the block has the requested size. A block is the list of its bytes, so the
  size that \<open>OPENSSL_malloc\<close> stores in its 8-byte prefix is the length of the list. The
  override hooks \<open>OPENSSL_memory_alloc\<close> and so on are not installed.

  A C string argument is the list of its bytes, without the terminating NUL; the position
  just after the list reads as NUL.
\<close>

type_synonym allocator = "nat \<Rightarrow> byte list option"

definition malloc_sized :: "allocator \<Rightarrow> bool" where
  "malloc_sized malloc \<longleftrightarrow> (\<forall>n b. malloc n = Some b \<longrightarrow> length b = n)"

definition OPENSSL_MALLOC_PREFIX :: nat where
  "OPENSSL_MALLOC_PREFIX = 8"

definition OPENSSL_malloc :: "allocator \<Rightarrow> nat \<Rightarrow> byte list option" where
  "OPENSSL_malloc malloc sz =
     (if size_add sz OPENSSL_MALLOC_PREFIX < sz then None
      else map_option (drop OPENSSL_MALLOC_PREFIX) (malloc (sz + OPENSSL_MALLOC_PREFIX)))"

definition OPENSSL_realloc :: "allocator \<Rightarrow> byte list option \<Rightarrow> nat \<Rightarrow> byte list option" where
  "OPENSSL_realloc malloc orig_ptr new_size =
     (case orig_ptr of
        None \<Rightarrow> OPENSSL_malloc malloc new_size
      | Some old \<Rightarrow>
          (case OPENSSL_malloc malloc new_size of
             None \<Rightarrow> None
           | Some ret \<Rightarrow>
               (let old_size = length old;
                    to_copy = (if old_size < new_size then old_size else new_size)
                in Some (mem_store ret 0 (take to_copy old)))))"

definition OPENSSL_memdup :: "allocator \<Rightarrow> byte list \<Rightarrow> byte list option" where
  "OPENSSL_memdup malloc data =
     (if length data = 0 then None
      else case OPENSSL_malloc malloc (length data) of
             None \<Rightarrow> None
           | Some ret \<Rightarrow> Some (mem_store ret 0 data))"

primrec CRYPTO_memcmp_loop :: "byte \<Rightarrow> (byte \<times> byte) list \<Rightarrow> byte" where
  "CRYPTO_memcmp_loop x [] = x"
| "CRYPTO_memcmp_loop x (ab # rest) = CRYPTO_memcmp_loop (x OR (fst ab XOR snd ab)) rest"

definition CRYPTO_memcmp :: "byte list \<Rightarrow> byte list \<Rightarrow> nat \<Rightarrow> byte" where
  "CRYPTO_memcmp in_a in_b len = CRYPTO_memcmp_loop 0 (zip (take len in_a) (take len in_b))"

definition OPENSSL_hash32 :: "byte list \<Rightarrow> u32" where
  "OPENSSL_hash32 = foldl (\<lambda>h b. (h XOR ucast b) * 16777619) 2166136261"

definition OPENSSL_strhash :: "byte list \<Rightarrow> u32" where
  "OPENSSL_strhash s = OPENSSL_hash32 (takeWhile (\<lambda>b. b \<noteq> 0) s)"

fun OPENSSL_strnlen_loop :: "byte list \<Rightarrow> nat \<Rightarrow> nat \<Rightarrow> nat" where
  "OPENSSL_strnlen_loop s i 0 = i"
| "OPENSSL_strnlen_loop [] i (Suc len) = i"
| "OPENSSL_strnlen_loop (c # s) i (Suc len) =
     (if c = 0 then i else OPENSSL_strnlen_loop s (Suc i) len)"

definition OPENSSL_strnlen :: "byte list \<Rightarrow> nat \<Rightarrow> nat" where
  "OPENSSL_strnlen s len = OPENSSL_strnlen_loop s 0 len"

definition c_strlen :: "byte list \<Rightarrow> nat" where
  "c_strlen s = length (takeWhile (\<lambda>b. b \<noteq> 0) s)"

definition c_head :: "byte list \<Rightarrow> byte" where
  "c_head s = (case s of [] \<Rightarrow> 0 | c # _ \<Rightarrow> c)"

definition OPENSSL_strndup :: "allocator \<Rightarrow> byte list \<Rightarrow> nat \<Rightarrow> byte list option" where
  "OPENSSL_strndup malloc str max_len =
     (let sz = OPENSSL_strnlen str max_len; alloc_size = size_add sz 1
      in if alloc_size < sz then None
         else case OPENSSL_malloc malloc alloc_size of
                None \<Rightarrow> None
              | Some ret \<Rightarrow> Some ((mem_store ret 0 (take sz str)) [sz := 0]))"

definition OPENSSL_strdup :: "allocator \<Rightarrow> byte list option \<Rightarrow> byte list option" where
  "OPENSSL_strdup malloc s_opt =
     (case s_opt of
        None \<Rightarrow> None
      | Some s \<Rightarrow>
          (let len = c_strlen s + 1
           in case OPENSSL_malloc malloc len of
                None \<Rightarrow> None
              | Some ret \<Rightarrow> Some (mem_store ret 0 (take (c_strlen s) s @ [0]))))"

definition OPENSSL_tolower :: "int \<Rightarrow> int" where
  "OPENSSL_tolower c = (if c \<ge> 65 \<and> c \<le> 90 then c + (97 - 65) else c)"

text \<open>\<open>char\<close> is signed here: the comparison reads the bytes as two's complement.\<close>

function OPENSSL_strcasecmp :: "byte list \<Rightarrow> byte list \<Rightarrow> int" where
  "OPENSSL_strcasecmp a b =
     (let aa = OPENSSL_tolower (sint (c_head a)); bb = OPENSSL_tolower (sint (c_head b))
      in if aa < bb then -1
         else if aa > bb then 1
         else if aa = 0 then 0
         else OPENSSL_strcasecmp (tl a) (tl b))"
  by pat_completeness auto
termination
  by (relation "measure (\<lambda>(a, b). length a)")
     (auto simp: c_head_def OPENSSL_tolower_def split: list.splits)

fun OPENSSL_strncasecmp :: "byte list \<Rightarrow> byte list \<Rightarrow> nat \<Rightarrow> int" where
  "OPENSSL_strncasecmp a b 0 = 0"
| "OPENSSL_strncasecmp a b (Suc n) =
     (let aa = OPENSSL_tolower (sint (c_head a)); bb = OPENSSL_tolower (sint (c_head b))
      in if aa < bb then -1
         else if aa > bb then 1
         else if aa = 0 then 0
         else OPENSSL_strncasecmp (tl a) (tl b) n)"

text \<open>
  The copy loop of \<open>OPENSSL_strlcpy\<close>: the bytes written, the room left in \<open>dst\<close>, and what
  is left of \<open>src\<close>.
\<close>

fun strlcpy_loop :: "nat \<Rightarrow> byte list \<Rightarrow> byte list \<times> nat \<times> byte list" where
  "strlcpy_loop dst_size [] = ([], dst_size, [])"
| "strlcpy_loop dst_size (c # src) =
     (if dst_size > 1 \<and> c \<noteq> 0
      then let (w, d, s) = strlcpy_loop (dst_size - 1) src in (c # w, d, s)
      else ([], dst_size, c # src))"

definition OPENSSL_strlcpy :: "byte list \<Rightarrow> byte list \<Rightarrow> nat \<Rightarrow> nat \<times> byte list" where
  "OPENSSL_strlcpy dst src dst_size =
     (let (w, d, s) = strlcpy_loop dst_size src;
          l = length w
      in (l + c_strlen s, mem_store dst 0 (w @ (if d \<noteq> 0 then [0] else []))))"

text \<open>\<open>OPENSSL_strlcat\<close> skips the string already in \<open>dst\<close> and copies behind it.\<close>

fun strlcat_skip :: "nat \<Rightarrow> byte list \<Rightarrow> nat" where
  "strlcat_skip dst_size [] = 0"
| "strlcat_skip dst_size (c # dst) =
     (if dst_size > 0 \<and> c \<noteq> 0 then Suc (strlcat_skip (dst_size - 1) dst) else 0)"

definition OPENSSL_strlcat :: "byte list \<Rightarrow> byte list \<Rightarrow> nat \<Rightarrow> nat \<times> byte list" where
  "OPENSSL_strlcat dst src dst_size =
     (let l = strlcat_skip dst_size dst;
          (r, d) = OPENSSL_strlcpy (drop l dst) src (dst_size - l)
      in (l + r, take l dst @ d))"

subsection \<open>Constant-time masks (crypto/internal.h)\<close>

definition constant_time_msb_w :: "u64 \<Rightarrow> u64" where
  "constant_time_msb_w a = 0 - drop_bit 63 a"

definition constant_time_lt_w :: "u64 \<Rightarrow> u64 \<Rightarrow> u64" where
  "constant_time_lt_w a b = constant_time_msb_w (a XOR ((a XOR b) OR ((a - b) XOR a)))"

definition constant_time_ge_w :: "u64 \<Rightarrow> u64 \<Rightarrow> u64" where
  "constant_time_ge_w a b = NOT (constant_time_lt_w a b)"

definition constant_time_is_zero_w :: "u64 \<Rightarrow> u64" where
  "constant_time_is_zero_w a = constant_time_msb_w (NOT a AND (a - 1))"

definition constant_time_eq_w :: "u64 \<Rightarrow> u64 \<Rightarrow> u64" where
  "constant_time_eq_w a b = constant_time_is_zero_w (a XOR b)"

definition constant_time_eq_8 :: "u64 \<Rightarrow> u64 \<Rightarrow> byte" where
  "constant_time_eq_8 a b = ucast (constant_time_eq_w a b)"

definition constant_time_select_w :: "u64 \<Rightarrow> u64 \<Rightarrow> u64 \<Rightarrow> u64" where
  "constant_time_select_w msk a b = (msk AND a) OR (NOT msk AND b)"

definition constant_time_select_8 :: "byte \<Rightarrow> byte \<Rightarrow> byte \<Rightarrow> byte" where
  "constant_time_select_8 msk a b =
     ucast (constant_time_select_w (ucast msk) (ucast a) (ucast b))"

subsection \<open>Allocation\<close>

definition zero_malloc :: allocator where
  "zero_malloc n = Some (replicate n 0)"

lemma malloc_sizedD: "malloc_sized malloc \<Longrightarrow> malloc n = Some b \<Longrightarrow> length b = n"
  by (simp add: malloc_sized_def)

lemma OPENSSL_malloc_length:
  "malloc_sized malloc \<Longrightarrow> OPENSSL_malloc malloc n = Some b \<Longrightarrow> length b = n"
  by (auto simp: OPENSSL_malloc_def OPENSSL_MALLOC_PREFIX_def split: if_splits dest: malloc_sizedD)

lemma OPENSSL_malloc_total:
  "\<forall>n. malloc n \<noteq> None \<Longrightarrow> n < 2 ^ 64 - 8 \<Longrightarrow> OPENSSL_malloc malloc n \<noteq> None"
  by (simp add: OPENSSL_malloc_def OPENSSL_MALLOC_PREFIX_def)

lemma OPENSSL_realloc_Some:
  assumes "malloc_sized malloc" and "OPENSSL_realloc malloc (Some old) n = Some b"
  shows "length b = n" and "take (min (length old) n) b = take (min (length old) n) old"
proof -
  from assms(2) obtain ret where ret: "OPENSSL_malloc malloc n = Some ret"
    and b: "b = mem_store ret 0 (take (min (length old) n) old)"
    by (auto simp: OPENSSL_realloc_def Let_def min_def split: option.splits if_splits)
  have "length ret = n"
    by (rule OPENSSL_malloc_length [OF assms(1) ret])
  then show "length b = n"
    by (simp add: b)
  show "take (min (length old) n) b = take (min (length old) n) old"
    by (simp add: b mem_store_def)
qed

lemma OPENSSL_memdup_copy:
  assumes "malloc_sized malloc" and "OPENSSL_memdup malloc data = Some b"
  shows "b = data"
  using assms by (auto simp: OPENSSL_memdup_def mem_store_def split: if_splits option.splits
      dest: OPENSSL_malloc_length)

subsection \<open>Comparison and strings\<close>

lemma CRYPTO_memcmp_loop_zero:
  "CRYPTO_memcmp_loop x ps = 0 \<longleftrightarrow> x = 0 \<and> (\<forall>p \<in> set ps. fst p = snd p)"
  by (induction ps arbitrary: x) (auto simp: or_eq_0_iff word_xor_eq_0_iff)

lemma zip_all_eq:
  "length xs = length ys \<Longrightarrow> (\<forall>p \<in> set (zip xs ys). fst p = snd p) \<longleftrightarrow> xs = ys"
  by (induction xs ys rule: list_induct2) auto

lemma strlcpy_loop_eq:
  "0 < d \<Longrightarrow> strlcpy_loop d s =
     (take (d - 1) (takeWhile (\<lambda>b. b \<noteq> 0) s),
      d - length (take (d - 1) (takeWhile (\<lambda>b. b \<noteq> 0) s)),
      drop (length (take (d - 1) (takeWhile (\<lambda>b. b \<noteq> 0) s))) s)"
proof (induction d s rule: strlcpy_loop.induct)
  case (1 d)
  then show ?case by simp
next
  case (2 d c s)
  show ?case
  proof (cases "d > 1 \<and> c \<noteq> 0")
    case True
    then obtain d' where d: "d = Suc (Suc d')"
      using less_imp_Suc_add [of 1 d] by auto
    have "strlcpy_loop (Suc d') s =
        (take d' (takeWhile (\<lambda>b. b \<noteq> 0) s),
         Suc d' - length (take d' (takeWhile (\<lambda>b. b \<noteq> 0) s)),
         drop (length (take d' (takeWhile (\<lambda>b. b \<noteq> 0) s))) s)"
      using "2.IH" [OF True] d by simp
    with True d show ?thesis by (simp del: length_take)
  next
    case False
    with "2.prems" show ?thesis by auto
  qed
qed

lemma takeWhile_take_drop:
  "n \<le> length (takeWhile P xs) \<Longrightarrow>
     n + length (takeWhile P (drop n xs)) = length (takeWhile P xs)"
proof (induction xs arbitrary: n)
  case Nil
  then show ?case by simp
next
  case (Cons x xs)
  then show ?case by (cases n) (auto split: if_splits)
qed

subsection \<open>Constant-time masks\<close>

lemma bit63_iff: "bit (a :: u64) 63 \<longleftrightarrow> 2 ^ 63 \<le> unat a"
proof -
  have "unat a div 2 ^ 63 < 2"
    using u64_bound [of a] by (simp add: less_mult_imp_div_less)
  then have "odd (unat a div 2 ^ 63) \<longleftrightarrow> 2 ^ 63 \<le> unat a"
    by (auto simp: odd_iff_mod_2_eq_one less_2_cases_iff)
  moreover have "bit a 63 \<longleftrightarrow> bit (unat a) 63"
    by (simp add: bit_unsigned_iff)
  ultimately show ?thesis
    by (simp add: bit_iff_odd)
qed

lemma drop_bit_63: "drop_bit 63 (a :: u64) = of_bool (bit a 63)"
proof (rule bit_word_eqI)
  fix n
  have "bit a (63 + n) \<Longrightarrow> n = 0"
    using bit_imp_le_length [of a "63 + n"] by auto
  then show "bit (drop_bit 63 a) n \<longleftrightarrow> bit (of_bool (bit a 63) :: u64) n"
    by (auto simp: bit_simps)
qed

lemma constant_time_msb_w_eq: "constant_time_msb_w a = (if bit a 63 then - 1 else 0)"
  by (simp add: constant_time_msb_w_def drop_bit_63)

lemma bit63_diff:
  assumes "bit a 63 = bit b 63"
  shows "bit (a - b :: u64) 63 \<longleftrightarrow> a < b"
proof (cases "a < b")
  case True
  then have "unat (a - b) = 2 ^ 64 + unat a - unat b"
    by (simp add: unat_sub_if' word_less_nat_alt)
  with True assms show ?thesis
    using u64_bound [of a] u64_bound [of b]
    by (auto simp: bit63_iff word_less_nat_alt)
next
  case False
  then have "unat (a - b) = unat a - unat b"
    by (simp add: unat_sub_if' word_less_nat_alt)
  with False assms show ?thesis
    using u64_bound [of a] u64_bound [of b]
    by (auto simp: bit63_iff word_less_nat_alt)
qed

lemma constant_time_lt_w_eq: "constant_time_lt_w a b = (if a < b then - 1 else 0)"
proof (cases "bit a 63 = bit b 63")
  case True
  with bit63_diff [OF True] show ?thesis
    by (auto simp: constant_time_lt_w_def constant_time_msb_w_eq bit_simps)
next
  case False
  then have "a < b \<longleftrightarrow> bit b 63"
    by (auto simp: bit63_iff word_less_nat_alt)
  with False show ?thesis
    by (auto simp: constant_time_lt_w_def constant_time_msb_w_eq bit_simps)
qed

lemma constant_time_is_zero_w_eq: "constant_time_is_zero_w a = (if a = 0 then - 1 else 0)"
proof (cases "a = 0")
  case True
  then show ?thesis
    by (simp add: constant_time_is_zero_w_def constant_time_msb_w_eq)
next
  case False
  then have "unat (a - 1) = unat a - 1"
    by (simp add: unat_minus_one)
  then have "bit (a - 1) 63 \<Longrightarrow> bit a 63"
    by (simp add: bit63_iff)
  with False show ?thesis
    by (auto simp: constant_time_is_zero_w_def constant_time_msb_w_eq bit_simps)
qed

lemma ucast_minus_one_byte: "(ucast (- 1 :: u64) :: byte) = 255"
  by code_simp

lemma constant_time_eq_8_eq: "constant_time_eq_8 a b = (if a = b then 255 else 0)"
  by (simp add: constant_time_eq_8_def constant_time_eq_w_def constant_time_is_zero_w_eq
      word_xor_eq_0_iff ucast_minus_one_byte)

lemma constant_time_select_8_eq:
  "constant_time_select_8 255 a b = a" "constant_time_select_8 0 a b = b"
proof -
  have "(255 :: byte) = - 1" by simp
  then show "constant_time_select_8 255 a b = a"
    unfolding constant_time_select_8_def constant_time_select_w_def
    by (simp only:) (rule bit_word_eqI, auto simp: bit_simps)
  show "constant_time_select_8 0 a b = b"
    unfolding constant_time_select_8_def constant_time_select_w_def
    by simp (rule bit_word_eqI, auto simp: bit_simps)
qed

lemma zero_malloc_ok [simp]: "malloc_sized zero_malloc" "zero_malloc n \<noteq> None"
  by (auto simp: malloc_sized_def zero_malloc_def)

text \<open>\<open>CRYPTO_memcmp\<close> returns 0 exactly when the two blocks agree on their first \<open>len\<close> bytes.\<close>

theorem CRYPTO_memcmp_zero_iff:
  assumes "len \<le> length a" and "len \<le> length b"
  shows "CRYPTO_memcmp a b len = 0 \<longleftrightarrow> take len a = take len b"
  using assms zip_all_eq [of "take len a" "take len b"]
  by (simp add: CRYPTO_memcmp_def CRYPTO_memcmp_loop_zero)

theorem CRYPTO_memcmp_zero_iff_witness: "CRYPTO_memcmp [1, 2, 3] [1, 2, 4] 2 = 0"
  using CRYPTO_memcmp_zero_iff [of 2 "[1, 2, 3]" "[1, 2, 4]"] by simp

text \<open>\<open>OPENSSL_strlcpy\<close> copies as much of the string as fits, always terminates it, touches
  nothing behind the terminator, and returns the length of the source so that truncation can
  be detected.\<close>

theorem OPENSSL_strlcpy_correct:
  assumes "0 < dst_size" and "dst_size \<le> length dst"
  shows "OPENSSL_strlcpy dst src dst_size =
     (c_strlen src, mem_store dst 0 (take (dst_size - 1) (take (c_strlen src) src) @ [0]))"
proof -
  let ?s = "takeWhile (\<lambda>b. b \<noteq> 0) src"
  let ?n = "length (take (dst_size - 1) ?s)"
  have "?n + c_strlen (drop ?n src) = c_strlen src"
    unfolding c_strlen_def by (rule takeWhile_take_drop) simp
  moreover have "take (c_strlen src) src = ?s"
    by (simp add: c_strlen_def takeWhile_eq_take [symmetric])
  moreover have "?n < dst_size"
    using assms(1) by (auto simp: min_def)
  ultimately show ?thesis
    using assms by (simp add: OPENSSL_strlcpy_def strlcpy_loop_eq Let_def)
qed

theorem OPENSSL_strlcpy_correct_witness:
  "OPENSSL_strlcpy [9, 9, 9, 9] [1, 2, 3, 4, 5] 3 = (5, [1, 2, 0, 9])"
  using OPENSSL_strlcpy_correct [of 3 "[9, 9, 9, 9]" "[1, 2, 3, 4, 5]"]
  by (simp add: c_strlen_def mem_store_def)

text \<open>C8. The branch-free masks are all ones when the comparison holds and zero otherwise, and
  selecting with such a mask is the conditional expression.\<close>

theorem constant_time_masks_correct:
  "constant_time_lt_w a b = (if a < b then - 1 else 0) \<and>
   constant_time_ge_w a b = (if a \<ge> b then - 1 else 0) \<and>
   constant_time_eq_w a b = (if a = b then - 1 else 0) \<and>
   constant_time_select_w (constant_time_lt_w a b) x y = (if a < b then x else y) \<and>
   constant_time_select_8 (constant_time_eq_8 a b) c d = (if a = b then c else d)"
  by (auto simp: constant_time_lt_w_eq constant_time_ge_w_def constant_time_eq_w_def constant_time_is_zero_w_eq
      word_xor_eq_0_iff constant_time_select_w_def constant_time_eq_8_eq constant_time_select_8_eq)

end
