(* ===== verification/Cbs.thy ===== *)
theory Cbs
  imports Mem
begin

text \<open>
  crypto/bytestring/cbs.c: the reader of byte strings. A \<open>CBS\<close> is a pointer and a length into
  memory that the reader never writes, so it is the list of the bytes it spans: advancing the
  pointer drops bytes from the front, \<open>CBS_len\<close> is the length of the list. Every reading
  operation is of the form \<open>cbs \<Rightarrow> 'a option \<times> cbs\<close> (theory \<open>Prelude\<close>): the out-parameter,
  if the call succeeds, and the \<open>CBS\<close> after the call. \<open>unsigned\<close> tags are 32-bit words and
  the accumulators 64-bit words, as in the code.
\<close>

type_synonym cbs = "byte list"

subsection \<open>Byte swaps (crypto/internal.h)\<close>

definition CRYPTO_bswap2 :: "u16 \<Rightarrow> u16" where
  "CRYPTO_bswap2 x = drop_bit 8 x OR push_bit 8 x"

definition CRYPTO_bswap4 :: "u32 \<Rightarrow> u32" where
  "CRYPTO_bswap4 x0 =
     (let x = drop_bit 16 x0 OR push_bit 16 x0
      in drop_bit 8 (x AND 0xff00ff00) OR push_bit 8 (x AND 0x00ff00ff))"

definition CRYPTO_bswap8 :: "u64 \<Rightarrow> u64" where
  "CRYPTO_bswap8 x =
     ucast (CRYPTO_bswap4 (ucast (drop_bit 32 x))) OR
     push_bit 32 (ucast (CRYPTO_bswap4 (ucast x)))"

subsection \<open>Construction and plain reads\<close>

definition CBS_init :: "byte list \<Rightarrow> nat \<Rightarrow> cbs" where
  "CBS_init data len = take len data"

definition CBS_len :: "cbs \<Rightarrow> nat" where
  "CBS_len cbs = length cbs"

definition cbs_get :: "nat \<Rightarrow> (cbs, byte list) stm" where
  "cbs_get n cbs = (if CBS_len cbs < n then (None, cbs) else (Some (take n cbs), drop n cbs))"

definition CBS_skip :: "nat \<Rightarrow> (cbs, unit) stm" where
  "CBS_skip len = st_bind (cbs_get len) (\<lambda>_. st_return ())"

definition CBS_stow :: "allocator \<Rightarrow> cbs \<Rightarrow> bool \<times> byte list option" where
  "CBS_stow malloc cbs =
     (if CBS_len cbs = 0 then (True, None)
      else case OPENSSL_memdup malloc cbs of
             None \<Rightarrow> (False, None)
           | Some p \<Rightarrow> (True, Some p))"

definition CBS_strdup :: "allocator \<Rightarrow> cbs \<Rightarrow> byte list option" where
  "CBS_strdup malloc cbs = OPENSSL_strndup malloc cbs (CBS_len cbs)"

primrec OPENSSL_memchr :: "byte list \<Rightarrow> byte \<Rightarrow> nat option" where
  "OPENSSL_memchr [] c = None"
| "OPENSSL_memchr (b # bs) c = (if b = c then Some 0 else map_option Suc (OPENSSL_memchr bs c))"

definition CBS_contains_zero_byte :: "cbs \<Rightarrow> bool" where
  "CBS_contains_zero_byte cbs \<longleftrightarrow> OPENSSL_memchr cbs 0 \<noteq> None"

definition CBS_mem_equal :: "cbs \<Rightarrow> byte list \<Rightarrow> nat \<Rightarrow> bool" where
  "CBS_mem_equal cbs data len =
     (if len \<noteq> CBS_len cbs then False else CRYPTO_memcmp cbs data len = 0)"

primrec cbs_get_u_loop :: "u64 \<Rightarrow> byte list \<Rightarrow> u64" where
  "cbs_get_u_loop result [] = result"
| "cbs_get_u_loop result (b # data) = cbs_get_u_loop (push_bit 8 result OR ucast b) data"

definition cbs_get_u :: "nat \<Rightarrow> (cbs, u64) stm" where
  "cbs_get_u len = st_bind (cbs_get len) (\<lambda>data. st_return (cbs_get_u_loop 0 data))"

definition CBS_get_u8 :: "(cbs, byte) stm" where
  "CBS_get_u8 = st_bind (cbs_get 1) (\<lambda>v. st_return (hd v))"

definition CBS_get_u16 :: "(cbs, u16) stm" where
  "CBS_get_u16 = st_bind (cbs_get_u 2) (\<lambda>v. st_return (ucast v))"

definition CBS_get_u16le :: "(cbs, u16) stm" where
  "CBS_get_u16le = st_bind CBS_get_u16 (\<lambda>v. st_return (CRYPTO_bswap2 v))"

definition CBS_get_u24 :: "(cbs, u32) stm" where
  "CBS_get_u24 = st_bind (cbs_get_u 3) (\<lambda>v. st_return (ucast v))"

definition CBS_get_u32 :: "(cbs, u32) stm" where
  "CBS_get_u32 = st_bind (cbs_get_u 4) (\<lambda>v. st_return (ucast v))"

definition CBS_get_u32le :: "(cbs, u32) stm" where
  "CBS_get_u32le = st_bind CBS_get_u32 (\<lambda>v. st_return (CRYPTO_bswap4 v))"

definition CBS_get_u64 :: "(cbs, u64) stm" where
  "CBS_get_u64 = cbs_get_u 8"

definition CBS_get_u64le :: "(cbs, u64) stm" where
  "CBS_get_u64le = st_bind (cbs_get_u 8) (\<lambda>v. st_return (CRYPTO_bswap8 v))"

definition CBS_get_last_u8 :: "(cbs, byte) stm" where
  "CBS_get_last_u8 cbs =
     (if CBS_len cbs = 0 then (None, cbs)
      else (Some (cbs ! (CBS_len cbs - 1)), take (CBS_len cbs - 1) cbs))"

definition CBS_get_bytes :: "nat \<Rightarrow> (cbs, cbs) stm" where
  "CBS_get_bytes len = st_bind (cbs_get len) (\<lambda>v. st_return (CBS_init v len))"

definition CBS_copy_bytes :: "nat \<Rightarrow> (cbs, byte list) stm" where
  "CBS_copy_bytes len = st_bind (cbs_get len) (\<lambda>v. st_return v)"

definition cbs_get_length_prefixed :: "nat \<Rightarrow> (cbs, cbs) stm" where
  "cbs_get_length_prefixed len_len = st_bind (cbs_get_u len_len) (\<lambda>len. CBS_get_bytes (unat len))"

definition CBS_get_u8_length_prefixed :: "(cbs, cbs) stm" where
  "CBS_get_u8_length_prefixed = cbs_get_length_prefixed 1"

definition CBS_get_u16_length_prefixed :: "(cbs, cbs) stm" where
  "CBS_get_u16_length_prefixed = cbs_get_length_prefixed 2"

definition CBS_get_u24_length_prefixed :: "(cbs, cbs) stm" where
  "CBS_get_u24_length_prefixed = cbs_get_length_prefixed 3"

definition CBS_get_until_first :: "byte \<Rightarrow> (cbs, cbs) stm" where
  "CBS_get_until_first c cbs =
     (case OPENSSL_memchr cbs c of
        None \<Rightarrow> (None, cbs)
      | Some split \<Rightarrow> CBS_get_bytes split cbs)"

subsection \<open>Facts on single reads, needed for the termination of the parsing loops\<close>

lemma cbs_get_apply:
  "cbs_get n cbs = (if length cbs < n then (None, cbs) else (Some (take n cbs), drop n cbs))"
  by (simp add: cbs_get_def CBS_len_def)

lemma CBS_get_u8_Nil [simp]: "CBS_get_u8 [] = (None, [])"
  by (simp add: CBS_get_u8_def st_bind_def cbs_get_apply)

lemma CBS_get_u8_Cons [simp]: "CBS_get_u8 (b # cbs) = (Some b, cbs)"
  by (simp add: CBS_get_u8_def st_bind_def cbs_get_apply)

lemma CBS_get_u8_Some: "CBS_get_u8 cbs = (Some b, cbs') \<longleftrightarrow> cbs = b # cbs'"
  by (cases cbs) auto

lemma CBS_get_u8_Some_sym: "(Some b, cbs') = CBS_get_u8 cbs \<longleftrightarrow> cbs = b # cbs'"
  by (metis CBS_get_u8_Some)

lemma CBS_get_u8_None: "CBS_get_u8 cbs = (None, cbs') \<longleftrightarrow> cbs = [] \<and> cbs' = []"
  by (cases cbs) auto

subsection \<open>ASN.1 elements\<close>

definition CBS_ASN1_TAG_SHIFT :: nat where
  "CBS_ASN1_TAG_SHIFT = 24"

definition CBS_ASN1_CONSTRUCTED :: u32 where
  "CBS_ASN1_CONSTRUCTED = push_bit CBS_ASN1_TAG_SHIFT 0x20"

definition CBS_ASN1_TAG_NUMBER_MASK :: u32 where
  "CBS_ASN1_TAG_NUMBER_MASK = push_bit (5 + CBS_ASN1_TAG_SHIFT) 1 - 1"

definition CBS_ASN1_BOOLEAN :: u32 where
  "CBS_ASN1_BOOLEAN = 0x1"

definition CBS_ASN1_INTEGER :: u32 where
  "CBS_ASN1_INTEGER = 0x2"

definition CBS_ASN1_OCTETSTRING :: u32 where
  "CBS_ASN1_OCTETSTRING = 0x4"

text \<open>The do-while loop of \<open>parse_base128_integer\<close>, its accumulator \<open>v\<close> as an argument.\<close>

function parse_base128_loop :: "u64 \<Rightarrow> (cbs, u64) stm" where
  "parse_base128_loop v cbs =
     (case CBS_get_u8 cbs of
        (None, cbs') \<Rightarrow> (None, cbs')
      | (Some b, cbs') \<Rightarrow>
          if drop_bit (64 - 7) v \<noteq> 0 then (None, cbs')
          else if v = 0 \<and> b = 0x80 then (None, cbs')
          else let v' = push_bit 7 v OR ucast (b AND 0x7f)
               in if b AND 0x80 \<noteq> 0 then parse_base128_loop v' cbs' else (Some v', cbs'))"
  by pat_completeness auto
termination
  by (relation "measure (\<lambda>(v, cbs). length cbs)") (auto simp: CBS_get_u8_Some_sym)

definition parse_base128_integer :: "(cbs, u64) stm" where
  "parse_base128_integer = parse_base128_loop 0"

definition parse_asn1_tag :: "(cbs, u32) stm" where
  "parse_asn1_tag =
     st_bind CBS_get_u8 (\<lambda>tag_byte.
       let tag = push_bit CBS_ASN1_TAG_SHIFT (ucast tag_byte AND 0xe0);
           tag_number = ucast (tag_byte AND 0x1f)
       in if tag_number = 0x1f
          then st_bind parse_base128_integer (\<lambda>v.
                 if v > ucast CBS_ASN1_TAG_NUMBER_MASK \<or> v < 0x1f then st_fail
                 else st_return (tag OR ucast v))
          else st_return (tag OR tag_number))"

record asn1_element =
  el_out :: cbs
  el_tag :: u32
  el_header_len :: nat
  el_ber_found :: bool

text \<open>
  \<open>cbs_get_any_asn1_element\<close> parses the header from a copy of \<open>cbs\<close> and only advances
  \<open>cbs\<close> in the final \<open>CBS_get_bytes\<close>: on every failing path \<open>cbs\<close> is unchanged. The out
  parameters are the fields of \<open>asn1_element\<close>; \<open>el_out\<close> includes the header.
\<close>

definition cbs_get_any_asn1_element :: "bool \<Rightarrow> (cbs, asn1_element) stm" where
  "cbs_get_any_asn1_element ber_ok cbs =
     (case parse_asn1_tag cbs of
        (None, _) \<Rightarrow> (None, cbs)
      | (Some tag, header1) \<Rightarrow>
     (case CBS_get_u8 header1 of
        (None, _) \<Rightarrow> (None, cbs)
      | (Some length_byte, header2) \<Rightarrow>
          let header_len = CBS_len cbs - CBS_len header2 in
          if length_byte AND 0x80 = 0 then
            st_bind (CBS_get_bytes (unat length_byte + header_len)) (\<lambda>out.
              st_return \<lparr>el_out = out, el_tag = tag, el_header_len = header_len,
                         el_ber_found = False\<rparr>) cbs
          else
            let num_bytes = unat (length_byte AND 0x7f) in
            if ber_ok \<and> tag AND CBS_ASN1_CONSTRUCTED \<noteq> 0 \<and> num_bytes = 0 then
              st_bind (CBS_get_bytes header_len) (\<lambda>out.
                st_return \<lparr>el_out = out, el_tag = tag, el_header_len = header_len,
                           el_ber_found = True\<rparr>) cbs
            else if num_bytes = 0 \<or> num_bytes > 4 then (None, cbs)
            else
              (case cbs_get_u num_bytes header2 of
                 (None, _) \<Rightarrow> (None, cbs)
               | (Some len64, _) \<Rightarrow>
                   let short = len64 < 128;
                       long = drop_bit ((num_bytes - 1) * 8) len64 = 0;
                       total = len64 + of_nat header_len + of_nat num_bytes
                   in if (short \<or> long) \<and> \<not> ber_ok then (None, cbs)
                      else if total < len64 then (None, cbs)
                      else st_bind (CBS_get_bytes (unat total)) (\<lambda>out.
                             st_return \<lparr>el_out = out, el_tag = tag,
                                        el_header_len = header_len + num_bytes,
                                        el_ber_found = short \<or> long\<rparr>) cbs)))"

definition CBS_get_any_asn1_element :: "(cbs, cbs \<times> u32 \<times> nat) stm" where
  "CBS_get_any_asn1_element =
     st_bind (cbs_get_any_asn1_element False) (\<lambda>e.
       st_return (el_out e, el_tag e, el_header_len e))"

definition CBS_get_any_asn1 :: "(cbs, cbs \<times> u32) stm" where
  "CBS_get_any_asn1 =
     st_bind CBS_get_any_asn1_element (\<lambda>(out, tag, header_len).
       case CBS_skip header_len out of
         (None, _) \<Rightarrow> st_fail
       | (Some _, out') \<Rightarrow> st_return (out', tag))"

definition CBS_get_any_ber_asn1_element :: "(cbs, asn1_element) stm" where
  "CBS_get_any_ber_asn1_element = cbs_get_any_asn1_element True"

definition cbs_get_asn1 :: "u32 \<Rightarrow> bool \<Rightarrow> (cbs, cbs) stm" where
  "cbs_get_asn1 tag_value skip_header =
     st_bind CBS_get_any_asn1_element (\<lambda>(out, tag, header_len).
       if tag \<noteq> tag_value then st_fail
       else if skip_header
       then (case CBS_skip header_len out of
               (None, _) \<Rightarrow> st_fail
             | (Some _, out') \<Rightarrow> st_return out')
       else st_return out)"

definition CBS_get_asn1 :: "u32 \<Rightarrow> (cbs, cbs) stm" where
  "CBS_get_asn1 tag_value = cbs_get_asn1 tag_value True"

definition CBS_get_asn1_element :: "u32 \<Rightarrow> (cbs, cbs) stm" where
  "CBS_get_asn1_element tag_value = cbs_get_asn1 tag_value False"

definition CBS_peek_asn1_tag :: "cbs \<Rightarrow> u32 \<Rightarrow> bool" where
  "CBS_peek_asn1_tag cbs tag_value =
     (if CBS_len cbs < 1 then False
      else case fst (parse_asn1_tag cbs) of
             None \<Rightarrow> False
           | Some actual_tag \<Rightarrow> tag_value = actual_tag)"

subsection \<open>ASN.1 values\<close>

text \<open>Returns whether the integer is valid and, if it is non-empty, its sign.\<close>

definition CBS_is_valid_asn1_integer :: "cbs \<Rightarrow> bool \<times> bool" where
  "CBS_is_valid_asn1_integer cbs =
     (case CBS_get_u8 cbs of
        (None, _) \<Rightarrow> (False, False)
      | (Some first_byte, copy) \<Rightarrow>
          let is_negative = (first_byte AND 0x80 \<noteq> 0) in
          (case CBS_get_u8 copy of
             (None, _) \<Rightarrow> (True, is_negative)
           | (Some second_byte, _) \<Rightarrow>
               if (first_byte = 0x00 \<and> second_byte AND 0x80 = 0) \<or>
                  (first_byte = 0xff \<and> second_byte AND 0x80 \<noteq> 0)
               then (False, is_negative) else (True, is_negative)))"

definition CBS_is_unsigned_asn1_integer :: "cbs \<Rightarrow> bool" where
  "CBS_is_unsigned_asn1_integer cbs =
     (case CBS_is_valid_asn1_integer cbs of (valid, is_negative) \<Rightarrow> valid \<and> \<not> is_negative)"

primrec asn1_uint64_loop :: "u64 \<Rightarrow> byte list \<Rightarrow> u64 option" where
  "asn1_uint64_loop out [] = Some out"
| "asn1_uint64_loop out (b # data) =
     (if drop_bit 56 out \<noteq> 0 then None
      else asn1_uint64_loop (push_bit 8 out OR ucast b) data)"

definition CBS_get_asn1_uint64 :: "(cbs, u64) stm" where
  "CBS_get_asn1_uint64 =
     st_bind (CBS_get_asn1 CBS_ASN1_INTEGER) (\<lambda>bytes.
       if \<not> CBS_is_unsigned_asn1_integer bytes then st_fail
       else (case asn1_uint64_loop 0 bytes of None \<Rightarrow> st_fail | Some out \<Rightarrow> st_return out))"

text \<open>
  The union of \<open>int64_t\<close> and its eight bytes, on a little-endian machine: the value is the
  64-bit word whose bytes, least significant first, are \<open>u\<close>.
\<close>

primrec le_word64 :: "byte list \<Rightarrow> u64" where
  "le_word64 [] = 0"
| "le_word64 (b # bs) = ucast b OR push_bit 8 (le_word64 bs)"

definition CBS_get_asn1_int64 :: "(cbs, u64) stm" where
  "CBS_get_asn1_int64 =
     st_bind (CBS_get_asn1 CBS_ASN1_INTEGER) (\<lambda>bytes.
       case CBS_is_valid_asn1_integer bytes of (valid, is_negative) \<Rightarrow>
         if \<not> valid then st_fail
         else
           let data = bytes; len = CBS_len bytes in
           if len > 8 then st_fail
           else
             let u = foldl (\<lambda>u i. u [i := data ! (len - i - 1)])
                           (replicate 8 (if is_negative then 0xff else 0)) [0..<len]
             in st_return (le_word64 u))"

definition CBS_get_asn1_bool :: "(cbs, bool) stm" where
  "CBS_get_asn1_bool =
     st_bind (CBS_get_asn1 CBS_ASN1_BOOLEAN) (\<lambda>bytes.
       if CBS_len bytes \<noteq> 1 then st_fail
       else let v = hd bytes
            in if v \<noteq> 0 \<and> v \<noteq> 0xff then st_fail else st_return (v \<noteq> 0))"

definition CBS_get_optional_asn1 :: "u32 \<Rightarrow> (cbs, cbs option) stm" where
  "CBS_get_optional_asn1 tag cbs =
     (if CBS_peek_asn1_tag cbs tag
      then st_bind (CBS_get_asn1 tag) (\<lambda>out. st_return (Some out)) cbs
      else (Some None, cbs))"

text \<open>The out-parameters \<open>out\<close> and \<open>out_present\<close> of the optional octet string.\<close>

definition CBS_get_optional_asn1_octet_string :: "u32 \<Rightarrow> (cbs, cbs \<times> bool) stm" where
  "CBS_get_optional_asn1_octet_string tag =
     st_bind (CBS_get_optional_asn1 tag) (\<lambda>c.
       case c of
         Some child \<Rightarrow>
           (case CBS_get_asn1 CBS_ASN1_OCTETSTRING child of
              (None, _) \<Rightarrow> st_fail
            | (Some out, child') \<Rightarrow>
                if CBS_len child' \<noteq> 0 then st_fail else st_return (out, True))
       | None \<Rightarrow> st_return (CBS_init [] 0, False))"

definition CBS_get_optional_asn1_uint64 :: "u32 \<Rightarrow> u64 \<Rightarrow> (cbs, u64) stm" where
  "CBS_get_optional_asn1_uint64 tag default_value =
     st_bind (CBS_get_optional_asn1 tag) (\<lambda>c.
       case c of
         Some child \<Rightarrow>
           (case CBS_get_asn1_uint64 child of
              (None, _) \<Rightarrow> st_fail
            | (Some out, child') \<Rightarrow>
                if CBS_len child' \<noteq> 0 then st_fail else st_return out)
       | None \<Rightarrow> st_return default_value)"

definition CBS_get_optional_asn1_bool :: "u32 \<Rightarrow> bool \<Rightarrow> (cbs, bool) stm" where
  "CBS_get_optional_asn1_bool tag default_value =
     st_bind (CBS_get_optional_asn1 tag) (\<lambda>c.
       case c of
         Some child \<Rightarrow>
           (case CBS_get_asn1 CBS_ASN1_BOOLEAN child of
              (None, _) \<Rightarrow> st_fail
            | (Some child2, child') \<Rightarrow>
                if CBS_len child2 \<noteq> 1 \<or> CBS_len child' \<noteq> 0 then st_fail
                else let boolean = hd child2
                     in if boolean = 0 then st_return False
                        else if boolean = 0xff then st_return True
                        else st_fail)
       | None \<Rightarrow> st_return default_value)"

definition CBS_is_valid_asn1_bitstring :: "cbs \<Rightarrow> bool" where
  "CBS_is_valid_asn1_bitstring cbs =
     (case CBS_get_u8 cbs of
        (None, _) \<Rightarrow> False
      | (Some num_unused_bits, inp) \<Rightarrow>
          if num_unused_bits > 7 then False
          else if num_unused_bits = 0 then True
          else (case CBS_get_last_u8 inp of
                  (None, _) \<Rightarrow> False
                | (Some l, _) \<Rightarrow> l AND (push_bit (unat num_unused_bits) 1 - 1) = 0))"

definition CBS_asn1_bitstring_has_bit :: "cbs \<Rightarrow> u32 \<Rightarrow> bool" where
  "CBS_asn1_bitstring_has_bit cbs i =
     (if \<not> CBS_is_valid_asn1_bitstring cbs then False
      else let byte_num = unat (drop_bit 3 i + 1);
               bit_num = 7 - unat (i AND 7)
           in byte_num < CBS_len cbs \<and> (cbs ! byte_num) AND push_bit bit_num 1 \<noteq> 0)"

end
