(* ===== verification/Cbb.thy ===== *)
theory Cbb
  imports Cbs
begin

text \<open>
  crypto/bytestring/cbb.c: the writer of byte strings. All \<open>CBB\<close>s of one output share the
  buffer \<open>cbb_buffer_st\<close>; a \<open>CBB\<close> whose length prefix is not yet written has a child, which may
  have a child again. The \<open>CBB\<close>s reachable from the root are thus a chain, and the state of a
  writer is the shared buffer together with that chain (\<open>cbb_writer\<close>): the root is at depth 0
  and the child of the \<open>CBB\<close> at depth \<open>k\<close> is at depth \<open>k + 1\<close>. An operation is applied to the
  \<open>CBB\<close> at a given depth. A depth beyond the chain is a \<open>CBB\<close> whose base pointer is NULL (its
  parent was flushed), on which the operations fail.

  The buffer is the block of \<open>cap\<close> bytes itself, including the bytes past \<open>len\<close>, which hold
  whatever the allocator returned; NULL is the empty block.
\<close>

record cbb_buffer =
  cb_buf :: "byte list"
  cb_len :: nat
  cb_cap :: nat
  cb_can_resize :: bool
  cb_error :: bool

record cbb =
  cbb_offset :: nat
  cbb_pending_len_len :: nat
  cbb_pending_is_asn1 :: bool
  cbb_is_child :: bool

record cbb_writer =
  cw_base :: "cbb_buffer option"
  cw_chain :: "cbb list"

subsection \<open>Initialisation\<close>

definition CBB_zero :: cbb where
  "CBB_zero = \<lparr>cbb_offset = 0, cbb_pending_len_len = 0, cbb_pending_is_asn1 = False,
               cbb_is_child = False\<rparr>"

definition zero_writer :: cbb_writer where
  "zero_writer = \<lparr>cw_base = None, cw_chain = [CBB_zero]\<rparr>"

text \<open>\<open>sizeof(struct cbb_buffer_st)\<close>: a pointer, two sizes and two bit-fields.\<close>

definition sizeof_cbb_buffer_st :: nat where
  "sizeof_cbb_buffer_st = 32"

definition cbb_init :: "allocator \<Rightarrow> byte list \<Rightarrow> nat \<Rightarrow> (cbb_writer, unit) stm" where
  "cbb_init malloc buf cap w =
     (case OPENSSL_malloc malloc sizeof_cbb_buffer_st of
        None \<Rightarrow> (None, w)
      | Some _ \<Rightarrow>
          (Some (), w\<lparr>cw_base := Some \<lparr>cb_buf = buf, cb_len = 0, cb_cap = cap,
                                       cb_can_resize = True, cb_error = False\<rparr>,
                     cw_chain := [CBB_zero]\<rparr>))"

definition CBB_init :: "allocator \<Rightarrow> nat \<Rightarrow> (cbb_writer, unit) stm" where
  "CBB_init malloc initial_capacity _ =
     (case OPENSSL_malloc malloc initial_capacity of
        None \<Rightarrow> if initial_capacity > 0 then (None, zero_writer)
                else cbb_init malloc [] initial_capacity zero_writer
      | Some buf \<Rightarrow> cbb_init malloc buf initial_capacity zero_writer)"

definition CBB_init_fixed :: "allocator \<Rightarrow> byte list \<Rightarrow> (cbb_writer, unit) stm" where
  "CBB_init_fixed malloc buf _ =
     (case cbb_init malloc buf (length buf) zero_writer of
        (None, w) \<Rightarrow> (None, w)
      | (Some _, w) \<Rightarrow>
          (Some (), w\<lparr>cw_base := map_option (\<lambda>b. b\<lparr>cb_can_resize := False\<rparr>) (cw_base w)\<rparr>))"

definition CBB_cleanup :: "cbb_writer \<Rightarrow> cbb_writer" where
  "CBB_cleanup w =
     (case cw_chain w of
        [] \<Rightarrow> w
      | root # _ \<Rightarrow> if cbb_is_child root then w else w\<lparr>cw_base := None, cw_chain := [root]\<rparr>)"

subsection \<open>The buffer\<close>

definition cbb_buffer_fail :: "cbb_buffer \<Rightarrow> 'a option \<times> cbb_buffer" where
  "cbb_buffer_fail base = (None, base\<lparr>cb_error := True\<rparr>)"

text \<open>The out-parameter is \<open>base->buf + base->len\<close>, given by its offset.\<close>

definition cbb_buffer_reserve :: "allocator \<Rightarrow> nat \<Rightarrow> (cbb_buffer, nat) stm" where
  "cbb_buffer_reserve malloc len base =
     (let newlen = size_add (cb_len base) len in
      if newlen < cb_len base then cbb_buffer_fail base
      else if newlen > cb_cap base then
        let newcap0 = size_mul (cb_cap base) 2 in
        if \<not> cb_can_resize base then cbb_buffer_fail base
        else
          let newcap = (if newcap0 < cb_cap base \<or> newcap0 < newlen then newlen else newcap0) in
          (case OPENSSL_realloc malloc (Some (cb_buf base)) newcap of
             None \<Rightarrow> cbb_buffer_fail base
           | Some newbuf \<Rightarrow>
               (Some (cb_len base), base\<lparr>cb_buf := newbuf, cb_cap := newcap\<rparr>))
      else (Some (cb_len base), base))"

definition cbb_buffer_add :: "allocator \<Rightarrow> nat \<Rightarrow> (cbb_buffer, nat) stm" where
  "cbb_buffer_add malloc len base =
     (case cbb_buffer_reserve malloc len base of
        (None, base') \<Rightarrow> (None, base')
      | (Some out, base') \<Rightarrow> (Some out, base'\<lparr>cb_len := cb_len base' + len\<rparr>))"

text \<open>
  The loop of \<open>cbb_buffer_add_u\<close> fills \<open>len_len\<close> bytes from the last to the first, shifting
  \<open>v\<close> right: the bytes written and what is left of \<open>v\<close>.
\<close>

primrec store_u_loop :: "nat \<Rightarrow> u64 \<Rightarrow> byte list \<times> u64" where
  "store_u_loop 0 v = ([], v)"
| "store_u_loop (Suc n) v =
     (let (bs, v') = store_u_loop n (drop_bit 8 v) in (bs @ [ucast v], v'))"

definition cbb_buffer_add_u :: "allocator \<Rightarrow> u64 \<Rightarrow> nat \<Rightarrow> (cbb_buffer, unit) stm" where
  "cbb_buffer_add_u malloc v len_len base =
     (if len_len = 0 then (Some (), base)
      else case cbb_buffer_add malloc len_len base of
             (None, base') \<Rightarrow> (None, base')
           | (Some buf, base') \<Rightarrow>
               let (bs, v') = store_u_loop len_len v;
                   base'' = base'\<lparr>cb_buf := mem_store (cb_buf base') buf bs\<rparr>
               in if v' \<noteq> 0 then cbb_buffer_fail base'' else (Some (), base''))"

subsection \<open>Flushing\<close>

text \<open>
  The length octets that \<open>CBB_flush\<close> chooses for an ASN.1 element whose contents are
  \<open>len\<close> bytes long: \<open>len_len\<close>, the initial length byte, and the length still to be stored
  big-endian after it. \<open>None\<close> when the contents are too long.
\<close>

definition asn1_length_form :: "nat \<Rightarrow> (nat \<times> byte \<times> nat) option" where
  "asn1_length_form len =
     (if len > 0xfffffffe then None
      else if len > 0xffffff then Some (5, 0x80 OR 4, len)
      else if len > 0xffff then Some (4, 0x80 OR 3, len)
      else if len > 0xff then Some (3, 0x80 OR 2, len)
      else if len > 0x7f then Some (2, 0x80 OR 1, len)
      else Some (1, of_nat len, 0))"

text \<open>
  What \<open>CBB_flush\<close> does with the child once the child itself is flushed: write the pending
  length prefix of \<open>base->len - child_start\<close> bytes. The child record is returned too, since
  the code updates its offset and pending length in place.
\<close>

definition flush_prefix :: "allocator \<Rightarrow> cbb \<Rightarrow> nat \<Rightarrow> cbb_buffer \<Rightarrow> bool \<times> cbb_buffer \<times> cbb" where
  "flush_prefix malloc child child_start base =
     (let len0 = cb_len base - child_start;
          moved =
            (if cbb_pending_is_asn1 child then
               (case asn1_length_form len0 of
                  None \<Rightarrow> None
                | Some (len_len, initial_length_byte, len) \<Rightarrow>
                    let extra_bytes = len_len - 1;
                        shifted =
                          (if len_len \<noteq> 1 then
                             (case cbb_buffer_add malloc extra_bytes base of
                                (None, _) \<Rightarrow> None
                              | (Some _, b) \<Rightarrow>
                                  Some (b\<lparr>cb_buf :=
                                    mem_store (cb_buf b) (child_start + extra_bytes)
                                      (take len (drop child_start (cb_buf b)))\<rparr>))
                           else Some base)
                    in (case shifted of
                          None \<Rightarrow> None
                        | Some b \<Rightarrow>
                            Some (b\<lparr>cb_buf := (cb_buf b) [cbb_offset child := initial_length_byte]\<rparr>,
                                  child\<lparr>cbb_offset := cbb_offset child + 1,
                                        cbb_pending_len_len := extra_bytes\<rparr>,
                                  len)))
             else Some (base, child, len0))
      in case moved of
           None \<Rightarrow> (False, base\<lparr>cb_error := True\<rparr>, child)
         | Some (b, c, len) \<Rightarrow>
             let (bs, rest) = store_u_loop (cbb_pending_len_len c) (of_nat len);
                 b' = b\<lparr>cb_buf := mem_store (cb_buf b) (cbb_offset c) bs\<rparr>
             in if rest \<noteq> 0 then (False, b'\<lparr>cb_error := True\<rparr>, c) else (True, b', c))"

text \<open>
  \<open>CBB_flush\<close> on the chain that starts with the flushed \<open>CBB\<close> itself. On success the child is
  detached, so the chain returned has one element. \<open>OPENSSL_realloc\<close> failing inside
  \<open>flush_prefix\<close> sets the error flag like every other failure.
\<close>

fun flush_chain :: "allocator \<Rightarrow> cbb list \<Rightarrow> cbb_buffer \<Rightarrow> bool \<times> cbb_buffer \<times> cbb list" where
  "flush_chain malloc [] base = (False, base, [])"
| "flush_chain malloc [cbb] base = (\<not> cb_error base, base, [cbb])"
| "flush_chain malloc (cbb # child # rest) base =
     (if cb_error base then (False, base, cbb # child # rest)
      else if cbb_pending_len_len child = 0 then (True, base, cbb # child # rest)
      else
        let child_start = size_add (cbb_offset child) (cbb_pending_len_len child) in
        (case flush_chain malloc (child # rest) base of
           (ok, base', chain') \<Rightarrow>
             if \<not> ok \<or> child_start < cbb_offset child \<or> cb_len base' < child_start
             then (False, base'\<lparr>cb_error := True\<rparr>, cbb # chain')
             else
               (case flush_prefix malloc child child_start base' of
                  (ok', base'', child') \<Rightarrow>
                    if ok' then (True, base'', [cbb])
                    else (False, base'', cbb # child' # tl chain'))))"

definition CBB_flush :: "allocator \<Rightarrow> nat \<Rightarrow> (cbb_writer, unit) stm" where
  "CBB_flush malloc k w =
     (case cw_base w of
        None \<Rightarrow> (None, w)
      | Some base \<Rightarrow>
          if k < length (cw_chain w) then
            (case flush_chain malloc (drop k (cw_chain w)) base of
               (ok, base', chain') \<Rightarrow>
                 (if ok then Some () else None,
                  w\<lparr>cw_base := Some base', cw_chain := take k (cw_chain w) @ chain'\<rparr>))
          else (None, w))"

text \<open>Running an operation of the shared buffer; a NULL base makes it fail.\<close>

definition on_base :: "(cbb_buffer, 'a) stm \<Rightarrow> (cbb_writer, 'a) stm" where
  "on_base f w =
     (case cw_base w of
        None \<Rightarrow> (None, w)
      | Some base \<Rightarrow> (case f base of (r, base') \<Rightarrow> (r, w\<lparr>cw_base := Some base'\<rparr>)))"

definition buf_write :: "nat \<Rightarrow> byte list \<Rightarrow> (cbb_buffer, unit) stm" where
  "buf_write p bs base = (Some (), base\<lparr>cb_buf := mem_store (cb_buf base) p bs\<rparr>)"

text \<open>\<open>CBB_finish\<close> on the root of the chain; both out-parameters are non-NULL.\<close>

definition CBB_finish :: "allocator \<Rightarrow> nat \<Rightarrow> (cbb_writer, byte list) stm" where
  "CBB_finish malloc k w0 =
     (if k < length (cw_chain w0) \<and> cbb_is_child (cw_chain w0 ! k) then (None, w0)
      else st_bind (CBB_flush malloc k) (\<lambda>_ w.
             case cw_base w of
               None \<Rightarrow> (None, w)
             | Some base \<Rightarrow> (Some (take (cb_len base) (cb_buf base)), CBB_cleanup w)) w0)"

definition CBB_data :: "nat \<Rightarrow> cbb_writer \<Rightarrow> byte list" where
  "CBB_data k w =
     (case cw_base w of
        None \<Rightarrow> []
      | Some base \<Rightarrow>
          drop (cbb_offset (cw_chain w ! k) + cbb_pending_len_len (cw_chain w ! k))
               (take (cb_len base) (cb_buf base)))"

definition CBB_len :: "nat \<Rightarrow> cbb_writer \<Rightarrow> nat" where
  "CBB_len k w =
     (case cw_base w of
        None \<Rightarrow> 0
      | Some base \<Rightarrow>
          cb_len base - cbb_offset (cw_chain w ! k) - cbb_pending_len_len (cw_chain w ! k))"

subsection \<open>Children\<close>

definition attach_child :: "nat \<Rightarrow> nat \<Rightarrow> nat \<Rightarrow> bool \<Rightarrow> (cbb_writer, unit) stm" where
  "attach_child k offset len_len is_asn1 w =
     (Some (), w\<lparr>cw_chain := take (k + 1) (cw_chain w) @
        [\<lparr>cbb_offset = offset, cbb_pending_len_len = len_len, cbb_pending_is_asn1 = is_asn1,
          cbb_is_child = True\<rparr>]\<rparr>)"

definition cbb_add_length_prefixed :: "allocator \<Rightarrow> nat \<Rightarrow> nat \<Rightarrow> (cbb_writer, unit) stm" where
  "cbb_add_length_prefixed malloc k len_len =
     st_bind (CBB_flush malloc k) (\<lambda>_.
     st_bind (on_base (cbb_buffer_add malloc len_len)) (\<lambda>offset.
     st_bind (on_base (buf_write offset (replicate len_len 0))) (\<lambda>_.
     attach_child k offset len_len False)))"

definition CBB_add_u8_length_prefixed :: "allocator \<Rightarrow> nat \<Rightarrow> (cbb_writer, unit) stm" where
  "CBB_add_u8_length_prefixed malloc k = cbb_add_length_prefixed malloc k 1"

definition CBB_add_u16_length_prefixed :: "allocator \<Rightarrow> nat \<Rightarrow> (cbb_writer, unit) stm" where
  "CBB_add_u16_length_prefixed malloc k = cbb_add_length_prefixed malloc k 2"

definition CBB_add_u24_length_prefixed :: "allocator \<Rightarrow> nat \<Rightarrow> (cbb_writer, unit) stm" where
  "CBB_add_u24_length_prefixed malloc k = cbb_add_length_prefixed malloc k 3"

definition CBB_add_u8 :: "allocator \<Rightarrow> nat \<Rightarrow> byte \<Rightarrow> (cbb_writer, unit) stm" where
  "CBB_add_u8 malloc k v =
     st_bind (CBB_flush malloc k) (\<lambda>_. on_base (cbb_buffer_add_u malloc (ucast v) 1))"

text \<open>The number of base-128 digits counted by the first loop of \<open>add_base128_integer\<close>.\<close>

function base128_len_loop :: "u64 \<Rightarrow> nat" where
  "base128_len_loop copy = (if copy > 0 then Suc (base128_len_loop (drop_bit 7 copy)) else 0)"
  by pat_completeness auto
termination
proof (relation "measure unat")
  fix copy :: u64
  assume "copy > 0"
  then have "0 < unat copy"
    by (simp add: unat_gt_0 word_neq_0_conv)
  then have "unat copy div 2 ^ 7 < unat copy"
    by simp
  then show "(drop_bit 7 copy, copy) \<in> measure unat"
    by (simp only: in_measure unat_drop_bit_eq) (simp only: drop_bit_eq_div)
qed simp

text \<open>The bytes of the second loop, the most significant group first.\<close>

definition base128_byte :: "u64 \<Rightarrow> nat \<Rightarrow> byte" where
  "base128_byte v i =
     (let b = ucast (drop_bit (7 * i) v AND 0x7f) in if i \<noteq> 0 then b OR 0x80 else b)"

fun add_u8s :: "allocator \<Rightarrow> nat \<Rightarrow> byte list \<Rightarrow> (cbb_writer, unit) stm" where
  "add_u8s malloc k [] = st_return ()"
| "add_u8s malloc k (b # bs) = st_bind (CBB_add_u8 malloc k b) (\<lambda>_. add_u8s malloc k bs)"

definition add_base128_integer :: "allocator \<Rightarrow> nat \<Rightarrow> u64 \<Rightarrow> (cbb_writer, unit) stm" where
  "add_base128_integer malloc k v =
     (let n = base128_len_loop v;
          len_len = (if n = 0 then 1 else n)
      in add_u8s malloc k (map (base128_byte v) (rev [0..<len_len])))"

definition base_len :: "(cbb_writer, nat) stm" where
  "base_len = on_base (\<lambda>base. (Some (cb_len base), base))"

definition CBB_add_asn1 :: "allocator \<Rightarrow> nat \<Rightarrow> u32 \<Rightarrow> (cbb_writer, unit) stm" where
  "CBB_add_asn1 malloc k tag =
     st_bind (CBB_flush malloc k) (\<lambda>_.
       let tag_bits = (ucast (drop_bit CBS_ASN1_TAG_SHIFT tag) :: byte) AND 0xe0;
           tag_number = tag AND CBS_ASN1_TAG_NUMBER_MASK
       in st_bind (if tag_number \<ge> 0x1f
                   then st_bind (CBB_add_u8 malloc k (tag_bits OR 0x1f)) (\<lambda>_.
                          add_base128_integer malloc k (ucast tag_number))
                   else CBB_add_u8 malloc k (tag_bits OR ucast tag_number)) (\<lambda>_.
          st_bind base_len (\<lambda>offset.
          st_bind (CBB_add_u8 malloc k 0) (\<lambda>_.
          attach_child k offset 1 True))))"

subsection \<open>Appending\<close>

definition CBB_add_bytes :: "allocator \<Rightarrow> nat \<Rightarrow> byte list \<Rightarrow> (cbb_writer, unit) stm" where
  "CBB_add_bytes malloc k data =
     st_bind (CBB_flush malloc k) (\<lambda>_.
     st_bind (on_base (cbb_buffer_add malloc (length data))) (\<lambda>dest.
     on_base (buf_write dest data)))"

text \<open>\<open>CBB_add_space\<close> and \<open>CBB_reserve\<close> return a pointer, given by its offset in the buffer.\<close>

definition CBB_add_space :: "allocator \<Rightarrow> nat \<Rightarrow> nat \<Rightarrow> (cbb_writer, nat) stm" where
  "CBB_add_space malloc k len =
     st_bind (CBB_flush malloc k) (\<lambda>_. on_base (cbb_buffer_add malloc len))"

definition CBB_add_zeros :: "allocator \<Rightarrow> nat \<Rightarrow> nat \<Rightarrow> (cbb_writer, unit) stm" where
  "CBB_add_zeros malloc k len =
     st_bind (CBB_add_space malloc k len) (\<lambda>out. on_base (buf_write out (replicate len 0)))"

definition CBB_reserve :: "allocator \<Rightarrow> nat \<Rightarrow> nat \<Rightarrow> (cbb_writer, nat) stm" where
  "CBB_reserve malloc k len =
     st_bind (CBB_flush malloc k) (\<lambda>_. on_base (cbb_buffer_reserve malloc len))"

definition CBB_did_write :: "nat \<Rightarrow> nat \<Rightarrow> (cbb_writer, unit) stm" where
  "CBB_did_write k len w =
     (case cw_base w of
        None \<Rightarrow> (None, w)
      | Some base \<Rightarrow>
          let newlen = size_add (cb_len base) len in
          if k + 1 < length (cw_chain w) \<or> newlen < cb_len base \<or> newlen > cb_cap base
          then (None, w)
          else (Some (), w\<lparr>cw_base := Some (base\<lparr>cb_len := newlen\<rparr>)\<rparr>))"

definition CBB_add_u16 :: "allocator \<Rightarrow> nat \<Rightarrow> u16 \<Rightarrow> (cbb_writer, unit) stm" where
  "CBB_add_u16 malloc k v =
     st_bind (CBB_flush malloc k) (\<lambda>_. on_base (cbb_buffer_add_u malloc (ucast v) 2))"

definition CBB_add_u16le :: "allocator \<Rightarrow> nat \<Rightarrow> u16 \<Rightarrow> (cbb_writer, unit) stm" where
  "CBB_add_u16le malloc k v = CBB_add_u16 malloc k (CRYPTO_bswap2 v)"

definition CBB_add_u24 :: "allocator \<Rightarrow> nat \<Rightarrow> u32 \<Rightarrow> (cbb_writer, unit) stm" where
  "CBB_add_u24 malloc k v =
     st_bind (CBB_flush malloc k) (\<lambda>_. on_base (cbb_buffer_add_u malloc (ucast v) 3))"

definition CBB_add_u32 :: "allocator \<Rightarrow> nat \<Rightarrow> u32 \<Rightarrow> (cbb_writer, unit) stm" where
  "CBB_add_u32 malloc k v =
     st_bind (CBB_flush malloc k) (\<lambda>_. on_base (cbb_buffer_add_u malloc (ucast v) 4))"

definition CBB_add_u32le :: "allocator \<Rightarrow> nat \<Rightarrow> u32 \<Rightarrow> (cbb_writer, unit) stm" where
  "CBB_add_u32le malloc k v = CBB_add_u32 malloc k (CRYPTO_bswap4 v)"

definition CBB_add_u64 :: "allocator \<Rightarrow> nat \<Rightarrow> u64 \<Rightarrow> (cbb_writer, unit) stm" where
  "CBB_add_u64 malloc k v =
     st_bind (CBB_flush malloc k) (\<lambda>_. on_base (cbb_buffer_add_u malloc v 8))"

definition CBB_add_u64le :: "allocator \<Rightarrow> nat \<Rightarrow> u64 \<Rightarrow> (cbb_writer, unit) stm" where
  "CBB_add_u64le malloc k v = CBB_add_u64 malloc k (CRYPTO_bswap8 v)"

definition CBB_discard_child :: "nat \<Rightarrow> cbb_writer \<Rightarrow> cbb_writer" where
  "CBB_discard_child k w =
     (if k + 1 < length (cw_chain w)
      then w\<lparr>cw_base := map_option (\<lambda>b. b\<lparr>cb_len := cbb_offset (cw_chain w ! (k + 1))\<rparr>) (cw_base w),
             cw_chain := take (k + 1) (cw_chain w)\<rparr>
      else w)"

subsection \<open>ASN.1 values\<close>

text \<open>
  The loop of \<open>CBB_add_asn1_uint64\<close> over the eight bytes of \<open>value\<close>, most significant first,
  with the flag \<open>started\<close>: the \<open>CBB_add_u8\<close> calls it makes on the child.
\<close>

fun asn1_uint64_bytes :: "allocator \<Rightarrow> nat \<Rightarrow> bool \<Rightarrow> byte list \<Rightarrow> (cbb_writer, bool) stm" where
  "asn1_uint64_bytes malloc k started [] = st_return started"
| "asn1_uint64_bytes malloc k started (b # bs) =
     (if \<not> started \<and> b = 0 then asn1_uint64_bytes malloc k started bs
      else st_bind (if \<not> started \<and> b AND 0x80 \<noteq> 0 then CBB_add_u8 malloc k 0 else st_return ())
             (\<lambda>_. st_bind (CBB_add_u8 malloc k b) (\<lambda>_. asn1_uint64_bytes malloc k True bs)))"

definition u64_byte :: "u64 \<Rightarrow> nat \<Rightarrow> byte" where
  "u64_byte v i = ucast (drop_bit (8 * (7 - i)) v AND 0xff)"

definition CBB_add_asn1_uint64 :: "allocator \<Rightarrow> nat \<Rightarrow> u64 \<Rightarrow> (cbb_writer, unit) stm" where
  "CBB_add_asn1_uint64 malloc k v =
     st_bind (CBB_add_asn1 malloc k CBS_ASN1_INTEGER) (\<lambda>_.
     st_bind (asn1_uint64_bytes malloc (k + 1) False (map (u64_byte v) [0..<8])) (\<lambda>started.
     st_bind (if \<not> started then CBB_add_u8 malloc (k + 1) 0 else st_return ()) (\<lambda>_.
     CBB_flush malloc k)))"

text \<open>\<open>u.bytes[i]\<close> of the union of \<open>int64_t\<close> and its bytes on a little-endian machine.\<close>

definition le_byte :: "u64 \<Rightarrow> nat \<Rightarrow> byte" where
  "le_byte v i = ucast (drop_bit (8 * i) v)"

fun int64_start :: "u64 \<Rightarrow> nat \<Rightarrow> nat" where
  "int64_start v 0 = 0"
| "int64_start v (Suc n) =
     (if le_byte v (Suc n) = 0xff \<and> le_byte v n AND 0x80 \<noteq> 0 then int64_start v n else Suc n)"

definition CBB_add_asn1_int64 :: "allocator \<Rightarrow> nat \<Rightarrow> u64 \<Rightarrow> (cbb_writer, unit) stm" where
  "CBB_add_asn1_int64 malloc k v =
     (if sint v \<ge> 0 then CBB_add_asn1_uint64 malloc k v
      else
        let start = int64_start v 7 in
        st_bind (CBB_add_asn1 malloc k CBS_ASN1_INTEGER) (\<lambda>_.
        st_bind (add_u8s malloc (k + 1) (map (le_byte v) (rev [0..<start + 1]))) (\<lambda>_.
        CBB_flush malloc k)))"

definition CBB_add_asn1_octet_string :: "allocator \<Rightarrow> nat \<Rightarrow> byte list \<Rightarrow> (cbb_writer, unit) stm" where
  "CBB_add_asn1_octet_string malloc k data =
     st_bind (CBB_add_asn1 malloc k CBS_ASN1_OCTETSTRING) (\<lambda>_.
     st_bind (CBB_add_bytes malloc (k + 1) data) (\<lambda>_.
     CBB_flush malloc k))"

definition CBB_add_asn1_bool :: "allocator \<Rightarrow> nat \<Rightarrow> bool \<Rightarrow> (cbb_writer, unit) stm" where
  "CBB_add_asn1_bool malloc k v =
     st_bind (CBB_add_asn1 malloc k CBS_ASN1_BOOLEAN) (\<lambda>_.
     st_bind (CBB_add_u8 malloc (k + 1) (if v then 0xff else 0)) (\<lambda>_.
     CBB_flush malloc k))"

end
