(* ===== verification/Codec.thy ===== *)
theory Codec
  imports Prelude
begin

text \<open>
  The interface between a writer and a reader of one kind of wire item. A writer promises the
  byte string \<open>enc a\<close> for every admissible item \<open>a\<close>, a reader consumes a prefix of its input.
  \<open>byte_codec\<close> is the contract that the reader inverts the writer; \<open>canonical_codec\<close> adds that
  the reader accepts nothing but what the writer writes. The laws a client uses (unique
  parsing of sequences, prefix-freeness, independence of what follows, rejection of truncated
  input) are proved here once. The components interpret the contracts on their own readers and
  writers.
\<close>

locale byte_codec =
  fixes enc :: "'a \<Rightarrow> byte list"
    and dec :: "byte list \<Rightarrow> 'a option \<times> byte list"
    and ok :: "'a \<Rightarrow> bool"
  assumes dec_enc: "ok a \<Longrightarrow> dec (enc a @ rest) = (Some a, rest)"
begin

lemma enc_append_eq:
  assumes "ok a" and "ok b" and "enc a @ r = enc b @ s"
  shows "a = b \<and> r = s"
proof -
  have "(Some a, r) = dec (enc a @ r)"
    by (rule dec_enc [OF assms(1), symmetric])
  also have "\<dots> = dec (enc b @ s)"
    by (simp only: assms(3))
  also have "\<dots> = (Some b, s)"
    by (rule dec_enc [OF assms(2)])
  finally show ?thesis by simp
qed

lemma enc_inj: "ok a \<Longrightarrow> ok b \<Longrightarrow> enc a = enc b \<Longrightarrow> a = b"
  by (metis append_Nil2 enc_append_eq)

lemma enc_prefix_free: "ok a \<Longrightarrow> ok b \<Longrightarrow> enc b = enc a @ r \<Longrightarrow> r = []"
  by (metis append_Nil2 enc_append_eq)

lemma enc_sequence_inj:
  assumes "list_all ok xs" and "list_all ok ys" and "length xs = length ys"
    and "concat (map enc xs) @ r = concat (map enc ys) @ s"
  shows "xs = ys \<and> r = s"
  using assms(3,1,2,4)
proof (induction xs ys rule: list_induct2)
  case Nil
  then show ?case by simp
next
  case (Cons x xs y ys)
  have "enc x @ (concat (map enc xs) @ r) = enc y @ (concat (map enc ys) @ s)"
    using Cons.prems(3) by simp
  then have eq: "x = y \<and> concat (map enc xs) @ r = concat (map enc ys) @ s"
    using Cons.prems(1,2) by (intro enc_append_eq) simp_all
  then have "xs = ys \<and> r = s"
    using Cons.prems(1,2) by (intro Cons.IH) simp_all
  with eq show ?case by simp
qed

end

locale canonical_codec = byte_codec +
  assumes dec_canonical: "dec bs = (Some a, rest) \<Longrightarrow> ok a \<and> bs = enc a @ rest"
begin

lemma dec_iff: "dec bs = (Some a, rest) \<longleftrightarrow> ok a \<and> bs = enc a @ rest"
  using dec_canonical dec_enc by blast

lemma dec_extend: "dec bs = (Some a, rest) \<Longrightarrow> dec (bs @ more) = (Some a, rest @ more)"
  using dec_iff by auto

lemma dec_truncated:
  assumes "ok a" and "enc a = p @ q" and "q \<noteq> []"
  shows "fst (dec p) = None"
proof (rule ccontr)
  assume "fst (dec p) \<noteq> None"
  then obtain b r where "dec p = (Some b, r)"
    by (cases "dec p") auto
  then have b: "ok b" and p: "p = enc b @ r"
    using dec_canonical by blast+
  have "enc a @ [] = enc b @ (r @ q)"
    by (simp only: assms(2) p append_assoc append_Nil2)
  then have "[] = r @ q"
    using enc_append_eq [OF assms(1) b] by blast
  with assms(3) show False by simp
qed

lemma dec_consumes: "dec bs = (Some a, rest) \<Longrightarrow> length bs = length (enc a) + length rest"
  using dec_canonical by force

end

end
