(* ===== verification/Der.thy ===== *)
theory Der
  imports Cbb Codec
begin

text \<open>
  The Distinguished Encoding Rules as the code implements them: reference encodings of
  base-128 integers, identifier octets, length octets and whole elements, and the proof that
  the parser of cbs.c inverts them and accepts nothing else.
\<close>

subsection \<open>Reference encodings\<close>

definition base128_bytes :: "u64 \<Rightarrow> byte list" where
  "base128_bytes v =
     (let n = base128_len_loop v; len_len = (if n = 0 then 1 else n)
      in map (base128_byte v) (rev [0..<len_len]))"

definition der_tag :: "u32 \<Rightarrow> byte list" where
  "der_tag tag =
     (let tag_bits = (ucast (drop_bit CBS_ASN1_TAG_SHIFT tag) :: byte) AND 0xe0;
          tag_number = tag AND CBS_ASN1_TAG_NUMBER_MASK
      in if tag_number \<ge> 0x1f then (tag_bits OR 0x1f) # base128_bytes (ucast tag_number)
         else [tag_bits OR ucast tag_number])"

fun octets :: "nat \<Rightarrow> nat" where
  "octets n = (if n = 0 then 0 else Suc (octets (n div 256)))"

definition der_length :: "nat \<Rightarrow> byte list" where
  "der_length len =
     (if len < 128 then [of_nat len]
      else (0x80 OR of_nat (octets len)) # be_bytes (octets len) len)"

definition der_element :: "u32 \<Rightarrow> byte list \<Rightarrow> byte list" where
  "der_element tag contents = der_tag tag @ der_length (length contents) @ contents"

definition length_prefixed :: "nat \<Rightarrow> byte list \<Rightarrow> byte list" where
  "length_prefixed len_len c = be_bytes len_len (length c) @ c"

definition int_octets :: "nat \<Rightarrow> nat" where
  "int_octets m = Suc (octets (m div 128))"

definition uint_contents :: "nat \<Rightarrow> byte list" where
  "uint_contents n = be_bytes (int_octets n) n"

definition int64_contents :: "u64 \<Rightarrow> byte list" where
  "int64_contents v = be_bytes (int_octets (unat (if sint v \<ge> 0 then v else NOT v))) (unat v)"

definition der_uint64 :: "u64 \<Rightarrow> byte list" where
  "der_uint64 v = der_element CBS_ASN1_INTEGER (uint_contents (unat v))"

definition der_bool :: "bool \<Rightarrow> byte list" where
  "der_bool b = der_element CBS_ASN1_BOOLEAN [if b then 0xff else 0]"

text \<open>Signed integers: negative contents are the complement of unsigned ones.\<close>

definition sign_flip :: "bool \<Rightarrow> byte list \<Rightarrow> byte list" where
  "sign_flip neg bs = (if neg then map NOT bs else bs)"

definition der_int64 :: "u64 \<Rightarrow> byte list" where
  "der_int64 v = der_element CBS_ASN1_INTEGER (int64_contents v)"

text \<open>The word that \<open>CBS_get_asn1_int64\<close> assembles from at most eight bytes.\<close>

definition int64_word :: "bool \<Rightarrow> byte list \<Rightarrow> u64" where
  "int64_word neg bs = le_word64 (foldl (\<lambda>u i. u [i := bs ! (length bs - i - 1)])
                         (replicate 8 (if neg then 0xff else 0)) [0..<length bs])"

text \<open>Results that leave the input at \<open>cbs\<close> if they are failures.\<close>

definition restores :: "cbs \<Rightarrow> 'a option \<times> cbs \<Rightarrow> bool" where
  "restores cbs r \<longleftrightarrow> (fst r = None \<longrightarrow> snd r = cbs)"

declare base128_len_loop.simps [simp del] parse_base128_loop.simps [simp del]
declare octets.simps [simp del]

subsection \<open>The parser inverts the encodings\<close>

lemma cbs_get_u_loop_eq: "cbs_get_u_loop r bs = r * 256 ^ length bs + of_nat (be_nat bs)"
proof (induction bs arbitrary: r)
  case Nil
  then show ?case by simp
next
  case (Cons b bs)
  have "(of_nat (unat b) :: u64) = ucast b"
    by simp
  with Cons show ?case
    by (simp add: be_step_word be_nat_Cons algebra_simps)
qed

lemma cbs_get_u_apply:
  "cbs_get_u n cbs =
     (if length cbs < n then (None, cbs) else (Some (of_nat (be_nat (take n cbs))), drop n cbs))"
  by (simp add: cbs_get_u_def st_bind_def cbs_get_apply cbs_get_u_loop_eq)

lemma CBS_get_bytes_apply:
  "CBS_get_bytes n cbs = (if length cbs < n then (None, cbs) else (Some (take n cbs), drop n cbs))"
  by (simp add: CBS_get_bytes_def st_bind_def cbs_get_apply CBS_init_def)

lemma CBS_skip_apply:
  "CBS_skip n cbs = (if length cbs < n then (None, cbs) else (Some (), drop n cbs))"
  by (simp add: CBS_skip_def st_bind_def cbs_get_apply)


lemma bit_base128_byte:
  "bit (base128_byte v i) n \<longleftrightarrow> (n < 7 \<and> bit v (7 * i + n)) \<or> (n = 7 \<and> i \<noteq> 0)"
  by (auto simp: base128_byte_def Let_def bit_simps bit_consts)

lemma base128_step:
  "push_bit 7 (drop_bit (7 * Suc i) v) OR ucast (base128_byte v i AND 0x7f) = drop_bit (7 * i) v"
proof (rule bit_word_eqI)
  fix n assume "n < LENGTH(64)"
  show "bit (push_bit 7 (drop_bit (7 * Suc i) v) OR ucast (base128_byte v i AND 0x7f)) n \<longleftrightarrow> bit (drop_bit (7 * i) v) n"
    using \<open>n < LENGTH(64)\<close>
    by (cases "n < 7") (auto simp: bit_simps bit_consts bit_base128_byte ac_simps)
qed

lemma drop_bit_7_Suc: "drop_bit (7 * Suc j) v = drop_bit (7 * j) (drop_bit 7 v)" for v :: u64
  by (simp add: drop_bit_drop_bit ac_simps)

lemma base128_len_loop_end: "drop_bit (7 * base128_len_loop v) v = 0"
proof (induction v rule: base128_len_loop.induct)
  case (1 v)
  then show ?case
    by (cases "v > 0") (simp_all add: base128_len_loop.simps [of v] drop_bit_7_Suc word_gt_0 del: mult_Suc_right)
qed

lemma base128_len_loop_minimal: "j < base128_len_loop v \<Longrightarrow> drop_bit (7 * j) v \<noteq> 0"
proof (induction v arbitrary: j rule: base128_len_loop.induct)
  case (1 v)
  show ?case
  proof (cases "v > 0")
    case True
    with 1 show ?thesis
      by (cases j) (auto simp: base128_len_loop.simps [of v] drop_bit_7_Suc word_gt_0 simp del: mult_Suc_right)
  next
    case False
    with "1.prems" show ?thesis by (simp add: base128_len_loop.simps [of v])
  qed
qed

lemma drop_bit_57_zero: "drop_bit 57 (drop_bit (7 * Suc j) v) = 0" for v :: u64
  by (rule bit_word_eqI) (auto simp: bit_simps dest: bit_imp_le_length)

lemma base128_byte_high: "base128_byte v j AND 0x80 \<noteq> 0 \<longleftrightarrow> j \<noteq> 0"
  using high_bit_iff [of "base128_byte v j"] by (simp add: bit_base128_byte)

lemma base128_byte_eq_80:
  "drop_bit (7 * Suc j) v = 0 \<Longrightarrow> drop_bit (7 * j) v \<noteq> 0 \<Longrightarrow> base128_byte v j \<noteq> 0x80" for v :: u64
proof
  assume a: "drop_bit (7 * Suc j) v = 0" and b: "drop_bit (7 * j) v \<noteq> 0" and c: "base128_byte v j = 0x80"
  have "base128_byte v j AND 0x7f = 0"
    by (simp add: c)
  with base128_step [of j v] a b show False by simp
qed

lemma parse_base128_loop_groups:
  assumes "drop_bit (7 * Suc j) v \<noteq> 0 \<or> j = 0 \<or> drop_bit (7 * j) v \<noteq> 0"
  shows "parse_base128_loop (drop_bit (7 * Suc j) v) (map (base128_byte v) (rev [0..<Suc j]) @ rest) = (Some v, rest)"
  using assms
proof (induction j)
  case 0
  have "base128_byte v 0 \<noteq> 0x80"
    using base128_byte_high [of v 0] by auto
  with base128_step [of 0 v] base128_byte_high [of v 0] drop_bit_57_zero [of 0 v] show ?case
    by (simp add: parse_base128_loop.simps [of "drop_bit 7 v"] Let_def)
next
  case (Suc j)
  have nz: "\<not> (drop_bit (7 * Suc (Suc j)) v = 0 \<and> base128_byte v (Suc j) = 0x80)"
    using Suc.prems base128_byte_eq_80 [of "Suc j" v] by blast
  have ih: "parse_base128_loop (drop_bit (7 * Suc j) v) (map (base128_byte v) (rev [0..<Suc j]) @ rest) = (Some v, rest)"
  proof (rule Suc.IH)
    from Suc.prems have "drop_bit (7 * Suc j) v \<noteq> 0"
      by (metis drop_bit_drop_bit drop_bit_of_0 mult_Suc_right nat.distinct(1))
    then show "drop_bit (7 * Suc j) v \<noteq> 0 \<or> j = 0 \<or> drop_bit (7 * j) v \<noteq> 0" by simp
  qed
  show ?case
    using nz ih base128_step [of "Suc j" v] base128_byte_high [of v "Suc j"] drop_bit_57_zero [of "Suc j" v]
    by (simp add: parse_base128_loop.simps [of "drop_bit (7 * Suc (Suc j)) v"] Let_def del: mult_Suc_right)
qed

lemma parse_base128_bytes: "parse_base128_integer (base128_bytes v @ rest) = (Some v, rest)"
proof (cases "base128_len_loop v")
  case 0
  then have "v = 0"
    using base128_len_loop_end [of v] by simp
  with 0 parse_base128_loop_groups [of 0 v rest] show ?thesis
    by (simp add: base128_bytes_def parse_base128_integer_def)
next
  case (Suc j)
  from base128_len_loop_end [of v] Suc have "drop_bit (7 * Suc j) v = 0" by simp
  moreover from base128_len_loop_minimal [of j v] Suc have "drop_bit (7 * j) v \<noteq> 0" by simp
  ultimately show ?thesis
    using parse_base128_loop_groups [of j v rest] Suc
    by (simp add: base128_bytes_def parse_base128_integer_def del: mult_Suc_right upt_Suc)
qed

lemma base128_acc_bits:
  "bit (push_bit 7 u OR ucast (b AND 0x7f) :: u64) n \<longleftrightarrow>
     n < 64 \<and> (if n < 7 then bit b n else bit u (n - 7))" for b :: byte
  by (auto simp: bit_simps bit_consts)

lemma base128_acc_drop:
  fixes b :: byte
  assumes "drop_bit 57 u = 0"
  shows "drop_bit 7 (push_bit 7 u OR ucast (b AND 0x7f) :: u64) = u"
proof (rule bit_word_eqI)
  fix n assume "n < LENGTH(64)"
  have "\<not> bit u n" if "57 \<le> n"
  proof -
    have "\<not> bit (drop_bit 57 u) (n - 57)" by (simp add: assms)
    with that show ?thesis by (simp add: bit_simps)
  qed
  then show "bit (drop_bit 7 (push_bit 7 u OR ucast (b AND 0x7f) :: u64)) n \<longleftrightarrow> bit u n"
    by (cases "57 \<le> n") (auto simp: bit_simps bit_consts)
qed

lemma base128_acc_nonzero:
  fixes b :: byte
  assumes "b AND 0x80 \<noteq> 0" and "b \<noteq> 0x80"
  shows "(push_bit 7 u OR ucast (b AND 0x7f) :: u64) \<noteq> 0"
proof
  assume z: "(push_bit 7 u OR ucast (b AND 0x7f) :: u64) = 0"
  have "b = 0x80"
  proof (rule bit_word_eqI)
    fix n assume "n < LENGTH(8)"
    moreover have "\<not> bit b n" if "n < 7"
      using base128_acc_bits [of u b n] that z by simp
    ultimately show "bit b n \<longleftrightarrow> bit (0x80 :: byte) n"
      using assms(1) high_bit_iff [of b] by (cases "n = 7") (auto simp: bit_consts)
  qed
  with assms(2) show False by simp
qed

lemma base128_byte_of_acc:
  assumes "drop_bit (7 * j) v = push_bit 7 u OR ucast (b AND 0x7f)" and "b AND 0x80 \<noteq> 0 \<longleftrightarrow> j \<noteq> 0"
  shows "base128_byte v j = b"
proof (rule bit_word_eqI)
  fix n assume "n < LENGTH(8)"
  then have "n < 7 \<or> n = 7" by auto
  moreover have "bit v (7 * j + n) = bit b n" if "n < 7"
  proof -
    have "bit v (7 * j + n) = bit (drop_bit (7 * j) v) n" by (simp add: bit_simps)
    also have "\<dots> = bit b n" using that by (simp add: assms(1) base128_acc_bits)
    finally show ?thesis .
  qed
  ultimately show "bit (base128_byte v j) n \<longleftrightarrow> bit b n"
    using assms(2) high_bit_iff [of b] by (auto simp: bit_base128_byte)
qed

lemma parse_base128_loop_inv:
  "parse_base128_loop u cbs = (Some v, rest) \<Longrightarrow>
     \<exists>j. cbs = map (base128_byte v) (rev [0..<Suc j]) @ rest \<and> drop_bit (7 * Suc j) v = u \<and>
         (u \<noteq> 0 \<or> j = 0 \<or> drop_bit (7 * j) v \<noteq> 0)"
proof (induction cbs arbitrary: u)
  case Nil
  then show ?case by (simp add: parse_base128_loop.simps [of u "[]"])
next
  case (Cons b cbs)
  let ?v = "push_bit 7 u OR ucast (b AND 0x7f) :: u64"
  from Cons.prems have u57: "drop_bit 57 u = 0" and min: "\<not> (u = 0 \<and> b = 0x80)"
    and run: "(if b AND 0x80 \<noteq> 0 then parse_base128_loop ?v cbs else (Some ?v, cbs)) = (Some v, rest)"
    by (auto simp: parse_base128_loop.simps [of u "b # cbs"] Let_def split: if_splits)
  show ?case
  proof (cases "b AND 0x80 \<noteq> 0")
    case True
    with run Cons.IH obtain j where j: "cbs = map (base128_byte v) (rev [0..<Suc j]) @ rest"
      "drop_bit (7 * Suc j) v = ?v" by fastforce
    have "base128_byte v (Suc j) = b"
      using base128_byte_of_acc [OF j(2)] True by simp
    moreover have "drop_bit (7 * Suc (Suc j)) v = u"
      using base128_acc_drop [OF u57, of b] j(2)
      by (metis drop_bit_drop_bit mult_Suc_right)
    moreover have "u \<noteq> 0 \<or> drop_bit (7 * Suc j) v \<noteq> 0"
      using j(2) base128_acc_nonzero [OF True, of u] min by auto
    ultimately show ?thesis
      using j(1) by (intro exI [of _ "Suc j"]) simp
  next
    case False
    with run have v: "v = ?v" and "rest = cbs" by auto
    moreover have "base128_byte v 0 = b"
      using base128_byte_of_acc [of 0 v u b] v False by simp
    moreover have "drop_bit 7 v = u"
      using base128_acc_drop [OF u57, of b] v by simp
    ultimately show ?thesis
      by (intro exI [of _ 0]) simp
  qed
qed

lemma parse_base128_integer_canonical:
  assumes "parse_base128_integer cbs = (Some v, rest)"
  shows "cbs = base128_bytes v @ rest"
proof -
  from parse_base128_loop_inv [of 0 cbs v rest] assms obtain j
    where j: "cbs = map (base128_byte v) (rev [0..<Suc j]) @ rest" "drop_bit (7 * Suc j) v = 0"
      "j = 0 \<or> drop_bit (7 * j) v \<noteq> 0"
    by (auto simp: parse_base128_integer_def)
  have "base128_len_loop v \<le> Suc j"
    using base128_len_loop_minimal [of "Suc j" v] j(2) by force
  moreover have "base128_len_loop v \<ge> Suc j" if "drop_bit (7 * j) v \<noteq> 0"
  proof (rule ccontr)
    assume "\<not> base128_len_loop v \<ge> Suc j"
    then obtain d where "j = base128_len_loop v + d" using le_Suc_ex by (auto simp: not_le less_Suc_eq_le)
    then have "drop_bit (7 * j) v = drop_bit (7 * d) (drop_bit (7 * base128_len_loop v) v)"
      by (simp add: drop_bit_drop_bit algebra_simps)
    with that show False by (simp add: base128_len_loop_end)
  qed
  ultimately have "(if base128_len_loop v = 0 then 1 else base128_len_loop v) = Suc j"
    using j(3) by auto
  with j(1) show ?thesis by (simp add: base128_bytes_def del: upt_Suc)
qed

lemma tag_number_mask: "CBS_ASN1_TAG_NUMBER_MASK = 0x1fffffff"
  by (simp add: CBS_ASN1_TAG_NUMBER_MASK_def CBS_ASN1_TAG_SHIFT_def push_bit_eq_mult)

lemma tag_recompose:
  "push_bit 24 (ucast (((ucast (drop_bit 24 tag) :: byte) AND 0xe0) OR x) AND 0xe0) OR (tag AND 0x1fffffff) = tag"
  if "x AND 0xe0 = 0" for tag :: u32 and x :: byte
proof (rule bit_word_eqI)
  fix n assume "n < LENGTH(32)"
  have x: "\<not> bit x k" if "k = 5 \<or> k = 6 \<or> k = 7" for k
  proof
    assume "bit x k"
    then have "bit (x AND 0xe0) k" using that by (auto simp: bit_simps bit_consts)
    with \<open>x AND 0xe0 = 0\<close> show False by simp
  qed
  show "bit (push_bit 24 (ucast (((ucast (drop_bit 24 tag) :: byte) AND 0xe0) OR x) AND 0xe0) OR (tag AND 0x1fffffff)) n = bit tag n"
  proof (cases "n < 29")
    case True
    then show ?thesis by (auto simp: bit_simps bit_consts bit_e0000000_int x)
  next
    case False
    with \<open>n < LENGTH(32)\<close> have "n = 29 \<or> n = 30 \<or> n = 31" by auto
    then show ?thesis by (elim disjE) (simp_all add: bit_simps bit_consts x)
  qed
qed

lemma tag_byte_low: "((t :: byte) AND 0xe0 OR x) AND 0x1f = x" if "x AND 0x1f = x"
proof -
  have "((t :: byte) AND 0xe0 OR x) AND 0x1f = x AND 0x1f"
    by (rule bit_word_eqI) (auto simp: bit_simps bit_consts)
  with that show ?thesis by simp
qed

lemma word_le_mask_iff: "v \<le> 0x1fffffff \<longleftrightarrow> v AND 0x1fffffff = v" for v :: u64
proof -
  have "v AND 0x1fffffff = take_bit 29 v" 
    by (simp add: take_bit_eq_mask mask_eq_exp_minus_1)
  moreover have "take_bit 29 v = v \<longleftrightarrow> v < 2 ^ 29"
    using mod_less_divisor [of 536870912 "unat v"]
    by (auto simp add: word_less_nat_alt take_bit_eq_mod word_unat_eq_iff unat_mod simp del: mod_less_divisor)
  ultimately show ?thesis
    by (simp add: word_less_nat_alt word_le_nat_alt) arith
qed

lemma parse_der_tag: "parse_asn1_tag (der_tag tag @ rest) = (Some tag, rest)"
proof -
  let ?n = "tag AND 0x1fffffff" and ?t = "(ucast (drop_bit 24 tag) :: byte) AND 0xe0"
  show ?thesis
  proof (cases "?n \<ge> 0x1f")
    case True
    have le: "(ucast ?n :: u64) \<le> 0x1fffffff"
      unfolding word_le_mask_iff by (rule bit_word_eqI) (auto simp: bit_simps bit_consts)
    have ge: "\<not> (ucast ?n :: u64) < 0x1f"
      using True by (simp add: word_less_nat_alt word_le_nat_alt unat_ucast_up)
    have "push_bit 24 (ucast (?t OR 0x1f) AND 0xe0) OR ?n = tag"
      using tag_recompose [of "0x1f" tag] by simp
    with True le ge tag_byte_low [of "0x1f" "ucast (drop_bit 24 tag)"] show ?thesis
      by (simp add: parse_asn1_tag_def der_tag_def Let_def tag_number_mask CBS_ASN1_TAG_SHIFT_def st_bind_def parse_base128_bytes not_less [symmetric])
  next
    case False
    then have lt: "?n < 0x1f" by simp
    have n5: "(ucast ?n :: byte) AND 0x1f = ucast ?n"
    proof -
      have "(ucast ?n :: byte) = take_bit 5 (ucast ?n)"
        using lt by (simp add: word_less_nat_alt word_unat_eq_iff unat_ucast_mod take_bit_eq_mod unat_mod)
      then show ?thesis by (simp add: take_bit_eq_mask mask_eq_exp_minus_1)
    qed
    then have "(ucast ?n :: byte) AND 0xe0 = 0" 
      using and.assoc [of "ucast ?n" "0x1f :: byte" "0xe0"] by simp
    then have "push_bit 24 (ucast (?t OR ucast ?n) AND 0xe0) OR ?n = tag"
      by (rule tag_recompose)
    moreover have "(ucast (ucast ?n :: byte) :: u32) = ?n"
      using lt by (simp add: word_less_nat_alt word_unat_eq_iff unat_ucast_mod)
    moreover have "(ucast ?n :: u32) \<noteq> 0x1f" using lt by simp
    ultimately show ?thesis 
      using False tag_byte_low [OF n5, of "ucast (drop_bit 24 tag)"]
      by (simp add: parse_asn1_tag_def der_tag_def Let_def tag_number_mask CBS_ASN1_TAG_SHIFT_def st_bind_def)
  qed
qed

lemma tag_decompose:
  fixes b :: byte and v :: u32
  assumes "v AND 0x1fffffff = v"
  defines "tag \<equiv> push_bit 24 (ucast b AND 0xe0) OR v"
  shows "(ucast (drop_bit 24 tag) :: byte) AND 0xe0 = b AND 0xe0" and "tag AND 0x1fffffff = v"
proof -
  have v: "bit v n \<longleftrightarrow> bit v n \<and> n < 29" for n
    using assms(1) by (metis bit_and_iff bit_const_int(7) bit_word_of_int_iff of_int_numeral)
  show "(ucast (drop_bit 24 tag) :: byte) AND 0xe0 = b AND 0xe0"
  proof (rule bit_word_eqI)
    fix n assume "n < LENGTH(8)"
    then show "bit ((ucast (drop_bit 24 tag) :: byte) AND 0xe0) n \<longleftrightarrow> bit (b AND 0xe0) n"
      using v [of "24 + n"] unfolding tag_def
      by (auto simp: bit_simps bit_consts bit_e0000000_int)
  qed
  show "tag AND 0x1fffffff = v"
  proof (rule bit_word_eqI)
    fix n assume "n < LENGTH(32)"
    then show "bit (tag AND 0x1fffffff) n \<longleftrightarrow> bit v n"
      using v [of n] unfolding tag_def
      by (auto simp: bit_simps bit_consts bit_e0000000_int)
  qed
qed

lemma byte_split_e0: "b AND 0xe0 OR b AND 0x1f = b" for b :: byte
proof -
  have "b AND 0xe0 OR b AND 0x1f = b AND (0xe0 OR 0x1f)" by (rule bit.conj_disj_distrib [symmetric])
  also have "(0xe0 OR 0x1f :: byte) = - 1" by simp
  finally show ?thesis by simp
qed

lemma parse_asn1_tag_canonical:
  assumes "parse_asn1_tag cbs = (Some tag, rest)"
  shows "cbs = der_tag tag @ rest"
proof -
  from assms obtain b cbs' where cbs: "cbs = b # cbs'"
    by (cases cbs) (auto simp: parse_asn1_tag_def st_bind_def)
  let ?low = "ucast (b AND 0x1f) :: u32"
  have low: "?low AND 0x1fffffff = ?low"
    by (rule bit_word_eqI) (auto simp: bit_simps bit_consts)
  have low5: "(ucast ?low :: byte) = b AND 0x1f"
    by (rule bit_word_eqI) (auto simp: bit_simps)
  show ?thesis
  proof (cases "?low = 0x1f")
    case True
    from assms cbs True obtain v where v: "parse_base128_integer cbs' = (Some v, rest)"
      "v \<le> 0x1fffffff" "0x1f \<le> v" "tag = push_bit 24 (ucast b AND 0xe0) OR ucast v"
      by (auto simp: parse_asn1_tag_def Let_def st_bind_eq_Some tag_number_mask CBS_ASN1_TAG_SHIFT_def not_less
          split: if_splits)
    have "(ucast (v AND 0x1fffffff) :: u32) AND 0x1fffffff = ucast (v AND 0x1fffffff)"
      by (rule bit_word_eqI) (auto simp: bit_simps bit_consts)
    moreover have "ucast (ucast (v AND 0x1fffffff) :: u32) = v AND 0x1fffffff"
      by (rule bit_word_eqI) (auto simp: bit_simps bit_consts)
    ultimately have vm: "(ucast v :: u32) AND 0x1fffffff = ucast v" and vv: "ucast (ucast v :: u32) = v"
      using v(2) by (simp_all add: word_le_mask_iff)
    have "unat (ucast v :: u32) = unat v"
      using unat_ucast_up [of "ucast v :: u32", where 'b = 64] vv by simp
    with v(3) have "\<not> (ucast v :: u32) < 0x1f"
      by (simp add: word_less_nat_alt word_le_nat_alt)
    moreover have "b AND 0xe0 OR 0x1f = b"
      using byte_split_e0 [of b] True low5 by simp
    moreover have "cbs' = base128_bytes v @ rest"
      using v(1) by (rule parse_base128_integer_canonical)
    ultimately show ?thesis
      using tag_decompose [OF vm, of b] v(4) vv cbs
      by (simp add: der_tag_def Let_def tag_number_mask CBS_ASN1_TAG_SHIFT_def not_less)
  next
    case False
    with assms cbs have tag: "tag = push_bit 24 (ucast b AND 0xe0) OR ?low" and "rest = cbs'"
      by (auto simp: parse_asn1_tag_def Let_def st_bind_eq_Some CBS_ASN1_TAG_SHIFT_def)
    have "b AND 0x1f = take_bit 5 b"
      by (simp add: take_bit_eq_mask mask_eq_exp_minus_1)
    then have "unat ?low < 32"
      by (simp add: unat_ucast_up take_bit_eq_mod unat_mod)
    moreover have "unat ?low \<noteq> 31"
      using False by (simp add: word_unat_eq_iff)
    ultimately have "\<not> 0x1f \<le> ?low"
      by (simp add: word_le_nat_alt)
    with tag_decompose [OF low, of b] low5 byte_split_e0 [of b] show ?thesis
      by (auto simp add: tag \<open>rest = cbs'\<close> cbs der_tag_def Let_def tag_number_mask CBS_ASN1_TAG_SHIFT_def)
  qed
qed

lemma octets_bounds: "0 < n \<Longrightarrow> 256 ^ (octets n - 1) \<le> n \<and> n < 256 ^ octets n \<and> 0 < octets n"
proof (induction n rule: octets.induct)
  case (1 n)
  show ?case
  proof (cases "n div 256 = 0")
    case True
    then have "octets (n div 256) = 0" by (simp add: octets.simps)
    with True 1 show ?thesis by (simp add: octets.simps [of n] div_eq_0_iff)
  next
    case False
    with 1 have "256 ^ (octets (n div 256) - 1) \<le> n div 256" "n div 256 < 256 ^ octets (n div 256)"
      "0 < octets (n div 256)" by auto
    then obtain k where k: "octets (n div 256) = Suc k" by (cases "octets (n div 256)") auto
    then have "256 ^ k \<le> n div 256" "n div 256 < 256 ^ Suc k"
      using \<open>256 ^ (octets (n div 256) - 1) \<le> n div 256\<close> \<open>n div 256 < 256 ^ octets (n div 256)\<close> by auto
    then have "256 ^ k * 256 \<le> n \<and> n < 256 ^ Suc k * 256"
      by (metis div_less_iff_less_mult less_eq_div_iff_mult_less_eq zero_less_numeral)
    with k 1 show ?thesis
      by (simp add: octets.simps [of n] mult.commute)
  qed
qed

lemma octets_unique:
  assumes "0 < n" and "256 ^ k \<le> n" and "n < 256 ^ Suc k"
  shows "octets n = Suc k"
proof -
  from octets_bounds [OF assms(1)] obtain m where m: "octets n = Suc m" "256 ^ m \<le> n" "n < 256 ^ Suc m"
    by (cases "octets n") auto
  have "(256::nat) ^ k < 256 ^ Suc m" using assms m by (rule_tac le_less_trans)
  moreover have "(256::nat) ^ m < 256 ^ Suc k" using assms m by (rule_tac le_less_trans)
  ultimately have "k = m"
    using power_strict_increasing_iff [of "256::nat"] by (metis le_antisym less_Suc_eq_le one_less_numeral_iff semiring_norm(76))
  with m show ?thesis by simp
qed

lemma octets_le_4: "0 < n \<Longrightarrow> n < 2 ^ 32 \<Longrightarrow> octets n \<le> 4"
proof (rule ccontr)
  assume "0 < n" "n < 2 ^ 32" "\<not> octets n \<le> 4"
  then have "256 ^ 4 \<le> (256::nat) ^ (octets n - 1)" by (intro power_increasing) auto
  with octets_bounds [OF \<open>0 < n\<close>] \<open>n < 2 ^ 32\<close> show False by simp
qed

lemma length_base128_bytes: "0 < length (base128_bytes v) \<and> length (base128_bytes v) \<le> 10"
proof -
  have "base128_len_loop v \<le> 10"
  proof (rule ccontr)
    assume "\<not> base128_len_loop v \<le> 10"
    then have "drop_bit (7 * 10) v \<noteq> 0" by (intro base128_len_loop_minimal) simp
    moreover have "drop_bit (7 * 10) v = 0"
      by (rule bit_word_eqI) (auto simp: bit_simps dest: bit_imp_le_length)
    ultimately show False by blast
  qed
  then show ?thesis by (simp add: base128_bytes_def Let_def)
qed

lemma length_der_tag: "0 < length (der_tag tag) \<and> length (der_tag tag) \<le> 11"
  using length_base128_bytes by (auto simp: der_tag_def Let_def)

lemma len_byte_high: "(0x80 OR x :: byte) AND 0x80 \<noteq> 0"
proof -
  have "bit (0x80 OR x) 7" by (simp add: bit_simps bit_consts)
  then show ?thesis using high_bit_iff by blast
qed

lemma len_byte_low: "n < 128 \<Longrightarrow> unat ((0x80 OR of_nat n :: byte) AND 0x7f) = n"
proof -
  assume n: "n < 128"
  have "(0x80 OR of_nat n :: byte) AND 0x7f = of_nat n"
  proof (rule bit_word_eqI)
    fix k assume "k < LENGTH(8)"
    then have "k < 7 \<or> k = 7" by auto
    then show "bit ((0x80 OR of_nat n :: byte) AND 0x7f) k = bit (of_nat n :: byte) k"
      using bit_small_nat [of n 7 7] n by (auto simp: bit_simps bit_consts)
  qed
  then show ?thesis using n by (simp add: unat_of_nat)
qed

lemma get_any_der_element:
  assumes "length c < 2 ^ 32"
  shows "cbs_get_any_asn1_element ber_ok (der_element tag c @ rest) =
    (Some \<lparr>el_out = der_element tag c, el_tag = tag,
           el_header_len = length (der_tag tag) + length (der_length (length c)),
           el_ber_found = False\<rparr>, rest)"
proof (cases "length c < 128")
  case True
  then have "unat (of_nat (length c) :: byte) = length c" by (simp add: unat_of_nat)
  with True show ?thesis
    by (simp add: cbs_get_any_asn1_element_def der_element_def parse_der_tag der_length_def Let_def of_nat_small_byte
       CBS_len_def CBS_get_bytes_apply st_bind_def)
next
  case False
  then have pos: "0 < length c" by auto
  define n where "n = octets (length c)"
  have n: "0 < n" "n \<le> 4" "256 ^ (n - 1) \<le> length c" "length c < 256 ^ n"
    using octets_bounds [OF pos] octets_le_4 [OF pos assms] by (auto simp: n_def)
  have len: "be_nat (be_bytes n (length c)) = length c"
    using n by (simp add: be_nat_be_bytes)
  have L: "unat (of_nat (length c) :: u64) = length c"
    using assms by (simp add: unat_of_nat)
  define h where "h = Suc (length (der_tag tag))"
  define total where "total = (of_nat (length c) + of_nat h + of_nat n :: u64)"
  have total: "unat total = length c + h + n"
    using assms n length_der_tag [of tag]
    by (simp add: total_def h_def unat_of_nat flip: of_nat_add del: of_nat_Suc)
  have "\<not> (of_nat (length c) :: u64) < 128"
    using False L by (simp add: word_less_nat_alt)
  moreover have "drop_bit ((n - Suc 0) * 8) (of_nat (length c) :: u64) \<noteq> 0"
    using n(3) L by (simp add: drop_bit_eq_0_unat power_mult mult.commute [of _ 8] not_less)
  moreover have "\<not> total < of_nat (length c)"
    using L total by (simp add: word_less_nat_alt)
  moreover have "unat ((0x80 OR of_nat n :: byte) AND 0x7f) = n"
    using n by (intro len_byte_low) simp
  ultimately show ?thesis
    using False n len_byte_high [of "of_nat n"] len total L
    by (simp add: cbs_get_any_asn1_element_def der_element_def parse_der_tag der_length_def Let_def
        CBS_len_def CBS_get_bytes_apply st_bind_def n_def [symmetric] cbs_get_u_apply h_def [symmetric] total_def [symmetric])
      (simp add: h_def)
qed

lemma len_byte_recompose:
  "lb AND 0x80 \<noteq> 0 \<Longrightarrow> (0x80 OR of_nat (unat (lb AND 0x7f)) :: byte) = lb"
proof -
  assume "lb AND 0x80 \<noteq> 0"
  then have "bit lb 7" by (simp add: high_bit_iff)
  have "(0x80 OR (lb AND 0x7f) :: byte) = lb"
  proof (rule bit_word_eqI)
    fix k assume "k < LENGTH(8)"
    then have "k < 7 \<or> k = 7" by auto
    with \<open>bit lb 7\<close> show "bit (0x80 OR (lb AND 0x7f) :: byte) k = bit lb k"
      by (auto simp: bit_simps bit_consts)
  qed
  then show ?thesis by simp
qed

lemma der_length_long:
  assumes "0 < n" and "length bs = n" and "128 \<le> be_nat bs" and "256 ^ (n - 1) \<le> be_nat bs"
  shows "der_length (be_nat bs) = (0x80 OR of_nat n) # bs"
proof -
  from assms(1) obtain k where k: "n = Suc k" by (cases n) auto
  have "octets (be_nat bs) = n"
    using octets_unique [of "be_nat bs" k] assms be_nat_less [of bs] by (simp add: k)
  with assms be_bytes_be_nat [of bs] show ?thesis
    by (simp add: der_length_def)
qed

lemma get_any_element_canonical:
  assumes "cbs_get_any_asn1_element False cbs = (Some e, rest)"
  shows "\<exists>c. length c < 2 ^ 32 \<and> cbs = der_element (el_tag e) c @ rest \<and>
    e = \<lparr>el_out = der_element (el_tag e) c, el_tag = el_tag e,
         el_header_len = length (der_tag (el_tag e)) + length (der_length (length c)),
         el_ber_found = False\<rparr>"
proof -
  from assms obtain tag header1 where tag: "parse_asn1_tag cbs = (Some tag, header1)"
    by (auto simp: cbs_get_any_asn1_element_def split: prod.splits option.splits)
  with assms obtain lb header2 where h1: "header1 = lb # header2"
    by (cases header1) (auto simp: cbs_get_any_asn1_element_def)
  have cbs: "cbs = der_tag tag @ lb # header2"
    using parse_asn1_tag_canonical [OF tag] h1 by simp
  show ?thesis
  proof (cases "lb AND 0x80 = 0")
    case True
    let ?c = "take (unat lb) header2"
    have "drop_bit 7 lb = 0"
    proof (rule bit_word_eqI)
      fix k
      show "bit (drop_bit 7 lb) k \<longleftrightarrow> bit (0 :: byte) k"
        using True high_bit_iff [of lb] by (cases k) (auto simp: bit_simps dest: bit_imp_le_length)
    qed
    then have "unat lb < 128" by (simp add: drop_bit_eq_0_unat)
    with assms tag h1 True cbs show ?thesis
      by (intro exI [of _ ?c])
        (auto simp: cbs_get_any_asn1_element_def CBS_len_def st_bind_def CBS_get_bytes_apply der_element_def der_length_def
          split: if_splits)
  next
    case False
    define n where "n = unat (lb AND 0x7f)"
    define L where "L = be_nat (take n header2)"
    from assms tag h1 False have n: "0 < n" "n \<le> 4" "n \<le> length header2" 
      and L: "\<not> (of_nat L :: u64) < 128" "drop_bit ((n - Suc 0) * 8) (of_nat L :: u64) \<noteq> 0"
      and run: "CBS_get_bytes (unat (of_nat L + of_nat (Suc (length (der_tag tag))) + of_nat n :: u64)) cbs = (Some (el_out e), rest)"
      and e: "el_tag e = tag" "el_header_len e = Suc (length (der_tag tag)) + n" "\<not> el_ber_found e"
      by (auto simp: cbs_get_any_asn1_element_def CBS_len_def n_def [symmetric] L_def cbs_get_u_apply cbs st_bind_eq_Some Let_def
          split: if_splits prod.splits option.splits)
    have L32: "L < 2 ^ 32"
    proof -
      have "(256 :: nat) ^ n \<le> 256 ^ 4" using n by (intro power_increasing) auto
      with be_nat_less [of "take n header2"] n show ?thesis by (simp add: L_def)
    qed
    then have uL: "unat (of_nat L :: u64) = L" by (simp add: unat_of_nat)
    have "unat (of_nat L + of_nat (Suc (length (der_tag tag))) + of_nat n :: u64) = L + Suc (length (der_tag tag)) + n"
      using L32 n length_der_tag [of tag] by (simp add: unat_of_nat flip: of_nat_add del: of_nat_Suc)
    with run have out: "L + n \<le> length header2" "el_out e = der_tag tag @ lb # take (L + n) header2" "rest = drop (L + n) header2"
      by (auto simp: CBS_get_bytes_apply cbs split: if_splits)
    have "der_length L = (0x80 OR of_nat n) # take n header2"
      unfolding L_def
    proof (rule der_length_long)
      show "128 \<le> be_nat (take n header2)"
        using L(1) uL by (simp add: word_less_nat_alt L_def)
      show "256 ^ (n - 1) \<le> be_nat (take n header2)"
        using L(2) uL by (simp add: drop_bit_eq_0_unat L_def power_mult mult.commute [of _ 8] not_less)
    qed (use n in auto)
    then have dl: "der_length L = lb # take n header2"
      using len_byte_recompose [OF False] by (simp add: n_def)
    have split: "header2 = take n header2 @ take L (drop n header2) @ drop (n + L) header2"
      by (metis add.commute append_take_drop_id drop_drop)
    show ?thesis
      using L32 out n e dl cbs split
      by (intro exI [of _ "take L (drop n header2)"] conjI asn1_element.equality)
        (auto simp: der_element_def take_add add.commute [of L n])
  qed
qed

subsection \<open>The readers as codecs\<close>


interpretation base128: canonical_codec base128_bytes parse_base128_integer "\<lambda>_. True"
  by unfold_locales (auto simp: parse_base128_bytes dest: parse_base128_integer_canonical)

interpretation der_tag: canonical_codec der_tag parse_asn1_tag "\<lambda>_. True"
  by unfold_locales (auto simp: parse_der_tag dest: parse_asn1_tag_canonical)

lemma CBS_skip_der_header:
  "CBS_skip (length (der_tag tag) + length (der_length (length c))) (der_element tag c) = (Some (), c)"
  by (simp add: CBS_skip_apply der_element_def)

lemma CBS_get_any_asn1_der:
  "length c < 2 ^ 32 \<Longrightarrow> CBS_get_any_asn1 (der_element tag c @ rest) = (Some (c, tag), rest)"
  by (simp add: CBS_get_any_asn1_def CBS_get_any_asn1_element_def st_bind_def get_any_der_element
      CBS_skip_der_header)

lemma CBS_get_any_asn1_canonical:
  assumes "CBS_get_any_asn1 cbs = (Some (c, tag), rest)"
  shows "length c < 2 ^ 32 \<and> cbs = der_element tag c @ rest"
proof -
  from assms obtain e where e: "cbs_get_any_asn1_element False cbs = (Some e, rest)"
    and c: "CBS_skip (el_header_len e) (el_out e) = (Some (), c)" and tag: "el_tag e = tag"
    by (auto simp: CBS_get_any_asn1_def CBS_get_any_asn1_element_def st_bind_eq_Some CBS_skip_apply
        split: if_splits)
  from get_any_element_canonical [OF e] obtain d where d: "length d < 2 ^ 32" "cbs = der_element tag d @ rest"
    "el_header_len e = length (der_tag tag) + length (der_length (length d))" "el_out e = der_element tag d"
    using tag by (metis asn1_element.select_convs(1,3))
  with c have "c = d"
    by (simp add: CBS_skip_apply der_element_def)
  with d show ?thesis by simp
qed

interpretation der_element: canonical_codec "\<lambda>(c, tag). der_element tag c" CBS_get_any_asn1 "\<lambda>(c, tag). length c < 2 ^ 32"
  by unfold_locales (auto simp: CBS_get_any_asn1_der dest: CBS_get_any_asn1_canonical)

lemma CBS_get_asn1_der:
  "length c < 2 ^ 32 \<Longrightarrow> CBS_get_asn1 tag (der_element tag c @ rest) = (Some c, rest)"
  by (simp add: CBS_get_asn1_def cbs_get_asn1_def CBS_get_any_asn1_element_def st_bind_def
      get_any_der_element CBS_skip_der_header)

lemma CBS_get_asn1_canonical:
  assumes "CBS_get_asn1 tag cbs = (Some c, rest)"
  shows "length c < 2 ^ 32 \<and> cbs = der_element tag c @ rest"
proof -
  from assms have "CBS_get_any_asn1 cbs = (Some (c, tag), rest)"
    by (force simp: CBS_get_asn1_def cbs_get_asn1_def CBS_get_any_asn1_def st_bind_eq_Some CBS_skip_apply
        split: if_splits)
  then show ?thesis by (rule CBS_get_any_asn1_canonical)
qed

interpretation der_typed: canonical_codec "der_element tag" "CBS_get_asn1 tag" "\<lambda>c. length c < 2 ^ 32"
  for tag
  by unfold_locales (auto simp: CBS_get_asn1_der dest: CBS_get_asn1_canonical)

lemma cbs_get_u_canonical:
  assumes "n \<le> 8" and "cbs_get_u n cbs = (Some v, rest)"
  shows "unat v < 256 ^ n \<and> cbs = be_bytes n (unat v) @ rest"
proof -
  from assms(2) have n: "n \<le> length cbs" and v: "v = of_nat (be_nat (take n cbs))" and rest: "rest = drop n cbs"
    by (auto simp: cbs_get_u_apply split: if_splits)
  have "unat v = be_nat (take n cbs)"
    using assms(1) by (simp add: v unat_of_nat_be_nat)
  moreover have "be_bytes n (be_nat (take n cbs)) = take n cbs"
    using be_bytes_be_nat [of "take n cbs"] n by simp
  ultimately show ?thesis
    using be_nat_less [of "take n cbs"] n rest by simp
qed

lemma cbs_get_u_be_bytes:
  "unat v < 256 ^ n \<Longrightarrow> cbs_get_u n (be_bytes n (unat v) @ rest) = (Some v, rest)"
  by (simp add: cbs_get_u_apply be_nat_be_bytes)

text \<open>The readers of 16, 24 and 32 bits narrow the 64-bit accumulator.\<close>

lemma narrow_get_u:
  assumes "8 * n \<le> LENGTH('a::len)" and "LENGTH('a) \<le> 64"
  shows "st_bind (cbs_get_u n) (\<lambda>v. st_return (ucast v :: 'a word)) cbs = (Some x, rest) \<longleftrightarrow>
         unat x < 256 ^ n \<and> cbs = be_bytes n (unat x) @ rest"
proof
  assume "st_bind (cbs_get_u n) (\<lambda>v. st_return (ucast v :: 'a word)) cbs = (Some x, rest)"
  then obtain v where "cbs_get_u n cbs = (Some v, rest)" and x: "x = ucast v"
    by (auto simp: st_bind_eq_Some)
  with cbs_get_u_canonical [of n cbs v rest] assms have v: "unat v < 256 ^ n" "cbs = be_bytes n (unat v) @ rest"
    by auto
  have "(256 :: nat) ^ n = 2 ^ (8 * n)" by (simp add: power_mult)
  also have "\<dots> \<le> 2 ^ LENGTH('a)" using assms(1) by (intro power_increasing) auto
  finally have "unat x = unat v" using v(1) by (simp add: x unat_ucast_mod)
  with v show "unat x < 256 ^ n \<and> cbs = be_bytes n (unat x) @ rest" by simp
next
  assume a: "unat x < 256 ^ n \<and> cbs = be_bytes n (unat x) @ rest"
  have x: "unat (ucast x :: u64) = unat x" using assms(2) by (simp add: unat_ucast_up)
  have "ucast (ucast x :: u64) = x"
    using assms(2) by (intro bit_word_eqI) (simp add: bit_simps)
  with a cbs_get_u_be_bytes [of "ucast x" n rest] x
  show "st_bind (cbs_get_u n) (\<lambda>v. st_return (ucast v :: 'a word)) cbs = (Some x, rest)"
    by (simp add: st_bind_def)
qed

lemma CBS_get_u16_iff: "CBS_get_u16 cbs = (Some v, rest) \<longleftrightarrow> cbs = be_bytes 2 (unat v) @ rest"
  using narrow_get_u [where 'a = 16, of 2 cbs v rest] u16_bound [of v] by (simp add: CBS_get_u16_def)

lemma CBS_get_u24_iff:
  "CBS_get_u24 cbs = (Some v, rest) \<longleftrightarrow> unat v < 2 ^ 24 \<and> cbs = be_bytes 3 (unat v) @ rest"
  using narrow_get_u [where 'a = 32, of 3 cbs v rest] by (simp add: CBS_get_u24_def)

lemma CBS_get_u32_iff: "CBS_get_u32 cbs = (Some v, rest) \<longleftrightarrow> cbs = be_bytes 4 (unat v) @ rest"
  using narrow_get_u [where 'a = 32, of 4 cbs v rest] u32_bound [of v] by (simp add: CBS_get_u32_def)

lemma CBS_get_u64_iff: "CBS_get_u64 cbs = (Some v, rest) \<longleftrightarrow> cbs = be_bytes 8 (unat v) @ rest"
  using cbs_get_u_canonical [of 8 cbs v rest] cbs_get_u_be_bytes [of v 8 rest] u64_bound [of v]
  by (auto simp: CBS_get_u64_def)

interpretation u16: canonical_codec "\<lambda>v. be_bytes 2 (unat v)" CBS_get_u16 "\<lambda>_. True"
  by unfold_locales (simp_all add: CBS_get_u16_iff)

interpretation u24: canonical_codec "\<lambda>v. be_bytes 3 (unat v)" CBS_get_u24 "\<lambda>v. unat v < 2 ^ 24"
  by unfold_locales (simp_all only: CBS_get_u24_iff simp_thms)

interpretation u32: canonical_codec "\<lambda>v. be_bytes 4 (unat v)" CBS_get_u32 "\<lambda>_. True"
  by unfold_locales (simp_all add: CBS_get_u32_iff)

interpretation u64: canonical_codec "\<lambda>v. be_bytes 8 (unat v)" CBS_get_u64 "\<lambda>_. True"
  by unfold_locales (simp_all add: CBS_get_u64_iff)

lemma get_length_prefixed_iff:
  assumes "n \<le> 8"
  shows "cbs_get_length_prefixed n cbs = (Some c, rest) \<longleftrightarrow>
         length c < 256 ^ n \<and> cbs = length_prefixed n c @ rest"
proof
  assume "cbs_get_length_prefixed n cbs = (Some c, rest)"
  then obtain len mid where len: "cbs_get_u n cbs = (Some len, mid)"
    and c: "CBS_get_bytes (unat len) mid = (Some c, rest)"
    by (auto simp: cbs_get_length_prefixed_def st_bind_eq_Some)
  from c have "c = take (unat len) mid" "unat len \<le> length mid" "rest = drop (unat len) mid"
    by (auto simp: CBS_get_bytes_apply split: if_splits)
  with cbs_get_u_canonical [OF assms len]
  show "length c < 256 ^ n \<and> cbs = length_prefixed n c @ rest"
    by (simp add: length_prefixed_def)
next
  assume a: "length c < 256 ^ n \<and> cbs = length_prefixed n c @ rest"
  have "(256 :: nat) ^ n \<le> 256 ^ 8" using assms by (intro power_increasing) auto
  with a have "unat (of_nat (length c) :: u64) = length c" by (simp add: unat_of_nat)
  with a cbs_get_u_be_bytes [of "of_nat (length c)" n "c @ rest"]
  show "cbs_get_length_prefixed n cbs = (Some c, rest)"
    by (simp add: cbs_get_length_prefixed_def length_prefixed_def st_bind_def CBS_get_bytes_apply)
qed

interpretation u8_prefixed: canonical_codec "length_prefixed 1" CBS_get_u8_length_prefixed "\<lambda>c. length c < 256 ^ 1"
  by unfold_locales (simp_all only: CBS_get_u8_length_prefixed_def get_length_prefixed_iff simp_thms)

interpretation u16_prefixed: canonical_codec "length_prefixed 2" CBS_get_u16_length_prefixed "\<lambda>c. length c < 256 ^ 2"
  by unfold_locales (simp_all add: CBS_get_u16_length_prefixed_def get_length_prefixed_iff)

interpretation u24_prefixed: canonical_codec "length_prefixed 3" CBS_get_u24_length_prefixed "\<lambda>c. length c < 256 ^ 3"
  by unfold_locales (simp_all add: CBS_get_u24_length_prefixed_def get_length_prefixed_iff)

lemma int_octets_bounds: "n < 128 * 256 ^ (int_octets n - 1) \<and> (int_octets n = 1 \<or> 128 * 256 ^ (int_octets n - 2) \<le> n)"
proof (cases "n div 128 = 0")
  case True
  then show ?thesis by (simp add: int_octets_def octets.simps)
next
  case False
  then have "256 ^ (octets (n div 128) - 1) \<le> n div 128" "n div 128 < 256 ^ octets (n div 128)"
    using octets_bounds [of "n div 128"] by auto
  then have "256 ^ (octets (n div 128) - 1) * 128 \<le> n" "n < 256 ^ octets (n div 128) * 128"
    by (simp_all add: less_eq_div_iff_mult_less_eq div_less_iff_less_mult)
  then show ?thesis by (simp add: int_octets_def mult.commute)
qed

lemma int_octets_unique:
  assumes "n < 128 * 256 ^ k" and "k = 0 \<or> 128 * 256 ^ (k - 1) \<le> n"
  shows "int_octets n = Suc k"
proof (cases k)
  case 0
  with assms show ?thesis by (simp add: int_octets_def octets.simps)
next
  case (Suc j)
  with assms have "256 ^ j * 128 \<le> n" "n < 256 ^ Suc j * 128" by simp_all
  then have "256 ^ j \<le> n div 128" "n div 128 < 256 ^ Suc j"
    by (simp_all only: less_eq_div_iff_mult_less_eq div_less_iff_less_mult zero_less_numeral)
  moreover have "0 < n div 128" using calculation by (metis gr0I not_exp_less_eq_0_int power_eq_0_iff le_zero_eq zero_neq_numeral)
  ultimately show ?thesis using octets_unique [of "n div 128" j] Suc by (simp add: int_octets_def)
qed

lemma is_unsigned_simps:
  "\<not> CBS_is_unsigned_asn1_integer []"
  "CBS_is_unsigned_asn1_integer [a] \<longleftrightarrow> unat a < 128"
  "CBS_is_unsigned_asn1_integer (a # b # cs) \<longleftrightarrow> unat a < 128 \<and> (a = 0 \<longrightarrow> 128 \<le> unat b)"
  by (auto simp: CBS_is_unsigned_asn1_integer_def CBS_is_valid_asn1_integer_def byte_high_bit_ge Let_def
      split: if_splits)

lemma int_octets_Cons2:
  "int_octets (be_nat (a # b # cs)) = length (a # b # cs) \<longleftrightarrow> unat a < 128 \<and> (a = 0 \<longrightarrow> 128 \<le> unat b)"
  (is "int_octets ?N = _ \<longleftrightarrow> ?valid")
proof -
  let ?p = "256 ^ length cs :: nat"
  have N: "?N = unat a * (256 * ?p) + (unat b * ?p + be_nat cs)" and R: "be_nat cs < ?p"
    using be_nat_less [of cs] by (simp_all add: be_nat_Cons)
  have bR: "unat b * ?p + be_nat cs < 256 * ?p"
    using be_nat_less [of "b # cs"] by (simp add: be_nat_Cons)
  have hi: "?N < 128 * (256 * ?p) \<longleftrightarrow> unat a < 128"
  proof
    assume "?N < 128 * (256 * ?p)"
    then have "unat a * (256 * ?p) < 128 * (256 * ?p)" using N by linarith
    then show "unat a < 128" by simp
  next
    assume "unat a < 128"
    then have "Suc (unat a) * (256 * ?p) \<le> 128 * (256 * ?p)" by (intro mult_le_mono1) simp
    then show "?N < 128 * (256 * ?p)" using N bR by (simp only: mult_Suc)
  qed
  have lo: "128 * ?p \<le> ?N \<longleftrightarrow> a \<noteq> 0 \<or> 128 \<le> unat b"
  proof (cases "a = 0")
    case True
    have "128 * ?p \<le> unat b * ?p + be_nat cs \<longleftrightarrow> 128 \<le> unat b"
    proof
      assume "128 * ?p \<le> unat b * ?p + be_nat cs"
      with R have "128 * ?p < Suc (unat b) * ?p" by (simp only: mult_Suc)
      then show "128 \<le> unat b" by simp
    next
      assume "128 \<le> unat b"
      then have "128 * ?p \<le> unat b * ?p" by (rule mult_le_mono1)
      then show "128 * ?p \<le> unat b * ?p + be_nat cs" by (rule trans_le_add1)
    qed
    with True N show ?thesis by simp
  next
    case False
    then have "1 * (256 * ?p) \<le> unat a * (256 * ?p)"
      by (intro mult_le_mono1) (simp add: Suc_le_eq unat_gt_0)
    then have "128 * ?p \<le> ?N" unfolding N by linarith
    with False show ?thesis by simp
  qed
  show ?thesis
  proof
    assume "int_octets ?N = length (a # b # cs)"
    with int_octets_bounds [of ?N] hi lo show ?valid by auto
  next
    assume ?valid
    with hi lo have "int_octets ?N = Suc (Suc (length cs))" by (intro int_octets_unique) auto
    then show "int_octets ?N = length (a # b # cs)" by simp
  qed
qed

lemma unsigned_integer_iff:
  "CBS_is_unsigned_asn1_integer bs \<longleftrightarrow> bs = uint_contents (be_nat bs)"
proof -
  have "bs = uint_contents (be_nat bs) \<longleftrightarrow> int_octets (be_nat bs) = length bs"
    by (metis uint_contents_def length_be_bytes be_bytes_be_nat)
  also have "\<dots> \<longleftrightarrow> CBS_is_unsigned_asn1_integer bs"
  proof (cases bs)
    case Nil
    then show ?thesis by (simp add: is_unsigned_simps int_octets_def)
  next
    case (Cons a as)
    note a = this
    show ?thesis
    proof (cases as)
      case Nil
      have "octets n = 0 \<longleftrightarrow> n = 0" for n by (simp add: octets.simps)
      then show ?thesis using a Nil
        by (simp add: is_unsigned_simps int_octets_def be_nat_def div_eq_0_iff)
    next
      case (Cons b cs)
      then show ?thesis using a int_octets_Cons2 [of a b cs] by (simp add: is_unsigned_simps)
    qed
  qed
  finally show ?thesis by simp
qed

lemma uint64_loop_eq:
  "asn1_uint64_loop out bs =
     (if unat out * 256 ^ length bs + be_nat bs < 2 ^ 64
      then Some (of_nat (unat out * 256 ^ length bs + be_nat bs)) else None)"
proof (induction bs arbitrary: out)
  case Nil
  then show ?case using u64_bound [of out] by simp
next
  case (Cons b bs)
  let ?p = "256 ^ length bs :: nat"
  show ?case
  proof (cases "drop_bit 56 out = 0")
    case True
    then have "unat out < 2 ^ 56" by (simp add: drop_bit_eq_0_unat)
    then have "unat (push_bit 8 out OR ucast b) = unat out * 256 + unat b"
      using byte_bound [of b]
      by (simp add: be_step_word unat_word_ariths unat_ucast_up)
    with Cons True show ?thesis by (simp add: be_nat_Cons algebra_simps)
  next
    case False
    then have "2 ^ 56 \<le> unat out" by (simp add: drop_bit_eq_0_unat not_less)
    then have "2 ^ 56 * (256 * 1) \<le> unat out * (256 * ?p)" by (intro mult_le_mono) simp_all
    then show ?thesis using False by (simp add: be_nat_Cons)
  qed
qed

lemma be_nat_uint_contents: "be_nat (uint_contents n) = n"
proof -
  have "n < 256 ^ int_octets n"
    using int_octets_bounds [of n] by (simp add: int_octets_def)
  then show ?thesis by (simp add: uint_contents_def be_nat_be_bytes)
qed

lemma length_uint_contents: "length (uint_contents (unat v)) \<le> 9" for v :: u64
proof (rule ccontr)
  assume "\<not> ?thesis"
  then have o: "10 \<le> int_octets (unat v)" by (simp add: uint_contents_def)
  then have "(256 :: nat) ^ 8 \<le> 256 ^ (int_octets (unat v) - 2)" by (intro power_increasing) auto
  with int_octets_bounds [of "unat v"] o u64_bound [of v] show False by simp
qed

lemma CBS_get_asn1_uint64_iff:
  "CBS_get_asn1_uint64 cbs = (Some v, rest) \<longleftrightarrow> cbs = der_uint64 v @ rest"
proof
  assume "CBS_get_asn1_uint64 cbs = (Some v, rest)"
  then obtain bs where bs: "CBS_get_asn1 CBS_ASN1_INTEGER cbs = (Some bs, rest)"
    and u: "CBS_is_unsigned_asn1_integer bs" and v: "asn1_uint64_loop 0 bs = Some v"
    by (auto simp: CBS_get_asn1_uint64_def st_bind_eq_Some split: if_splits option.splits)
  from v have "unat v = be_nat bs"
    by (auto simp: uint64_loop_eq unat_of_nat split: if_splits)
  with u have "bs = uint_contents (unat v)" by (simp only: unsigned_integer_iff)
  with CBS_get_asn1_canonical [OF bs] show "cbs = der_uint64 v @ rest"
    by (simp add: der_uint64_def)
next
  assume "cbs = der_uint64 v @ rest"
  moreover have "length (uint_contents (unat v)) < 2 ^ 32"
    using length_uint_contents [of v] by simp
  moreover have "CBS_is_unsigned_asn1_integer (uint_contents (unat v))"
    by (simp add: unsigned_integer_iff be_nat_uint_contents)
  moreover have "asn1_uint64_loop 0 (uint_contents (unat v)) = Some v"
    using u64_bound [of v] by (simp add: uint64_loop_eq be_nat_uint_contents)
  ultimately show "CBS_get_asn1_uint64 cbs = (Some v, rest)"
    by (simp add: CBS_get_asn1_uint64_def der_uint64_def st_bind_def CBS_get_asn1_der)
qed

interpretation der_uint64: canonical_codec der_uint64 CBS_get_asn1_uint64 "\<lambda>_. True"
  by unfold_locales (simp_all add: CBS_get_asn1_uint64_iff)

lemma CBS_get_asn1_bool_iff: "CBS_get_asn1_bool cbs = (Some b, rest) \<longleftrightarrow> cbs = der_bool b @ rest"
proof
  assume "CBS_get_asn1_bool cbs = (Some b, rest)"
  then obtain bs where bs: "CBS_get_asn1 CBS_ASN1_BOOLEAN cbs = (Some bs, rest)"
    and len: "length bs = 1" and v: "hd bs = 0 \<or> hd bs = 0xff" and b: "b = (hd bs \<noteq> 0)"
    by (auto simp: CBS_get_asn1_bool_def st_bind_eq_Some CBS_len_def Let_def split: if_splits)
  from len v b have "bs = [if b then 0xff else 0]"
    by (cases bs) auto
  with CBS_get_asn1_canonical [OF bs] show "cbs = der_bool b @ rest"
    by (simp add: der_bool_def)
next
  assume "cbs = der_bool b @ rest"
  then show "CBS_get_asn1_bool cbs = (Some b, rest)"
    by (simp add: CBS_get_asn1_bool_def der_bool_def st_bind_def CBS_get_asn1_der CBS_len_def Let_def)
qed

interpretation der_bool: canonical_codec der_bool CBS_get_asn1_bool "\<lambda>_. True"
  by unfold_locales (simp_all add: CBS_get_asn1_bool_iff)

lemma be_nat_map_not: "be_nat (map NOT bs) = 256 ^ length bs - 1 - be_nat bs"
proof (induction bs rule: rev_induct)
  case Nil
  then show ?case by simp
next
  case (snoc b bs)
  then show ?case
    using be_nat_less [of bs] byte_bound [of b] by (simp add: unat_not_byte algebra_simps)
qed

lemma valid_integer_iff:
  "CBS_is_valid_asn1_integer bs = (True, neg) \<longleftrightarrow> CBS_is_unsigned_asn1_integer (sign_flip neg bs)"
proof -
  have eqs: "a = 0 \<longleftrightarrow> unat a = 0" "a = 0xff \<longleftrightarrow> unat a = 255" for a :: byte
    by (simp_all add: word_unat_eq_iff)
  show ?thesis
  proof (cases bs rule: remdups_adj.cases)
    case (3 a b cs)
    then show ?thesis
      using byte_bound [of a] byte_bound [of b]
      by (auto simp: sign_flip_def is_unsigned_simps CBS_is_valid_asn1_integer_def byte_high_bit_ge
          Let_def eqs [of a] eqs(1) [of "NOT a"] unat_not_byte simp del: unat_eq_0 unat_eq_zero)
  qed (auto simp: sign_flip_def is_unsigned_simps CBS_is_valid_asn1_integer_def byte_high_bit_ge
      Let_def unat_not_byte)
qed

lemma foldl_store:
  "k \<le> length data \<Longrightarrow> length data \<le> length u \<Longrightarrow>
   foldl (\<lambda>u i. u [i := data ! (length data - Suc i)]) u [0..<k] = take k (rev data) @ drop k u"
proof (induction k)
  case 0
  then show ?case by simp
next
  case (Suc k)
  then have "rev data ! k = data ! (length data - k - 1)"
    by (simp add: rev_nth)
  moreover from Suc have "length (take k (rev data)) = k" "drop k u = u ! k # drop (Suc k) u"
    by (simp_all add: Cons_nth_drop_Suc)
  ultimately show ?case
    using Suc by (simp add: take_Suc_conv_app_nth list_update_append)
qed

lemma le_word64_eq: "le_word64 bs = of_nat (be_nat (rev bs))"
  by (induction bs) (simp_all add: or.commute [of "ucast _"] be_step_word mult.commute)

lemma be_nat_replicate_0: "be_nat (replicate k 0 @ bs) = be_nat bs"
  by (induction k) (simp_all add: be_nat_Cons)

lemma unat_int64_word:
  assumes "length bs \<le> 8"
  shows "unat (if neg then NOT (int64_word neg bs) else int64_word neg bs) = be_nat (sign_flip neg bs)"
proof -
  let ?xs = "replicate (8 - length bs) (if neg then 0xff else 0) @ bs"
  have "int64_word neg bs = of_nat (be_nat ?xs)"
    using assms by (simp add: int64_word_def foldl_store le_word64_eq)
  moreover have len: "length ?xs = 8" using assms by simp
  ultimately have w: "unat (int64_word neg bs) = be_nat ?xs"
    using unat_of_nat_be_nat [of ?xs] by simp
  show ?thesis
  proof (cases neg)
    case True
    have "map NOT ?xs = replicate (8 - length bs) 0 @ map NOT bs" using True by simp
    then have "be_nat (map NOT bs) = 256 ^ 8 - 1 - be_nat ?xs"
      using be_nat_map_not [of ?xs] be_nat_replicate_0 [of "8 - length bs" "map NOT bs"] len
      by (simp only:)
    with True w show ?thesis by (simp add: unat_not sign_flip_def)
  next
    case False
    with w show ?thesis by (simp add: sign_flip_def be_nat_replicate_0)
  qed
qed

lemma sint_nonneg_iff: "sint v \<ge> 0 \<longleftrightarrow> unat v < 2 ^ 63" for v :: u64
  using bit_last_iff [of v] by (simp add: bit63_iff) linarith

lemma int64_contents_flip:
  defines "m \<equiv> \<lambda>v. unat (if sint v \<ge> 0 then v else NOT v)"
  shows "sign_flip (sint v < 0) (int64_contents v) = uint_contents (m v)" and "length (int64_contents v) \<le> 8"
proof -
  have m: "m v < 2 ^ 63"
    using u64_bound [of v] by (auto simp: m_def sint_nonneg_iff unat_not not_less)
  show "length (int64_contents v) \<le> 8"
  proof (rule ccontr)
    assume "\<not> ?thesis"
    then have o: "9 \<le> int_octets (m v)" by (simp add: int64_contents_def m_def)
    then have "(256 :: nat) ^ 7 \<le> 256 ^ (int_octets (m v) - 2)" by (intro power_increasing) auto
    with int_octets_bounds [of "m v"] o m show False by simp
  qed
  then have le8: "int_octets (m v) \<le> 8" by (simp add: int64_contents_def m_def)
  show "sign_flip (sint v < 0) (int64_contents v) = uint_contents (m v)"
  proof (cases "sint v \<ge> 0")
    case True
    then show ?thesis by (simp add: sign_flip_def int64_contents_def uint_contents_def m_def)
  next
    case False
    let ?k = "int_octets (m v)"
    have "be_nat (map NOT (be_bytes ?k (unat v))) = 256 ^ ?k - 1 - unat v mod 256 ^ ?k"
      by (simp add: be_nat_map_not be_nat_be_bytes)
    also have "\<dots> = m v"
    proof -
      have mk: "m v < 256 ^ ?k"
        using int_octets_bounds [of "m v"] by (simp add: int_octets_def)
      obtain j where j: "(256 :: nat) ^ (8 - ?k) = Suc j"
        by (metis gr0_implies_Suc zero_less_numeral zero_less_power)
      have "(256 :: nat) ^ 8 = 256 ^ ?k * Suc j"
        using le8 by (simp add: j [symmetric] flip: power_add)
      then have j64: "256 ^ ?k + 256 ^ ?k * j = (2 :: nat) ^ 64" by simp
      have "m v = 2 ^ 64 - 1 - unat v" using False by (simp add: m_def unat_not)
      with j64 mk u64_bound [of v] have "unat v = (256 ^ ?k - 1 - m v) + 256 ^ ?k * j"
        by linarith
      then have "unat v mod 256 ^ ?k = (256 ^ ?k - 1 - m v) mod 256 ^ ?k"
        by (simp only: mod_mult_self2)
      also have "\<dots> = 256 ^ ?k - 1 - m v"
        by (rule mod_less) simp
      finally have "unat v mod 256 ^ ?k = 256 ^ ?k - 1 - m v" .
      with mk show ?thesis by simp
    qed
    finally have "map NOT (be_bytes ?k (unat v)) = be_bytes ?k (m v)"
      by (metis be_bytes_be_nat length_map length_be_bytes)
    with False show ?thesis
      by (simp add: sign_flip_def int64_contents_def uint_contents_def m_def)
  qed
qed

lemma CBS_get_asn1_int64_word:
  "CBS_get_asn1_int64 cbs = (Some v, rest) \<longleftrightarrow>
     (\<exists>bs neg. CBS_get_asn1 CBS_ASN1_INTEGER cbs = (Some bs, rest) \<and> length bs \<le> 8 \<and>
        CBS_is_valid_asn1_integer bs = (True, neg) \<and> v = int64_word neg bs)"
proof -
  have eq: "CBS_get_asn1_int64 = st_bind (CBS_get_asn1 CBS_ASN1_INTEGER) (\<lambda>bs.
      case CBS_is_valid_asn1_integer bs of (valid, neg) \<Rightarrow>
        if \<not> valid then st_fail else if 8 < length bs then st_fail else st_return (int64_word neg bs))"
    by (simp only: CBS_get_asn1_int64_def Let_def CBS_len_def int64_word_def)
  show ?thesis
    unfolding eq
    by (auto simp: st_bind_eq_Some split_beta prod_eq_iff [of "CBS_is_valid_asn1_integer _"] not_less
        split: if_splits)
qed

lemma CBS_get_asn1_int64_iff:
  "CBS_get_asn1_int64 cbs = (Some v, rest) \<longleftrightarrow> cbs = der_int64 v @ rest"
proof
  assume "CBS_get_asn1_int64 cbs = (Some v, rest)"
  then obtain bs neg where bs: "CBS_get_asn1 CBS_ASN1_INTEGER cbs = (Some bs, rest)" and len: "length bs \<le> 8"
    and valid: "CBS_is_valid_asn1_integer bs = (True, neg)" and v: "v = int64_word neg bs"
    by (auto simp: CBS_get_asn1_int64_word)
  let ?m = "unat (if neg then NOT v else v)"
  have m: "?m = be_nat (sign_flip neg bs)"
    using unat_int64_word [OF len, of neg] by (simp only: v)
  have flip: "sign_flip neg bs = uint_contents ?m"
    using valid m by (simp only: valid_integer_iff unsigned_integer_iff)
  then have "length bs = int_octets ?m"
    by (auto simp: sign_flip_def uint_contents_def dest: arg_cong [of _ _ length])
  then have "?m < 128 * 256 ^ (length bs - 1)" using int_octets_bounds [of ?m] by simp
  also have "(128 :: nat) * 256 ^ (length bs - 1) \<le> 128 * 256 ^ 7"
    using len by (intro mult_le_mono2 power_increasing) auto
  finally have "?m < 2 ^ 63" by simp
  then have neg: "neg \<longleftrightarrow> sint v < 0"
    using sint_nonneg_iff [of v] u64_bound [of v] by (auto simp: unat_not split: if_splits)
  have "sign_flip neg bs = sign_flip neg (int64_contents v)"
    using int64_contents_flip(1) [of v] flip neg by (auto simp: not_less)
  then have "bs = int64_contents v"
    by (auto simp: sign_flip_def inj_map_eq_map [OF inj_on_inverseI, of NOT NOT] split: if_splits)
  with CBS_get_asn1_canonical [OF bs] show "cbs = der_int64 v @ rest"
    by (simp add: der_int64_def)
next
  assume cbs: "cbs = der_int64 v @ rest"
  let ?bs = "int64_contents v" and ?neg = "sint v < 0"
  have len: "length ?bs \<le> 8" by (rule int64_contents_flip)
  have flip: "sign_flip ?neg ?bs = uint_contents (unat (if sint v \<ge> 0 then v else NOT v))"
    by (rule int64_contents_flip)
  have "CBS_is_valid_asn1_integer ?bs = (True, ?neg)"
    unfolding valid_integer_iff flip by (simp add: unsigned_integer_iff be_nat_uint_contents)
  moreover have "unat (if ?neg then NOT (int64_word ?neg ?bs) else int64_word ?neg ?bs) = unat (if sint v \<ge> 0 then v else NOT v)"
    unfolding unat_int64_word [OF len] flip by (simp add: be_nat_uint_contents)
  then have "v = int64_word ?neg ?bs"
    by (cases "sint v < 0") (simp_all add: not_less word_unat_eq_iff [symmetric])
  ultimately show "CBS_get_asn1_int64 cbs = (Some v, rest)"
    using len cbs unfolding CBS_get_asn1_int64_word der_int64_def
    by (intro exI [of _ ?bs] exI [of _ ?neg]) (simp add: CBS_get_asn1_der)
qed

interpretation der_int64: canonical_codec der_int64 CBS_get_asn1_int64 "\<lambda>_. True"
  by unfold_locales (simp_all add: CBS_get_asn1_int64_iff)

text \<open>C2. The DER reader accepts exactly the canonical encodings: it returns an element if and
  only if its input starts with the one encoding of that element, for every tag that fits the
  32-bit representation and contents of up to \<open>2 ^ 32 - 1\<close> bytes.\<close>

theorem der_reader_exact:
  "CBS_get_any_asn1 cbs = (Some (c, tag), rest) \<longleftrightarrow> length c < 2 ^ 32 \<and> cbs = der_element tag c @ rest"
  using der_element.dec_iff [of cbs "(c, tag)" rest] by simp

text \<open>A truncated element is never accepted.\<close>

theorem der_truncated_rejected:
  assumes "length c < 2 ^ 32" and "der_element tag c = p @ q" and "q \<noteq> []"
  shows "fst (CBS_get_any_asn1 p) = None"
  using der_element.dec_truncated [of "(c, tag)" p q] assms by simp

theorem der_truncated_rejected_witness: "fst (CBS_get_any_asn1 [0x04, 2, 7]) = None"
proof (rule der_truncated_rejected [of "[7, 8]" 4 _ "[8]"])
  have "der_tag 4 = [4]" by code_simp
  then show "der_element 4 [7, 8] = [0x04, 2, 7] @ [8]"
    by (simp add: der_element_def der_length_def)
qed simp_all

text \<open>\<open>parse_base128_integer\<close> accepts exactly the minimal base-128 encodings of 64-bit
  integers, and a sequence of them parses in one way only.\<close>

theorem base128_exact:
  "parse_base128_integer cbs = (Some v, rest) \<longleftrightarrow> cbs = base128_bytes v @ rest"
  using base128.dec_iff [of cbs v rest] by simp

text \<open>C6. The integer readers accept exactly the minimal two's complement encodings whose value
  fits: any other INTEGER is rejected.\<close>

theorem asn1_int_readers_exact:
  "(CBS_get_asn1_uint64 cbs = (Some v, rest) \<longleftrightarrow>
      cbs = der_element CBS_ASN1_INTEGER (uint_contents (unat v)) @ rest) \<and>
   (CBS_get_asn1_int64 cbs = (Some v, rest) \<longleftrightarrow>
      cbs = der_element CBS_ASN1_INTEGER (int64_contents v) @ rest)"
  by (simp add: CBS_get_asn1_uint64_iff CBS_get_asn1_int64_iff der_uint64_def der_int64_def)

text \<open>The reader that tolerates BER agrees with the strict one wherever the strict one
  succeeds, and reports no BER there.\<close>

theorem ber_reader_extends_der:
  assumes "cbs_get_any_asn1_element False cbs = (Some e, rest)"
  shows "CBS_get_any_ber_asn1_element cbs = (Some e, rest) \<and> \<not> el_ber_found e"
proof -
  from get_any_element_canonical [OF assms] obtain c where c: "length c < 2 ^ 32"
    "cbs = der_element (el_tag e) c @ rest"
    "e = \<lparr>el_out = der_element (el_tag e) c, el_tag = el_tag e,
         el_header_len = length (der_tag (el_tag e)) + length (der_length (length c)),
         el_ber_found = False\<rparr>"
    by blast
  from get_any_der_element [OF c(1), of True "el_tag e" rest] c(2,3) show ?thesis
    by (metis CBS_get_any_ber_asn1_element_def asn1_element.select_convs(4))
qed

theorem ber_reader_extends_der_witness:
  "CBS_get_any_ber_asn1_element [0x04, 1, 9, 3] =
     (Some \<lparr>el_out = [0x04, 1, 9], el_tag = 4, el_header_len = 2, el_ber_found = False\<rparr>, [3])"
proof -
  have "cbs_get_any_asn1_element False [0x04, 1, 9, 3] =
     (Some \<lparr>el_out = [0x04, 1, 9], el_tag = 4, el_header_len = 2, el_ber_found = False\<rparr>, [3])"
    by code_simp
  from ber_reader_extends_der [OF this] show ?thesis by simp
qed

lemma restores_intros:
  "restores cbs (None, cbs)"
  "restores cbs x \<Longrightarrow> restores cbs y \<Longrightarrow> restores cbs (if b then x else y)"
  "restores cbs (st_bind (CBS_get_bytes n) (\<lambda>out. st_return (f out)) cbs)"
  "(\<And>a h. restores cbs (g a h)) \<Longrightarrow> restores cbs (case r of (None, _) \<Rightarrow> (None, cbs) | (Some a, h) \<Rightarrow> g a h)"
  by (auto simp: restores_def st_bind_def CBS_get_bytes_apply split: prod.split option.split)

text \<open>A failing read leaves the input where it was, in strict and in BER mode.\<close>

theorem any_element_failure_restores:
  assumes "fst (cbs_get_any_asn1_element ber_ok cbs) = None"
  shows "snd (cbs_get_any_asn1_element ber_ok cbs) = cbs"
proof -
  have "restores cbs (cbs_get_any_asn1_element ber_ok cbs)"
    unfolding cbs_get_any_asn1_element_def Let_def by (intro restores_intros)
  with assms show ?thesis by (simp add: restores_def)
qed

theorem any_element_failure_restores_witness:
  "snd (cbs_get_any_asn1_element True [0x04, 0x80, 1]) = [0x04, 0x80, 1]"
  by (rule any_element_failure_restores) code_simp

text \<open>C7. Length-prefixed vectors: the 8-, 16- and 24-bit readers return a vector exactly when
  the input starts with its big-endian length and its bytes.\<close>

theorem length_prefixed_exact:
  "(CBS_get_u8_length_prefixed cbs = (Some c, rest) \<longleftrightarrow> length c < 2 ^ 8 \<and> cbs = length_prefixed 1 c @ rest) \<and>
   (CBS_get_u16_length_prefixed cbs = (Some c, rest) \<longleftrightarrow> length c < 2 ^ 16 \<and> cbs = length_prefixed 2 c @ rest) \<and>
   (CBS_get_u24_length_prefixed cbs = (Some c, rest) \<longleftrightarrow> length c < 2 ^ 24 \<and> cbs = length_prefixed 3 c @ rest)"
  using u8_prefixed.dec_iff [of cbs c rest] u16_prefixed.dec_iff [of cbs c rest] u24_prefixed.dec_iff [of cbs c rest]
  by simp

end
