(* ===== verification/Writer.thy ===== *)
theory Writer
  imports Der
begin

text \<open>
  What the writer of cbb.c promises, and that it does. The abstract state of a writer is the
  bytes of the root followed by the open children, each with the kind of its length prefix and
  the bytes written to it so far; closing the children from the inside out gives the bytes that
  \<open>CBB_finish\<close> returns.
\<close>

subsection \<open>The abstract writer\<close>

datatype prefix = Len_prefix nat | Asn1_prefix

fun pend :: "prefix \<Rightarrow> nat" where
  "pend (Len_prefix n) = n"
| "pend Asn1_prefix = 1"

fun prefix_bytes :: "prefix \<Rightarrow> nat \<Rightarrow> byte list" where
  "prefix_bytes (Len_prefix n) len = be_bytes n len"
| "prefix_bytes Asn1_prefix len = der_length len"

fun prefix_ok :: "prefix \<Rightarrow> nat \<Rightarrow> bool" where
  "prefix_ok (Len_prefix n) len \<longleftrightarrow> len < 256 ^ n"
| "prefix_ok Asn1_prefix len \<longleftrightarrow> len \<le> 0xfffffffe"

type_synonym frames = "(prefix \<times> byte list) list"

type_synonym awriter = "byte list \<times> frames"

fun close :: "frames \<Rightarrow> byte list" where
  "close [] = []"
| "close ((p, d) # fs) = (let body = d @ close fs in prefix_bytes p (length body) @ body)"

fun closable :: "frames \<Rightarrow> bool" where
  "closable [] \<longleftrightarrow> True"
| "closable ((p, d) # fs) \<longleftrightarrow> closable fs \<and> prefix_ok p (length (d @ close fs))"

fun frame_layout :: "frames \<Rightarrow> byte list" where
  "frame_layout [] = []"
| "frame_layout ((p, d) # fs) = replicate (pend p) 0 @ d @ frame_layout fs"

definition child_of :: "nat \<Rightarrow> prefix \<Rightarrow> cbb" where
  "child_of off p = \<lparr>cbb_offset = off, cbb_pending_len_len = pend p, cbb_pending_is_asn1 = (p = Asn1_prefix),
                     cbb_is_child = True\<rparr>"

fun children :: "nat \<Rightarrow> frames \<Rightarrow> cbb list" where
  "children off [] = []"
| "children off ((p, d) # fs) =
     child_of off p # children (off + pend p + length d) fs"

definition frames_ok :: "frames \<Rightarrow> bool" where
  "frames_ok fs \<longleftrightarrow> (\<forall>(p, d) \<in> set fs. 0 < pend p \<and> pend p \<le> 8)"

definition buf_wf :: "cbb_buffer \<Rightarrow> bool" where
  "buf_wf b \<longleftrightarrow> cb_len b \<le> cb_cap b \<and> cb_cap b = length (cb_buf b) \<and> cb_cap b < 2 ^ 64"

definition contents :: "cbb_buffer \<Rightarrow> byte list" where
  "contents b = take (cb_len b) (cb_buf b)"

definition roomy :: "allocator \<Rightarrow> cbb_buffer \<Rightarrow> bool" where
  "roomy malloc b \<longleftrightarrow> (\<forall>n. malloc n \<noteq> None) \<and> cb_can_resize b \<and> cb_cap b < 2 ^ 63"

text \<open>The capacity that \<open>cbb_buffer_reserve\<close> grows to.\<close>

definition grown_cap :: "cbb_buffer \<Rightarrow> nat \<Rightarrow> nat" where
  "grown_cap b newlen =
     (let newcap = size_mul (cb_cap b) 2 in if newcap < cb_cap b \<or> newcap < newlen then newlen else newcap)"

text \<open>
  What writing a length prefix promises: on success the bytes \<open>out\<close> replace the contents, which
  is possible only under \<open>fit\<close>; failing sets the error flag; and it succeeds whenever \<open>fit\<close>
  holds, the allocator never fails and the sizes stay far from the end of the address space.
\<close>

definition flush_result :: "allocator \<Rightarrow> bool \<Rightarrow> byte list \<Rightarrow> cbb_buffer \<Rightarrow> bool \<Rightarrow> cbb_buffer \<Rightarrow> bool" where
  "flush_result malloc fit out b ok b' \<longleftrightarrow>
     (ok \<longrightarrow> fit \<and> buf_wf b' \<and> contents b' = out \<and> cb_error b' = cb_error b \<and>
             (roomy malloc b \<longrightarrow> length out < 2 ^ 62 \<longrightarrow> roomy malloc b')) \<and>
     (\<not> ok \<longrightarrow> cb_error b') \<and>
     (fit \<longrightarrow> roomy malloc b \<longrightarrow> length out < 2 ^ 62 \<longrightarrow> ok)"

subsection \<open>The buffer\<close>

text \<open>
  The part of an abstract writer below depth \<open>k\<close>, the bytes in front of it, and the update of
  that part.
\<close>

fun sub_at :: "nat \<Rightarrow> awriter \<Rightarrow> awriter" where
  "sub_at (Suc k) (r, (p, d) # fs) = sub_at k (d, fs)"
| "sub_at k st = st"

fun outer_at :: "nat \<Rightarrow> awriter \<Rightarrow> byte list" where
  "outer_at (Suc k) (r, (p, d) # fs) = r @ replicate (pend p) 0 @ outer_at k (d, fs)"
| "outer_at k st = []"

fun at_depth :: "nat \<Rightarrow> (awriter \<Rightarrow> awriter) \<Rightarrow> awriter \<Rightarrow> awriter" where
  "at_depth (Suc k) f (r, (p, d) # fs) = (case at_depth k f (d, fs) of (d', fs') \<Rightarrow> (r, (p, d') # fs'))"
| "at_depth 0 f st = f st"
| "at_depth (Suc k) f (r, []) = (r, [])"

definition aflush :: "nat \<Rightarrow> awriter \<Rightarrow> awriter" where
  "aflush k = at_depth k (\<lambda>(r, fs). (r @ close fs, []))"

definition aappend :: "nat \<Rightarrow> byte list \<Rightarrow> awriter \<Rightarrow> awriter" where
  "aappend k bs = at_depth k (\<lambda>(r, fs). (r @ close fs @ bs, []))"

definition aopen :: "nat \<Rightarrow> byte list \<Rightarrow> prefix \<Rightarrow> awriter \<Rightarrow> awriter" where
  "aopen k bs p = at_depth k (\<lambda>(r, fs). (r @ close fs @ bs, [(p, [])]))"

definition layout :: "awriter \<Rightarrow> byte list" where
  "layout st = fst st @ frame_layout (snd st)"

definition chain_of :: "cbb \<Rightarrow> nat \<Rightarrow> awriter \<Rightarrow> cbb list" where
  "chain_of c off st = c # children (off + length (fst st)) (snd st)"

definition depth :: "awriter \<Rightarrow> nat" where
  "depth st = length (snd st)"

definition refines :: "cbb_writer \<Rightarrow> awriter \<Rightarrow> bool" where
  "refines w st \<longleftrightarrow>
     (case cw_base w of
        None \<Rightarrow> False
      | Some b \<Rightarrow> buf_wf b \<and> \<not> cb_error b \<and> contents b = layout st \<and>
                  cw_chain w = chain_of CBB_zero 0 st \<and> frames_ok (snd st))"

definition failed :: "cbb_writer \<Rightarrow> bool" where
  "failed w \<longleftrightarrow> (case cw_base w of None \<Rightarrow> False | Some b \<Rightarrow> cb_error b)"

definition roomy_writer :: "allocator \<Rightarrow> cbb_writer \<Rightarrow> bool" where
  "roomy_writer malloc w \<longleftrightarrow> (case cw_base w of None \<Rightarrow> False | Some b \<Rightarrow> roomy malloc b)"

text \<open>
  The contract of a writing operation: applied to a writer that refines an abstract state
  satisfying \<open>D\<close>, it either succeeds, which implies \<open>ok\<close>, and then refines the abstract
  operation \<open>f\<close>, or fails and leaves the error flag set; it cannot fail if \<open>ok\<close> holds, memory
  is available and the output stays below \<open>2 ^ 62\<close> bytes.
\<close>

definition small :: "awriter \<Rightarrow> bool" where
  "small st \<longleftrightarrow> length (layout st) < 2 ^ 62"

definition write_result :: "allocator \<Rightarrow> cbb_writer \<Rightarrow> bool \<Rightarrow> awriter \<Rightarrow> bool \<Rightarrow> cbb_writer \<Rightarrow> bool" where
  "write_result malloc w ok st' success w' \<longleftrightarrow>
     (if success
      then ok \<and> refines w' st' \<and> (roomy_writer malloc w \<longrightarrow> small st' \<longrightarrow> roomy_writer malloc w')
      else failed w' \<and> \<not> (roomy_writer malloc w \<and> ok \<and> small st'))"

definition writes :: "allocator \<Rightarrow> (awriter \<Rightarrow> bool) \<Rightarrow> (cbb_writer, 'a) stm \<Rightarrow> (awriter \<Rightarrow> bool) \<Rightarrow>
    (awriter \<Rightarrow> awriter) \<Rightarrow> bool" where
  "writes malloc D op ok f \<longleftrightarrow>
     (\<forall>st. D st \<longrightarrow> length (layout st) \<le> length (layout (f st))) \<and>
     (\<forall>w st. refines w st \<longrightarrow> D st \<longrightarrow>
        write_result malloc w (ok st) (f st) (fst (op w) \<noteq> None) (snd (op w)))"

text \<open>An operation of the buffer that appends \<open>bs\<close>, possible only under \<open>fit\<close>.\<close>

definition appends :: "allocator \<Rightarrow> (cbb_buffer, 'a) stm \<Rightarrow> bool \<Rightarrow> byte list \<Rightarrow> bool" where
  "appends malloc g fit bs \<longleftrightarrow>
     (\<forall>b. buf_wf b \<longrightarrow> flush_result malloc fit (contents b @ bs) b (fst (g b) \<noteq> None) (snd (g b)))"

definition open_ok :: "nat \<Rightarrow> awriter \<Rightarrow> bool" where
  "open_ok k st \<longleftrightarrow> closable (snd (sub_at k st))"

text \<open>The bytes that the loop of \<open>CBB_add_asn1_uint64\<close> emits.\<close>

fun uint_out :: "bool \<Rightarrow> byte list \<Rightarrow> byte list" where
  "uint_out started [] = []"
| "uint_out started (b # bs) =
     (if \<not> started \<and> b = 0 then uint_out started bs
      else (if \<not> started \<and> b AND 0x80 \<noteq> 0 then [0] else []) @ b # bs)"

definition uint_final :: "byte list \<Rightarrow> byte list" where
  "uint_final bs = (if uint_out False bs = [] then [0] else uint_out False bs)"

text \<open>
  A sequence of calls of the writer's interface. Each call names the depth of the \<open>CBB\<close> it is
  applied to.
\<close>

datatype wcmd =
    Flush nat
  | Add_u8 nat byte
  | Add_u16 nat u16
  | Add_u24 nat u32
  | Add_u32 nat u32
  | Add_u64 nat u64
  | Add_bytes nat "byte list"
  | Add_zeros nat nat
  | Add_u8_length_prefixed nat
  | Add_u16_length_prefixed nat
  | Add_u24_length_prefixed nat
  | Add_asn1 nat u32
  | Add_asn1_uint64 nat u64
  | Add_asn1_int64 nat u64
  | Add_asn1_octet_string nat "byte list"
  | Add_asn1_bool nat bool

fun cmd_op :: "allocator \<Rightarrow> wcmd \<Rightarrow> (cbb_writer, unit) stm" where
  "cmd_op malloc (Flush k) = CBB_flush malloc k"
| "cmd_op malloc (Add_u8 k v) = CBB_add_u8 malloc k v"
| "cmd_op malloc (Add_u16 k v) = CBB_add_u16 malloc k v"
| "cmd_op malloc (Add_u24 k v) = CBB_add_u24 malloc k v"
| "cmd_op malloc (Add_u32 k v) = CBB_add_u32 malloc k v"
| "cmd_op malloc (Add_u64 k v) = CBB_add_u64 malloc k v"
| "cmd_op malloc (Add_bytes k bs) = CBB_add_bytes malloc k bs"
| "cmd_op malloc (Add_zeros k n) = CBB_add_zeros malloc k n"
| "cmd_op malloc (Add_u8_length_prefixed k) = CBB_add_u8_length_prefixed malloc k"
| "cmd_op malloc (Add_u16_length_prefixed k) = CBB_add_u16_length_prefixed malloc k"
| "cmd_op malloc (Add_u24_length_prefixed k) = CBB_add_u24_length_prefixed malloc k"
| "cmd_op malloc (Add_asn1 k tag) = CBB_add_asn1 malloc k tag"
| "cmd_op malloc (Add_asn1_uint64 k v) = CBB_add_asn1_uint64 malloc k v"
| "cmd_op malloc (Add_asn1_int64 k v) = CBB_add_asn1_int64 malloc k v"
| "cmd_op malloc (Add_asn1_octet_string k bs) = CBB_add_asn1_octet_string malloc k bs"
| "cmd_op malloc (Add_asn1_bool k b) = CBB_add_asn1_bool malloc k b"

fun cmd_depth :: "wcmd \<Rightarrow> nat" where
  "cmd_depth (Flush k) = k"
| "cmd_depth (Add_u8 k v) = k"
| "cmd_depth (Add_u16 k v) = k"
| "cmd_depth (Add_u24 k v) = k"
| "cmd_depth (Add_u32 k v) = k"
| "cmd_depth (Add_u64 k v) = k"
| "cmd_depth (Add_bytes k bs) = k"
| "cmd_depth (Add_zeros k n) = k"
| "cmd_depth (Add_u8_length_prefixed k) = k"
| "cmd_depth (Add_u16_length_prefixed k) = k"
| "cmd_depth (Add_u24_length_prefixed k) = k"
| "cmd_depth (Add_asn1 k tag) = k"
| "cmd_depth (Add_asn1_uint64 k v) = k"
| "cmd_depth (Add_asn1_int64 k v) = k"
| "cmd_depth (Add_asn1_octet_string k bs) = k"
| "cmd_depth (Add_asn1_bool k b) = k"

text \<open>What each call writes, and whether its arguments are representable.\<close>

fun cmd_abs :: "wcmd \<Rightarrow> awriter \<Rightarrow> awriter" where
  "cmd_abs (Flush k) = aflush k"
| "cmd_abs (Add_u8 k v) = aappend k [v]"
| "cmd_abs (Add_u16 k v) = aappend k (be_bytes 2 (unat v))"
| "cmd_abs (Add_u24 k v) = aappend k (be_bytes 3 (unat v))"
| "cmd_abs (Add_u32 k v) = aappend k (be_bytes 4 (unat v))"
| "cmd_abs (Add_u64 k v) = aappend k (be_bytes 8 (unat v))"
| "cmd_abs (Add_bytes k bs) = aappend k bs"
| "cmd_abs (Add_zeros k n) = aappend k (replicate n 0)"
| "cmd_abs (Add_u8_length_prefixed k) = aopen k [] (Len_prefix 1)"
| "cmd_abs (Add_u16_length_prefixed k) = aopen k [] (Len_prefix 2)"
| "cmd_abs (Add_u24_length_prefixed k) = aopen k [] (Len_prefix 3)"
| "cmd_abs (Add_asn1 k tag) = aopen k (der_tag tag) Asn1_prefix"
| "cmd_abs (Add_asn1_uint64 k v) = aappend k (der_uint64 v)"
| "cmd_abs (Add_asn1_int64 k v) = aappend k (der_int64 v)"
| "cmd_abs (Add_asn1_octet_string k bs) = aappend k (der_element CBS_ASN1_OCTETSTRING bs)"
| "cmd_abs (Add_asn1_bool k b) = aappend k (der_bool b)"

fun cmd_fits :: "wcmd \<Rightarrow> bool" where
  "cmd_fits (Add_u24 k v) \<longleftrightarrow> unat v < 256 ^ 3"
| "cmd_fits (Add_asn1_octet_string k bs) \<longleftrightarrow> length bs \<le> 0xfffffffe"
| "cmd_fits _ \<longleftrightarrow> True"

text \<open>Memory objects passed to a call are no larger than \<open>size_t\<close> can tell.\<close>

fun cmd_sized :: "wcmd \<Rightarrow> bool" where
  "cmd_sized (Add_bytes k bs) \<longleftrightarrow> length bs < 2 ^ 64"
| "cmd_sized (Add_zeros k n) \<longleftrightarrow> n < 2 ^ 64"
| "cmd_sized (Add_asn1_octet_string k bs) \<longleftrightarrow> length bs < 2 ^ 64"
| "cmd_sized _ \<longleftrightarrow> True"

fun run_cmds :: "allocator \<Rightarrow> wcmd list \<Rightarrow> (cbb_writer, unit) stm" where
  "run_cmds malloc [] = st_return ()"
| "run_cmds malloc (c # cs) = st_bind (cmd_op malloc c) (\<lambda>_. run_cmds malloc cs)"

fun abs_cmds :: "wcmd list \<Rightarrow> awriter \<Rightarrow> awriter" where
  "abs_cmds [] st = st"
| "abs_cmds (c # cs) st = abs_cmds cs (cmd_abs c st)"

fun valid_cmds :: "wcmd list \<Rightarrow> awriter \<Rightarrow> bool" where
  "valid_cmds [] st \<longleftrightarrow> True"
| "valid_cmds (c # cs) st \<longleftrightarrow> cmd_sized c \<and> cmd_depth c \<le> depth st \<and> valid_cmds cs (cmd_abs c st)"

fun cmds_ok :: "wcmd list \<Rightarrow> awriter \<Rightarrow> bool" where
  "cmds_ok [] st \<longleftrightarrow> True"
| "cmds_ok (c # cs) st \<longleftrightarrow> open_ok (cmd_depth c) st \<and> cmd_fits c \<and> cmds_ok cs (cmd_abs c st)"

text \<open>\<open>CBB_init\<close>, the calls, and \<open>CBB_finish\<close>; and the bytes it should return.\<close>

definition write_all :: "allocator \<Rightarrow> nat \<Rightarrow> wcmd list \<Rightarrow> byte list option \<times> cbb_writer" where
  "write_all malloc cap cs =
     st_bind (CBB_init malloc cap) (\<lambda>_. st_bind (run_cmds malloc cs) (\<lambda>_. CBB_finish malloc 0)) zero_writer"

definition spec_output :: "wcmd list \<Rightarrow> byte list" where
  "spec_output cs = (case abs_cmds cs ([], []) of (r, fs) \<Rightarrow> r @ close fs)"

lemma length_contents [simp]: "buf_wf b \<Longrightarrow> length (contents b) = cb_len b"
  by (simp add: buf_wf_def contents_def)

lemma OPENSSL_realloc_total:
  "(\<forall>n. malloc n \<noteq> None) \<Longrightarrow> n < 2 ^ 64 - 8 \<Longrightarrow> OPENSSL_realloc malloc (Some old) n \<noteq> None"
  by (auto simp: OPENSSL_realloc_def OPENSSL_malloc_def OPENSSL_MALLOC_PREFIX_def Let_def split: option.splits)

lemma cbb_buffer_reserve_cases:
  assumes "buf_wf b" and "n < 2 ^ 64"
  shows "cbb_buffer_reserve malloc n b =
    (if 2 ^ 64 \<le> cb_len b + n then cbb_buffer_fail b
     else if cb_len b + n \<le> cb_cap b then (Some (cb_len b), b)
     else if \<not> cb_can_resize b then cbb_buffer_fail b
     else case OPENSSL_realloc malloc (Some (cb_buf b)) (grown_cap b (cb_len b + n)) of
            None \<Rightarrow> cbb_buffer_fail b
          | Some newbuf \<Rightarrow> (Some (cb_len b), b\<lparr>cb_buf := newbuf, cb_cap := grown_cap b (cb_len b + n)\<rparr>))"
proof -
  have "size_add (cb_len b) n < cb_len b \<longleftrightarrow> 2 ^ 64 \<le> cb_len b + n"
    using assms by (intro size_add_overflow_iff) (auto simp: buf_wf_def)
  then show ?thesis
  proof (cases "2 ^ 64 \<le> cb_len b + n")
    case False
    then have sum: "size_add (cb_len b) n = cb_len b + n" by simp
    show ?thesis
      unfolding cbb_buffer_reserve_def Let_def sum grown_cap_def
      using False by (simp add: not_less [symmetric] cong: option.case_cong)
  qed (simp add: cbb_buffer_reserve_def Let_def)
qed

lemma grown_cap_bounds:
  assumes "buf_wf b" and "cb_cap b < newlen" and "newlen < 2 ^ 64"
  shows "newlen \<le> grown_cap b newlen" and "grown_cap b newlen < 2 ^ 64" and "cb_cap b \<le> grown_cap b newlen"
    and "newlen < 2 ^ 62 \<Longrightarrow> grown_cap b newlen < 2 ^ 63"
  using assms by (auto simp: grown_cap_def Let_def size_mul_def)

lemma cbb_buffer_reserve_Some:
  assumes "malloc_sized malloc" and "buf_wf b" and "n < 2 ^ 64" and "cbb_buffer_reserve malloc n b = (Some p, b')"
  shows "p = cb_len b \<and> buf_wf b' \<and> cb_len b' = cb_len b \<and> cb_len b + n \<le> cb_cap b' \<and> contents b' = contents b \<and>
         cb_error b' = cb_error b \<and> (roomy malloc b \<longrightarrow> cb_len b + n < 2 ^ 62 \<longrightarrow> roomy malloc b')"
proof (cases "cb_len b + n \<le> cb_cap b")
  case True
  then have "2 ^ 64 > cb_len b + n" using assms(2) by (simp add: buf_wf_def)
  with True assms show ?thesis by (auto simp: cbb_buffer_reserve_cases cbb_buffer_fail_def)
next
  case False
  with assms obtain newbuf where fits: "cb_len b + n < 2 ^ 64"
    and new: "OPENSSL_realloc malloc (Some (cb_buf b)) (grown_cap b (cb_len b + n)) = Some newbuf"
    and p: "p = cb_len b" and b': "b' = b\<lparr>cb_buf := newbuf, cb_cap := grown_cap b (cb_len b + n)\<rparr>"
    by (auto simp: cbb_buffer_reserve_cases cbb_buffer_fail_def split: if_splits option.splits)
  note cap = grown_cap_bounds [OF assms(2) _ fits]
  have len: "length newbuf = grown_cap b (cb_len b + n)"
    by (rule OPENSSL_realloc_Some [OF assms(1) new])
  have min: "min (length (cb_buf b)) (grown_cap b (cb_len b + n)) = length (cb_buf b)"
    using cap(3) False assms(2) by (simp add: buf_wf_def)
  have "take (length (cb_buf b)) newbuf = cb_buf b"
    using OPENSSL_realloc_Some(2) [OF assms(1) new] by (simp add: min)
  then have "take (cb_len b) newbuf = take (cb_len b) (cb_buf b)"
    using assms(2) by (metis buf_wf_def min.absorb1 take_take)
  with False fits len cap p b' assms(2) show ?thesis
    by (auto simp: buf_wf_def contents_def roomy_def)
qed

lemma cbb_buffer_reserve_None:
  "buf_wf b \<Longrightarrow> n < 2 ^ 64 \<Longrightarrow> cbb_buffer_reserve malloc n b = (None, b') \<Longrightarrow> b' = b\<lparr>cb_error := True\<rparr>"
  by (auto simp: cbb_buffer_reserve_cases cbb_buffer_fail_def split: if_splits option.splits)

lemma cbb_buffer_reserve_total:
  assumes "buf_wf b" and "roomy malloc b" and "cb_len b + n < 2 ^ 62"
  shows "fst (cbb_buffer_reserve malloc n b) \<noteq> None"
proof -
  have "OPENSSL_realloc malloc (Some (cb_buf b)) (grown_cap b (cb_len b + n)) \<noteq> None" if "\<not> cb_len b + n \<le> cb_cap b"
    using that assms grown_cap_bounds(4) [OF assms(1), of "cb_len b + n"]
    by (intro OPENSSL_realloc_total) (auto simp: roomy_def)
  with assms show ?thesis
    by (auto simp: cbb_buffer_reserve_cases roomy_def split: option.splits)
qed

lemma cbb_buffer_add_Some:
  assumes "malloc_sized malloc" and "buf_wf b" and "n < 2 ^ 64" and "cbb_buffer_add malloc n b = (Some p, b')"
  shows "p = cb_len b" and "buf_wf b'" and "cb_len b' = cb_len b + n" and "take (cb_len b) (cb_buf b') = contents b"
    and "cb_error b' = cb_error b" and "roomy malloc b \<Longrightarrow> cb_len b + n < 2 ^ 62 \<Longrightarrow> roomy malloc b'"
  using assms cbb_buffer_reserve_Some [OF assms(1-3)]
  by (auto simp: cbb_buffer_add_def buf_wf_def contents_def roomy_def split: prod.splits option.splits)

lemma cbb_buffer_add_None:
  "buf_wf b \<Longrightarrow> n < 2 ^ 64 \<Longrightarrow> cbb_buffer_add malloc n b = (None, b') \<Longrightarrow> b' = b\<lparr>cb_error := True\<rparr>"
  by (auto simp: cbb_buffer_add_def dest: cbb_buffer_reserve_None split: prod.splits option.splits)

lemma cbb_buffer_add_total:
  "buf_wf b \<Longrightarrow> roomy malloc b \<Longrightarrow> cb_len b + n < 2 ^ 62 \<Longrightarrow> fst (cbb_buffer_add malloc n b) \<noteq> None"
  using cbb_buffer_reserve_total [of b malloc n] by (auto simp: cbb_buffer_add_def split: prod.splits option.splits)

lemma store_u_loop_eq: "store_u_loop n v = (be_bytes n (unat v), drop_bit (8 * n) v)"
proof (induction n arbitrary: v)
  case 0
  then show ?case by simp
next
  case (Suc n)
  have "unat (drop_bit 8 v) = unat v div 256"
    by (simp only: unat_drop_bit_eq) (simp add: drop_bit_eq_div)
  moreover have "(of_nat (unat v) :: byte) = ucast v"
    by simp
  ultimately show ?case using Suc [of "drop_bit 8 v"]
    by (simp add: drop_bit_drop_bit add.commute)
qed

lemma mem_store_append: "length ys = length ys' \<Longrightarrow> n = length xs \<Longrightarrow> mem_store (xs @ ys @ zs) n ys' = xs @ ys' @ zs"
  by (simp add: mem_store_def)

lemma asn1_length_form_der:
  assumes "len \<le> 0xfffffffe"
  obtains ll lb len' where "asn1_length_form len = Some (ll, lb, len')"
    and "der_length len = lb # be_bytes (ll - 1) len'" and "0 < ll" and "ll \<le> 5"
    and "len' < 256 ^ (ll - 1)" and "ll \<noteq> 1 \<longrightarrow> len' = len"
proof -
  have long: "\<exists>lb. asn1_length_form len = Some (Suc (Suc k), lb, len) \<and> der_length len = lb # be_bytes (Suc k) len"
    if "128 \<le> len" "256 ^ k \<le> len" "len < 256 ^ Suc k" "k < 4" for k
  proof -
    have "octets len = Suc k" by (rule octets_unique) (use that in auto)
    moreover have "k = 0 \<or> k = 1 \<or> k = 2 \<or> k = 3" using that by auto
    ultimately show ?thesis
      using that assms by (auto simp: asn1_length_form_def der_length_def)
  qed
  consider "len < 128" | k where "128 \<le> len" "256 ^ k \<le> len" "len < 256 ^ Suc k" "k < 4"
  proof (cases "len < 128")
    case False
    then have pos: "0 < len" by simp
    from octets_bounds [OF pos] octets_le_4 [OF pos] assms False
    show ?thesis by (intro that(2) [of "octets len - 1"]) auto
  qed (use that in blast)
  then show thesis
  proof cases
    case 1
    show thesis by (rule that [of 1 "of_nat len" 0]) (use 1 in \<open>auto simp: asn1_length_form_def der_length_def\<close>)
  next
    case (2 k)
    with long [of k] obtain lb where "asn1_length_form len = Some (Suc (Suc k), lb, len)" "der_length len = lb # be_bytes (Suc k) len"
      by blast
    then show thesis by (intro that [of "Suc (Suc k)" lb len]) (use 2 in auto)
  qed
qed

lemma contents_split:
  assumes "buf_wf b" and "contents b = xs"
  obtains tail where "cb_buf b = xs @ tail" and "cb_len b = length xs" 
  using assms by (metis append_take_drop_id contents_def length_contents)

lemma store_u_spec:
  "len < 2 ^ 64 \<Longrightarrow> store_u_loop n (of_nat len) = (be_bytes n len, drop_bit (8 * n) (of_nat len))"
  by (simp add: store_u_loop_eq unat_of_nat)

lemma drop_bit_of_nat_eq_0: "len < 2 ^ 64 \<Longrightarrow> drop_bit (8 * n) (of_nat len :: u64) = 0 \<longleftrightarrow> len < 256 ^ n"
  by (simp add: drop_bit_eq_0_unat unat_of_nat power_mult)

lemma flush_prefix_len:
  assumes "buf_wf b" and "contents b = pre @ replicate n 0 @ body"
  shows "flush_prefix malloc (child_of (length pre) (Len_prefix n)) (length pre + n) b =
    (let b' = b\<lparr>cb_buf := pre @ be_bytes n (length body) @ body @ drop (cb_len b) (cb_buf b)\<rparr>
     in if length body < 256 ^ n then (True, b', child_of (length pre) (Len_prefix n))
        else (False, b'\<lparr>cb_error := True\<rparr>, child_of (length pre) (Len_prefix n)))"
proof -
  obtain tail where buf: "cb_buf b = (pre @ replicate n 0 @ body) @ tail" and len: "cb_len b = length (pre @ replicate n 0 @ body)"
    using contents_split [OF assms] by blast
  have lt: "length body < 2 ^ 64" using assms(1) len by (simp add: buf_wf_def)
  have "mem_store (cb_buf b) (length pre) (be_bytes n (length body)) = pre @ be_bytes n (length body) @ body @ tail"
    using mem_store_append [of "replicate n 0" "be_bytes n (length body)" "length pre" pre "body @ tail"] buf by simp
  then show ?thesis
    using lt by (simp add: flush_prefix_def child_of_def len buf store_u_spec drop_bit_of_nat_eq_0 Let_def)
qed

text \<open>Shifting the body right by the extra length octets and writing them in front of it.\<close>

lemma shift_and_store:
  fixes lb :: byte and body pre ext :: "byte list"
  assumes "buf_wf b" and "take (length pre + Suc (length body)) (cb_buf b) = pre @ z # body"
    and "cb_len b = length pre + Suc (length body) + length ext"
  defines "moved \<equiv> mem_store (cb_buf b) (length pre + 1 + length ext) (take (length body) (drop (length pre + 1) (cb_buf b)))"
  defines "b' \<equiv> b\<lparr>cb_buf := mem_store (moved [length pre := lb]) (length pre + 1) ext\<rparr>"
  shows "buf_wf b'" and "contents b' = pre @ lb # ext @ body"
proof -
  let ?e = "length ext" and ?n = "length pre + Suc (length body)"
  define tail where "tail = drop ?n (cb_buf b)"
  have buf: "cb_buf b = pre @ z # body @ tail"
    using assms(2) unfolding tail_def by (metis append_Cons append_assoc append_take_drop_id)
  have tail: "?e \<le> length tail"
    using assms(1,3) buf by (simp add: buf_wf_def)
  have "length (take ?e (body @ tail)) = ?e" using tail by simp
  then obtain y where y: "take ?e (body @ tail) = y" "length y = ?e" by blast
  have "moved = (pre @ z # y) @ body @ drop ?e tail"
    by (simp add: moved_def mem_store_def buf y(1)[symmetric] add.commute)
  then have "moved [length pre := lb] = (pre @ [lb]) @ y @ (body @ drop ?e tail)"
    by (simp add: list_update_append)
  then have final: "cb_buf b' = pre @ lb # ext @ body @ drop ?e tail"
    using mem_store_append [of y ext "length pre + 1" "pre @ [lb]" "body @ drop ?e tail"] y(2)
    by (simp add: b'_def)
  have len: "cb_len b' = length pre + Suc (length body) + ?e" "cb_cap b' = cb_cap b"
    by (simp_all add: b'_def assms(3))
  show "contents b' = pre @ lb # ext @ body"
    by (simp add: contents_def final len)
  show "buf_wf b'"
    using assms(1) tail unfolding buf_wf_def len by (simp add: final buf assms(3))
qed

lemma flush_prefix_asn1:
  assumes "malloc_sized malloc" and "buf_wf b" and "contents b = pre @ z # body"
    and "flush_prefix malloc (child_of (length pre) Asn1_prefix) (length pre + 1) b = (ok, b', c')"
  shows "flush_result malloc (length body \<le> 0xfffffffe) (pre @ der_length (length body) @ body) b ok b'"
proof -
  have len: "cb_len b = length pre + Suc (length body)"
    using assms(2,3) by (metis length_contents length_append list.size(4) add.right_neutral add_Suc_right)
  have take: "take (length pre + Suc (length body)) (cb_buf b) = pre @ z # body"
    using assms(3) len by (simp add: contents_def)
  show ?thesis
  proof (cases "length body \<le> 0xfffffffe")
    case False
    then have "asn1_length_form (length body) = None" by (simp add: asn1_length_form_def)
    with assms(4) len False show ?thesis
      by (auto simp: flush_prefix_def child_of_def flush_result_def)
  next
    case True
    then obtain ll lb len' where form: "asn1_length_form (length body) = Some (ll, lb, len')"
      and der: "der_length (length body) = lb # be_bytes (ll - 1) len'" and ll: "0 < ll" "ll \<le> 5"
      and len': "len' < 256 ^ (ll - 1)" "ll \<noteq> 1 \<longrightarrow> len' = length body"
      by (rule asn1_length_form_der)
    have "(256 :: nat) ^ (ll - 1) \<le> 256 ^ 4" using ll by (intro power_increasing) auto
    with len' have l64: "len' < 2 ^ 64" by simp
    let ?ext = "be_bytes (ll - 1) len'"
    have out: "pre @ der_length (length body) @ body = pre @ lb # ?ext @ body" by (simp add: der)
    show ?thesis
    proof (cases "ll = 1")
      case one: True
      note st = shift_and_store [OF assms(2) take, of "[]" lb]
      have "mem_store (cb_buf b) (length pre + 1) (take (length body) (drop (length pre + 1) (cb_buf b))) = cb_buf b"
      proof -
        obtain tail where "cb_buf b = (pre @ z # body) @ tail"
          using contents_split [OF assms(2,3)] by blast
        then show ?thesis by (simp add: mem_store_def)
      qed
      with st len have st': "buf_wf (b\<lparr>cb_buf := (cb_buf b)[length pre := lb]\<rparr>)" "contents (b\<lparr>cb_buf := (cb_buf b)[length pre := lb]\<rparr>) = pre @ lb # body"
        by simp_all
      have "ok \<and> b' = b\<lparr>cb_buf := (cb_buf b)[length pre := lb]\<rparr>"
        using assms(4) len form one len' by (auto simp: flush_prefix_def child_of_def Let_def)
      with st' True show ?thesis
        by (simp add: flush_result_def out one roomy_def)
    next
      case False
      show ?thesis
      proof (cases "cbb_buffer_add malloc (ll - 1) b")
        case (Pair r b1)
        show ?thesis
        proof (cases r)
          case None
          have "fst (cbb_buffer_add malloc (ll - 1) b) = None" using Pair None by simp
          then have "\<not> (roomy malloc b \<and> cb_len b + (ll - 1) < 2 ^ 62)"
            using cbb_buffer_add_total [OF assms(2)] by blast
          with assms(4) len form False Pair None show ?thesis
            by (auto simp: flush_prefix_def child_of_def flush_result_def out)
        next
          case (Some q)
          have add: "cbb_buffer_add malloc (ll - 1) b = (Some q, b1)" using Pair Some by simp
          have "ll - 1 < 2 ^ 64" using ll by simp
          note b1 = cbb_buffer_add_Some [OF assms(1,2) this add]
          have b1take: "take (length pre + Suc (length body)) (cb_buf b1) = pre @ z # body"
            using b1(4) assms(3) len by simp
          note st = shift_and_store [OF b1(2) b1take, of ?ext lb]
          let ?b = "b1\<lparr>cb_buf := mem_store ((mem_store (cb_buf b1) (length pre + 1 + length ?ext)
              (take (length body) (drop (length pre + 1) (cb_buf b1))))[length pre := lb]) (length pre + 1) ?ext\<rparr>"
          have wf: "buf_wf ?b" "contents ?b = pre @ lb # ?ext @ body"
            by (rule st; simp add: b1 len)+
          have "ok \<and> b' = ?b"
            using assms(4) len form False add len' l64 by (auto simp: flush_prefix_def child_of_def store_u_spec drop_bit_of_nat_eq_0 Let_def)
          moreover have "length (pre @ lb # ?ext @ body) = cb_len b + (ll - 1)" by (simp add: len)
          ultimately show ?thesis
            using wf b1 True by (simp add: flush_result_def out roomy_def)
        qed
      qed
    qed
  qed
qed

lemma length_der_length: "0 < length (der_length n)"
  by (simp add: der_length_def)

lemma length_prefix_bytes: "pend p \<le> length (prefix_bytes p n)"
  using length_der_length [of n] by (cases p) (simp_all add: Suc_le_eq)

lemma flush_prefix_result:
  assumes "malloc_sized malloc" and "buf_wf b" and "contents b = pre @ replicate (pend p) 0 @ body"
    and "flush_prefix malloc (child_of (length pre) p) (length pre + pend p) b = (ok, b', c')"
  shows "flush_result malloc (prefix_ok p (length body)) (pre @ prefix_bytes p (length body) @ body) b ok b'"
proof (cases p)
  case (Len_prefix n)
  let ?b = "b\<lparr>cb_buf := pre @ be_bytes n (length body) @ body @ drop (cb_len b) (cb_buf b)\<rparr>"
  have len: "cb_len b = length pre + n + length body" "length (cb_buf b) = cb_cap b"
    using length_contents [OF assms(2)] assms(2) by (simp_all add: assms(3) Len_prefix buf_wf_def)
  have "buf_wf ?b" "contents ?b = pre @ be_bytes n (length body) @ body"
    using assms(2) len by (auto simp: buf_wf_def contents_def)
  then show ?thesis
    using assms(4) flush_prefix_len [OF assms(2), of pre n body malloc] assms(3)
    by (auto simp: Len_prefix flush_result_def roomy_def Let_def split: if_splits)
next
  case Asn1_prefix
  with flush_prefix_asn1 [OF assms(1,2), of pre 0 body ok b' c'] assms(3,4) show ?thesis
    by simp
qed

lemma flush_chain_result:
  assumes "malloc_sized malloc"
  shows "\<lbrakk>frames_ok fs; buf_wf b; \<not> cb_error b; contents b = pre @ frame_layout fs;
          flush_chain malloc (c # children (length pre) fs) b = (ok, b', ch)\<rbrakk> \<Longrightarrow>
         flush_result malloc (closable fs) (pre @ close fs) b ok b' \<and> (ok \<longrightarrow> ch = [c])"
proof (induction fs arbitrary: pre c b ok b' ch)
  case Nil
  then show ?case by (simp add: flush_result_def)
next
  case (Cons f fs)
  obtain p d where f: "f = (p, d)" by (cases f)
  let ?pre = "pre @ replicate (pend p) 0 @ d" and ?child = "child_of (length pre) p"
  from Cons.prems(1) f have p: "0 < pend p" "pend p \<le> 8" and fs: "frames_ok fs"
    by (auto simp: frames_ok_def)
  obtain ok1 b1 ch1 where inner: "flush_chain malloc (?child # children (length ?pre) fs) b = (ok1, b1, ch1)"
    by (metis prod_cases3)
  have ih: "flush_result malloc (closable fs) (?pre @ close fs) b ok1 b1"
    using Cons.IH [OF fs Cons.prems(2,3) _ inner] Cons.prems(4) f by simp
  have len: "cb_len b = length pre + pend p + length (d @ frame_layout fs)" "cb_len b < 2 ^ 64"
    using length_contents [OF Cons.prems(2)] Cons.prems(2) by (simp_all add: Cons.prems(4) f buf_wf_def)
  have start: "size_add (length pre) (pend p) = length pre + pend p"
    using len by simp
  have child: "cbb_offset ?child = length pre" "cbb_pending_len_len ?child = pend p"
    by (simp_all add: child_of_def)
  let ?body = "d @ close fs"
  let ?out = "pre @ prefix_bytes p (length ?body) @ ?body"
  show ?case
  proof (cases ok1)
    case False
    have "length (?pre @ close fs) \<le> length ?out"
      using length_prefix_bytes [of p "length ?body"] by simp
    with Cons.prems(3,5) inner False ih p start child show ?thesis
      by (auto simp: f flush_result_def add.assoc)
  next
    case True
    with ih have b1: "buf_wf b1" "contents b1 = pre @ replicate (pend p) 0 @ ?body" "cb_error b1 = cb_error b" "closable fs"
      by (simp_all add: flush_result_def)
    have len1: "\<not> cb_len b1 < length pre + pend p"
      using length_contents [OF b1(1)] by (simp add: b1(2))
    obtain ok2 b2 c2 where outer: "flush_prefix malloc ?child (length pre + pend p) b1 = (ok2, b2, c2)"
      by (metis prod_cases3)
    note res = flush_prefix_result [OF assms b1(1,2) outer]
    have le: "length (?pre @ close fs) \<le> length ?out"
      using length_prefix_bytes [of p "length ?body"] by simp
    have "ok = ok2 \<and> b' = b2 \<and> (ok \<longrightarrow> ch = [c])"
      using Cons.prems(3,5) inner True p start child len1 outer
      by (auto simp: f add.assoc split: if_splits)
    moreover have "roomy malloc b \<Longrightarrow> length ?out < 2 ^ 62 \<Longrightarrow> roomy malloc b1"
      using ih True le by (auto simp: flush_result_def)
    ultimately show ?thesis
      using res b1(3,4) by (auto simp: f flush_result_def Let_def)
  qed
qed

lemma layout_sub: "layout st = outer_at k st @ layout (sub_at k st)"
  by (induction k st rule: sub_at.induct) (simp_all add: layout_def)

lemma layout_at_depth: "k \<le> depth st \<Longrightarrow> layout (at_depth k f st) = outer_at k st @ layout (f (sub_at k st))"
  by (induction k f st rule: at_depth.induct) (auto simp: layout_def depth_def split: prod.splits)

lemma chain_of_Cons:
  "chain_of c off (r, (p, d) # fs) = c # chain_of (child_of (off + length r) p) (off + length r + pend p) (d, fs)"
  by (simp add: chain_of_def)

lemma length_children [simp]: "length (children off fs) = length fs"
  by (induction off fs rule: children.induct) simp_all

lemma length_chain_of [simp]: "length (chain_of c off st) = Suc (depth st)"
  by (simp add: chain_of_def depth_def)

lemma drop_chain:
  "k \<le> depth st \<Longrightarrow>
   drop k (chain_of c off st) = chain_of (chain_of c off st ! k) (off + length (outer_at k st)) (sub_at k st)"
proof (induction k st arbitrary: c off rule: sub_at.induct)
  case (1 k r p d fs)
  then show ?case by (simp add: chain_of_Cons depth_def add.assoc)
qed (simp_all add: depth_def chain_of_def)

lemma chain_at_depth: "k \<le> depth st \<Longrightarrow>
  chain_of c off (at_depth k f st) =
    take k (chain_of c off st) @ chain_of (chain_of c off st ! k) (off + length (outer_at k st)) (f (sub_at k st))"
proof (induction k f st arbitrary: c off rule: at_depth.induct)
  case (1 k f r p d fs)
  obtain d' fs' where e: "at_depth k f (d, fs) = (d', fs')" by fastforce
  from "1.IH" [of "child_of (off + length r) p" "off + length r + pend p"] "1.prems" e show ?case
    by (simp add: chain_of_Cons depth_def add.assoc)
qed (simp_all add: depth_def chain_of_def)

lemma frames_ok_simps [simp]:
  "frames_ok []" "frames_ok ((p, d) # fs) \<longleftrightarrow> 0 < pend p \<and> pend p \<le> 8 \<and> frames_ok fs"
  by (auto simp: frames_ok_def)

lemma frames_ok_sub: "frames_ok (snd st) \<Longrightarrow> frames_ok (snd (sub_at k st))"
  by (induction k st rule: sub_at.induct) simp_all

lemma frames_ok_at_depth:
  "frames_ok (snd st) \<Longrightarrow> frames_ok (snd (f (sub_at k st))) \<Longrightarrow> frames_ok (snd (at_depth k f st))"
  by (induction k f st rule: at_depth.induct) (simp_all add: split_beta)

lemma depth_at_depth: "k \<le> depth st \<Longrightarrow> depth (at_depth k f st) = k + depth (f (sub_at k st))"
  by (induction k f st rule: at_depth.induct) (auto simp: depth_def split: prod.splits)

lemma at_depth_comp:
  "k \<le> depth st \<Longrightarrow> at_depth k g (at_depth k f st) = at_depth k (g \<circ> f) st"
  by (induction k f st rule: at_depth.induct) (auto simp: depth_def split: prod.splits)

lemma sub_at_depth: "k \<le> depth st \<Longrightarrow> sub_at k (at_depth k f st) = f (sub_at k st)"
  by (induction k f st rule: at_depth.induct) (auto simp: depth_def split: prod.splits)

lemma writesI:
  "(\<And>st. D st \<Longrightarrow> length (layout st) \<le> length (layout (f st))) \<Longrightarrow>
   (\<And>w st r w'. refines w st \<Longrightarrow> D st \<Longrightarrow> op w = (r, w') \<Longrightarrow>
      write_result malloc w (ok st) (f st) (r \<noteq> None) w') \<Longrightarrow> writes malloc D op ok f"
  by (simp add: writes_def)

lemma writesD:
  "writes malloc D op ok f \<Longrightarrow> refines w st \<Longrightarrow> D st \<Longrightarrow> op w = (r, w') \<Longrightarrow>
     write_result malloc w (ok st) (f st) (r \<noteq> None) w'"
  by (metis fst_conv snd_conv writes_def)

lemma writes_grow: "writes malloc D op ok f \<Longrightarrow> D st \<Longrightarrow> length (layout st) \<le> length (layout (f st))"
  unfolding writes_def by blast

lemma writes_bind:
  assumes "writes malloc D op1 ok1 f1" and "\<And>x. writes malloc D2 (op2 x) ok2 f2"
    and "\<And>st. D st \<Longrightarrow> D2 (f1 st)"
  shows "writes malloc D (st_bind op1 op2) (\<lambda>st. ok1 st \<and> ok2 (f1 st)) (\<lambda>st. f2 (f1 st))"
proof (rule writesI)
  fix st assume "D st"
  then show "length (layout st) \<le> length (layout (f2 (f1 st)))"
    using writes_grow [OF assms(1)] writes_grow [OF assms(2)] assms(3) le_trans by blast
next
  fix w st r w'
  assume w: "refines w st" "D st" and run: "st_bind op1 op2 w = (r, w')"
  obtain r1 w1 where op1: "op1 w = (r1, w1)" by fastforce
  have one: "write_result malloc w (ok1 st) (f1 st) (r1 \<noteq> None) w1"
    by (rule writesD [OF assms(1) w op1])
  show "write_result malloc w (ok1 st \<and> ok2 (f1 st)) (f2 (f1 st)) (r \<noteq> None) w'"
  proof (cases r1)
    case None
    have "small (f2 (f1 st)) \<Longrightarrow> small (f1 st)"
      using writes_grow [OF assms(2) assms(3) [OF w(2)]] by (simp add: small_def)
    with None run op1 one show ?thesis
      by (auto simp: write_result_def)
  next
    case (Some x)
    with run op1 have op2: "op2 x w1 = (r, w')" by simp
    have mid: "refines w1 (f1 st)" "D2 (f1 st)" using one Some assms(3) w(2) by (simp_all add: write_result_def)
    moreover have "small (f2 (f1 st)) \<Longrightarrow> small (f1 st)"
      using writes_grow [OF assms(2) assms(3) [OF w(2)]] by (simp add: small_def)
    ultimately show ?thesis
      using writesD [OF assms(2) mid op2] one Some by (auto simp: write_result_def)
  qed
qed

lemma layout_pair [simp]: "layout (r, fs) = r @ frame_layout fs"
  by (simp add: layout_def)

lemma depth_pair [simp]: "depth (r, fs) = length fs"
  by (simp add: depth_def)

lemma chain_of_leaf [simp]: "chain_of c off (r, []) = [c]"
  by (simp add: chain_of_def)

lemma aflush_grow: "k \<le> depth st \<Longrightarrow> length (layout st) \<le> length (layout (aflush k st))"
proof -
  have "length (frame_layout fs) \<le> length (close fs)" for fs
  proof (induction fs rule: frame_layout.induct)
    case (2 p d fs)
    then show ?case using length_prefix_bytes [of p "length (d @ close fs)"] by (simp add: Let_def)
  qed simp
  moreover assume "k \<le> depth st"
  ultimately show ?thesis
    using layout_sub [of st k]
    by (cases "sub_at k st") (simp add: aflush_def layout_at_depth)
qed

lemma depth_aflush [simp]: "k \<le> depth st \<Longrightarrow> depth (aflush k st) = k"
  by (simp add: aflush_def depth_at_depth split: prod.split)

lemma writes_flush:
  assumes "malloc_sized malloc"
  shows "writes malloc (\<lambda>st. k \<le> depth st) (CBB_flush malloc k) (\<lambda>st. closable (snd (sub_at k st))) (aflush k)"
proof (rule writesI)
  fix st assume "k \<le> depth st"
  then show "length (layout st) \<le> length (layout (aflush k st))" by (rule aflush_grow)
next
  fix w st r w'
  assume w: "refines w st" and k: "k \<le> depth st" and run: "CBB_flush malloc k w = (r, w')"
  obtain b where b: "cw_base w = Some b" "buf_wf b" "\<not> cb_error b" "contents b = layout st"
    "cw_chain w = chain_of CBB_zero 0 st" "frames_ok (snd st)"
    using w by (auto simp: refines_def split: option.splits)
  obtain rk fs where sub: "sub_at k st = (rk, fs)" by fastforce
  let ?c = "cw_chain w ! k" and ?pre = "outer_at k st @ rk"
  have drop: "drop k (cw_chain w) = ?c # children (length ?pre) fs"
    using drop_chain [OF k, of CBB_zero 0] b(5) sub by (simp add: chain_of_def)
  have con: "contents b = ?pre @ frame_layout fs"
    using layout_sub [of st k] b(4) sub by simp
  obtain ok b' ch where fl: "flush_chain malloc (?c # children (length ?pre) fs) b = (ok, b', ch)"
    by (metis prod_cases3)
  have ok: "frames_ok fs" using frames_ok_sub [OF b(6), of k] sub by simp
  note res = flush_chain_result [OF assms ok b(2,3) con fl]
  have w': "w' = w\<lparr>cw_base := Some b', cw_chain := take k (cw_chain w) @ ch\<rparr>" "r = (if ok then Some () else None)"
    using run b(1,5) drop fl k by (auto simp: CBB_flush_def)
  have lay: "layout (aflush k st) = ?pre @ close fs"
    using sub k by (simp add: aflush_def layout_at_depth)
  have chain: "chain_of CBB_zero 0 (aflush k st) = take k (cw_chain w) @ [?c]"
    using sub k b(5) by (simp add: aflush_def chain_at_depth)
  have fok: "frames_ok (snd (aflush k st))"
    unfolding aflush_def by (rule frames_ok_at_depth [OF b(6)]) (simp add: sub)
  show "write_result malloc w (closable (snd (sub_at k st))) (aflush k st) (r \<noteq> None) w'"
    using res w' b(1,3) lay chain fok sub
    by (auto simp: write_result_def flush_result_def refines_def failed_def roomy_writer_def small_def)
qed

text \<open>Appending at the deepest open child.\<close>

lemma sub_at_depth_leaf: "depth st = k \<Longrightarrow> \<exists>r. sub_at k st = (r, [])"
proof -
  have "k \<le> depth st \<Longrightarrow> depth (sub_at k st) = depth st - k"
    by (induction k st rule: sub_at.induct) (auto simp: depth_def)
  then show "depth st = k \<Longrightarrow> ?thesis"
    by (cases "sub_at k st") (auto simp: depth_def)
qed

lemma aappend_leaf:
  assumes "depth st = k"
  shows "layout (aappend k bs st) = layout st @ bs" and "chain_of c off (aappend k bs st) = chain_of c off st"
    and "snd st = fs \<Longrightarrow> frames_ok fs \<Longrightarrow> frames_ok (snd (aappend k bs st))" and "depth (aappend k bs st) = k"
proof -
  obtain r where r: "sub_at k st = (r, [])" using sub_at_depth_leaf [OF assms] by blast
  have k: "k \<le> depth st" using assms by simp
  show "layout (aappend k bs st) = layout st @ bs"
    using layout_sub [of st k] by (simp add: aappend_def layout_at_depth [OF k] r)
  have "drop k (chain_of c off st) = [chain_of c off st ! k]"
    by (simp add: drop_chain [OF k] r)
  then show "chain_of c off (aappend k bs st) = chain_of c off st"
    using append_take_drop_id [of k "chain_of c off st"] by (simp add: aappend_def chain_at_depth [OF k] r)
  show "snd st = fs \<Longrightarrow> frames_ok fs \<Longrightarrow> frames_ok (snd (aappend k bs st))"
    unfolding aappend_def by (rule frames_ok_at_depth) (simp_all add: r)
  show "depth (aappend k bs st) = k"
    by (simp add: aappend_def depth_at_depth [OF k] r)
qed

lemma writes_on_base:
  assumes "appends malloc g fit bs"
  shows "writes malloc (\<lambda>st. depth st = k) (on_base g) (\<lambda>_. fit) (aappend k bs)"
proof (rule writesI)
  fix st assume "depth st = k"
  then show "length (layout st) \<le> length (layout (aappend k bs st))" by (simp add: aappend_leaf)
next
  fix w st r w'
  assume w: "refines w st" and k: "depth st = k" and run: "on_base g w = (r, w')"
  obtain b where b: "cw_base w = Some b" "buf_wf b" "\<not> cb_error b" "contents b = layout st"
    "cw_chain w = chain_of CBB_zero 0 st" "frames_ok (snd st)"
    using w by (auto simp: refines_def split: option.splits)
  have "flush_result malloc fit (layout st @ bs) b (fst (g b) \<noteq> None) (snd (g b))"
    using assms b(2,4) by (auto simp: appends_def)
  with run b k show "write_result malloc w fit (aappend k bs st) (r \<noteq> None) w'"
    by (auto simp: on_base_def write_result_def flush_result_def refines_def failed_def roomy_writer_def small_def
        aappend_leaf split: prod.splits)
qed

lemma on_base_bind: "st_bind (on_base g) (\<lambda>x. on_base (h x)) = on_base (st_bind g h)"
  by (auto simp: fun_eq_iff st_bind_def on_base_def split: prod.splits option.splits)

lemma store_at_end:
  assumes "malloc_sized malloc" and "buf_wf b" and "length bs < 2 ^ 64"
    and "cbb_buffer_add malloc (length bs) b = (Some p, b1)"
  defines "b' \<equiv> b1\<lparr>cb_buf := mem_store (cb_buf b1) p bs\<rparr>"
  shows "buf_wf b'" and "contents b' = contents b @ bs" and "cb_error b' = cb_error b"
    and "roomy malloc b \<Longrightarrow> cb_len b + length bs < 2 ^ 62 \<Longrightarrow> roomy malloc b'"
proof -
  note add = cbb_buffer_add_Some [OF assms(1-4)]
  have len: "cb_len b \<le> length (cb_buf b1)" "cb_len b + length bs \<le> length (cb_buf b1)"
    using add(2,3) by (simp_all add: buf_wf_def)
  show "contents b' = contents b @ bs"
    using add(4) take_mem_store_end [OF len(1), of bs] by (simp add: b'_def contents_def add)
  show "buf_wf b'"
    using add(2) len by (simp add: b'_def buf_wf_def add(1,3))
  show "cb_error b' = cb_error b" by (simp add: b'_def add)
  show "roomy malloc b \<Longrightarrow> cb_len b + length bs < 2 ^ 62 \<Longrightarrow> roomy malloc b'"
    using add(6) by (simp add: b'_def roomy_def)
qed

lemma appends_bytes:
  assumes "malloc_sized malloc" and "length bs < 2 ^ 64"
  shows "appends malloc (st_bind (cbb_buffer_add malloc (length bs)) (\<lambda>p. buf_write p bs)) True bs"
  unfolding appends_def
proof (intro allI impI)
  fix b assume b: "buf_wf b"
  obtain r b1 where add: "cbb_buffer_add malloc (length bs) b = (r, b1)" by fastforce
  let ?op = "st_bind (cbb_buffer_add malloc (length bs)) (\<lambda>p. buf_write p bs)"
  show "flush_result malloc True (contents b @ bs) b (fst (?op b) \<noteq> None) (snd (?op b))"
  proof (cases r)
    case None
    then have "\<not> (roomy malloc b \<and> cb_len b + length bs < 2 ^ 62)"
      using cbb_buffer_add_total [OF b, of malloc "length bs"] add by auto
    with None add b cbb_buffer_add_None [OF b assms(2), of malloc b1] show ?thesis
      by (auto simp: flush_result_def)
  next
    case (Some p)
    with store_at_end [OF assms(1) b assms(2), of p b1] add b show ?thesis
      by (auto simp: flush_result_def buf_write_def)
  qed
qed

lemma appends_u:
  assumes "malloc_sized malloc" and "0 < n" and "n \<le> 8"
  shows "appends malloc (cbb_buffer_add_u malloc v n) (unat v < 256 ^ n) (be_bytes n (unat v))"
  unfolding appends_def
proof (intro allI impI)
  fix b assume b: "buf_wf b"
  obtain r b1 where add: "cbb_buffer_add malloc n b = (r, b1)" by fastforce
  have n64: "n < 2 ^ 64" using assms by simp
  have fit: "drop_bit (8 * n) v = 0 \<longleftrightarrow> unat v < 256 ^ n"
    by (simp add: drop_bit_eq_0_unat power_mult)
  let ?op = "cbb_buffer_add_u malloc v n"
  show "flush_result malloc (unat v < 256 ^ n) (contents b @ be_bytes n (unat v)) b (fst (?op b) \<noteq> None) (snd (?op b))"
  proof (cases r)
    case None
    then have "\<not> (roomy malloc b \<and> cb_len b + n < 2 ^ 62)"
      using cbb_buffer_add_total [OF b, of malloc n] add by auto
    with None add b cbb_buffer_add_None [OF b n64, of malloc b1] assms(2) show ?thesis
      by (auto simp: flush_result_def cbb_buffer_add_u_def)
  next
    case (Some p)
    with store_at_end [OF assms(1) b, of "be_bytes n (unat v)" p b1] add b n64 assms(2) fit show ?thesis
      by (auto simp: flush_result_def cbb_buffer_add_u_def store_u_loop_eq cbb_buffer_fail_def Let_def)
  qed
qed

lemma writes_cong:
  assumes "writes malloc D op ok f" and "\<And>st. D st \<Longrightarrow> ok st = ok' st" and "\<And>st. D st \<Longrightarrow> f st = f' st"
  shows "writes malloc D op ok' f'"
proof (rule writesI)
  fix st assume "D st"
  then show "length (layout st) \<le> length (layout (f' st))"
    using writes_grow [OF assms(1)] assms(3) by simp
next
  fix w st r w' assume "refines w st" "D st" "op w = (r, w')"
  then show "write_result malloc w (ok' st) (f' st) (r \<noteq> None) w'"
    using writesD [OF assms(1)] assms(2,3) by simp
qed

lemma aappend_aflush [simp]: "k \<le> depth st \<Longrightarrow> aappend k bs (aflush k st) = aappend k bs st"
  by (simp add: aappend_def aflush_def at_depth_comp comp_def split_def)

lemma aappend_aappend [simp]: "k \<le> depth st \<Longrightarrow> aappend k cs (aappend k bs st) = aappend k (bs @ cs) st"
  by (simp add: aappend_def at_depth_comp comp_def split_def)

lemma aopen_aappend [simp]: "k \<le> depth st \<Longrightarrow> aopen k cs p (aappend k bs st) = aopen k (bs @ cs) p st"
  by (simp add: aappend_def aopen_def at_depth_comp comp_def split_def)

lemma aopen_aflush [simp]: "k \<le> depth st \<Longrightarrow> aopen k cs p (aflush k st) = aopen k cs p st"
  by (simp add: aflush_def aopen_def at_depth_comp comp_def split_def)

lemma depth_aappend [simp]: "k \<le> depth st \<Longrightarrow> depth (aappend k bs st) = k"
  by (simp add: aappend_def depth_at_depth split_def)

lemma depth_aopen [simp]: "k \<le> depth st \<Longrightarrow> depth (aopen k bs p st) = Suc k"
  by (simp add: aopen_def depth_at_depth split_def)

lemma open_ok_aappend [simp]: "k \<le> depth st \<Longrightarrow> open_ok k (aappend k bs st)"
  by (simp add: open_ok_def aappend_def sub_at_depth split_def)

lemma open_ok_aflush [simp]: "k \<le> depth st \<Longrightarrow> open_ok k (aflush k st)"
  by (simp add: open_ok_def aflush_def sub_at_depth split_def)

lemma writes_append:
  assumes "malloc_sized malloc" and "appends malloc g fit bs"
  shows "writes malloc (\<lambda>st. k \<le> depth st) (st_bind (CBB_flush malloc k) (\<lambda>_. on_base g))
           (\<lambda>st. open_ok k st \<and> fit) (aappend k bs)"
proof -
  have "writes malloc (\<lambda>st. k \<le> depth st) (st_bind (CBB_flush malloc k) (\<lambda>_. on_base g))
           (\<lambda>st. closable (snd (sub_at k st)) \<and> fit) (\<lambda>st. aappend k bs (aflush k st))"
    by (rule writes_bind [OF writes_flush [OF assms(1)] writes_on_base [OF assms(2)]]) simp
  then show ?thesis
    by (rule writes_cong) (simp_all add: open_ok_def)
qed

lemma be_bytes_1: "be_bytes 1 (unat b) = [b]" for b :: byte
  by simp

lemma writes_add_u8:
  assumes "malloc_sized malloc"
  shows "writes malloc (\<lambda>st. k \<le> depth st) (CBB_add_u8 malloc k b) (open_ok k) (aappend k [b])"
proof -
  have "appends malloc (cbb_buffer_add_u malloc (ucast b) 1) True [b]"
    using appends_u [OF assms, of 1 "ucast b"] byte_bound [of b] by (simp add: unat_ucast_up)
  from writes_append [OF assms this] show ?thesis
    by (simp add: CBB_add_u8_def)
qed

lemma writes_add_bytes:
  assumes "malloc_sized malloc" and "length data < 2 ^ 64"
  shows "writes malloc (\<lambda>st. k \<le> depth st) (CBB_add_bytes malloc k data) (open_ok k) (aappend k data)"
  using writes_append [OF assms(1) appends_bytes [OF assms]]
  by (simp add: CBB_add_bytes_def on_base_bind)

lemma writes_add_u8s:
  assumes "malloc_sized malloc"
  shows "writes malloc (\<lambda>st. k \<le> depth st) (add_u8s malloc k (b # bs)) (open_ok k) (aappend k (b # bs))"
proof (induction bs arbitrary: b)
  case Nil
  have "add_u8s malloc k [b] = CBB_add_u8 malloc k b"
    by (auto simp: fun_eq_iff st_bind_def split: prod.splits option.splits)
  then show ?case using writes_add_u8 [OF assms] by simp
next
  case (Cons c bs)
  have "writes malloc (\<lambda>st. k \<le> depth st) (st_bind (CBB_add_u8 malloc k b) (\<lambda>_. add_u8s malloc k (c # bs)))
          (\<lambda>st. open_ok k st \<and> open_ok k (aappend k [b] st)) (\<lambda>st. aappend k (c # bs) (aappend k [b] st))"
    by (rule writes_bind [OF writes_add_u8 [OF assms] Cons]) simp
  then have "writes malloc (\<lambda>st. k \<le> depth st) (st_bind (CBB_add_u8 malloc k b) (\<lambda>_. add_u8s malloc k (c # bs)))
          (open_ok k) (aappend k (b # c # bs))"
    by (rule writes_cong) simp_all
  then show ?case by simp
qed

lemma writes_base128:
  assumes "malloc_sized malloc"
  shows "writes malloc (\<lambda>st. k \<le> depth st) (add_base128_integer malloc k v) (open_ok k) (aappend k (base128_bytes v))"
proof -
  obtain b bs where "base128_bytes v = b # bs"
    using length_base128_bytes [of v] by (cases "base128_bytes v") auto
  moreover have "add_base128_integer malloc k v = add_u8s malloc k (base128_bytes v)"
    by (simp add: add_base128_integer_def base128_bytes_def Let_def)
  ultimately show ?thesis using writes_add_u8s [OF assms] by simp
qed

text \<open>Attaching a child in front of whose contents the pending octets have just been written.\<close>

lemma refines_attach:
  assumes "depth st = k" and "frames_ok (snd st)" and "refines w (aappend k (replicate (pend p) 0) st)" and "0 < pend p" and "pend p \<le> 8"
    and "attach_child k (length (layout st)) (pend p) (p = Asn1_prefix) w = (r, w')"
  shows "r = Some () \<and> refines w' (aopen k [] p st) \<and> cw_base w' = cw_base w \<and>
         layout (aopen k [] p st) = layout (aappend k (replicate (pend p) 0) st)"
proof -
  have k: "k \<le> depth st" using assms(1) by simp
  obtain d where d: "sub_at k st = (d, [])" using sub_at_depth_leaf [OF assms(1)] by blast
  have lay: "layout (aopen k [] p st) = layout (aappend k (replicate (pend p) 0) st)"
    using layout_sub [of st k] by (simp add: aopen_def layout_at_depth [OF k] d aappend_leaf [OF assms(1)])
  obtain b where b: "cw_base w = Some b" "buf_wf b" "\<not> cb_error b" "contents b = layout (aopen k [] p st)"
    "cw_chain w = chain_of CBB_zero 0 st" "frames_ok (snd (aappend k (replicate (pend p) 0) st))"
    using assms(3) by (auto simp: refines_def lay aappend_leaf [OF assms(1)] split: option.splits)
  have "drop k (cw_chain w) = [cw_chain w ! k]"
    using drop_chain [OF k, of CBB_zero 0] b(5) by (simp add: d)
  then have "cw_chain w = take k (cw_chain w) @ [cw_chain w ! k]"
    by (metis append_take_drop_id)
  moreover have "length (layout st) = length (outer_at k st) + length d"
    using layout_sub [of st k] by (simp add: d)
  ultimately have chain: "chain_of CBB_zero 0 (aopen k [] p st) = cw_chain w @ [child_of (length (layout st)) p]"
    using b(5) by (simp add: aopen_def chain_at_depth [OF k] d chain_of_Cons)
  have "frames_ok (snd (aopen k [] p st))"
    unfolding aopen_def by (rule frames_ok_at_depth [OF assms(2)]) (simp add: d assms)
  moreover have "take (k + 1) (cw_chain w) = cw_chain w"
    using b(5) assms(1) by simp
  ultimately show ?thesis
    using assms(6) b lay chain by (auto simp: attach_child_def refines_def child_of_def)
qed

lemma refines_len: "refines w st \<Longrightarrow> cw_base w = Some b \<Longrightarrow> cb_len b = length (layout st)"
  using length_contents [of b] by (simp add: refines_def)

lemma layout_aopen_leaf:
  assumes "depth st = k"
  shows "layout (aopen k [] p st) = layout st @ replicate (pend p) 0"
proof -
  obtain d where "sub_at k st = (d, [])" using sub_at_depth_leaf [OF assms] by blast
  then show ?thesis
    using layout_sub [of st k] assms by (simp add: aopen_def layout_at_depth)
qed

lemma writes_attach:
  assumes "writes malloc (\<lambda>st. depth st = k) op ok (aappend k (replicate (pend p) 0))" and "0 < pend p" and "pend p \<le> 8"
    and "\<And>w st off w'. refines w st \<Longrightarrow> depth st = k \<Longrightarrow> op w = (Some off, w') \<Longrightarrow> off = length (layout st)"
  shows "writes malloc (\<lambda>st. depth st = k) (st_bind op (\<lambda>off. attach_child k off (pend p) (p = Asn1_prefix))) ok (aopen k [] p)"
proof (rule writesI)
  show "length (layout st) \<le> length (layout (aopen k [] p st))" if "depth st = k" for st
    using that by (simp add: layout_aopen_leaf)
  fix w st r w'
  assume w: "refines w st" "depth st = k" and run: "st_bind op (\<lambda>off. attach_child k off (pend p) (p = Asn1_prefix)) w = (r, w')"
  obtain r1 w1 where op: "op w = (r1, w1)" by fastforce
  note res = writesD [OF assms(1) w op]
  have sm: "small (aopen k [] p st) = small (aappend k (replicate (pend p) 0) st)"
    by (simp add: small_def layout_aopen_leaf [OF w(2)] aappend_leaf [OF w(2)])
  show "write_result malloc w (ok st) (aopen k [] p st) (r \<noteq> None) w'"
  proof (cases r1)
    case None
    with run op res sm show ?thesis by (simp add: write_result_def)
  next
    case (Some off)
    then have off: "off = length (layout st)" using assms(4) [OF w] op by simp
    have fr: "frames_ok (snd st)" using w(1) by (auto simp: refines_def split: option.splits)
    have w1: "refines w1 (aappend k (replicate (pend p) 0) st)" using res Some by (simp add: write_result_def)
    have "attach_child k (length (layout st)) (pend p) (p = Asn1_prefix) w1 = (r, w')"
      using run op Some off by simp
    from refines_attach [OF w(2) fr w1 assms(2,3) this] res Some sm
    show ?thesis by (auto simp: write_result_def roomy_writer_def)
  qed
qed

lemma writes_weaken: "writes malloc D op ok f \<Longrightarrow> (\<And>st. D' st \<Longrightarrow> D st) \<Longrightarrow> writes malloc D' op ok f"
  unfolding writes_def by blast

lemma open_ok_leaf: "depth st = k \<Longrightarrow> open_ok k st"
  using sub_at_depth_leaf [of st k] by (auto simp: open_ok_def)

lemma writes_length_prefixed:
  assumes "malloc_sized malloc" and "0 < n" and "n \<le> 8"
  shows "writes malloc (\<lambda>st. k \<le> depth st) (cbb_add_length_prefixed malloc k n) (open_ok k) (aopen k [] (Len_prefix n))"
proof -
  let ?g = "st_bind (cbb_buffer_add malloc n) (\<lambda>off. st_bind (buf_write off (replicate n 0)) (\<lambda>_. st_return off))"
  have "appends malloc ?g True (replicate n 0)"
    using appends_bytes [OF assms(1), of "replicate n 0"] assms(3)
    by (auto simp: appends_def st_bind_def buf_write_def split: prod.splits option.splits)
  then have w: "writes malloc (\<lambda>st. depth st = k) (on_base ?g) (\<lambda>_. True) (aappend k (replicate (pend (Len_prefix n)) 0))"
    using writes_on_base by simp
  have off: "off = length (layout st)" if "refines w st" "depth st = k" "on_base ?g w = (Some off, w')" for w st off w'
  proof -
    from that obtain b b1 where b: "cw_base w = Some b" "buf_wf b" and add: "cbb_buffer_add malloc n b = (Some off, b1)"
      by (auto simp: refines_def on_base_def st_bind_eq_Some split: option.splits prod.splits)
    have "off = cb_len b" using cbb_buffer_add_Some(1) [OF assms(1) b(2) _ add] assms(3) by simp
    with refines_len [OF that(1) b(1)] show ?thesis by simp
  qed
  have "writes malloc (\<lambda>st. depth st = k) (st_bind (on_base ?g) (\<lambda>off. attach_child k off n False)) (\<lambda>_. True) (aopen k [] (Len_prefix n))"
    using writes_attach [OF w] off assms(2,3) by simp
  then have "writes malloc (\<lambda>st. k \<le> depth st) (st_bind (CBB_flush malloc k) (\<lambda>_. st_bind (on_base ?g) (\<lambda>off. attach_child k off n False)))
      (\<lambda>st. closable (snd (sub_at k st)) \<and> True) (\<lambda>st. aopen k [] (Len_prefix n) (aflush k st))"
    by (rule writes_bind [OF writes_flush [OF assms(1)]]) simp
  moreover have "st_bind (on_base ?g) (\<lambda>off. attach_child k off n False) =
     st_bind (on_base (cbb_buffer_add malloc n)) (\<lambda>offset. st_bind (on_base (buf_write offset (replicate n 0))) (\<lambda>_. attach_child k offset n False))"
    by (auto simp: fun_eq_iff st_bind_def on_base_def buf_write_def split: prod.splits option.splits)
  ultimately show ?thesis
    unfolding cbb_add_length_prefixed_def by (auto intro: writes_cong simp: open_ok_def)
qed

lemma writes_add_asn1:
  assumes "malloc_sized malloc"
  shows "writes malloc (\<lambda>st. k \<le> depth st) (CBB_add_asn1 malloc k tag) (open_ok k) (aopen k (der_tag tag) Asn1_prefix)"
proof -
  have ret: "writes malloc D (st_return x) (\<lambda>_. True) (\<lambda>st. st)" for D and x :: nat
    by (rule writesI) (auto simp: write_result_def)
  have base: "writes malloc D base_len (\<lambda>_. True) (\<lambda>st. st)" for D
    by (rule writesI)
      (auto simp: write_result_def base_len_def on_base_def refines_def failed_def roomy_writer_def
          split: option.splits)
  define g where "g = st_bind base_len (\<lambda>offset. st_bind (CBB_add_u8 malloc k 0) (\<lambda>_. st_return offset))"
  have "writes malloc (\<lambda>st. depth st = k) g (\<lambda>st. True \<and> (open_ok k st \<and> True)) (\<lambda>st. aappend k [0] st)"
    unfolding g_def
    by (rule writes_bind [OF base writes_bind [OF writes_add_u8 [OF assms] ret [of "\<lambda>_. True"]]]) simp_all
  then have g: "writes malloc (\<lambda>st. depth st = k) g (\<lambda>_. True) (aappend k (replicate (pend Asn1_prefix) 0))"
    by (rule writes_cong) (simp_all add: open_ok_leaf)
  have off: "off = length (layout st)" if "refines w st" "depth st = k" "g w = (Some off, w')" for w st off w'
  proof -
    from that(1) obtain b where "cw_base w = Some b" by (auto simp: refines_def split: option.splits)
    with that(3) refines_len [OF that(1)] show ?thesis
      by (auto simp: g_def st_bind_eq_Some base_len_def on_base_def)
  qed
  have child: "writes malloc (\<lambda>st. depth st = k) (st_bind g (\<lambda>off. attach_child k off 1 True)) (\<lambda>_. True) (aopen k [] Asn1_prefix)"
    using writes_attach [OF g _ _ off] by simp
  let ?bits = "(ucast (drop_bit CBS_ASN1_TAG_SHIFT tag) :: byte) AND 0xe0" and ?n = "tag AND CBS_ASN1_TAG_NUMBER_MASK"
  define tagop where "tagop = (if ?n \<ge> 0x1f
      then st_bind (CBB_add_u8 malloc k (?bits OR 0x1f)) (\<lambda>_. add_base128_integer malloc k (ucast ?n))
      else CBB_add_u8 malloc k (?bits OR ucast ?n))"
  have tagop: "writes malloc (\<lambda>st. k \<le> depth st) tagop (open_ok k) (aappend k (der_tag tag))"
  proof (cases "?n \<ge> 0x1f")
    case True
    have "writes malloc (\<lambda>st. k \<le> depth st) tagop (\<lambda>st. open_ok k st \<and> open_ok k (aappend k [?bits OR 0x1f] st))
        (\<lambda>st. aappend k (base128_bytes (ucast ?n)) (aappend k [?bits OR 0x1f] st))"
      unfolding tagop_def if_P [OF True]
      by (rule writes_bind [OF writes_add_u8 [OF assms] writes_base128 [OF assms]]) simp
    then show ?thesis
      by (rule writes_cong) (simp_all add: der_tag_def Let_def True)
  next
    case False
    then show ?thesis
      using writes_add_u8 [OF assms] by (simp add: tagop_def der_tag_def Let_def)
  qed
  have eq: "CBB_add_asn1 malloc k tag =
      st_bind (CBB_flush malloc k) (\<lambda>_. st_bind tagop (\<lambda>_. st_bind g (\<lambda>off. attach_child k off 1 True)))"
  proof -
    have "st_bind g (\<lambda>off. attach_child k off 1 True) =
        st_bind base_len (\<lambda>offset. st_bind (CBB_add_u8 malloc k 0) (\<lambda>_. attach_child k offset 1 True))"
      by (auto simp: fun_eq_iff g_def st_bind_def split: prod.splits option.splits)
    then show ?thesis
      by (simp only: CBB_add_asn1_def tagop_def Let_def)
  qed
  have "writes malloc (\<lambda>st. k \<le> depth st) (CBB_add_asn1 malloc k tag)
      (\<lambda>st. closable (snd (sub_at k st)) \<and> (open_ok k (aflush k st) \<and> True))
      (\<lambda>st. aopen k [] Asn1_prefix (aappend k (der_tag tag) (aflush k st)))"
    unfolding eq by (rule writes_bind [OF writes_flush [OF assms] writes_bind [OF tagop child]]) simp_all
  then show ?thesis
    by (rule writes_cong) (simp_all add: open_ok_def [symmetric])
qed

lemma le_byte_eq: "le_byte v i = of_nat (unat v div 256 ^ i)"
proof -
  have "unat (drop_bit (8 * i) v) = unat v div 256 ^ i"
    by (simp only: unat_drop_bit_eq) (simp add: drop_bit_eq_div power_mult)
  moreover have "le_byte v i = of_nat (unat (drop_bit (8 * i) v))"
    by (simp add: le_byte_def)
  ultimately show ?thesis by simp
qed

lemma le_bytes_be: "map (le_byte v) (rev [0..<n]) = be_bytes n (unat v)"
  by (simp add: be_bytes_map le_byte_eq)

lemma u64_bytes_be: "map (u64_byte v) [0..<8] = be_bytes 8 (unat v)"
proof -
  have "u64_byte v i = le_byte v (7 - i)" for i
    by (rule bit_word_eqI) (auto simp: u64_byte_def le_byte_def bit_simps bit_consts)
  moreover have "[0..<8] = [0, 1, 2, 3, 4, 5, 6, 7]" "rev [0..<8] = [7, 6, 5, 4, 3, 2, 1, 0]"
    by (simp_all add: upt_rec)
  ultimately show ?thesis
    by (simp add: le_bytes_be [symmetric])
qed

lemma uint_final_eq: "uint_final bs = uint_contents (be_nat bs)"
proof (induction bs)
  case Nil
  then show ?case by (simp add: uint_final_def uint_contents_def int_octets_def octets.simps)
next
  case (Cons b bs)
  show ?case
  proof (cases "b = 0")
    case True
    with Cons show ?thesis by (auto simp: uint_final_def be_nat_Cons split: if_splits)
  next
    case False
    then have out: "uint_final (b # bs) = (if 128 \<le> unat b then 0 # b # bs else b # bs)"
      by (simp add: uint_final_def byte_high_bit_ge not_less)
    then have "CBS_is_unsigned_asn1_integer (uint_final (b # bs))"
      using False by (cases bs) (auto simp: is_unsigned_simps)
    moreover have "be_nat (uint_final (b # bs)) = be_nat (b # bs)"
      using out by (simp add: be_nat_Cons)
    ultimately show ?thesis by (metis unsigned_integer_iff)
  qed
qed

lemma asn1_uint64_bytes_started: "asn1_uint64_bytes malloc k True bs = st_bind (add_u8s malloc k bs) (\<lambda>_. st_return True)"
  by (induction bs) (auto simp: fun_eq_iff st_bind_def split: prod.splits option.splits)

lemma asn1_uint64_bytes_False:
  "st_bind (asn1_uint64_bytes malloc k False bs) (\<lambda>started. if \<not> started then CBB_add_u8 malloc k 0 else st_return ()) =
   add_u8s malloc k (uint_final bs)"
proof (induction bs)
  case Nil
  then show ?case by (auto simp: fun_eq_iff uint_final_def st_bind_def split: prod.splits option.splits)
next
  case (Cons b bs)
  then show ?case
    by (auto simp: fun_eq_iff uint_final_def asn1_uint64_bytes_started st_bind_def split: prod.splits option.splits if_splits)
qed

lemma int64_start_bits:
  "bit v (8 * n + 7) \<Longrightarrow>
     (\<forall>i. 8 * int64_start v n + 7 \<le> i \<and> i < 8 * n + 8 \<longrightarrow> bit v i) \<and>
     (int64_start v n \<noteq> 0 \<longrightarrow> (\<exists>i. 8 * int64_start v n - 1 \<le> i \<and> i < 8 * n + 8 \<and> \<not> bit v i))"
proof (induction n)
  case 0
  have "i = 7" if "7 \<le> i" "i < 8" for i :: nat using that by simp
  with 0 show ?case by (metis add.left_neutral int64_start.simps(1) mult_0_right)
next
  case (Suc n)
  have byte: "bit (le_byte v j) i \<longleftrightarrow> i < 8 \<and> bit v (8 * j + i)" for j i
    by (simp add: le_byte_def bit_simps)
  have ff: "le_byte v (Suc n) = 0xff \<longleftrightarrow> (\<forall>i<8. bit v (8 * Suc n + i))"
  proof
    assume "le_byte v (Suc n) = 0xff"
    then have "bit (le_byte v (Suc n)) i" if "i < 8" for i using that by (simp add: bit_consts)
    then show "\<forall>i<8. bit v (8 * Suc n + i)" by (simp only: byte) blast
  next
    assume "\<forall>i<8. bit v (8 * Suc n + i)"
    then show "le_byte v (Suc n) = 0xff"
      by (intro bit_word_eqI) (simp add: byte bit_consts)
  qed
  have hi: "le_byte v n AND 0x80 \<noteq> 0 \<longleftrightarrow> bit v (8 * n + 7)"
    using high_bit_iff [of "le_byte v n"] byte [of n 7] by simp
  show ?case
  proof (cases "le_byte v (Suc n) = 0xff \<and> le_byte v n AND 0x80 \<noteq> 0")
    case True
    then have IH: "(\<forall>i. 8 * int64_start v n + 7 \<le> i \<and> i < 8 * n + 8 \<longrightarrow> bit v i)"
      "(int64_start v n \<noteq> 0 \<longrightarrow> (\<exists>i. 8 * int64_start v n - 1 \<le> i \<and> i < 8 * n + 8 \<and> \<not> bit v i))"
      using Suc.IH hi by auto
    have "bit v i" if "8 * int64_start v n + 7 \<le> i" "i < 8 * Suc n + 8" for i
    proof (cases "i < 8 * n + 8")
      case False
      with that have i: "i = 8 * Suc n + (i - 8 * Suc n)" "i - 8 * Suc n < 8" by simp_all
      have "\<forall>i<8. bit v (8 * Suc n + i)" using True ff by blast
      with i show ?thesis by metis
    qed (use IH that in blast)
    moreover have "int64_start v (Suc n) = int64_start v n" using True by simp
    moreover have "\<exists>i. 8 * int64_start v n - 1 \<le> i \<and> i < 8 * Suc n + 8 \<and> \<not> bit v i" if nz: "int64_start v n \<noteq> 0"
    proof -
      from IH(2) nz obtain i where "8 * int64_start v n - 1 \<le> i" "i < 8 * n + 8" "\<not> bit v i" by blast
      then show ?thesis by (intro exI [of _ i]) simp
    qed
    ultimately show ?thesis by metis
  next
    case False
    then have "\<exists>i. 8 * Suc n - 1 \<le> i \<and> i < 8 * Suc n + 8 \<and> \<not> bit v i"
    proof (cases "le_byte v (Suc n) = 0xff")
      case True
      with False hi have "\<not> bit v (8 * n + 7)" by simp
      then show ?thesis by (intro exI [of _ "8 * n + 7"]) simp
    next
      case False
      with ff obtain i where "i < 8" "\<not> bit v (8 * Suc n + i)" by blast
      then show ?thesis by (intro exI [of _ "8 * Suc n + i"]) simp
    qed
    moreover have "i = 8 * Suc n + 7" if "8 * Suc n + 7 \<le> i \<and> i < 8 * Suc n + 8" for i
      using that by simp
    then have "8 * Suc n + 7 \<le> i \<and> i < 8 * Suc n + 8 \<longrightarrow> bit v i" for i
      using Suc.prems by metis
    moreover have "int64_start v (Suc n) = Suc n" using False by auto
    ultimately show ?thesis by (simp only:) blast
  qed
qed

lemma int64_start_eq:
  assumes "sint v < 0"
  shows "be_bytes (int64_start v 7 + 1) (unat v) = int64_contents v"
proof -
  let ?s = "int64_start v 7"
  have b63: "bit v (8 * 7 + 7)" using assms bit_last_iff [of v] by simp
  have all: "bit v i" if "8 * ?s + 7 \<le> i" "i < 64" for i
    using int64_start_bits [OF b63] that by auto
  have ex: "\<exists>i. 8 * ?s - 1 \<le> i \<and> i < 64 \<and> \<not> bit v i" if "?s \<noteq> 0"
    using int64_start_bits [OF b63] that by auto
  have "drop_bit (8 * ?s + 7) (NOT v) = 0"
    by (rule bit_word_eqI) (auto simp: bit_simps all)
  then have "unat (NOT v) < 2 ^ (8 * ?s + 7)" by (simp add: drop_bit_eq_0_unat)
  then have "unat (NOT v) < 128 * 256 ^ ?s" by (simp add: power_add power_mult mult.commute)
  moreover have "?s = 0 \<or> 128 * 256 ^ (?s - 1) \<le> unat (NOT v)"
  proof (cases ?s)
    case (Suc j)
    then obtain i where i: "8 * j + 7 \<le> i" "i < 64" "\<not> bit v i" using ex by (auto simp: add.commute)
    then have "bit (drop_bit (8 * j + 7) (NOT v)) (i - (8 * j + 7))" by (simp add: bit_simps)
    then have "drop_bit (8 * j + 7) (NOT v) \<noteq> 0" by (metis bit_0_eq bot_apply bot_bool_def)
    then have "2 ^ (8 * j + 7) \<le> unat (NOT v)" by (simp add: drop_bit_eq_0_unat)
    moreover have "(2 :: nat) ^ (8 * j + 7) = 128 * 256 ^ j" by (simp add: power_add power_mult)
    ultimately show ?thesis using Suc by simp
  qed simp
  ultimately have "int_octets (unat (NOT v)) = Suc ?s" by (rule int_octets_unique)
  then show ?thesis using assms by (simp add: int64_contents_def)
qed

lemma at_depth_Suc:
  "k \<le> depth st \<Longrightarrow> at_depth (Suc k) f (at_depth k g st) = at_depth k (\<lambda>s. at_depth (Suc 0) f (g s)) st"
  by (induction k g st rule: at_depth.induct) (auto simp: split_beta)

lemma aappend_child:
  "k \<le> depth st \<Longrightarrow> aappend (Suc k) bs (aopen k t p st) = at_depth k (\<lambda>(r, fs). (r @ close fs @ t, [(p, bs)])) st"
  by (simp add: aappend_def aopen_def at_depth_Suc split_def)

lemma aflush_child:
  "k \<le> depth st \<Longrightarrow>
     aflush k (aappend (Suc k) bs (aopen k t p st)) = aappend k (t @ prefix_bytes p (length bs) @ bs) st"
  unfolding aappend_child by (simp add: aflush_def aappend_def at_depth_comp comp_def split_def Let_def)

lemma open_ok_child:
  "k \<le> depth st \<Longrightarrow> open_ok k (aappend (Suc k) bs (aopen k t p st)) \<longleftrightarrow> prefix_ok p (length bs)"
  unfolding aappend_child by (simp add: open_ok_def sub_at_depth split_def)

lemma open_ok_aopen [simp]: "k \<le> depth st \<Longrightarrow> open_ok (Suc k) (aopen k t p st)"
  by (simp add: open_ok_leaf)

lemma writes_flush_open_ok:
  "malloc_sized malloc \<Longrightarrow> writes malloc (\<lambda>st. k \<le> depth st) (CBB_flush malloc k) (open_ok k) (aflush k)"
  using writes_flush by (simp add: open_ok_def [abs_def])

lemma writes_child:
  assumes "malloc_sized malloc" and "writes malloc (\<lambda>st. k \<le> depth st) opn (open_ok k) (aopen k t p)"
    and "writes malloc (\<lambda>st. Suc k \<le> depth st) body (open_ok (Suc k)) (aappend (Suc k) bs)"
  shows "writes malloc (\<lambda>st. k \<le> depth st) (st_bind opn (\<lambda>_. st_bind body (\<lambda>_. CBB_flush malloc k)))
           (\<lambda>st. open_ok k st \<and> prefix_ok p (length bs)) (aappend k (t @ prefix_bytes p (length bs) @ bs))"
proof -
  have "writes malloc (\<lambda>st. k \<le> depth st) (st_bind opn (\<lambda>_. st_bind body (\<lambda>_. CBB_flush malloc k)))
     (\<lambda>st. open_ok k st \<and> (open_ok (Suc k) (aopen k t p st) \<and> open_ok k (aappend (Suc k) bs (aopen k t p st))))
     (\<lambda>st. aflush k (aappend (Suc k) bs (aopen k t p st)))"
    by (rule writes_bind [OF assms(2) writes_bind [OF assms(3) writes_flush_open_ok [OF assms(1)]]]) simp_all
  then show ?thesis
    by (rule writes_cong) (simp_all add: aflush_child open_ok_child)
qed

lemma writes_octet_string:
  assumes "malloc_sized malloc" and "length data < 2 ^ 64"
  shows "writes malloc (\<lambda>st. k \<le> depth st) (CBB_add_asn1_octet_string malloc k data)
    (\<lambda>st. open_ok k st \<and> length data \<le> 0xfffffffe) (aappend k (der_element CBS_ASN1_OCTETSTRING data))"
  using writes_child [OF assms(1) writes_add_asn1 [OF assms(1)] writes_add_bytes [OF assms]]
  by (simp add: CBB_add_asn1_octet_string_def der_element_def)

lemma writes_bool:
  assumes "malloc_sized malloc"
  shows "writes malloc (\<lambda>st. k \<le> depth st) (CBB_add_asn1_bool malloc k v) (open_ok k) (aappend k (der_bool v))"
  using writes_child [OF assms writes_add_asn1 [OF assms] writes_add_u8 [OF assms]]
  by (simp add: CBB_add_asn1_bool_def der_bool_def der_element_def)

lemma writes_u8s_contents:
  assumes "malloc_sized malloc" and "cs \<noteq> []" and "length cs \<le> 0xfffffffe"
  shows "writes malloc (\<lambda>st. k \<le> depth st)
     (st_bind (CBB_add_asn1 malloc k tag) (\<lambda>_. st_bind (add_u8s malloc (k + 1) cs) (\<lambda>_. CBB_flush malloc k)))
     (open_ok k) (aappend k (der_element tag cs))"
proof -
  obtain b bs where "cs = b # bs" using assms(2) by (cases cs) auto
  with writes_child [OF assms(1) writes_add_asn1 [OF assms(1)] writes_add_u8s [OF assms(1)], of k tag b bs] assms(3)
  show ?thesis by (simp add: der_element_def)
qed

lemma writes_uint64:
  assumes "malloc_sized malloc"
  shows "writes malloc (\<lambda>st. k \<le> depth st) (CBB_add_asn1_uint64 malloc k v) (open_ok k) (aappend k (der_uint64 v))"
proof -
  let ?cs = "uint_contents (unat v)"
  have "be_nat (be_bytes 8 (unat v)) = unat v"
    using u64_bound [of v] by (simp add: be_nat_be_bytes)
  then have body: "st_bind (asn1_uint64_bytes malloc (k + 1) False (map (u64_byte v) [0..<8]))
      (\<lambda>started. if \<not> started then CBB_add_u8 malloc (k + 1) 0 else st_return ()) = add_u8s malloc (k + 1) ?cs"
    using asn1_uint64_bytes_False [of malloc "k + 1" "be_bytes 8 (unat v)"] by (simp add: u64_bytes_be uint_final_eq)
  have "CBB_add_asn1_uint64 malloc k v =
      st_bind (CBB_add_asn1 malloc k CBS_ASN1_INTEGER) (\<lambda>_. st_bind (add_u8s malloc (k + 1) ?cs) (\<lambda>_. CBB_flush malloc k))"
    unfolding CBB_add_asn1_uint64_def body [symmetric] by (simp only: st_bind_assoc_fun)
  moreover have "?cs \<noteq> []" "length ?cs \<le> 0xfffffffe"
    using length_uint_contents [of v] by (auto simp: uint_contents_def int_octets_def)
  ultimately show ?thesis
    using writes_u8s_contents [OF assms] by (simp add: der_uint64_def)
qed

lemma writes_int64:
  assumes "malloc_sized malloc"
  shows "writes malloc (\<lambda>st. k \<le> depth st) (CBB_add_asn1_int64 malloc k v) (open_ok k) (aappend k (der_int64 v))"
proof (cases "sint v \<ge> 0")
  case True
  then show ?thesis
    using writes_uint64 [OF assms] by (simp add: CBB_add_asn1_int64_def der_int64_def der_uint64_def int64_contents_def uint_contents_def)
next
  case False
  let ?cs = "int64_contents v"
  have "map (le_byte v) (rev [0..<int64_start v 7 + 1]) = ?cs"
    using False int64_start_eq [of v] by (simp only: le_bytes_be)
  moreover have "?cs \<noteq> []" "length ?cs \<le> 0xfffffffe"
    using int64_contents_flip(2) [of v] by (auto simp: int64_contents_def int_octets_def)
  ultimately show ?thesis
    using writes_u8s_contents [OF assms, of ?cs k CBS_ASN1_INTEGER] False
    by (simp only: CBB_add_asn1_int64_def der_int64_def Let_def if_False not_False_eq_True)
qed

lemma writes_add_u:
  assumes "malloc_sized malloc" and "0 < n" and "n \<le> 8"
  shows "writes malloc (\<lambda>st. k \<le> depth st) (st_bind (CBB_flush malloc k) (\<lambda>_. on_base (cbb_buffer_add_u malloc v n)))
     (\<lambda>st. open_ok k st \<and> unat v < 256 ^ n) (aappend k (be_bytes n (unat v)))"
  by (rule writes_append [OF assms(1) appends_u [OF assms]])

lemma writes_add_zeros:
  assumes "malloc_sized malloc" and "n < 2 ^ 64"
  shows "writes malloc (\<lambda>st. k \<le> depth st) (CBB_add_zeros malloc k n) (open_ok k) (aappend k (replicate n 0))"
  using writes_append [OF assms(1) appends_bytes [OF assms(1), of "replicate n 0"]] assms(2)
  by (simp add: CBB_add_zeros_def CBB_add_space_def st_bind_assoc_fun on_base_bind)

lemma cmd_op_writes:
  assumes "malloc_sized malloc" and "cmd_sized c"
  shows "writes malloc (\<lambda>st. cmd_depth c \<le> depth st) (cmd_op malloc c)
     (\<lambda>st. open_ok (cmd_depth c) st \<and> cmd_fits c) (cmd_abs c)"
proof -
  have b16: "unat v < 256 ^ 2" for v :: u16 using u16_bound [of v] by simp
  have b32: "unat v < 256 ^ 4" for v :: u32 using u32_bound [of v] by simp
  have b64: "unat v < 256 ^ 8" for v :: u64 using u64_bound [of v] by simp
  note [simp] = CBB_add_u16_def CBB_add_u24_def CBB_add_u32_def CBB_add_u64_def CBB_add_u8_length_prefixed_def
    CBB_add_u16_length_prefixed_def CBB_add_u24_length_prefixed_def unat_ucast_up
  show ?thesis
  proof (cases c)
    case (Add_u16 k v)
    with writes_add_u [OF assms(1), of 2 k "ucast v"] b16 [of v] show ?thesis by simp
  next
    case (Add_u24 k v)
    with writes_add_u [OF assms(1), of 3 k "ucast v"] show ?thesis by simp
  next
    case (Add_u32 k v)
    with writes_add_u [OF assms(1), of 4 k "ucast v"] b32 [of v] show ?thesis by simp
  next
    case (Add_u64 k v)
    with writes_add_u [OF assms(1), of 8 k v] b64 [of v] show ?thesis by simp
  qed (use assms in \<open>simp_all add: writes_flush_open_ok writes_add_u8 writes_add_bytes writes_add_zeros writes_length_prefixed
      writes_add_asn1 writes_uint64 writes_int64 writes_octet_string writes_bool del: One_nat_def\<close>)
qed

lemma abs_cmds_grow:
  "malloc_sized malloc \<Longrightarrow> valid_cmds cs st \<Longrightarrow> length (layout st) \<le> length (layout (abs_cmds cs st))"
proof (induction cs arbitrary: st)
  case (Cons c cs)
  then have "length (layout st) \<le> length (layout (cmd_abs c st))"
    using writes_grow [OF cmd_op_writes, of malloc c st] by simp
  with Cons show ?case by fastforce
qed simp

lemma run_cmds_result:
  assumes "malloc_sized malloc"
  shows "valid_cmds cs st \<Longrightarrow> refines w st \<Longrightarrow> run_cmds malloc cs w = (r, w') \<Longrightarrow>
         write_result malloc w (cmds_ok cs st) (abs_cmds cs st) (r \<noteq> None) w'"
proof (induction cs arbitrary: st w)
  case Nil
  then show ?case by (auto simp: write_result_def)
next
  case (Cons c cs)
  obtain r1 w1 where op: "cmd_op malloc c w = (r1, w1)" by fastforce
  have one: "write_result malloc w (open_ok (cmd_depth c) st \<and> cmd_fits c) (cmd_abs c st) (r1 \<noteq> None) w1"
    using writesD [OF cmd_op_writes [OF assms] Cons.prems(2) _ op] Cons.prems(1) by simp
  have valid: "valid_cmds cs (cmd_abs c st)" using Cons.prems(1) by simp
  have sm: "small (abs_cmds cs (cmd_abs c st)) \<Longrightarrow> small (cmd_abs c st)"
    using abs_cmds_grow [OF assms valid] by (simp add: small_def)
  show ?case
  proof (cases r1)
    case None
    with Cons.prems(3) op one sm show ?thesis by (auto simp: write_result_def)
  next
    case (Some x)
    with one have "refines w1 (cmd_abs c st)" by (simp add: write_result_def)
    moreover have "run_cmds malloc cs w1 = (r, w')" using Cons.prems(3) op Some by simp
    ultimately have "write_result malloc w1 (cmds_ok cs (cmd_abs c st)) (abs_cmds cs (cmd_abs c st)) (r \<noteq> None) w'"
      by (rule Cons.IH [OF valid])
    with one Some sm show ?thesis by (auto simp: write_result_def)
  qed
qed

lemma CBB_finish_result:
  assumes "malloc_sized malloc" and "refines w (r, fs)"
  shows "case CBB_finish malloc 0 w of
           (Some out, _) \<Rightarrow> out = r @ close fs \<and> closable fs
         | (None, _) \<Rightarrow> \<not> (roomy_writer malloc w \<and> closable fs \<and> length (r @ close fs) < 2 ^ 62)"
proof -
  obtain x w1 where fl: "CBB_flush malloc 0 w = (x, w1)" by fastforce
  have res: "write_result malloc w (closable fs) (r @ close fs, []) (x \<noteq> None) w1"
    using writesD [OF writes_flush [OF assms(1), of 0] assms(2) _ fl] by (simp add: aflush_def)
  have root: "\<not> cbb_is_child (cw_chain w ! 0)"
    using assms(2) by (auto simp: refines_def chain_of_def CBB_zero_def split: option.splits)
  show ?thesis
  proof (cases x)
    case None
    with res fl root show ?thesis by (simp add: CBB_finish_def write_result_def small_def)
  next
    case (Some u)
    with res fl root show ?thesis
      by (auto simp: CBB_finish_def write_result_def refines_def contents_def split: option.splits)
  qed
qed

lemma CBB_init_refines:
  assumes "malloc_sized malloc" and "cap < 2 ^ 64" and "CBB_init malloc cap w0 = (x, w)"
  shows "x \<noteq> None \<Longrightarrow> refines w ([], [])"
    and "\<forall>n. malloc n \<noteq> None \<Longrightarrow> cap < 2 ^ 63 \<Longrightarrow> x \<noteq> None \<and> roomy_writer malloc w"
proof -
  have len: "length b = cap" if "OPENSSL_malloc malloc cap = Some b" for b
    using OPENSSL_malloc_length [OF assms(1) that] .
  show "x \<noteq> None \<Longrightarrow> refines w ([], [])"
    using assms(2,3) len
    by (auto simp: CBB_init_def cbb_init_def refines_def zero_writer_def buf_wf_def contents_def chain_of_def
        split: option.splits if_splits)
  show "x \<noteq> None \<and> roomy_writer malloc w" if mem: "\<forall>n. malloc n \<noteq> None" and cap: "cap < 2 ^ 63"
  proof -
    obtain b where b: "OPENSSL_malloc malloc cap = Some b"
      using OPENSSL_malloc_total [OF mem, of cap] cap by auto
    obtain c where c: "OPENSSL_malloc malloc sizeof_cbb_buffer_st = Some c"
      using OPENSSL_malloc_total [OF mem, of sizeof_cbb_buffer_st] by (auto simp: sizeof_cbb_buffer_st_def)
    show ?thesis
      using assms(3) b c mem cap
      by (auto simp: CBB_init_def cbb_init_def roomy_writer_def roomy_def)
  qed
qed

lemma write_all_cases:
  assumes "malloc_sized malloc" and "cap < 2 ^ 64" and "valid_cmds cs ([], [])"
  shows "case write_all malloc cap cs of
           (Some out, _) \<Rightarrow> out = spec_output cs \<and> cmds_ok cs ([], []) \<and> closable (snd (abs_cmds cs ([], [])))
         | (None, _) \<Rightarrow> \<not> ((\<forall>n. malloc n \<noteq> None) \<and> cap < 2 ^ 63 \<and> cmds_ok cs ([], []) \<and>
             closable (snd (abs_cmds cs ([], []))) \<and> length (spec_output cs) < 2 ^ 62)"
proof -
  obtain x w where init: "CBB_init malloc cap zero_writer = (x, w)" by fastforce
  note initD = CBB_init_refines [OF assms(1,2) init]
  obtain r fs where abs: "abs_cmds cs ([], []) = (r, fs)" by fastforce
  have out: "spec_output cs = r @ close fs" by (simp add: spec_output_def abs)
  have sm: "length (r @ close fs) < 2 ^ 62 \<Longrightarrow> small (r, fs)"
    using aflush_grow [of 0 "(r, fs)"] by (simp add: small_def aflush_def)
  show ?thesis
  proof (cases x)
    case None
    with init initD show ?thesis by (auto simp: write_all_def)
  next
    case (Some u)
    then have ref: "refines w ([], [])" using initD(1) by simp
    obtain y w1 where run: "run_cmds malloc cs w = (y, w1)" by fastforce
    have res: "write_result malloc w (cmds_ok cs ([], [])) (r, fs) (y \<noteq> None) w1"
      using run_cmds_result [OF assms(1,3) ref run] abs by simp
    show ?thesis
    proof (cases y)
      case None
      with Some init run res sm initD(2) show ?thesis by (auto simp: write_all_def write_result_def out abs)
    next
      case y: (Some v)
      have "refines w1 (r, fs)" using res y by (simp add: write_result_def)
      note fin = CBB_finish_result [OF assms(1) this]
      have "write_all malloc cap cs = CBB_finish malloc 0 w1"
        using init Some run y by (simp add: write_all_def)
      with fin res y Some initD(2) sm show ?thesis
        by (auto simp: write_result_def out abs split: prod.splits option.splits)
    qed
  qed
qed

lemma flush_failed: "failed w \<Longrightarrow> CBB_flush malloc k w = (None, w)"
proof -
  assume "failed w"
  then obtain b where b: "cw_base w = Some b" "cb_error b" by (auto simp: failed_def split: option.splits)
  have "flush_chain malloc cs b = (False, b, cs)" if "cs \<noteq> []" for cs
    using that b(2) by (cases cs rule: remdups_adj.cases) auto
  with b show ?thesis by (simp add: CBB_flush_def)
qed

lemmas failed_ops = CBB_add_u8_def CBB_add_u16_def CBB_add_u24_def CBB_add_u32_def CBB_add_u64_def CBB_add_bytes_def
  CBB_add_zeros_def CBB_add_space_def CBB_add_u8_length_prefixed_def CBB_add_u16_length_prefixed_def
  CBB_add_u24_length_prefixed_def cbb_add_length_prefixed_def CBB_add_asn1_def CBB_add_asn1_uint64_def
  CBB_add_asn1_int64_def CBB_add_asn1_octet_string_def CBB_add_asn1_bool_def

text \<open>C1. Whatever calls of the writer's interface are made between \<open>CBB_init\<close> and
  \<open>CBB_finish\<close>, on children nested to any depth, the bytes returned are those of the abstract
  writer, and that can only happen if every length prefix was representable. Conversely the
  run can fail only if memory runs out, an argument or a length is not representable, or the
  output reaches \<open>2 ^ 62\<close> bytes.\<close>

theorem write_all_refines_spec:
  assumes "malloc_sized malloc" and "cap < 2 ^ 64" and "valid_cmds cs ([], [])"
  shows "case write_all malloc cap cs of
           (Some out, _) \<Rightarrow> out = spec_output cs \<and> cmds_ok cs ([], []) \<and> closable (snd (abs_cmds cs ([], [])))
         | (None, _) \<Rightarrow> \<not> ((\<forall>n. malloc n \<noteq> None) \<and> cap < 2 ^ 63 \<and> cmds_ok cs ([], []) \<and>
             closable (snd (abs_cmds cs ([], []))) \<and> length (spec_output cs) < 2 ^ 62)"
  by (rule write_all_cases [OF assms])

theorem write_all_refines_spec_witness:
  "fst (write_all zero_malloc 4 [Add_asn1 0 0x20000010, Add_bytes 1 [7, 8], Add_u8_length_prefixed 1, Add_u8 2 9]) =
     Some [0x30, 4, 7, 8, 1, 9]"
proof -
  let ?cs = "[Add_asn1 0 0x20000010, Add_bytes 1 [7, 8], Add_u8_length_prefixed 1, Add_u8 2 9]"
  have tag: "der_tag 0x20000010 = [0x30]" by code_simp
  have two: "at_depth 2 = at_depth (Suc (Suc 0))" "sub_at 2 = sub_at (Suc (Suc 0))"
    by (simp_all add: numeral_2_eq_2)
  have abs: "abs_cmds ?cs ([], []) = ([0x30], [(Asn1_prefix, [7, 8]), (Len_prefix 1, [9])])"
    by (simp add: aopen_def aappend_def tag two)
  have valid: "valid_cmds ?cs ([], [])" and ok: "cmds_ok ?cs ([], [])"
    by (simp_all add: aopen_def aappend_def open_ok_def tag two)
  have out: "spec_output ?cs = [0x30, 4, 7, 8, 1, 9]"
    unfolding spec_output_def abs by (simp add: der_length_def)
  have "case write_all zero_malloc 4 ?cs of
           (Some out, _) \<Rightarrow> out = spec_output ?cs \<and> cmds_ok ?cs ([], []) \<and> closable (snd (abs_cmds ?cs ([], [])))
         | (None, _) \<Rightarrow> \<not> ((\<forall>n. zero_malloc n \<noteq> None) \<and> (4 :: nat) < 2 ^ 63 \<and> cmds_ok ?cs ([], []) \<and>
             closable (snd (abs_cmds ?cs ([], []))) \<and> length (spec_output ?cs) < 2 ^ 62)"
    by (rule write_all_refines_spec) (use valid in simp_all)
  then show ?thesis
    unfolding out abs using ok by (auto simp del: abs_cmds.simps cmds_ok.simps split: prod.splits option.splits)
qed

text \<open>
  Calls after an error, each with an allocator of its own: the sixteen of \<open>wcmd\<close>, \<open>CBB_add_space\<close> and \<open>CBB_reserve\<close>, and
  the two that do not look at the error flag, \<open>CBB_did_write\<close> and \<open>CBB_discard_child\<close>.
\<close>

inductive later_calls :: "cbb_writer \<Rightarrow> cbb_writer \<Rightarrow> bool" for w where
  no_call: "later_calls w w"
| cmd_call: "later_calls w w' \<Longrightarrow> later_calls w (snd (cmd_op malloc c w'))"
| space_call: "later_calls w w' \<Longrightarrow> later_calls w (snd (CBB_add_space malloc k n w'))"
| reserve_call: "later_calls w w' \<Longrightarrow> later_calls w (snd (CBB_reserve malloc k n w'))"
| did_write_call: "later_calls w w' \<Longrightarrow> later_calls w (snd (CBB_did_write k n w'))"
| discard_call: "later_calls w w' \<Longrightarrow> later_calls w (CBB_discard_child k w')"

lemma failed_fails:
  assumes "failed w"
  shows "cmd_op malloc c w = (None, w)" "CBB_add_space malloc k n w = (None, w)" "CBB_reserve malloc k n w = (None, w)"
    "CBB_finish malloc k w = (None, w)"
proof -
  have flush: "CBB_flush malloc j w = (None, w)" for j
    using assms by (rule flush_failed)
  show "cmd_op malloc c w = (None, w)"
    using flush by (cases c) (simp_all add: failed_ops Let_def)
  show "CBB_add_space malloc k n w = (None, w)" "CBB_reserve malloc k n w = (None, w)" "CBB_finish malloc k w = (None, w)"
    by (simp_all add: CBB_add_space_def CBB_reserve_def CBB_finish_def flush)
qed

lemma later_calls_failed: "later_calls w w' \<Longrightarrow> failed w \<Longrightarrow> failed w'"
  by (induction rule: later_calls.induct)
     (auto simp: failed_fails, auto simp: failed_def CBB_did_write_def CBB_discard_child_def Let_def split: option.splits)

lemma CBB_init_fixed_refines:
  assumes "length buf < 2 ^ 64" and "CBB_init_fixed malloc buf w0 = (Some u, w)"
  shows "refines w ([], [])"
  using assms
  by (auto simp: CBB_init_fixed_def cbb_init_def refines_def zero_writer_def buf_wf_def contents_def chain_of_def
      split: option.splits if_splits)

text \<open>C5. Errors are sticky. When one of the calls of \<open>wcmd\<close> made on a new writer (growing or on a fixed buffer) returns
  zero, because memory or the buffer is exhausted or a length or an argument does not fit, then the error
  flag is set, and whatever is called afterwards (\<open>CBB_did_write\<close> and \<open>CBB_discard_child\<close> included, which do not check
  the flag), every further call of \<open>wcmd\<close>, \<open>CBB_add_space\<close>, \<open>CBB_reserve\<close> and \<open>CBB_finish\<close> fails
  and changes nothing, even when memory is available again: checking the result of \<open>CBB_finish\<close> is enough.\<close>

theorem writer_error_sticky:
  assumes "malloc_sized malloc" and "valid_cmds cs ([], [])"
    and "cap < 2 ^ 64 \<and> CBB_init malloc cap zero_writer = (Some (), w0) \<or>
         length buf < 2 ^ 64 \<and> CBB_init_fixed malloc buf zero_writer = (Some (), w0)"
    and "run_cmds malloc cs w0 = (None, w)" and "later_calls w w'"
  shows "(\<exists>b. cw_base w' = Some b \<and> cb_error b) \<and> cmd_op malloc' c w' = (None, w') \<and> CBB_add_space malloc' k n w' = (None, w') \<and>
    CBB_reserve malloc' k n w' = (None, w') \<and> CBB_finish malloc' k w' = (None, w')"
proof -
  have "refines w0 ([], [])"
    using assms(3) CBB_init_refines(1) [OF assms(1)] CBB_init_fixed_refines by (metis option.distinct(1))
  then have "failed w" using run_cmds_result [OF assms(1,2) _ assms(4)] by (simp add: write_result_def)
  then have w': "failed w'" using later_calls_failed [OF assms(5)] by blast
  then show ?thesis using failed_fails [OF w'] by (auto simp: failed_def split: option.splits)
qed

text \<open>
  A buffer of two bytes: the 16-bit number does not fit behind the first byte. The last call would succeed
  on its own, and the writer still fails to finish.
\<close>

theorem writer_error_sticky_witness:
  "let w0 = snd (CBB_init_fixed zero_malloc [0, 0] zero_writer); w = snd (run_cmds zero_malloc [Add_u8 0 7, Add_u16 0 8] w0);
       w' = snd (CBB_did_write 0 1 w)
   in fst (CBB_did_write 0 1 w) = Some () \<and> cmd_op zero_malloc (Add_zeros 0 0) w' = (None, w') \<and> CBB_finish zero_malloc 0 w' = (None, w')"
proof -
  define w0 where "w0 = snd (CBB_init_fixed zero_malloc [0, 0] zero_writer)"
  define w where "w = snd (run_cmds zero_malloc [Add_u8 0 7, Add_u16 0 8] w0)"
  note ev = CBB_init_fixed_def cbb_init_def OPENSSL_malloc_def zero_malloc_def sizeof_cbb_buffer_st_def OPENSSL_MALLOC_PREFIX_def zero_writer_def
    CBB_zero_def CBB_add_u8_def CBB_add_u16_def CBB_flush_def on_base_def cbb_buffer_add_u_def cbb_buffer_add_def cbb_buffer_reserve_def
    cbb_buffer_fail_def buf_write_def mem_store_def Let_def
  have w0: "CBB_init_fixed zero_malloc [0, 0] zero_writer = (Some (), w0)"
    unfolding w0_def by (simp add: ev)
  have run: "run_cmds zero_malloc [Add_u8 0 7, Add_u16 0 8] w0 = (None, w)" and did: "fst (CBB_did_write 0 1 w) = Some ()"
    unfolding w_def w0_def by (simp_all add: ev CBB_did_write_def)
  have call: "later_calls w (snd (CBB_did_write 0 1 w))" by (intro later_calls.intros)
  have valid: "valid_cmds [Add_u8 0 7, Add_u16 0 8] ([], [])" by simp
  from writer_error_sticky [OF _ valid _ run call, of 0 "[0, 0]" zero_malloc "Add_zeros 0 0" 0 0] w0 did show ?thesis
    unfolding w0_def [symmetric] w_def [symmetric] Let_def by simp
qed

lemma length_der_element: "length c < 2 ^ 32 \<Longrightarrow> length (der_element tag c) \<le> length c + 16"
proof -
  assume c: "length c < 2 ^ 32"
  have "length (der_length (length c)) \<le> 5"
  proof (cases "length c < 128")
    case False
    then have "0 < length c" by linarith
    with octets_le_4 [OF this c] show ?thesis by (simp add: der_length_def)
  qed (simp add: der_length_def)
  with length_der_tag [of tag] show ?thesis by (simp add: der_element_def)
qed

lemma write_all_Some:
  assumes "malloc_sized malloc" and "\<forall>n. malloc n \<noteq> None" and "cap < 2 ^ 63" and "valid_cmds cs ([], [])"
    and "cmds_ok cs ([], [])" and "closable (snd (abs_cmds cs ([], [])))" and "length (spec_output cs) < 2 ^ 62"
  shows "\<exists>w. write_all malloc cap cs = (Some (spec_output cs), w)"
  using write_all_cases [OF assms(1) _ assms(4), of cap] assms
  by (cases "write_all malloc cap cs") (auto split: option.splits)

text \<open>C3. An element with any tag and any contents the writer accepts can be written, and the
  reader gets exactly the tag and the contents back, whatever follows the element.\<close>

theorem asn1_element_write_read:
  assumes "malloc_sized malloc" and "\<forall>n. malloc n \<noteq> None" and "length c \<le> 0xfffffffe"
  shows "\<exists>out w. write_all malloc 64 [Add_asn1 0 tag, Add_bytes 1 c] = (Some out, w) \<and>
           CBS_get_any_asn1 (out @ rest) = (Some (c, tag), rest)"
proof -
  let ?cs = "[Add_asn1 0 tag, Add_bytes 1 c]"
  have abs: "abs_cmds ?cs ([], []) = (der_tag tag, [(Asn1_prefix, c)])"
    by (simp add: aopen_def aappend_def)
  have out: "spec_output ?cs = der_element tag c"
    unfolding spec_output_def abs by (simp add: der_element_def)
  have "length (der_element tag c) < 2 ^ 62"
    using length_der_element [of c tag] assms(3) by simp
  then have "\<exists>w. write_all malloc 64 ?cs = (Some (der_element tag c), w)"
    using write_all_Some [OF assms(1,2), of 64 ?cs] assms(3) out
    by (simp add: aopen_def aappend_def open_ok_def)
  moreover have "CBS_get_any_asn1 (der_element tag c @ rest) = (Some (c, tag), rest)"
    using assms(3) by (intro CBS_get_any_asn1_der) simp
  ultimately show ?thesis by blast
qed

theorem asn1_element_write_read_witness:
  "\<exists>out w. write_all zero_malloc 64 [Add_asn1 0 0xa0000400, Add_bytes 1 (replicate 300 7)] = (Some out, w) \<and>
           CBS_get_any_asn1 (out @ [1, 2]) = (Some (replicate 300 7, 0xa0000400), [1, 2])"
  by (rule asn1_element_write_read) simp_all

text \<open>C4. Every signed 64-bit integer that \<open>CBB_add_asn1_int64\<close> writes is read back by
  \<open>CBS_get_asn1_int64\<close>; unsigned ones by \<open>CBS_get_asn1_uint64\<close>; booleans by
  \<open>CBS_get_asn1_bool\<close>.\<close>

theorem asn1_integer_write_read:
  assumes "malloc_sized malloc" and "\<forall>n. malloc n \<noteq> None"
  shows "(\<exists>out w. write_all malloc 64 [Add_asn1_int64 0 v] = (Some out, w) \<and>
                  CBS_get_asn1_int64 (out @ rest) = (Some v, rest)) \<and>
         (\<exists>out w. write_all malloc 64 [Add_asn1_uint64 0 v] = (Some out, w) \<and>
                  CBS_get_asn1_uint64 (out @ rest) = (Some v, rest)) \<and>
         (\<exists>out w. write_all malloc 64 [Add_asn1_bool 0 b] = (Some out, w) \<and>
                  CBS_get_asn1_bool (out @ rest) = (Some b, rest))"
proof -
  have one: "\<exists>w. write_all malloc 64 [c] = (Some bs, w)"
    if "cmd_abs c = aappend 0 bs" "cmd_sized c" "cmd_fits c" "cmd_depth c = 0" "length bs < 2 ^ 62" for c bs
    using write_all_Some [OF assms, of 64 "[c]"] that
    by (simp add: spec_output_def aappend_def open_ok_def)
  have len: "length (der_int64 v) < 2 ^ 62" "length (der_uint64 v) < 2 ^ 62" "length (der_bool b) < 2 ^ 62"
    using length_der_element [of "int64_contents v" CBS_ASN1_INTEGER] int64_contents_flip(2) [of v]
      length_der_element [of "uint_contents (unat v)" CBS_ASN1_INTEGER] length_uint_contents [of v]
      length_der_element [of "[if b then 0xff else 0]" CBS_ASN1_BOOLEAN]
    by (simp_all add: der_int64_def der_uint64_def der_bool_def)
  have written: "\<exists>w. write_all malloc 64 [Add_asn1_int64 0 v] = (Some (der_int64 v), w)"
    "\<exists>w. write_all malloc 64 [Add_asn1_uint64 0 v] = (Some (der_uint64 v), w)"
    "\<exists>w. write_all malloc 64 [Add_asn1_bool 0 b] = (Some (der_bool b), w)"
    by (rule one; use len in simp)+
  have read: "CBS_get_asn1_int64 (der_int64 v @ rest) = (Some v, rest)" "CBS_get_asn1_uint64 (der_uint64 v @ rest) = (Some v, rest)"
    "CBS_get_asn1_bool (der_bool b @ rest) = (Some b, rest)"
    by (simp_all only: CBS_get_asn1_int64_iff CBS_get_asn1_uint64_iff CBS_get_asn1_bool_iff)
  show ?thesis
    using written read by blast
qed

theorem asn1_integer_write_read_witness:
  "(\<exists>out w. write_all zero_malloc 64 [Add_asn1_int64 0 (- 129)] = (Some out, w) \<and>
                  CBS_get_asn1_int64 (out @ [5]) = (Some (- 129), [5]))"
  using asn1_integer_write_read [of zero_malloc "- 129" "[5]" True] by simp

lemma write_op_finish:
  assumes "malloc_sized malloc" and "\<forall>n. malloc n \<noteq> None" and "cap < 2 ^ 63" and "length bs < 2 ^ 62"
    and "writes malloc (\<lambda>st. 0 \<le> depth st) op (open_ok 0) (aappend 0 bs)"
  shows "\<exists>w. st_bind (CBB_init malloc cap) (\<lambda>_. st_bind op (\<lambda>_. CBB_finish malloc 0)) zero_writer = (Some bs, w)"
proof -
  obtain x w where init: "CBB_init malloc cap zero_writer = (x, w)" by fastforce
  have cap: "cap < 2 ^ 64" using assms(3) by simp
  have x: "x \<noteq> None" "roomy_writer malloc w" and w: "refines w ([], [])"
    using CBB_init_refines [OF assms(1) cap init] assms(2,3) by blast+
  have abs: "aappend 0 bs ([], []) = (bs, [])" "open_ok 0 ([], [])" by (simp_all add: aappend_def open_ok_def)
  obtain y w1 where op: "op w = (y, w1)" by fastforce
  have res: "write_result malloc w True (bs, []) (y \<noteq> None) w1"
    using writesD [OF assms(5) w _ op] abs by simp
  have sm: "small (bs, [])" using assms(4) by (simp add: small_def)
  have y: "y \<noteq> None" "refines w1 (bs, [])" "roomy_writer malloc w1"
    using res sm x by (auto simp: write_result_def split: if_splits)
  have "\<exists>w2. CBB_finish malloc 0 w1 = (Some bs, w2)"
    using CBB_finish_result [OF assms(1) y(2)] y(3) assms(4) by (cases "CBB_finish malloc 0 w1") (auto split: option.splits)
  with init op x y show ?thesis by auto
qed

end
