(* ===== verification/Unicode.thy ===== *)
theory Unicode
  imports Writer
begin

text \<open>
  crypto/bytestring/unicode.c: reading and writing one code point in UTF-8, Latin-1, UCS-2 and
  UTF-32, on top of the byte string reader and writer.
\<close>

definition is_valid_code_point :: "u32 \<Rightarrow> bool" where
  "is_valid_code_point v =
     (if v > 0x10ffff \<or> v AND 0xfffe = 0xfffe \<or> (v \<ge> 0xfdd0 \<and> v \<le> 0xfdef) \<or>
         (v \<ge> 0xd800 \<and> v \<le> 0xdfff)
      then False else True)"

definition BOTTOM_BITS :: "nat \<Rightarrow> byte" where
  "BOTTOM_BITS n = ucast (push_bit n (1 :: u32) - 1)"

definition TOP_BITS :: "nat \<Rightarrow> byte" where
  "TOP_BITS n = NOT (BOTTOM_BITS (8 - n))"

text \<open>The loop of \<open>cbs_get_utf8\<close> over the continuation bytes.\<close>

fun utf8_loop :: "nat \<Rightarrow> u32 \<Rightarrow> (cbs, u32) stm" where
  "utf8_loop 0 v = st_return v"
| "utf8_loop (Suc len) v =
     st_bind CBS_get_u8 (\<lambda>c.
       if c AND TOP_BITS 2 \<noteq> TOP_BITS 1 then st_fail
       else utf8_loop len (push_bit 6 v OR ucast (c AND BOTTOM_BITS 6)))"

definition utf8_finish :: "u32 \<Rightarrow> u32 \<Rightarrow> (cbs, u32) stm" where
  "utf8_finish lower_bound v =
     (if \<not> is_valid_code_point v \<or> v < lower_bound then st_fail else st_return v)"

definition cbs_get_utf8 :: "(cbs, u32) stm" where
  "cbs_get_utf8 =
     st_bind CBS_get_u8 (\<lambda>c.
       if c \<le> 0x7f then st_return (ucast c)
       else if c AND TOP_BITS 3 = TOP_BITS 2
       then st_bind (utf8_loop 1 (ucast (c AND BOTTOM_BITS 5))) (utf8_finish 0x80)
       else if c AND TOP_BITS 4 = TOP_BITS 3
       then st_bind (utf8_loop 2 (ucast (c AND BOTTOM_BITS 4))) (utf8_finish 0x800)
       else if c AND TOP_BITS 5 = TOP_BITS 4
       then st_bind (utf8_loop 3 (ucast (c AND BOTTOM_BITS 3))) (utf8_finish 0x10000)
       else st_fail)"

definition cbs_get_latin1 :: "(cbs, u32) stm" where
  "cbs_get_latin1 = st_bind CBS_get_u8 (\<lambda>c. st_return (ucast c))"

definition cbs_get_ucs2_be :: "(cbs, u32) stm" where
  "cbs_get_ucs2_be =
     st_bind CBS_get_u16 (\<lambda>c.
       if \<not> is_valid_code_point (ucast c) then st_fail else st_return (ucast c))"

definition cbs_get_utf32_be :: "(cbs, u32) stm" where
  "cbs_get_utf32_be =
     st_bind CBS_get_u32 (\<lambda>v. if is_valid_code_point v then st_return v else st_fail)"

definition cbb_get_utf8_len :: "u32 \<Rightarrow> nat" where
  "cbb_get_utf8_len u = (if u \<le> 0x7f then 1 else if u \<le> 0x7ff then 2 else if u \<le> 0xffff then 3 else 4)"

definition cbb_add_utf8 :: "allocator \<Rightarrow> nat \<Rightarrow> u32 \<Rightarrow> (cbb_writer, unit) stm" where
  "cbb_add_utf8 malloc k u =
     (if \<not> is_valid_code_point u then st_fail
      else if u \<le> 0x7f then CBB_add_u8 malloc k (ucast u)
      else if u \<le> 0x7ff then
        st_bind (CBB_add_u8 malloc k (TOP_BITS 2 OR ucast (drop_bit 6 u))) (\<lambda>_.
                 CBB_add_u8 malloc k (TOP_BITS 1 OR ucast (u AND ucast (BOTTOM_BITS 6))))
      else if u \<le> 0xffff then
        st_bind (CBB_add_u8 malloc k (TOP_BITS 3 OR ucast (drop_bit 12 u))) (\<lambda>_.
        st_bind (CBB_add_u8 malloc k (TOP_BITS 1 OR ucast (drop_bit 6 u AND ucast (BOTTOM_BITS 6)))) (\<lambda>_.
                 CBB_add_u8 malloc k (TOP_BITS 1 OR ucast (u AND ucast (BOTTOM_BITS 6)))))
      else if u \<le> 0x10ffff then
        st_bind (CBB_add_u8 malloc k (TOP_BITS 4 OR ucast (drop_bit 18 u))) (\<lambda>_.
        st_bind (CBB_add_u8 malloc k (TOP_BITS 1 OR ucast (drop_bit 12 u AND ucast (BOTTOM_BITS 6)))) (\<lambda>_.
        st_bind (CBB_add_u8 malloc k (TOP_BITS 1 OR ucast (drop_bit 6 u AND ucast (BOTTOM_BITS 6)))) (\<lambda>_.
                 CBB_add_u8 malloc k (TOP_BITS 1 OR ucast (u AND ucast (BOTTOM_BITS 6))))))
      else st_fail)"

definition cbb_add_latin1 :: "allocator \<Rightarrow> nat \<Rightarrow> u32 \<Rightarrow> (cbb_writer, unit) stm" where
  "cbb_add_latin1 malloc k u = (if u \<le> 0xff then CBB_add_u8 malloc k (ucast u) else st_fail)"

definition cbb_add_ucs2_be :: "allocator \<Rightarrow> nat \<Rightarrow> u32 \<Rightarrow> (cbb_writer, unit) stm" where
  "cbb_add_ucs2_be malloc k u =
     (if u \<le> 0xffff \<and> is_valid_code_point u then CBB_add_u16 malloc k (ucast u) else st_fail)"

definition cbb_add_utf32_be :: "allocator \<Rightarrow> nat \<Rightarrow> u32 \<Rightarrow> (cbb_writer, unit) stm" where
  "cbb_add_utf32_be malloc k u =
     (if is_valid_code_point u then CBB_add_u32 malloc k u else st_fail)"

text \<open>The bytes of one code point, as a reference: the lead byte and the continuation bytes.\<close>

definition cont_byte :: "u32 \<Rightarrow> nat \<Rightarrow> byte" where
  "cont_byte u i = TOP_BITS 1 OR ucast (drop_bit (6 * i) u AND ucast (BOTTOM_BITS 6))"

definition utf8_multi :: "nat \<Rightarrow> u32 \<Rightarrow> byte list" where
  "utf8_multi n u = (TOP_BITS (n + 1) OR ucast (drop_bit (6 * n) u)) # map (cont_byte u) (rev [0..<n])"

definition utf8_bytes :: "u32 \<Rightarrow> byte list" where
  "utf8_bytes u =
     (if u \<le> 0x7f then [ucast u] else if u \<le> 0x7ff then utf8_multi 1 u
      else if u \<le> 0xffff then utf8_multi 2 u else utf8_multi 3 u)"

text \<open>A lead byte is the marker bits and the top bits of the code point.\<close>

definition lead_ok :: "nat \<Rightarrow> byte \<Rightarrow> bool" where
  "lead_ok n c \<longleftrightarrow> c AND TOP_BITS (n + 2) = TOP_BITS (n + 1)"

definition utf8_lower :: "nat \<Rightarrow> u32" where
  "utf8_lower n = (if n = 1 then 0x80 else if n = 2 then 0x800 else 0x10000)"

lemma bits_consts: "TOP_BITS 1 = 0x80" "TOP_BITS 2 = 0xc0" "TOP_BITS 3 = 0xe0" "TOP_BITS 4 = 0xf0" "TOP_BITS 5 = 0xf8"
  "TOP_BITS (Suc 0) = 0x80" "TOP_BITS (Suc (Suc 0)) = 0xc0" "TOP_BITS (Suc (Suc (Suc 0))) = 0xe0"
  "BOTTOM_BITS 6 = 0x3f" "BOTTOM_BITS 5 = 0x1f" "BOTTOM_BITS 4 = 0x0f" "BOTTOM_BITS 3 = 7"
  by code_simp+

lemma bit_tops_int:
  "bit (0xc0 :: int) n \<longleftrightarrow> n = 6 \<or> n = 7"
  "bit (0xf0 :: int) n \<longleftrightarrow> n = 4 \<or> n = 5 \<or> n = 6 \<or> n = 7"
  "bit (0xf8 :: int) n \<longleftrightarrow> n = 3 \<or> n = 4 \<or> n = 5 \<or> n = 6 \<or> n = 7"
  "bit (7 :: int) n \<longleftrightarrow> n < 3"
proof -
  have r: "(0xc0 :: int) = push_bit 6 (2 ^ 2 - 1)" "(0xf0 :: int) = push_bit 4 (2 ^ 4 - 1)" "(0xf8 :: int) = push_bit 3 (2 ^ 5 - 1)" "(7 :: int) = 2 ^ 3 - 1"
    by (simp_all add: push_bit_eq_mult)
  show "bit (0xc0 :: int) n \<longleftrightarrow> n = 6 \<or> n = 7" unfolding r(1) bit_push_bit_iff_int bit_mask_int by auto
  show "bit (0xf0 :: int) n \<longleftrightarrow> n = 4 \<or> n = 5 \<or> n = 6 \<or> n = 7" unfolding r(2) bit_push_bit_iff_int bit_mask_int by auto
  show "bit (0xf8 :: int) n \<longleftrightarrow> n = 3 \<or> n = 4 \<or> n = 5 \<or> n = 6 \<or> n = 7" unfolding r(3) bit_push_bit_iff_int bit_mask_int by auto
  show "bit (7 :: int) n \<longleftrightarrow> n < 3" unfolding r(4) bit_mask_int by auto
qed

lemma bit_cont_byte: "bit (cont_byte u i) n \<longleftrightarrow> (n < 6 \<and> bit u (6 * i + n)) \<or> n = 7"
  by (auto simp: cont_byte_def bits_consts bit_simps bit_consts bit_tops_int)

lemma cont_byte_ok: "cont_byte u i AND 0xc0 = 0x80"
proof (rule bit_word_eqI)
  fix n assume "n < LENGTH(8)"
  then show "bit (cont_byte u i AND 0xc0) n = bit (0x80 :: byte) n"
    by (auto simp: bit_cont_byte bit_simps bit_consts bit_tops_int)
qed

lemma cont_step:
  "push_bit 6 (drop_bit (6 * Suc i) u) OR ucast (cont_byte u i AND 0x3f) = drop_bit (6 * i) u" for u :: u32
proof (rule bit_word_eqI)
  fix n assume "n < LENGTH(32)"
  then show "bit (push_bit 6 (drop_bit (6 * Suc i) u) OR ucast (cont_byte u i AND 0x3f)) n = bit (drop_bit (6 * i) u) n"
    by (cases "n < 6") (auto simp: bit_simps bit_consts bit_cont_byte ac_simps)
qed

lemma utf8_loop_cont:
  "utf8_loop n (drop_bit (6 * n) u) (map (cont_byte u) (rev [0..<n]) @ rest) = (Some u, rest)"
proof (induction n)
  case 0
  then show ?case by simp
next
  case (Suc n)
  then show ?case
    using cont_step [of n u] by (simp add: st_bind_def bits_consts cont_byte_ok del: mult_Suc_right)
qed

lemma utf8_acc_bits:
  "bit (push_bit 6 v OR ucast (c AND 0x3f) :: u32) n \<longleftrightarrow> n < 32 \<and> (if n < 6 then bit c n else bit v (n - 6))" for c :: byte
  by (auto simp: bit_simps bit_consts)

lemma utf8_loop_inv:
  "utf8_loop n v cbs = (Some u, rest) \<Longrightarrow> (\<forall>i. bit v i \<longrightarrow> i + 6 * n < 32) \<Longrightarrow> n \<le> 3 \<Longrightarrow>
     cbs = map (cont_byte u) (rev [0..<n]) @ rest \<and> drop_bit (6 * n) u = v"
proof (induction n arbitrary: v cbs)
  case 0
  then show ?case by simp
next
  case (Suc n)
  from Suc.prems(1) obtain c cs where cbs: "cbs = c # cs" and c: "c AND 0xc0 = 0x80"
    and run: "utf8_loop n (push_bit 6 v OR ucast (c AND 0x3f)) cs = (Some u, rest)"
    by (cases cbs) (auto simp: st_bind_def bits_consts split: if_splits)
  let ?w = "push_bit 6 v OR ucast (c AND 0x3f) :: u32"
  have "i + 6 * n < 32" if "bit ?w i" "6 \<le> i" for i
    using that Suc.prems(2) [rule_format, of "i - 6"] by (simp add: utf8_acc_bits)
  moreover have "i + 6 * n < 32" if "i < 6" "bit ?w i" for i
    using that Suc.prems(3) by simp
  ultimately have ih: "cs = map (cont_byte u) (rev [0..<n]) @ rest" "drop_bit (6 * n) u = ?w"
    using Suc.IH [OF run] Suc.prems(3) by (meson Suc_leD not_less)+
  have "cont_byte u n = c"
  proof (rule bit_word_eqI)
    fix i assume "i < LENGTH(8)"
    have "bit (drop_bit (6 * n) u) i = bit ?w i" by (simp only: ih(2))
    moreover have "bit (c AND 0xc0) i = bit (0x80 :: byte) i" by (simp only: c)
    ultimately show "bit (cont_byte u n) i = bit c i"
      using \<open>i < LENGTH(8)\<close> by (auto simp: bit_cont_byte utf8_acc_bits bit_simps bit_consts bit_tops_int split: if_splits)
  qed
  moreover have "drop_bit (6 * Suc n) u = v"
  proof (rule bit_word_eqI)
    fix i assume "i < LENGTH(32)"
    have "bit (drop_bit (6 * n) u) (i + 6) = bit ?w (i + 6)" by (simp only: ih(2))
    then have "bit u (6 * n + (i + 6)) \<longleftrightarrow> i + 6 < 32 \<and> bit v i" by (simp add: bit_drop_bit_eq utf8_acc_bits)
    moreover have "bit v i \<Longrightarrow> i + 6 < 32" using Suc.prems(2) [rule_format, of i] by simp
    ultimately show "bit (drop_bit (6 * Suc n) u) i = bit v i"
      by (auto simp: bit_drop_bit_eq ac_simps)
  qed
  ultimately show ?case using ih cbs by simp
qed

lemma lead_roundtrip:
  fixes u :: u32
  assumes "n = 1 \<or> n = 2 \<or> n = 3" and "unat u < 2 ^ (5 * n + 6)"
  defines "c \<equiv> TOP_BITS (n + 1) OR ucast (drop_bit (6 * n) u)"
  shows "lead_ok n c" and "ucast (c AND BOTTOM_BITS (6 - n)) = drop_bit (6 * n) u" and "c AND 0x80 \<noteq> 0"
proof -
  have u: "bit u (6 * n + i) \<Longrightarrow> i + n < 6" for i
    using assms(2) by (auto simp: unat_less_bits)
  have c: "bit c i \<longleftrightarrow> i < 8 \<and> (bit (TOP_BITS (n + 1)) i \<or> bit u (6 * n + i))" for i
    by (auto simp: c_def bit_simps dest: bit_imp_le_length)
  show "lead_ok n c"
    unfolding lead_ok_def
  proof (rule bit_word_eqI)
    fix i assume "i < LENGTH(8)"
    then have "i < 8" by simp
    show "bit (c AND TOP_BITS (n + 2)) i = bit (TOP_BITS (n + 1)) i"
      using assms(1) u [of i] \<open>i < 8\<close> unfolding bit_and_iff c
      by (auto simp: bits_consts bit_simps bit_consts bit_tops_int)
  qed
  show "ucast (c AND BOTTOM_BITS (6 - n)) = drop_bit (6 * n) u"
  proof (rule bit_word_eqI)
    fix i assume "i < LENGTH(32)"
    show "bit (ucast (c AND BOTTOM_BITS (6 - n)) :: u32) i = bit (drop_bit (6 * n) u) i"
      using assms(1) u [of i] \<open>i < LENGTH(32)\<close> unfolding bit_ucast_iff bit_and_iff c bit_drop_bit_eq o_apply
      by (auto simp: bits_consts bit_simps bit_consts bit_tops_int)
  qed
  have "bit c 7" using assms(1) unfolding c by (auto simp: bits_consts bit_consts bit_tops_int)
  then show "c AND 0x80 \<noteq> 0" by (simp add: high_bit_iff)
qed

lemma lead_inverse:
  fixes u :: u32
  assumes "n = 1 \<or> n = 2 \<or> n = 3" and "lead_ok n c"
    and "drop_bit (6 * n) u = ucast (c AND BOTTOM_BITS (6 - n))"
  shows "TOP_BITS (n + 1) OR ucast (drop_bit (6 * n) u) = c" and "unat u < 2 ^ (5 * n + 6)"
proof -
  have lead: "bit (c AND TOP_BITS (n + 2)) i = bit (TOP_BITS (n + 1)) i" for i
    using assms(2) by (simp only: lead_ok_def)
  show "TOP_BITS (n + 1) OR ucast (drop_bit (6 * n) u) = c"
  proof (rule bit_word_eqI)
    fix i assume "i < LENGTH(8)"
    then show "bit (TOP_BITS (n + 1) OR ucast (drop_bit (6 * n) u)) i = bit c i"
      using assms(1) lead [of i] unfolding assms(3)
      by (auto simp: bits_consts bit_simps bit_consts bit_tops_int)
  qed
  show "unat u < 2 ^ (5 * n + 6)"
    unfolding unat_less_bits
  proof (intro allI impI)
    fix i assume "bit u i"
    show "i < 5 * n + 6"
    proof (cases "6 * n \<le> i")
      case True
      then have "bit (drop_bit (6 * n) u) (i - 6 * n)" using \<open>bit u i\<close> by (simp add: bit_drop_bit_eq)
      then show ?thesis using assms(1) unfolding assms(3)
        by (auto simp: bits_consts bit_simps bit_consts bit_tops_int)
    qed (use assms(1) in auto)
  qed
qed

lemma lead_ok_unique:
  "(m = 1 \<or> m = 2 \<or> m = 3) \<Longrightarrow> (n = 1 \<or> n = 2 \<or> n = 3) \<Longrightarrow> lead_ok m c \<Longrightarrow> lead_ok n c \<Longrightarrow> m = n"
proof -
  assume m: "m = 1 \<or> m = 2 \<or> m = 3" and n: "n = 1 \<or> n = 2 \<or> n = 3" and "lead_ok m c" "lead_ok n c"
  then have "bit (c AND TOP_BITS (m + 2)) i = bit (TOP_BITS (m + 1)) i"
    "bit (c AND TOP_BITS (n + 2)) i = bit (TOP_BITS (n + 1)) i" for i
    by (simp_all only: lead_ok_def)
  from this [of 4] this [of 5] m n show "m = n"
    by (auto simp: bits_consts bit_simps bit_consts bit_tops_int)
qed

lemma ascii_lead: "c \<le> 0x7f \<longleftrightarrow> c AND 0x80 = 0" for c :: byte
  by (simp add: byte_high_bit_ge word_le_nat_alt) arith

lemma utf8_multi_iff:
  assumes n: "n = 1 \<or> n = 2 \<or> n = 3" and "lead_ok n c"
  shows "st_bind (utf8_loop n (ucast (c AND BOTTOM_BITS (6 - n)))) (utf8_finish lower_bound) cs = (Some u, rest) \<longleftrightarrow>
         is_valid_code_point u \<and> lower_bound \<le> u \<and> unat u < 2 ^ (5 * n + 6) \<and> c # cs = utf8_multi n u @ rest"
    (is "?run \<longleftrightarrow> ?spec")
proof
  assume ?run
  then have loop: "utf8_loop n (ucast (c AND BOTTOM_BITS (6 - n))) cs = (Some u, rest)" and v: "is_valid_code_point u" "lower_bound \<le> u"
    by (auto simp: st_bind_eq_Some utf8_finish_def split: if_splits)
  have "\<forall>i. bit (ucast (c AND BOTTOM_BITS (6 - n)) :: u32) i \<longrightarrow> i + 6 * n < 32"
    using n by (auto simp: bits_consts bit_simps bit_consts bit_tops_int)
  with utf8_loop_inv [OF loop] n have "cs = map (cont_byte u) (rev [0..<n]) @ rest" "drop_bit (6 * n) u = ucast (c AND BOTTOM_BITS (6 - n))"
    by auto
  with lead_inverse [OF assms, of u] v show ?spec by (simp add: utf8_multi_def)
next
  assume ?spec
  then have v: "is_valid_code_point u" "lower_bound \<le> u" and u: "unat u < 2 ^ (5 * n + 6)"
    and c: "c = TOP_BITS (n + 1) OR ucast (drop_bit (6 * n) u)" and cs: "cs = map (cont_byte u) (rev [0..<n]) @ rest"
    by (simp_all add: utf8_multi_def)
  have "ucast (c AND BOTTOM_BITS (6 - n)) = drop_bit (6 * n) u"
    using lead_roundtrip(2) [OF n u] c by simp
  then have "utf8_loop n (ucast (c AND BOTTOM_BITS (6 - n))) cs = (Some u, rest)"
    using utf8_loop_cont [of n u rest] cs by simp
  then show ?run using v by (simp add: st_bind_def utf8_finish_def not_less)
qed

lemma valid_ascii: "unat u < 128 \<Longrightarrow> is_valid_code_point u"
proof -
  assume "unat u < 128"
  then have "\<not> bit u 15" using unat_less_bits [of u 7] by auto
  moreover have "bit (0xfffe :: u32) 15" by code_simp
  ultimately have "u AND 0xfffe \<noteq> 0xfffe" by (metis bit_and_iff)
  with \<open>unat u < 128\<close> show ?thesis by (simp add: is_valid_code_point_def word_le_nat_alt word_less_nat_alt)
qed

lemma cbs_get_utf8_Cons:
  "cbs_get_utf8 (c # cs) =
     (if c AND 0x80 = 0 then (Some (ucast c), cs)
      else if lead_ok 1 c then st_bind (utf8_loop 1 (ucast (c AND BOTTOM_BITS (6 - 1)))) (utf8_finish 0x80) cs
      else if lead_ok 2 c then st_bind (utf8_loop 2 (ucast (c AND BOTTOM_BITS (6 - 2)))) (utf8_finish 0x800) cs
      else if lead_ok 3 c then st_bind (utf8_loop 3 (ucast (c AND BOTTOM_BITS (6 - 3)))) (utf8_finish 0x10000) cs
      else (None, cs))"
proof -
  have "lead_ok 1 c \<longleftrightarrow> c AND TOP_BITS 3 = TOP_BITS 2" "lead_ok 2 c \<longleftrightarrow> c AND TOP_BITS 4 = TOP_BITS 3"
    "lead_ok 3 c \<longleftrightarrow> c AND TOP_BITS 5 = TOP_BITS 4"
    by (simp_all add: lead_ok_def bits_consts)
  then show ?thesis
    by (simp add: cbs_get_utf8_def ascii_lead)
qed

lemma cbs_get_utf8_lead:
  assumes n: "n = 1 \<or> n = 2 \<or> n = 3" and lead: "lead_ok n c" "c AND 0x80 \<noteq> 0"
  shows "cbs_get_utf8 (c # cs) = st_bind (utf8_loop n (ucast (c AND BOTTOM_BITS (6 - n)))) (utf8_finish (utf8_lower n)) cs"
proof -
  have "lead_ok m c \<longleftrightarrow> m = n" if "m = 1 \<or> m = 2 \<or> m = 3" for m
    using lead_ok_unique [OF that n _ lead(1)] lead(1) by blast
  then have "lead_ok 1 c \<longleftrightarrow> n = 1" "lead_ok 2 c \<longleftrightarrow> n = 2" "lead_ok 3 c \<longleftrightarrow> n = 3"
    by auto
  with n lead(2) show ?thesis
    unfolding cbs_get_utf8_Cons by (auto simp: utf8_lower_def)
qed

lemma utf8_bytes_multi:
  assumes "n = 1 \<or> n = 2 \<or> n = 3" and "utf8_lower n \<le> u" and "unat u < 2 ^ (5 * n + 6)"
  shows "utf8_bytes u = utf8_multi n u"
  using assms by (auto simp: utf8_bytes_def word_le_nat_alt utf8_lower_def)

lemma utf8_size:
  assumes "is_valid_code_point u" and "\<not> u \<le> 0x7f"
  obtains n where "n = 1 \<or> n = 2 \<or> n = 3" and "utf8_lower n \<le> u" and "unat u < 2 ^ (5 * n + 6)"
proof -
  have "unat u \<le> 0x10ffff" using assms(1) by (simp add: is_valid_code_point_def word_less_nat_alt split: if_splits)
  with assms(2) that [of 1] that [of 2] that [of 3] show thesis
    by (cases "u \<le> 0x7ff"; cases "u \<le> 0xffff") (auto simp: utf8_lower_def word_le_nat_alt)
qed

lemma cbs_get_utf8_iff:
  "cbs_get_utf8 cbs = (Some u, rest) \<longleftrightarrow> is_valid_code_point u \<and> cbs = utf8_bytes u @ rest"
proof
  assume run: "cbs_get_utf8 cbs = (Some u, rest)"
  then obtain c cs where cbs: "cbs = c # cs" by (cases cbs) (auto simp: cbs_get_utf8_def)
  show "is_valid_code_point u \<and> cbs = utf8_bytes u @ rest"
  proof (cases "c AND 0x80 = 0")
    case True
    with run cbs have u: "u = ucast c" "rest = cs" by (simp_all add: cbs_get_utf8_Cons)
    with True have "unat u < 128" by (simp add: byte_high_bit_ge unat_ucast_up)
    moreover have "ucast u = c" by (simp add: u) (rule bit_word_eqI, simp add: bit_simps)
    ultimately show ?thesis
      using valid_ascii [of u] u cbs by (simp add: utf8_bytes_def word_le_nat_alt)
  next
    case False
    with run cbs obtain n where n: "n = 1 \<or> n = 2 \<or> n = 3" "lead_ok n c"
      by (auto simp: cbs_get_utf8_Cons split: if_splits)
    with run cbs False utf8_multi_iff [OF n, of "utf8_lower n" cs u rest] show ?thesis
      using cbs_get_utf8_lead [OF n False] utf8_bytes_multi [OF n(1), of u] by simp
  qed
next
  assume spec: "is_valid_code_point u \<and> cbs = utf8_bytes u @ rest"
  show "cbs_get_utf8 cbs = (Some u, rest)"
  proof (cases "u \<le> 0x7f")
    case True
    then have "unat (ucast u :: byte) < 128" by (simp add: word_le_nat_alt unat_ucast_mod)
    then have "(ucast u :: byte) AND 0x80 = 0" by (simp add: byte_high_bit_ge)
    moreover have "ucast (ucast u :: byte) = u"
      using True by (simp add: word_unat_eq_iff unat_ucast_mod word_le_nat_alt)
    ultimately show ?thesis using True spec by (simp add: utf8_bytes_def cbs_get_utf8_Cons)
  next
    case False
    from spec have "is_valid_code_point u" by blast
    then obtain n where n: "n = 1 \<or> n = 2 \<or> n = 3" and u: "utf8_lower n \<le> u" "unat u < 2 ^ (5 * n + 6)"
      using utf8_size [OF _ False] by blast
    obtain c cs where c: "utf8_multi n u @ rest = c # cs" "c = TOP_BITS (n + 1) OR ucast (drop_bit (6 * n) u)"
      by (simp add: utf8_multi_def)
    note lead = lead_roundtrip [OF n u(2), folded c(2)]
    have "cbs = c # cs" using spec utf8_bytes_multi [OF n u] c(1) by simp
    then show ?thesis
      using cbs_get_utf8_lead [OF n lead(1,3), of cs] utf8_multi_iff [OF n lead(1), of "utf8_lower n" cs u rest] u spec c(1)
      by simp
  qed
qed

interpretation utf8: canonical_codec utf8_bytes cbs_get_utf8 is_valid_code_point
  by unfold_locales (simp_all add: cbs_get_utf8_iff)

lemma cbb_add_utf8_eq:
  "cbb_add_utf8 malloc k u = (if is_valid_code_point u then add_u8s malloc k (utf8_bytes u) else st_fail)"
proof (cases "is_valid_code_point u")
  case True
  then have le: "u \<le> 0x10ffff" by (simp add: is_valid_code_point_def not_less split: if_splits)
  have "rev [0..<1] = [0]" "rev [0..<2] = [1, 0]" "rev [0..<3] = [2, 1, 0]" by (simp_all add: upt_rec)
  moreover have "TOP_BITS 2 = TOP_BITS (Suc (Suc 0))" by (simp add: numeral_2_eq_2)
  ultimately show ?thesis
    using True le
    by (simp add: cbb_add_utf8_def utf8_bytes_def utf8_multi_def cont_byte_def)
qed (simp add: cbb_add_utf8_def)

lemma length_utf8_bytes: "length (utf8_bytes u) = cbb_get_utf8_len u"
  by (simp add: utf8_bytes_def cbb_get_utf8_len_def utf8_multi_def)

text \<open>C11. The readers accept exactly the canonical encodings: UTF-8 neither overlong nor of a
  surrogate or reserved code point, UCS-2 and UTF-32 only of valid code points, Latin-1 every
  byte.\<close>

theorem unicode_readers_exact:
  "(cbs_get_utf8 cbs = (Some u, rest) \<longleftrightarrow> is_valid_code_point u \<and> cbs = utf8_bytes u @ rest) \<and>
   (cbs_get_latin1 cbs = (Some u, rest) \<longleftrightarrow> unat u < 2 ^ 8 \<and> cbs = be_bytes 1 (unat u) @ rest) \<and>
   (cbs_get_ucs2_be cbs = (Some u, rest) \<longleftrightarrow>
      unat u < 2 ^ 16 \<and> is_valid_code_point u \<and> cbs = be_bytes 2 (unat u) @ rest) \<and>
   (cbs_get_utf32_be cbs = (Some u, rest) \<longleftrightarrow> is_valid_code_point u \<and> cbs = be_bytes 4 (unat u) @ rest)"
proof (intro conjI)
  show "cbs_get_latin1 cbs = (Some u, rest) \<longleftrightarrow> unat u < 2 ^ 8 \<and> cbs = be_bytes 1 (unat u) @ rest"
  proof
    assume "cbs_get_latin1 cbs = (Some u, rest)"
    then obtain c where c: "cbs = c # rest" "u = ucast c"
      by (cases cbs) (auto simp: cbs_get_latin1_def)
    moreover have "ucast (ucast c :: u32) = c" by (rule bit_word_eqI) (simp add: bit_simps)
    ultimately show "unat u < 2 ^ 8 \<and> cbs = be_bytes 1 (unat u) @ rest"
      using byte_bound [of c] by (simp add: unat_ucast_up)
  next
    assume a: "unat u < 2 ^ 8 \<and> cbs = be_bytes 1 (unat u) @ rest"
    then have "ucast (ucast u :: byte) = u" by (simp add: word_unat_eq_iff unat_ucast_mod)
    with a show "cbs_get_latin1 cbs = (Some u, rest)" by (simp add: cbs_get_latin1_def)
  qed
  show "cbs_get_ucs2_be cbs = (Some u, rest) \<longleftrightarrow>
      unat u < 2 ^ 16 \<and> is_valid_code_point u \<and> cbs = be_bytes 2 (unat u) @ rest"
  proof
    assume "cbs_get_ucs2_be cbs = (Some u, rest)"
    then obtain c where "CBS_get_u16 cbs = (Some c, rest)" "u = ucast c" "is_valid_code_point u"
      by (auto simp: cbs_get_ucs2_be_def st_bind_eq_Some split: if_splits)
    then show "unat u < 2 ^ 16 \<and> is_valid_code_point u \<and> cbs = be_bytes 2 (unat u) @ rest"
      using u16_bound [of c] by (simp add: CBS_get_u16_iff unat_ucast_up)
  next
    assume a: "unat u < 2 ^ 16 \<and> is_valid_code_point u \<and> cbs = be_bytes 2 (unat u) @ rest"
    then have "unat (ucast u :: u16) = unat u" "ucast (ucast u :: u16) = u"
      by (simp_all add: word_unat_eq_iff unat_ucast_mod)
    then have "CBS_get_u16 cbs = (Some (ucast u), rest)" using a by (simp add: CBS_get_u16_iff)
    then show "cbs_get_ucs2_be cbs = (Some u, rest)"
      using a \<open>ucast (ucast u :: u16) = u\<close> by (simp add: cbs_get_ucs2_be_def)
  qed
  show "cbs_get_utf32_be cbs = (Some u, rest) \<longleftrightarrow> is_valid_code_point u \<and> cbs = be_bytes 4 (unat u) @ rest"
    by (auto simp: cbs_get_utf32_be_def st_bind_eq_Some CBS_get_u32_iff split: if_splits)
qed (rule cbs_get_utf8_iff)

text \<open>C12. \<open>cbb_add_utf8\<close> writes every valid code point, in the number of bytes that
  \<open>cbb_get_utf8_len\<close> announces, so that the reader gets it back; an invalid code point is
  refused.\<close>

theorem utf8_write_read:
  assumes "malloc_sized malloc" and "\<forall>n. malloc n \<noteq> None"
  shows "if is_valid_code_point u
         then \<exists>out w. st_bind (CBB_init malloc 0) (\<lambda>_. st_bind (cbb_add_utf8 malloc 0 u) (\<lambda>_. CBB_finish malloc 0)) zero_writer = (Some out, w) \<and>
                length out = cbb_get_utf8_len u \<and> cbs_get_utf8 (out @ rest) = (Some u, rest)
         else cbb_add_utf8 malloc 0 u w0 = (None, w0)"
proof (cases "is_valid_code_point u")
  case True
  obtain b bs where u: "utf8_bytes u = b # bs"
    by (metis length_utf8_bytes cbb_get_utf8_len_def length_0_conv list.exhaust zero_neq_one zero_neq_numeral)
  have len: "length (utf8_bytes u) < 2 ^ 62" by (simp add: length_utf8_bytes cbb_get_utf8_len_def)
  have "writes malloc (\<lambda>st. 0 \<le> depth st) (cbb_add_utf8 malloc 0 u) (open_ok 0) (aappend 0 (utf8_bytes u))"
    using writes_add_u8s [OF assms(1), of 0 b bs] True by (simp add: cbb_add_utf8_eq u)
  from write_op_finish [OF assms _ len this, of 0] have
    "\<exists>w. st_bind (CBB_init malloc 0) (\<lambda>_. st_bind (cbb_add_utf8 malloc 0 u) (\<lambda>_. CBB_finish malloc 0)) zero_writer = (Some (utf8_bytes u), w)"
    by simp
  moreover have "cbs_get_utf8 (utf8_bytes u @ rest) = (Some u, rest)" using True by (simp add: cbs_get_utf8_iff)
  ultimately show ?thesis using True length_utf8_bytes by auto
qed (simp add: cbb_add_utf8_eq)

theorem utf8_write_read_witness:
  "\<exists>out w. st_bind (CBB_init zero_malloc 0) (\<lambda>_. st_bind (cbb_add_utf8 zero_malloc 0 0x1f600) (\<lambda>_. CBB_finish zero_malloc 0)) zero_writer = (Some out, w) \<and>
     length out = 4 \<and> cbs_get_utf8 (out @ [1]) = (Some 0x1f600, [1])"
proof -
  have "is_valid_code_point 0x1f600" by code_simp
  moreover have "cbb_get_utf8_len 0x1f600 = 4" by code_simp
  ultimately show ?thesis using utf8_write_read [of zero_malloc "0x1f600" "[1]"] by simp
qed

end
