(* ===== verification/Oid.thy ===== *)
theory Oid
  imports Unicode Qsort "HOL-Library.List_Lexorder"
begin

text \<open>
  The textual form of object identifiers (\<open>CBS_asn1_oid_to_text\<close> of cbs.c and
  \<open>CBB_add_asn1_oid_from_text\<close> of cbb.c) and the reordering of the elements of a SET OF
  (\<open>CBB_flush_asn1_set_of\<close>). libc's \<open>qsort\<close> is a parameter.
\<close>

subsection \<open>Object identifiers to text\<close>

text \<open>The output of \<open>printf\<close> with the conversion \<open>PRIu64\<close>.\<close>

fun decimal :: "nat \<Rightarrow> byte list" where
  "decimal n = (if n < 10 then [of_nat (48 + n)] else decimal (n div 10) @ [of_nat (48 + n mod 10)])"

definition add_decimal :: "allocator \<Rightarrow> nat \<Rightarrow> u64 \<Rightarrow> (cbb_writer, unit) stm" where
  "add_decimal malloc k v = CBB_add_bytes malloc k (decimal (unat v))"

function oid_text_loop :: "allocator \<Rightarrow> cbs \<Rightarrow> (cbb_writer, unit) stm" where
  "oid_text_loop malloc copy =
     (if CBS_len copy \<noteq> 0 then
        (case parse_base128_integer copy of
           (None, _) \<Rightarrow> st_fail
         | (Some v, copy') \<Rightarrow>
             st_bind (CBB_add_u8 malloc 0 0x2e) (\<lambda>_.
             st_bind (add_decimal malloc 0 v) (\<lambda>_. oid_text_loop malloc copy')))
      else st_return ())"
  by pat_completeness auto
termination
proof (relation "measure (\<lambda>(malloc, copy). length copy)")
  fix malloc :: allocator and copy x y v
  assume "(x, y) = parse_base128_integer copy" and "x = Some v"
  then have "parse_base128_integer copy = (Some v, y)" by simp
  then have "copy = base128_bytes v @ y" by (rule parse_base128_integer_canonical)
  then show "((malloc, y), malloc, copy) \<in> measure (\<lambda>(malloc, copy). length copy)"
    using length_base128_bytes [of v] by simp
qed simp

definition CBS_asn1_oid_to_text :: "allocator \<Rightarrow> cbs \<Rightarrow> byte list option" where
  "CBS_asn1_oid_to_text malloc cbs =
     fst (st_bind (CBB_init malloc 32) (\<lambda>_.
            case parse_base128_integer cbs of
              (None, _) \<Rightarrow> st_fail
            | (Some v, copy) \<Rightarrow>
                st_bind (if v \<ge> 80
                         then st_bind (CBB_add_bytes malloc 0 [0x32, 0x2e]) (\<lambda>_. add_decimal malloc 0 (v - 80))
                         else st_bind (add_decimal malloc 0 (v div 40)) (\<lambda>_.
                              st_bind (CBB_add_u8 malloc 0 0x2e) (\<lambda>_. add_decimal malloc 0 (v mod 40)))) (\<lambda>_.
                st_bind (oid_text_loop malloc copy) (\<lambda>_.
                st_bind (CBB_add_u8 malloc 0 0) (\<lambda>_. CBB_finish malloc 0)))) zero_writer)"

subsection \<open>Text to object identifiers\<close>

text \<open>The loop of \<open>parse_dotted_decimal\<close>; \<open>seen\<close> is \<open>seen_digit\<close>.\<close>

fun parse_dotted_loop :: "bool \<Rightarrow> u64 \<Rightarrow> (cbs, u64) stm" where
  "parse_dotted_loop seen out [] = (if seen then Some out else None, [])"
| "parse_dotted_loop seen out (u # cbs) =
     (if u = 0x2e \<and> CBS_len cbs > 0 then (if seen then Some out else None, cbs)
      else if u < 0x30 \<or> u > 0x39 \<or> (seen \<and> out = 0) \<or> out > UINT64_MAX div 10 \<or>
              out * 10 > UINT64_MAX - ucast (u - 0x30)
      then (None, cbs)
      else parse_dotted_loop True (out * 10 + ucast (u - 0x30)) cbs)"

definition parse_dotted_decimal :: "(cbs, u64) stm" where
  "parse_dotted_decimal = parse_dotted_loop False 0"

text \<open>The dotted form of a list of components, the admissible first two components, and the
  contents octets of an object identifier.\<close>

fun dotted :: "u64 list \<Rightarrow> byte list" where
  "dotted [] = []"
| "dotted [v] = decimal (unat v)"
| "dotted (v # w # vs) = decimal (unat v) @ 0x2e # dotted (w # vs)"

definition oid_ok :: "u64 \<Rightarrow> u64 \<Rightarrow> bool" where
  "oid_ok a b \<longleftrightarrow> a \<le> 2 \<and> (a < 2 \<longrightarrow> b \<le> 39) \<and> b \<le> UINT64_MAX - 80"

definition oid_contents :: "u64 \<Rightarrow> u64 \<Rightarrow> u64 list \<Rightarrow> byte list" where
  "oid_contents a b cs = base128_bytes (40 * a + b) @ concat (map base128_bytes cs)"

lemma parse_dotted_loop_shorter:
  "parse_dotted_loop seen out cbs = (r, cbs') \<Longrightarrow> cbs \<noteq> [] \<Longrightarrow> length cbs' < length cbs"
proof (induction seen out cbs arbitrary: r rule: parse_dotted_loop.induct)
  case (2 seen out u cbs)
  then show ?case by (cases cbs) (auto split: if_splits simp: CBS_len_def)
qed simp

function oid_from_text_loop :: "allocator \<Rightarrow> nat \<Rightarrow> cbs \<Rightarrow> (cbb_writer, unit) stm" where
  "oid_from_text_loop malloc k cbs =
     (if CBS_len cbs > 0 then
        (case parse_dotted_decimal cbs of
           (None, _) \<Rightarrow> st_fail
         | (Some a, cbs') \<Rightarrow>
             st_bind (add_base128_integer malloc k a) (\<lambda>_. oid_from_text_loop malloc k cbs'))
      else st_return ())"
  by pat_completeness auto
termination
proof (relation "measure (\<lambda>(malloc, k, cbs). length cbs)")
  fix malloc :: allocator and k :: nat and cbs :: cbs and x y xa
  assume "CBS_len cbs > 0" and "(x, y) = parse_dotted_decimal cbs"
  then show "((malloc, k, y), malloc, k, cbs) \<in> measure (\<lambda>(malloc, k, cbs). length cbs)"
    using parse_dotted_loop_shorter [of False 0 cbs x y] by (simp add: parse_dotted_decimal_def CBS_len_def)
qed simp

definition CBB_add_asn1_oid_from_text :: "allocator \<Rightarrow> nat \<Rightarrow> byte list \<Rightarrow> nat \<Rightarrow> (cbb_writer, unit) stm" where
  "CBB_add_asn1_oid_from_text malloc k text len =
     st_bind (CBB_flush malloc k) (\<lambda>_.
       case parse_dotted_decimal (CBS_init text len) of
         (None, _) \<Rightarrow> st_fail
       | (Some a, cbs1) \<Rightarrow>
           (case parse_dotted_decimal cbs1 of
              (None, _) \<Rightarrow> st_fail
            | (Some b, cbs2) \<Rightarrow>
                if a > 2 \<or> (a < 2 \<and> b > 39) \<or> b > UINT64_MAX - 80 then st_fail
                else st_bind (add_base128_integer malloc k (40 * a + b)) (\<lambda>_.
                       oid_from_text_loop malloc k cbs2)))"

text \<open>A client that encodes a textual object identifier into a fresh buffer.\<close>

definition oid_der :: "allocator \<Rightarrow> byte list \<Rightarrow> byte list option" where
  "oid_der malloc text = fst (st_bind (CBB_init malloc 0) (\<lambda>_. st_bind (CBB_add_asn1_oid_from_text malloc 0 text (length text))
     (\<lambda>_. CBB_finish malloc 0)) zero_writer)"

subsection \<open>SET OF\<close>

text \<open>libc's \<open>memcmp\<close> on blocks of equal length; only the sign of the result is specified.\<close>

fun c_memcmp :: "byte list \<Rightarrow> byte list \<Rightarrow> int" where
  "c_memcmp (x # xs) (y # ys) = (if x = y then c_memcmp xs ys else if x < y then -1 else 1)"
| "c_memcmp _ _ = 0"

definition compare_set_of_element :: "cbs \<Rightarrow> cbs \<Rightarrow> int" where
  "compare_set_of_element a b =
     (let a_len = CBS_len a; b_len = CBS_len b;
          min_len = (if a_len < b_len then a_len else b_len);
          ret = c_memcmp (take min_len a) (take min_len b)
      in if ret \<noteq> 0 then ret
         else if a_len = b_len then 0
         else if a_len < b_len then -1 else 1)"

lemma CBS_get_any_asn1_element_shorter:
  "CBS_get_any_asn1_element cbs = (Some e, cbs') \<Longrightarrow> length cbs' < length cbs"
proof -
  assume "CBS_get_any_asn1_element cbs = (Some e, cbs')"
  then obtain el where "cbs_get_any_asn1_element False cbs = (Some el, cbs')"
    by (auto simp: CBS_get_any_asn1_element_def st_bind_eq_Some)
  from get_any_element_canonical [OF this] length_der_tag [of "el_tag el"] show ?thesis
    by (auto simp: der_element_def)
qed

function count_children :: "cbs \<Rightarrow> nat option" where
  "count_children cbs =
     (if CBS_len cbs \<noteq> 0 then
        (case CBS_get_any_asn1_element cbs of
           (None, _) \<Rightarrow> None
         | (Some _, cbs') \<Rightarrow> map_option Suc (count_children cbs'))
      else Some 0)"
  by pat_completeness auto
termination
proof (relation "measure length")
  fix cbs :: cbs and x y v
  assume "(x, y) = CBS_get_any_asn1_element cbs" and "x = Some v"
  then have "CBS_get_any_asn1_element cbs = (Some v, y)" by simp
  then show "(y, cbs) \<in> measure length" by (simp add: CBS_get_any_asn1_element_shorter)
qed simp

fun collect_children :: "nat \<Rightarrow> cbs \<Rightarrow> cbs list option" where
  "collect_children 0 cbs = Some []"
| "collect_children (Suc n) cbs =
     (case CBS_get_any_asn1_element cbs of
        (None, _) \<Rightarrow> None
      | (Some (out, _, _), cbs') \<Rightarrow> map_option ((#) out) (collect_children n cbs'))"

definition sizeof_CBS :: nat where
  "sizeof_CBS = 16"

fun add_children :: "allocator \<Rightarrow> nat \<Rightarrow> cbs list \<Rightarrow> (cbb_writer, unit) stm" where
  "add_children malloc k [] = st_return ()"
| "add_children malloc k (c # cs) = st_bind (CBB_add_bytes malloc k c) (\<lambda>_. add_children malloc k cs)"

definition CBB_flush_asn1_set_of ::
  "allocator \<Rightarrow> ((cbs \<Rightarrow> cbs \<Rightarrow> int) \<Rightarrow> cbs list \<Rightarrow> cbs list) \<Rightarrow> nat \<Rightarrow> (cbb_writer, unit) stm" where
  "CBB_flush_asn1_set_of malloc qsort k =
     st_bind (CBB_flush malloc k) (\<lambda>_ w.
       case count_children (CBS_init (CBB_data k w) (CBB_len k w)) of
         None \<Rightarrow> (None, w)
       | Some num_children \<Rightarrow>
           if num_children < 2 then (Some (), w)
           else if num_children > SIZE_MAX div sizeof_CBS then (None, w)
           else
             (case (OPENSSL_memdup malloc (CBB_data k w), OPENSSL_malloc malloc (num_children * sizeof_CBS)) of
                (Some buf, Some _) \<Rightarrow>
                  (case collect_children num_children (CBS_init buf (CBB_len k w)) of
                     None \<Rightarrow> (None, w)
                   | Some elems \<Rightarrow>
                       add_children malloc k (qsort compare_set_of_element elems)
                         (w\<lparr>cw_base := map_option (\<lambda>b. b\<lparr>cb_len :=
                              cbb_offset (cw_chain w ! k) + cbb_pending_len_len (cw_chain w ! k)\<rparr>) (cw_base w)\<rparr>))
              | _ \<Rightarrow> (None, w)))"

lemma compare_set_of_element_le: "compare_set_of_element a b \<le> 0 \<longleftrightarrow> a \<le> b"
proof (induction a arbitrary: b)
  case Nil
  then show ?case by (simp add: compare_set_of_element_def CBS_len_def)
next
  case (Cons x a)
  show ?case
  proof (cases b)
    case Nil
    then show ?thesis by (simp add: compare_set_of_element_def CBS_len_def)
  next
    case b: (Cons y b')
    have "compare_set_of_element (x # a) (y # b') =
      (if x = y then compare_set_of_element a b' else if x < y then -1 else 1)"
      by (simp add: compare_set_of_element_def CBS_len_def Let_def)
    with Cons.IH [of b'] b show ?thesis by (auto simp: not_less)
  qed
qed

definition is_der :: "byte list \<Rightarrow> bool" where
  "is_der e \<longleftrightarrow> (\<exists>tag c. length c < 2 ^ 32 \<and> e = der_element tag c)"

lemma CBS_get_any_asn1_element_iff:
  "(\<exists>t h. CBS_get_any_asn1_element cbs = (Some (e, t, h), rest)) \<longleftrightarrow> is_der e \<and> cbs = e @ rest"
proof
  assume "\<exists>t h. CBS_get_any_asn1_element cbs = (Some (e, t, h), rest)"
  then obtain el where "cbs_get_any_asn1_element False cbs = (Some el, rest)" and e: "e = el_out el"
    by (auto simp: CBS_get_any_asn1_element_def st_bind_eq_Some)
  from get_any_element_canonical [OF this(1)] obtain c where "length c < 2 ^ 32" "cbs = der_element (el_tag el) c @ rest"
    "el_out el = der_element (el_tag el) c"
    by (metis asn1_element.select_convs(1))
  then show "is_der e \<and> cbs = e @ rest" unfolding is_der_def e by metis
next
  assume "is_der e \<and> cbs = e @ rest"
  then show "\<exists>t h. CBS_get_any_asn1_element cbs = (Some (e, t, h), rest)"
    by (auto simp: is_der_def CBS_get_any_asn1_element_def st_bind_def get_any_der_element)
qed

declare count_children.simps [simp del]

lemma is_der_nonempty: "is_der e \<Longrightarrow> e \<noteq> []"
proof -
  assume "is_der e"
  then obtain tag c where "e = der_element tag c" by (auto simp: is_der_def)
  with length_der_tag [of tag] show ?thesis by (auto simp: der_element_def)
qed

lemma get_element_Some:
  "CBS_get_any_asn1_element cbs = (Some (e, t, h), rest) \<Longrightarrow> is_der e \<and> cbs = e @ rest"
  using CBS_get_any_asn1_element_iff by blast

lemma count_children_Some:
  "count_children cbs = Some n \<Longrightarrow> \<exists>els. length els = n \<and> cbs = concat els \<and> list_all is_der els"
proof (induction cbs arbitrary: n rule: count_children.induct)
  case (1 cbs)
  show ?case
  proof (cases "CBS_len cbs = 0")
    case True
    with "1.prems" have "n = 0" by (simp add: count_children.simps [of cbs])
    with True show ?thesis by (simp add: CBS_len_def)
  next
    case False
    with "1.prems" obtain e t h rest m where get: "CBS_get_any_asn1_element cbs = (Some (e, t, h), rest)"
      and m: "count_children rest = Some m" "n = Suc m"
      by (auto simp: count_children.simps [of cbs] split: prod.splits option.splits)
    from "1.IH" [OF False get [symmetric] refl m(1)] obtain els
      where "length els = m" "rest = concat els" "list_all is_der els" by blast
    with get_element_Some [OF get] m(2) show ?thesis
      by (intro exI [of _ "e # els"]) simp
  qed
qed

lemma collect_children_concat:
  "list_all is_der els \<Longrightarrow> collect_children (length els) (concat els @ rest) = Some els"
proof (induction els)
  case (Cons e els)
  then obtain t h where "CBS_get_any_asn1_element (e @ (concat els @ rest)) = (Some (e, t, h), concat els @ rest)"
    using CBS_get_any_asn1_element_iff [of "e @ (concat els @ rest)" e "concat els @ rest"] by auto
  with Cons show ?case by simp
qed simp

lemma compare_set_of_element_total: "total_cmp compare_set_of_element"
  by (auto simp: total_cmp_def compare_set_of_element_le)

text \<open>The bytes in front of the contents of the \<open>CBB\<close> at depth \<open>k\<close>.\<close>

lemma chain_start:
  "k \<le> depth st \<Longrightarrow> cbb_offset c + cbb_pending_len_len c = off \<Longrightarrow>
   cbb_offset (chain_of c off st ! k) + cbb_pending_len_len (chain_of c off st ! k) = off + length (outer_at k st)"
proof (induction k st arbitrary: c off rule: sub_at.induct)
  case (1 k r p d fs)
  have "cbb_offset (child_of (off + length r) p) = off + length r"
    "cbb_pending_len_len (child_of (off + length r) p) = pend p"
    by (simp_all add: child_of_def)
  with "1.IH" [of "child_of (off + length r) p" "off + length r + pend p"] "1.prems" show ?case
    by (simp add: chain_of_Cons)
qed (simp_all add: chain_of_def)

lemma writes_children:
  assumes "malloc_sized malloc"
  shows "list_all (\<lambda>e. length e < 2 ^ 64) (c # cs) \<Longrightarrow>
    writes malloc (\<lambda>st. k \<le> depth st) (add_children malloc k (c # cs)) (open_ok k) (aappend k (concat (c # cs)))"
proof (induction cs arbitrary: c)
  case Nil
  then show ?case using writes_add_bytes [OF assms, of c k] by simp
next
  case (Cons d cs)
  have "writes malloc (\<lambda>st. k \<le> depth st) (st_bind (CBB_add_bytes malloc k c) (\<lambda>_. add_children malloc k (d # cs)))
          (\<lambda>st. open_ok k st \<and> open_ok k (aappend k c st)) (\<lambda>st. aappend k (concat (d # cs)) (aappend k c st))"
    using Cons by (intro writes_bind [OF writes_add_bytes [OF assms] Cons.IH]) simp_all
  then have "writes malloc (\<lambda>st. k \<le> depth st) (st_bind (CBB_add_bytes malloc k c) (\<lambda>_. add_children malloc k (d # cs)))
          (open_ok k) (aappend k (concat (c # d # cs)))"
    by (rule writes_cong) simp_all
  then show ?case by simp
qed

lemma at_depth_cong:
  "f (sub_at k st) = g (sub_at k st) \<Longrightarrow> at_depth k f st = at_depth k g st"
  by (induction k f st rule: at_depth.induct) (simp_all add: split_beta)

lemma set_of_data:
  assumes "refines w st" and "depth st = k"
  shows "CBB_data k w = fst (sub_at k st) \<and> CBB_len k w = length (fst (sub_at k st)) \<and>
         length (fst (sub_at k st)) < 2 ^ 64 \<and>
         refines (w\<lparr>cw_base := map_option (\<lambda>b. b\<lparr>cb_len :=
           cbb_offset (cw_chain w ! k) + cbb_pending_len_len (cw_chain w ! k)\<rparr>) (cw_base w)\<rparr>)
           (at_depth k (\<lambda>_. ([], [])) st)"
proof -
  obtain b where b: "cw_base w = Some b" "buf_wf b" "\<not> cb_error b" "contents b = layout st"
    "cw_chain w = chain_of CBB_zero 0 st" "frames_ok (snd st)"
    using assms(1) by (auto simp: refines_def split: option.splits)
  have k: "k \<le> depth st" using assms(2) by simp
  obtain d where d: "sub_at k st = (d, [])" using sub_at_depth_leaf [OF assms(2)] by blast
  have start: "cbb_offset (cw_chain w ! k) + cbb_pending_len_len (cw_chain w ! k) = length (outer_at k st)"
    using chain_start [OF k, of CBB_zero 0] b(5) by (simp add: CBB_zero_def)
  have lay: "contents b = outer_at k st @ d" using layout_sub [of st k] b(4) d by simp
  have len: "cb_len b = length (outer_at k st) + length d" using length_contents [OF b(2)] lay by simp
  have chain: "chain_of CBB_zero 0 (at_depth k (\<lambda>_. ([], [])) st) = chain_of CBB_zero 0 st"
    using append_take_drop_id [of k "chain_of CBB_zero 0 st"] by (simp add: chain_at_depth [OF k] drop_chain [OF k] d)
  have ok: "frames_ok (snd (at_depth k (\<lambda>_. ([], [])) st))"
    by (rule frames_ok_at_depth [OF b(6)]) simp
  have take: "take (length (outer_at k st)) (cb_buf b) = outer_at k st"
  proof -
    obtain tail where "cb_buf b = (outer_at k st @ d) @ tail" using contents_split [OF b(2) lay] by blast
    then show ?thesis by simp
  qed
  show ?thesis
    using b start len lay chain ok take
    by (auto simp: CBB_data_def CBB_len_def d refines_def buf_wf_def contents_def layout_at_depth [OF k])
qed

lemma set_of_sorted:
  assumes "malloc_sized malloc" and "qsort_contract qsort" and "refines w st" and "k \<le> depth st"
    and "CBB_flush_asn1_set_of malloc qsort k w = (Some (), w')"
  shows "\<exists>els els'. fst (sub_at k (aflush k st)) = concat els \<and> list_all is_der els \<and> mset els' = mset els \<and>
           sorted els' \<and> refines w' (at_depth k (\<lambda>_. (concat els', [])) st)"
proof -
  from assms(5) obtain w1 where fl: "CBB_flush malloc k w = (Some (), w1)"
    by (auto simp: CBB_flush_asn1_set_of_def st_bind_eq_Some)
  have w1: "refines w1 (aflush k st)"
    using writesD [OF writes_flush [OF assms(1)] assms(3,4) fl] by (simp add: write_result_def)
  have dk: "depth (aflush k st) = k" using assms(4) by simp
  define d where "d = fst (sub_at k (aflush k st))"
  note data = set_of_data [OF w1 dk, folded d_def]
  let ?w2 = "w1\<lparr>cw_base := map_option (\<lambda>b. b\<lparr>cb_len :=
           cbb_offset (cw_chain w1 ! k) + cbb_pending_len_len (cw_chain w1 ! k)\<rparr>) (cw_base w1)\<rparr>"
  from assms(5) fl data obtain n where n: "count_children d = Some n"
    by (auto simp: CBB_flush_asn1_set_of_def CBS_init_def split: option.splits)
  from count_children_Some [OF n] obtain els where els: "length els = n" "d = concat els" "list_all is_der els" by blast
  have coll: "collect_children n d = Some els"
    using collect_children_concat [OF els(3), of "[]"] els by simp
  have set_d: "at_depth k (\<lambda>_. (d, [])) st = aflush k st"
    unfolding d_def aflush_def by (rule at_depth_cong) (simp add: sub_at_depth [OF assms(4)] split_beta)
  show ?thesis
  proof (cases "n < 2")
    case True
    then have "w' = w1" using assms(5) fl data n by (simp add: CBB_flush_asn1_set_of_def CBS_init_def)
    moreover have "sorted els" using True els(1) by (cases els rule: remdups_adj.cases) auto
    ultimately show ?thesis using els w1 set_d d_def by (intro exI [of _ els]) simp
  next
    case False
    have buf: "OPENSSL_memdup malloc d = Some b \<Longrightarrow> b = d" for b by (rule OPENSSL_memdup_copy [OF assms(1)])
    let ?s = "qsort compare_set_of_element els"
    have dat: "CBB_data k w1 = d" "CBB_len k w1 = length d" using data by simp_all
    obtain b where "OPENSSL_memdup malloc d = Some b"
      using assms(5) fl n False by (auto simp: CBB_flush_asn1_set_of_def CBS_init_def dat split: option.splits if_splits)
    then have dup: "OPENSSL_memdup malloc d = Some d" using buf by simp
    have add: "add_children malloc k ?s ?w2 = (Some (), w')"
      using assms(5) fl n False dup
      by (simp add: CBB_flush_asn1_set_of_def CBS_init_def dat coll split: option.splits if_splits)
    have q: "mset ?s = mset els" "sorted_wrt (\<lambda>a b. compare_set_of_element a b \<le> 0) ?s"
      using assms(2) compare_set_of_element_total by (auto simp: qsort_contract_def)
    then have "sorted ?s" by (simp add: compare_set_of_element_le)
    have "\<forall>e \<in> set els. length e \<le> length (concat els)"
      by (simp add: length_concat member_le_sum_list)
    then have small: "list_all (\<lambda>e. length e < 2 ^ 64) ?s"
      using data els(2) mset_eq_setD [OF q(1)] by (auto simp: list_all_iff)
    have "?s \<noteq> []" using q(1) False els(1) by auto
    then obtain e es where s: "?s = e # es" by (cases ?s) auto
    have "refines ?w2 (at_depth k (\<lambda>_. ([], [])) (aflush k st))" using data by blast
    moreover have "k \<le> depth (at_depth k (\<lambda>_. ([], [])) (aflush k st))"
      using assms(4) dk by (simp add: depth_at_depth)
    ultimately have "refines w' (aappend k (concat ?s) (at_depth k (\<lambda>_. ([], [])) (aflush k st)))"
      using writesD [OF writes_children [OF assms(1), of e es k]] add small s by (simp add: write_result_def)
    moreover have "aappend k (concat ?s) (at_depth k (\<lambda>_. ([], [])) (aflush k st)) = at_depth k (\<lambda>_. (concat ?s, [])) st"
      using assms(4) by (simp add: aappend_def aflush_def at_depth_comp comp_def)
    ultimately show ?thesis using els q \<open>sorted ?s\<close> d_def by (intro exI [of _ els] exI [of _ ?s]) simp
  qed
qed

declare decimal.simps [simp del] oid_text_loop.simps [simp del] oid_from_text_loop.simps [simp del]

lemma decimal_step: "0 < n \<Longrightarrow> d < 10 \<Longrightarrow> decimal (n * 10 + d) = decimal n @ [of_nat (48 + d)]"
  by (simp add: decimal.simps [of "n * 10 + d"])

lemma decimal_digit: "d < 10 \<Longrightarrow> decimal d = [of_nat (48 + d)]"
  by (simp add: decimal.simps [of d])

lemma decimal_nonempty: "decimal n \<noteq> []"
  by (simp add: decimal.simps [of n])

lemma digit_byte:
  assumes "d < 10"
  shows "unat (of_nat (48 + d) :: byte) = 48 + d" and "(of_nat (48 + d) :: byte) - 0x30 = of_nat d"
    and "unat (of_nat d :: byte) = d"
  using assms by (simp_all add: unat_of_nat flip: of_nat_add) simp

lemma digit_of_byte:
  fixes u :: byte
  assumes "\<not> u < 0x30" and "\<not> u > 0x39"
  shows "u = of_nat (48 + unat (u - 0x30))" and "unat (u - 0x30) < 10"
proof -
  have "48 \<le> unat u" "unat u \<le> 57" using assms by (simp_all add: word_less_nat_alt)
  moreover have "unat (u - 0x30) = unat u - 48" using assms(1) by (subst unat_sub) (simp_all add: word_less_nat_alt word_le_nat_alt)
  ultimately show "u = of_nat (48 + unat (u - 0x30))" "unat (u - 0x30) < 10" by simp_all
qed

text \<open>The overflow checks of the loop, read on numbers.\<close>

lemma decimal_overflow_iff:
  fixes out d :: u64
  assumes "unat d < 10"
  shows "out > UINT64_MAX div 10 \<or> out * 10 > UINT64_MAX - d \<longleftrightarrow> 2 ^ 64 \<le> unat out * 10 + unat d"
proof -
  have m: "unat UINT64_MAX = 2 ^ 64 - 1" by (simp add: UINT64_MAX_def unsigned_minus_1_eq_mask mask_eq_exp_minus_1)
  have div: "unat (UINT64_MAX div 10) = (2 ^ 64 - 1) div 10" by (simp add: unat_div m)
  have sub: "unat (UINT64_MAX - d) = 2 ^ 64 - 1 - unat d"
    using m assms by (subst unat_sub) (simp_all add: word_le_nat_alt)
  show ?thesis
  proof (cases "unat out \<le> (2 ^ 64 - 1) div 10")
    case True
    then have "unat (out * 10) = unat out * 10" by (simp add: unat_word_ariths)
    then show ?thesis using True assms by (simp add: word_less_nat_alt div sub) linarith
  next
    case False
    then show ?thesis by (simp add: word_less_nat_alt div)
  qed
qed

lemma parse_dotted_Cons:
  "parse_dotted_loop seen out (u # cbs) =
     (if u = 0x2e \<and> cbs \<noteq> [] then (if seen then Some out else None, cbs)
      else if \<not> (0x30 \<le> u \<and> u \<le> 0x39) \<or> (seen \<and> out = 0) \<or> 2 ^ 64 \<le> unat out * 10 + unat (u - 0x30)
      then (None, cbs)
      else parse_dotted_loop True (of_nat (unat out * 10 + unat (u - 0x30))) cbs)"
proof (cases "0x30 \<le> u \<and> u \<le> 0x39")
  case True
  then have d: "unat (ucast (u - 0x30) :: u64) < 10" "unat (ucast (u - 0x30) :: u64) = unat (u - 0x30)"
    using digit_of_byte [of u] by (auto simp: unat_ucast_up not_less)
  show ?thesis
    using decimal_overflow_iff [OF d(1), of out] True d by (auto simp: CBS_len_def not_less)
qed (auto simp: CBS_len_def not_less not_le)

declare parse_dotted_loop.simps(2) [simp del]

lemma parse_dotted_digit:
  assumes "d < 10" and "unat out * 10 + d < 2 ^ 64" and "seen \<longrightarrow> out \<noteq> 0"
  shows "parse_dotted_loop seen out (of_nat (48 + d) # cbs) = parse_dotted_loop True (of_nat (unat out * 10 + d)) cbs"
proof -
  have "(of_nat (48 + d) :: byte) \<noteq> 0x2e" "0x30 \<le> (of_nat (48 + d) :: byte)" "(of_nat (48 + d) :: byte) \<le> 0x39"
    unfolding word_le_nat_alt word_unat_eq_iff digit_byte(1) [OF assms(1)] using assms(1) by simp_all
  then show ?thesis
    unfolding parse_dotted_Cons digit_byte(2) [OF assms(1)] digit_byte(3) [OF assms(1)] using assms by auto
qed

lemma parse_decimal:
  "n < 2 ^ 64 \<Longrightarrow> parse_dotted_loop False 0 (decimal n @ cbs) = parse_dotted_loop True (of_nat n) cbs"
proof (induction n arbitrary: cbs rule: decimal.induct)
  case (1 n)
  show ?case
  proof (cases "n < 10")
    case True
    then show ?thesis using parse_dotted_digit [of n 0 False cbs] by (simp add: decimal_digit)
  next
    case False
    have dec: "decimal n = decimal (n div 10) @ [of_nat (48 + n mod 10)]"
      using False by (simp add: decimal.simps [of n])
    have u: "unat (of_nat (n div 10) :: u64) = n div 10" using "1.prems" by (simp add: unat_of_nat)
    have nz: "(of_nat (n div 10) :: u64) \<noteq> 0" using u False by (auto simp: word_unat_eq_iff)
    have "parse_dotted_loop False 0 (decimal n @ cbs) = parse_dotted_loop True (of_nat (n div 10)) (of_nat (48 + n mod 10) # cbs)"
      using "1.IH" [OF False, of "of_nat (48 + n mod 10) # cbs"] "1.prems" by (simp add: dec del: of_nat_add)
    also have "\<dots> = parse_dotted_loop True (of_nat n) cbs"
      using parse_dotted_digit [of "n mod 10" "of_nat (n div 10)" True cbs] u nz "1.prems" by (simp del: of_nat_add)
    finally show ?thesis .
  qed
qed

lemma parse_dotted_inv_seen:
  "parse_dotted_loop True out cbs = (Some v, rest) \<Longrightarrow>
     \<exists>ds. decimal (unat v) = decimal (unat out) @ ds \<and> cbs = ds @ (if rest = [] then [] else 0x2e # rest)"
proof (induction cbs arbitrary: out)
  case Nil
  then show ?case by auto
next
  case (Cons u cbs)
  show ?case
  proof (cases "u = 0x2e \<and> cbs \<noteq> []")
    case True
    with Cons.prems show ?thesis by (auto simp: parse_dotted_Cons)
  next
    case False
    let ?d = "unat (u - 0x30)"
    from False Cons.prems have u: "0x30 \<le> u" "u \<le> 0x39" and o: "out \<noteq> 0" "unat out * 10 + ?d < 2 ^ 64"
      and run: "parse_dotted_loop True (of_nat (unat out * 10 + ?d)) cbs = (Some v, rest)"
      by (auto simp: parse_dotted_Cons not_le split: if_splits)
    have d: "?d < 10" "u = of_nat (48 + ?d)" using digit_of_byte [of u] u by (simp_all add: not_less)
    from Cons.IH [OF run] obtain ds where ds: "decimal (unat v) = decimal (unat out * 10 + ?d) @ ds"
      "cbs = ds @ (if rest = [] then [] else 0x2e # rest)"
      using o(2) by (auto simp: unat_of_nat simp del: of_nat_add)
    have "decimal (unat out * 10 + ?d) = decimal (unat out) @ [u]"
      using decimal_step [of "unat out" ?d] o(1) d by (simp add: unat_gt_0)
    with ds show ?thesis by (intro exI [of _ "u # ds"]) simp
  qed
qed

lemma parse_dotted_decimal_iff:
  "parse_dotted_decimal cbs = (Some v, rest) \<longleftrightarrow>
     cbs = decimal (unat v) @ (if rest = [] then [] else 0x2e # rest)"
proof
  assume "parse_dotted_decimal cbs = (Some v, rest)"
  then have run: "parse_dotted_loop False 0 cbs = (Some v, rest)" by (simp add: parse_dotted_decimal_def)
  then obtain u cs where cbs: "cbs = u # cs" by (cases cbs) auto
  let ?d = "unat (u - 0x30)"
  from run cbs have u: "0x30 \<le> u" "u \<le> 0x39" and next': "parse_dotted_loop True (of_nat ?d) cs = (Some v, rest)"
    by (auto simp: parse_dotted_Cons split: if_splits)
  have d: "?d < 10" "u = of_nat (48 + ?d)" using digit_of_byte [of u] u by (simp_all add: not_less)
  have "unat (of_nat ?d :: u64) = ?d" using d(1) by (simp only: unat_of_nat) simp
  with parse_dotted_inv_seen [OF next'] d cbs show "cbs = decimal (unat v) @ (if rest = [] then [] else 0x2e # rest)"
    by (auto simp: decimal_digit)
next
  assume "cbs = decimal (unat v) @ (if rest = [] then [] else 0x2e # rest)"
  then show "parse_dotted_decimal cbs = (Some v, rest)"
    using parse_decimal [of "unat v" "if rest = [] then [] else 0x2e # rest"] u64_bound [of v]
    by (auto simp: parse_dotted_decimal_def parse_dotted_Cons)
qed

lemma dotted_Nil_iff [simp]: "dotted vs = [] \<longleftrightarrow> vs = []"
  by (cases vs rule: dotted.cases) (auto simp: decimal_nonempty)

lemma dotted_Cons: "dotted (v # vs) = decimal (unat v) @ (if vs = [] then [] else 0x2e # dotted vs)"
  by (cases vs) auto

lemma parse_dotted_dotted: "parse_dotted_decimal (dotted (v # vs)) = (Some v, dotted vs)"
  unfolding parse_dotted_decimal_iff by (simp add: dotted_Cons)

lemma writes_then:
  assumes "writes malloc (\<lambda>st. k \<le> depth st) op1 (open_ok k) (aappend k bs)"
    and "writes malloc (\<lambda>st. k \<le> depth st) op2 (open_ok k) (aappend k cs)"
  shows "writes malloc (\<lambda>st. k \<le> depth st) (st_bind op1 (\<lambda>_. op2)) (open_ok k) (aappend k (bs @ cs))"
proof -
  have "writes malloc (\<lambda>st. k \<le> depth st) (st_bind op1 (\<lambda>_. op2)) (\<lambda>st. open_ok k st \<and> open_ok k (aappend k bs st))
     (\<lambda>st. aappend k cs (aappend k bs st))"
    by (rule writes_bind [OF assms(1,2)]) simp
  then show ?thesis by (rule writes_cong) simp_all
qed

lemma st_bind_return_unit: "st_bind m (\<lambda>_. st_return ()) = m" for m :: "('s, unit) stm"
  by (auto simp: fun_eq_iff st_bind_def split: prod.splits option.splits)

lemma writes_oid_from_text_loop:
  fixes op :: "(cbb_writer, unit) stm"
  assumes "malloc_sized malloc"
  shows "writes malloc (\<lambda>st. k \<le> depth st) op (open_ok k) (aappend k bs) \<Longrightarrow>
    writes malloc (\<lambda>st. k \<le> depth st) (st_bind op (\<lambda>_. oid_from_text_loop malloc k (dotted cs))) (open_ok k)
      (aappend k (bs @ concat (map base128_bytes cs)))"
proof (induction cs arbitrary: op bs)
  case Nil
  have "oid_from_text_loop malloc k [] = st_return ()" by (simp add: oid_from_text_loop.simps [of _ _ "[]"] CBS_len_def)
  with Nil show ?case by (simp only: dotted.simps(1) list.map concat.simps append_Nil2 st_bind_return_unit)
next
  case (Cons c cs)
  have "oid_from_text_loop malloc k (dotted (c # cs)) =
      st_bind (add_base128_integer malloc k c) (\<lambda>_. oid_from_text_loop malloc k (dotted cs))"
    by (simp add: oid_from_text_loop.simps [of _ _ "dotted (c # cs)"] parse_dotted_dotted CBS_len_def)
  with Cons.IH [OF writes_then [OF Cons.prems writes_base128 [OF assms]], of c] show ?case
    by (simp add: st_bind_assoc_fun)
qed

lemma writes_oid_from_text:
  assumes "malloc_sized malloc" and "take len text = dotted (a # b # cs)" and "oid_ok a b"
  shows "writes malloc (\<lambda>st. k \<le> depth st) (CBB_add_asn1_oid_from_text malloc k text len) (open_ok k) (aappend k (oid_contents a b cs))"
proof -
  have op: "CBB_add_asn1_oid_from_text malloc k text len =
    st_bind (CBB_flush malloc k) (\<lambda>_. st_bind (add_base128_integer malloc k (40 * a + b)) (\<lambda>_. oid_from_text_loop malloc k (dotted cs)))"
    unfolding CBB_add_asn1_oid_from_text_def CBS_init_def assms(2) parse_dotted_dotted prod.case option.case
    using assms(3) by (auto simp: oid_ok_def not_less)
  have "writes malloc (\<lambda>st. k \<le> depth st) (CBB_add_asn1_oid_from_text malloc k text len)
      (\<lambda>st. open_ok k st \<and> open_ok k (aflush k st)) (\<lambda>st. aappend k (oid_contents a b cs) (aflush k st))"
    unfolding op oid_contents_def
    by (rule writes_bind [OF writes_flush_open_ok [OF assms(1)] writes_oid_from_text_loop [OF assms(1) writes_base128 [OF assms(1)]]]) simp
  then show ?thesis by (rule writes_cong) simp_all
qed

lemma oid_from_text_loop_canonical:
  "oid_from_text_loop malloc k cbs w = (Some (), w') \<Longrightarrow> \<exists>cs. cbs = dotted cs"
proof (induction malloc k cbs arbitrary: w rule: oid_from_text_loop.induct)
  case (1 malloc k cbs)
  show ?case
  proof (cases "cbs = []")
    case True
    then show ?thesis by (intro exI [of _ "[]"]) simp
  next
    case False
    then have len: "0 < CBS_len cbs" by (simp add: CBS_len_def)
    with "1.prems" obtain a rest w1 where p: "parse_dotted_decimal cbs = (Some a, rest)"
      and run: "oid_from_text_loop malloc k rest w1 = (Some (), w')"
      by (auto simp: oid_from_text_loop.simps [of _ _ cbs] st_bind_eq_Some split: prod.splits option.splits)
    from "1.IH" [OF len p [symmetric] refl run] obtain cs where "rest = dotted cs" by blast
    with p show ?thesis by (intro exI [of _ "a # cs"]) (simp add: parse_dotted_decimal_iff dotted_Cons)
  qed
qed

lemma oid_from_text_canonical:
  assumes "CBB_add_asn1_oid_from_text malloc k text len w = (Some (), w')"
  shows "\<exists>a b cs. oid_ok a b \<and> take len text = dotted (a # b # cs)"
proof -
  from assms obtain a b c1 c2 w1 where a: "parse_dotted_decimal (take len text) = (Some a, c1)"
    and b: "parse_dotted_decimal c1 = (Some b, c2)" and ok: "oid_ok a b"
    and loop: "oid_from_text_loop malloc k c2 w1 = (Some (), w')"
    by (auto simp: CBB_add_asn1_oid_from_text_def CBS_init_def st_bind_eq_Some oid_ok_def not_less
        split: prod.splits option.splits if_splits)
  from oid_from_text_loop_canonical [OF loop] obtain cs where cs: "c2 = dotted cs" by blast
  have "c1 = dotted (b # cs)" using b by (simp add: parse_dotted_decimal_iff dotted_Cons cs)
  moreover have "c1 \<noteq> []" using b by (auto simp: parse_dotted_decimal_iff decimal_nonempty)
  ultimately have "take len text = dotted (a # b # cs)" using a by (simp add: parse_dotted_decimal_iff dotted_Cons)
  with ok show ?thesis by blast
qed

lemma length_decimal: "length (decimal n) \<le> max 1 n"
proof (induction n rule: decimal.induct)
  case (1 n)
  show ?case
  proof (cases "n < 10")
    case True
    then show ?thesis by (simp add: decimal_digit)
  next
    case False
    with 1 have "length (decimal n) \<le> Suc (max 1 (n div 10))" by (simp add: decimal.simps [of n])
    also have "\<dots> \<le> n" using False by simp
    finally show ?thesis by simp
  qed
qed

lemma writes_add_decimal:
  assumes "malloc_sized malloc"
  shows "writes malloc (\<lambda>st. k \<le> depth st) (add_decimal malloc k v) (open_ok k) (aappend k (decimal (unat v)))"
proof -
  have "length (decimal (unat v)) < 2 ^ 64"
    using length_decimal [of "unat v"] u64_bound [of v] by simp
  then show ?thesis
    unfolding add_decimal_def by (rule writes_add_bytes [OF assms])
qed

lemma writes_oid_text_loop:
  fixes op :: "(cbb_writer, unit) stm"
  assumes "malloc_sized malloc"
  shows "writes malloc (\<lambda>st. 0 \<le> depth st) op (open_ok 0) (aappend 0 (dotted vs)) \<Longrightarrow> vs \<noteq> [] \<Longrightarrow>
    writes malloc (\<lambda>st. 0 \<le> depth st) (st_bind op (\<lambda>_. oid_text_loop malloc (concat (map base128_bytes cs)))) (open_ok 0)
      (aappend 0 (dotted (vs @ cs)))"
proof (induction cs arbitrary: op vs)
  case Nil
  have "oid_text_loop malloc [] = st_return ()" by (simp add: oid_text_loop.simps [of _ "[]"] CBS_len_def)
  with Nil show ?case by (simp only: list.map concat.simps append_Nil2 st_bind_return_unit)
next
  case (Cons c cs)
  have ne: "base128_bytes c \<noteq> []" using length_base128_bytes [of c] by auto
  have step: "oid_text_loop malloc (concat (map base128_bytes (c # cs))) =
      st_bind (CBB_add_u8 malloc 0 0x2e) (\<lambda>_. st_bind (add_decimal malloc 0 c) (\<lambda>_. oid_text_loop malloc (concat (map base128_bytes cs))))"
    using ne by (simp add: oid_text_loop.simps [of _ "base128_bytes c @ _"] parse_base128_bytes CBS_len_def)
  have app: "dotted (vs @ [c]) = dotted vs @ [0x2e] @ decimal (unat c)"
    using \<open>vs \<noteq> []\<close> by (induction vs rule: dotted.induct) simp_all
  have "writes malloc (\<lambda>st. 0 \<le> depth st) (st_bind op (\<lambda>_. st_bind (CBB_add_u8 malloc 0 0x2e) (\<lambda>_. add_decimal malloc 0 c))) (open_ok 0)
     (aappend 0 (dotted (vs @ [c])))"
    unfolding app using writes_then [OF Cons.prems(1) writes_then [OF writes_add_u8 [OF assms] writes_add_decimal [OF assms]], of "0x2e" c]
    by simp
  from Cons.IH [OF this] show ?case
    unfolding step by (simp add: st_bind_assoc_fun)
qed

lemma first_component:
  assumes "oid_ok a b"
  shows "unat (40 * a + b) = 40 * unat a + unat b"
    and "40 * a + b \<ge> 80 \<longleftrightarrow> a = 2"
    and "a = 2 \<Longrightarrow> 40 * a + b - 80 = b"
    and "a \<noteq> 2 \<Longrightarrow> (40 * a + b) div 40 = a \<and> (40 * a + b) mod 40 = b"
proof -
  have m: "unat (UINT64_MAX - 80) = 2 ^ 64 - 81" by (simp add: UINT64_MAX_def)
  have a: "unat a \<le> 2" and b: "unat a < 2 \<longrightarrow> unat b \<le> 39" "unat b \<le> 2 ^ 64 - 81"
    using assms m by (simp_all add: oid_ok_def word_le_nat_alt word_less_nat_alt)
  have "unat (40 * a) = 40 * unat a" using a by (simp add: unat_word_ariths)
  then show u: "unat (40 * a + b) = 40 * unat a + unat b" using a b by (simp add: unat_word_ariths)
  have a2: "a = 2 \<longleftrightarrow> unat a = 2" by (simp add: word_unat_eq_iff)
  show "40 * a + b \<ge> 80 \<longleftrightarrow> a = 2"
    using a b by (auto simp: word_le_nat_alt u a2)
  show "a = 2 \<Longrightarrow> 40 * a + b - 80 = b" by simp
  show "a \<noteq> 2 \<Longrightarrow> (40 * a + b) div 40 = a \<and> (40 * a + b) mod 40 = b"
    using a b by (simp add: word_unat_eq_iff unat_div unat_mod u a2)
qed

lemma first_component_exists: "\<exists>a b. oid_ok a b \<and> v = 40 * a + b"
proof (cases "v \<ge> 80")
  case True
  then have "unat (v - 80) = unat v - 80" by (simp add: unat_sub)
  then have "v - 80 \<le> UINT64_MAX - 80" using u64_bound [of v] by (simp add: word_le_nat_alt UINT64_MAX_def)
  then show ?thesis by (intro exI [of _ 2] exI [of _ "v - 80"]) (simp add: oid_ok_def)
next
  case False
  have "v div 40 < 2 " using False by (simp add: word_less_nat_alt unat_div word_le_nat_alt) 
  moreover have "v mod 40 < 40" by (simp add: word_mod_less_divisor)
  ultimately have "oid_ok (v div 40) (v mod 40)" by (auto simp: oid_ok_def UINT64_MAX_def word_less_nat_alt word_le_nat_alt)
  moreover have "v = 40 * (v div 40) + v mod 40" by (simp only: mult_div_mod_eq)
  ultimately show ?thesis by blast
qed

lemma writes_first_component:
  assumes "malloc_sized malloc" and "oid_ok a b" and v: "v = 40 * a + b"
  shows "writes malloc (\<lambda>st. 0 \<le> depth st)
    (if v \<ge> 80
     then st_bind (CBB_add_bytes malloc 0 [0x32, 0x2e]) (\<lambda>_. add_decimal malloc 0 (v - 80))
     else st_bind (add_decimal malloc 0 (v div 40)) (\<lambda>_.
          st_bind (CBB_add_u8 malloc 0 0x2e) (\<lambda>_. add_decimal malloc 0 (v mod 40))))
    (open_ok 0) (aappend 0 (dotted [a, b]))"
proof (cases "a = 2")
  case True
  have "dotted [a, b] = [0x32, 0x2e] @ decimal (unat b)" using True by (simp add: decimal.simps [of 2])
  then show ?thesis
    using writes_then [OF writes_add_bytes [OF assms(1)] writes_add_decimal [OF assms(1)], of "[0x32, 0x2e]" 0 b]
    using first_component(2) [OF assms(2)] by (simp add: v True)
next
  case False
  then show ?thesis
    using writes_then [OF writes_add_decimal [OF assms(1)] writes_then [OF writes_add_u8 [OF assms(1)] writes_add_decimal [OF assms(1)]],
      of 0 a "0x2e" b]
    by (simp add: v first_component [OF assms(2)] False)
qed

lemma writes_oid_to_text:
  assumes "malloc_sized malloc" and "oid_ok a b" and v: "v = 40 * a + b"
  shows "writes malloc (\<lambda>st. 0 \<le> depth st)
   (st_bind (if v \<ge> 80
     then st_bind (CBB_add_bytes malloc 0 [0x32, 0x2e]) (\<lambda>_. add_decimal malloc 0 (v - 80))
     else st_bind (add_decimal malloc 0 (v div 40)) (\<lambda>_.
          st_bind (CBB_add_u8 malloc 0 0x2e) (\<lambda>_. add_decimal malloc 0 (v mod 40)))) (\<lambda>_.
                st_bind (oid_text_loop malloc (concat (map base128_bytes cs))) (\<lambda>_. CBB_add_u8 malloc 0 0)))
    (open_ok 0) (aappend 0 (dotted (a # b # cs) @ [0]))"
  using writes_then [OF writes_oid_text_loop [OF assms(1) writes_first_component [OF assms]] writes_add_u8 [OF assms(1)], of cs 0]
  by (simp add: st_bind_assoc_fun)

lemma oid_text_loop_canonical:
  "oid_text_loop malloc cbs w = (Some (), w') \<Longrightarrow> \<exists>cs. cbs = concat (map base128_bytes cs)"
proof (induction malloc cbs arbitrary: w rule: oid_text_loop.induct)
  case (1 malloc cbs)
  show ?case
  proof (cases "cbs = []")
    case True
    then show ?thesis by (intro exI [of _ "[]"]) simp
  next
    case False
    then have len: "CBS_len cbs \<noteq> 0" by (simp add: CBS_len_def)
    with "1.prems" obtain v rest w1 where p: "parse_base128_integer cbs = (Some v, rest)"
      and run: "oid_text_loop malloc rest w1 = (Some (), w')"
      by (auto simp: oid_text_loop.simps [of _ cbs] st_bind_eq_Some split: prod.splits option.splits)
    from "1.IH" [OF len p [symmetric] refl run] obtain cs where "rest = concat (map base128_bytes cs)" by blast
    with parse_base128_integer_canonical [OF p] show ?thesis by (intro exI [of _ "v # cs"]) simp
  qed
qed

lemma fst_eq_pair: "fst p = x \<Longrightarrow> \<exists>y. p = (x, y)"
  by (cases p) simp

lemma oid_to_text_canonical:
  assumes "CBS_asn1_oid_to_text malloc cbs = Some txt"
  shows "\<exists>a b cs. oid_ok a b \<and> cbs = oid_contents a b cs"
proof -
  obtain w where run: "st_bind (CBB_init malloc 32) (\<lambda>_.
            case parse_base128_integer cbs of
              (None, _) \<Rightarrow> st_fail
            | (Some v, copy) \<Rightarrow>
                st_bind (if v \<ge> 80
                         then st_bind (CBB_add_bytes malloc 0 [0x32, 0x2e]) (\<lambda>_. add_decimal malloc 0 (v - 80))
                         else st_bind (add_decimal malloc 0 (v div 40)) (\<lambda>_.
                              st_bind (CBB_add_u8 malloc 0 0x2e) (\<lambda>_. add_decimal malloc 0 (v mod 40)))) (\<lambda>_.
                st_bind (oid_text_loop malloc copy) (\<lambda>_.
                st_bind (CBB_add_u8 malloc 0 0) (\<lambda>_. CBB_finish malloc 0)))) zero_writer = (Some txt, w)"
    using fst_eq_pair [OF assms [unfolded CBS_asn1_oid_to_text_def]] by (elim exE)
  obtain r copy where pr: "parse_base128_integer cbs = (r, copy)" by fastforce
  have "r \<noteq> None" using run unfolding pr by (cases r) (auto elim!: st_bindE)
  then obtain v where p: "parse_base128_integer cbs = (Some v, copy)" using pr by blast
  from run obtain w1 w2 where loop: "oid_text_loop malloc copy w1 = (Some (), w2)"
    unfolding p prod.case option.case by (elim st_bindE) simp_all
  obtain a b where "oid_ok a b" "v = 40 * a + b" using first_component_exists by blast
  with parse_base128_integer_canonical [OF p] oid_text_loop_canonical [OF loop] show ?thesis
    by (auto simp: oid_contents_def)
qed

lemma length_decimal_less: "n < 10 ^ Suc k \<Longrightarrow> length (decimal n) \<le> Suc k"
proof (induction k arbitrary: n)
  case 0
  then show ?case by (simp add: decimal_digit)
next
  case (Suc k)
  then have "n div 10 < 10 ^ Suc k" by (simp add: less_mult_imp_div_less mult.commute)
  with Suc.IH [of "n div 10"] show ?case by (subst decimal.simps) simp
qed

lemma length_dotted: "length (dotted vs) \<le> 21 * length vs"
proof (induction vs)
  case (Cons v vs)
  have "unat v < 10 ^ Suc 19" using u64_bound [of v] by simp
  from length_decimal_less [OF this] Cons show ?case by (simp add: dotted_Cons)
qed simp

lemma length_oid_contents: "2 + length cs \<le> Suc (length (oid_contents a b cs))"
proof -
  have "length cs \<le> length (concat (map base128_bytes cs))"
  proof (induction cs)
    case (Cons c cs)
    moreover have "0 < length (base128_bytes c)" using length_base128_bytes [of c] by simp
    ultimately show ?case unfolding list.map concat.simps length_append list.size by linarith
  qed simp
  moreover have "0 < length (base128_bytes (40 * a + b))" using length_base128_bytes [of "40 * a + b"] by simp
  ultimately show ?thesis unfolding oid_contents_def length_append by linarith
qed

lemma oid_to_text_dotted:
  assumes "malloc_sized malloc" and "\<forall>n. malloc n \<noteq> None" and "oid_ok a b"
    and "length (oid_contents a b cs) < 2 ^ 56"
  shows "CBS_asn1_oid_to_text malloc (oid_contents a b cs) = Some (dotted (a # b # cs) @ [0])"
  using write_op_finish [OF assms(1,2) _ _ writes_oid_to_text [OF assms(1,3) refl], of 32 cs] assms(4)
    length_dotted [of "a # b # cs"] length_oid_contents [of cs a b]
  by (auto simp: CBS_asn1_oid_to_text_def oid_contents_def parse_base128_bytes st_bind_assoc_fun)

lemma oid_to_text_iff:
  assumes "malloc_sized malloc" and "\<forall>n. malloc n \<noteq> None" and "length cbs < 2 ^ 56"
  shows "CBS_asn1_oid_to_text malloc cbs = Some txt \<longleftrightarrow>
     (\<exists>a b cs. oid_ok a b \<and> cbs = oid_contents a b cs \<and> txt = dotted (a # b # cs) @ [0])"
  using oid_to_text_canonical oid_to_text_dotted [OF assms(1,2)] assms(3) by (metis option.inject)

lemma length_oid_contents_le: "length (oid_contents a b cs) \<le> 10 * Suc (length cs)"
proof -
  have "length (concat (map base128_bytes cs)) \<le> 10 * length cs"
  proof (induction cs)
    case (Cons c cs)
    then show ?case using length_base128_bytes [of c] by simp
  qed simp
  then show ?thesis using length_base128_bytes [of "40 * a + b"] by (simp add: oid_contents_def)
qed

lemma length_dotted_ge: "length vs \<le> length (dotted vs)"
proof (induction vs)
  case (Cons v vs)
  have "0 < length (decimal (unat v))" by (simp add: decimal_nonempty)
  with Cons show ?case unfolding dotted_Cons length_append by (cases vs) (simp_all add: Suc_leI)
qed simp

lemma oid_der_iff:
  assumes "malloc_sized malloc" and "\<forall>n. malloc n \<noteq> None" and "length text < 2 ^ 56"
  shows "oid_der malloc text = Some out \<longleftrightarrow>
     (\<exists>a b cs. oid_ok a b \<and> text = dotted (a # b # cs) \<and> out = oid_contents a b cs)"
proof -
  have good: "oid_der malloc text = Some (oid_contents a b cs)" if "oid_ok a b" "text = dotted (a # b # cs)" for a b cs
  proof -
    have "length (oid_contents a b cs) < 2 ^ 62"
      using length_oid_contents_le [of a b cs] length_dotted_ge [of "a # b # cs"] that assms(3) by simp
    moreover have "take (length text) text = dotted (a # b # cs)" using that by simp
    ultimately show ?thesis
      using write_op_finish [OF assms(1,2) _ _ writes_oid_from_text [OF assms(1) _ that(1)], of 0 cs "length text" "text"]
      by (auto simp: oid_der_def)
  qed
  have "\<exists>a b cs. oid_ok a b \<and> text = dotted (a # b # cs)" if run: "oid_der malloc text = Some out"
  proof -
    obtain w where "st_bind (CBB_init malloc 0) (\<lambda>_. st_bind (CBB_add_asn1_oid_from_text malloc 0 text (length text))
     (\<lambda>_. CBB_finish malloc 0)) zero_writer = (Some out, w)" using fst_eq_pair [OF run [unfolded oid_der_def]] by (elim exE)
    then obtain w1 w2 where "CBB_add_asn1_oid_from_text malloc 0 text (length text) w1 = (Some (), w2)"
      by (elim st_bindE) simp
    from oid_from_text_canonical [OF this] show ?thesis by simp
  qed
  with good show ?thesis by (metis option.inject)
qed

text \<open>C9. The textual form and the contents octets of object identifiers determine each other: encoding a
  text with \<open>CBB_add_asn1_oid_from_text\<close> succeeds with the octets \<open>out\<close> exactly when
  \<open>CBS_asn1_oid_to_text\<close> prints \<open>out\<close> as that NUL-terminated text.\<close>

theorem oid_text_roundtrip:
  assumes "malloc_sized malloc" and "\<forall>n. malloc n \<noteq> None" and "length text < 2 ^ 56" and "length out < 2 ^ 56"
  shows "oid_der malloc text = Some out \<longleftrightarrow> CBS_asn1_oid_to_text malloc out = Some (text @ [0])"
  unfolding oid_der_iff [OF assms(1,2,3)] oid_to_text_iff [OF assms(1,2,4)] by auto

theorem oid_text_roundtrip_witness:
  "oid_der zero_malloc [0x31, 0x2e, 0x32, 0x2e, 0x38, 0x34, 0x30] = Some [0x2a, 0x86, 0x48] \<and>
   CBS_asn1_oid_to_text zero_malloc [0x2a, 0x86, 0x48] = Some [0x31, 0x2e, 0x32, 0x2e, 0x38, 0x34, 0x30, 0]"
proof -
  have "parse_dotted_decimal [0x31, 0x2e, 0x32, 0x2e, 0x38, 0x34, 0x30] = (Some 1, [0x32, 0x2e, 0x38, 0x34, 0x30])"
    "parse_dotted_decimal [0x32, 0x2e, 0x38, 0x34, 0x30] = (Some 2, [0x38, 0x34, 0x30])"
    "parse_dotted_decimal [0x38, 0x34, 0x30] = (Some 840, [])" by code_simp+
  then have eq: "[0x31, 0x2e, 0x32, 0x2e, 0x38, 0x34, 0x30] = dotted [1, 2, 840]"
    by (simp add: parse_dotted_decimal_iff)
  have c: "oid_contents 1 2 [840] = [0x2a, 0x86, 0x48]" by code_simp
  have ok: "oid_ok 1 2" by code_simp
  have "oid_der zero_malloc [0x31, 0x2e, 0x32, 0x2e, 0x38, 0x34, 0x30] = Some [0x2a, 0x86, 0x48]"
  proof (subst oid_der_iff)
    show "\<exists>a b cs. oid_ok a b \<and> [0x31, 0x2e, 0x32, 0x2e, 0x38, 0x34, 0x30] = dotted (a # b # cs) \<and>
      [0x2a, 0x86, 0x48] = oid_contents a b cs"
      by (rule exI [of _ 1], rule exI [of _ 2], rule exI [of _ "[840]"]) (simp only: eq c ok)
  qed simp_all
  then show ?thesis
    using oid_text_roundtrip [of zero_malloc "[0x31, 0x2e, 0x32, 0x2e, 0x38, 0x34, 0x30]" "[0x2a, 0x86, 0x48]"] by simp
qed

lemma count_children_concat: "list_all is_der els \<Longrightarrow> count_children (concat els) = Some (length els)"
proof (induction els)
  case Nil
  then show ?case by (simp add: count_children.simps [of "[]"] CBS_len_def)
next
  case (Cons e els)
  then obtain t h where get: "CBS_get_any_asn1_element (concat (e # els)) = (Some (e, t, h), concat els)"
    using CBS_get_any_asn1_element_iff [of "e @ concat els" e "concat els"] by auto
  have "concat (e # els) \<noteq> []" using is_der_nonempty [of e] Cons.prems by simp
  with Cons get show ?case by (subst count_children.simps) (simp add: CBS_len_def)
qed

lemma length_children_concat: "list_all is_der els \<Longrightarrow> length els \<le> length (concat els)"
proof (induction els)
  case (Cons e els)
  then have "0 < length e" using is_der_nonempty by simp
  with Cons show ?case by (simp add: Suc_leI add_mono [of 1 "length e", simplified])
qed simp

lemma length_concat_mset: "mset xs = mset ys \<Longrightarrow> length (concat xs) = length (concat ys)"
  by (metis length_concat mset_map sum_mset_sum_list)

lemma set_of_total:
  assumes "malloc_sized malloc" and "qsort_contract qsort" and "refines w (concat els, [])" and "roomy_writer malloc w"
    and "list_all is_der els" and "length (concat els) < 2 ^ 59"
  shows "\<exists>w'. CBB_flush_asn1_set_of malloc qsort 0 w = (Some (), w') \<and> roomy_writer malloc w'"
proof -
  obtain x w1 where fl: "CBB_flush malloc 0 w = (x, w1)" by fastforce
  have ab: "aflush 0 (concat els, []) = (concat els, [])" "open_ok 0 (concat els, [])"
    by (simp_all add: aflush_def open_ok_def)
  have sm: "small (concat els, [])" using assms(6) by (simp add: small_def)
  have w1: "x = Some ()" "refines w1 (concat els, [])" "roomy_writer malloc w1"
    using writesD [OF writes_flush_open_ok [OF assms(1)] assms(3) _ fl] ab sm assms(4)
    by (auto simp: write_result_def split: if_splits)
  have mem: "\<forall>n. malloc n \<noteq> None" using assms(4) by (auto simp: roomy_writer_def roomy_def split: option.splits)
  note data = set_of_data [OF w1(2), of 0, simplified]
  note cnt = count_children_concat [OF assms(5)]
  have coll: "collect_children (length els) (concat els) = Some els"
    using collect_children_concat [OF assms(5), of "[]"] by simp
  show ?thesis
  proof (cases "length els < 2")
    case True
    with fl w1 data cnt show ?thesis by (simp add: CBB_flush_asn1_set_of_def CBS_init_def)
  next
    case False
    have n: "length els < 2 ^ 59" using length_children_concat [OF assms(5)] assms(6) by simp
    let ?w2 = "w1\<lparr>cw_base := map_option (\<lambda>b. b\<lparr>cb_len :=
           cbb_offset (cw_chain w1 ! 0) + cbb_pending_len_len (cw_chain w1 ! 0)\<rparr>) (cw_base w1)\<rparr>"
    let ?s = "qsort compare_set_of_element els"
    have q: "mset ?s = mset els" using assms(2) by (simp add: qsort_contract_def)
    obtain e es where s: "?s = e # es" using q False by (cases ?s) auto
    have len: "length (concat ?s) = length (concat els)"
      using q by (rule length_concat_mset)
    have "\<forall>c \<in> set ?s. length c \<le> length (concat ?s)" by (simp add: length_concat member_le_sum_list)
    then have bnd: "list_all (\<lambda>c. length c < 2 ^ 64) ?s" using len assms(6) by (auto simp: list_all_iff)
    have w2: "refines ?w2 ([], [])" "roomy_writer malloc ?w2" using data w1(3)
      by (auto simp: roomy_writer_def roomy_def split: option.splits)
    obtain y w3 where add: "add_children malloc 0 ?s ?w2 = (y, w3)" by fastforce
    have "aappend 0 (concat ?s) ([], []) = (concat ?s, [])" "open_ok 0 ([], [])" by (simp_all add: aappend_def open_ok_def)
    then have "write_result malloc ?w2 True (concat ?s, []) (y \<noteq> None) w3"
      using writesD [OF writes_children [OF assms(1), of e es 0] w2(1) _ add [unfolded s]] bnd s by simp
    moreover have "small (concat ?s, [])" using len assms(6) by (simp add: small_def)
    ultimately have y: "y = Some ()" "roomy_writer malloc w3" using w2 by (auto simp: write_result_def split: if_splits)
    obtain b c where dup: "OPENSSL_memdup malloc (concat els) = Some b" and alloc: "OPENSSL_malloc malloc (length els * sizeof_CBS) = Some c"
    proof -
      have "concat els \<noteq> []" using False length_children_concat [OF assms(5)] by (cases "concat els") (simp_all del: concat_eq_Nil_conv)
      then have "OPENSSL_memdup malloc (concat els) \<noteq> None"
        using OPENSSL_malloc_total [OF mem, of "length (concat els)"] assms(6) by (auto simp: OPENSSL_memdup_def)
      moreover have "OPENSSL_malloc malloc (length els * sizeof_CBS) \<noteq> None"
        using OPENSSL_malloc_total [OF mem] n by (simp add: sizeof_CBS_def)
      ultimately show ?thesis using that by blast
    qed
    have b: "b = concat els" by (rule OPENSSL_memdup_copy [OF assms(1) dup])
    have over: "\<not> length els > SIZE_MAX div sizeof_CBS" using n by (simp add: SIZE_MAX_def sizeof_CBS_def)
    have dat: "CBB_data 0 w1 = concat els" "CBB_len 0 w1 = length (concat els)" using data by simp_all
    show ?thesis
      using fl w1(1) y add dup alloc over False
      by (simp add: CBB_flush_asn1_set_of_def CBS_init_def dat cnt b coll)
  qed
qed

lemma c_memcmp_zero: "length xs = length ys \<Longrightarrow> c_memcmp xs ys = 0 \<Longrightarrow> xs = ys"
  by (induction xs ys rule: list_induct2) (auto split: if_splits)

lemma der_prefix_free:
  assumes "is_der a" and "is_der (a @ r)"
  shows "r = []"
proof -
  obtain t h t' h' where "CBS_get_any_asn1_element (a @ r) = (Some (a, t, h), r)"
    "CBS_get_any_asn1_element (a @ r) = (Some (a @ r, t', h'), [])"
    using assms CBS_get_any_asn1_element_iff [of "a @ r" a r] CBS_get_any_asn1_element_iff [of "a @ r" "a @ r" "[]"] by auto
  then show ?thesis by simp
qed

text \<open>The INTEGER with one octet of contents, for the examples.\<close>

lemma is_der_short: "is_der [2, 1, b]"
proof -
  have "der_tag 2 = [2]" "der_length 1 = [1]" by code_simp+
  then have "der_element 2 [b] = [2, 1, b]" by (simp add: der_element_def)
  then show ?thesis unfolding is_der_def by (intro exI [of _ 2] exI [of _ "[b]"]) simp
qed

text \<open>C10. \<open>CBB_flush_asn1_set_of\<close> brings the DER elements written into a buffer into the ascending order
  of their encodings, whatever \<open>qsort\<close> the C library has.\<close>

theorem set_of_canonical:
  assumes "malloc_sized malloc" and "\<forall>n. malloc n \<noteq> None" and "qsort_contract qsort"
    and "list_all is_der els" and "els \<noteq> []" and "length (concat els) < 2 ^ 59"
  shows "\<exists>w. st_bind (CBB_init malloc 0) (\<lambda>_. st_bind (add_children malloc 0 els) (\<lambda>_.
             st_bind (CBB_flush_asn1_set_of malloc qsort 0) (\<lambda>_. CBB_finish malloc 0))) zero_writer
           = (Some (concat (sort els)), w)"
proof -
  obtain x w where init: "CBB_init malloc 0 zero_writer = (x, w)" by fastforce
  have x: "x \<noteq> None" "roomy_writer malloc w" and w: "refines w ([], [])"
    using CBB_init_refines [OF assms(1) _ init] assms(2) by simp_all
  obtain e es where els: "els = e # es" using assms(5) by (cases els) auto
  obtain y w1 where add: "add_children malloc 0 els w = (y, w1)" by fastforce
  have "\<forall>c \<in> set els. length c \<le> length (concat els)" by (simp add: length_concat member_le_sum_list)
  then have bnd: "list_all (\<lambda>c. length c < 2 ^ 64) els" using assms(6) by (auto simp: list_all_iff)
  have "aappend 0 (concat els) ([], []) = (concat els, [])" "open_ok 0 ([], [])" "small (concat els, [])"
    using assms(6) by (simp_all add: aappend_def open_ok_def small_def)
  then have y: "y = Some ()" "refines w1 (concat els, [])" "roomy_writer malloc w1"
    using writesD [OF writes_children [OF assms(1), of e es 0] w _ add [unfolded els]] bnd els x
    by (auto simp: write_result_def split: if_splits)
  obtain w2 where so: "CBB_flush_asn1_set_of malloc qsort 0 w1 = (Some (), w2)" "roomy_writer malloc w2"
    using set_of_total [OF assms(1,3) y(2,3) assms(4,6)] by blast
  from set_of_sorted [OF assms(1,3) y(2) _ so(1)] obtain els1 els' where s: "concat els = concat els1"
    "list_all is_der els1" "mset els' = mset els1" "sorted els'" "refines w2 (concat els', [])"
    by (auto simp: aflush_def)
  have "els1 = els"
    using collect_children_concat [OF assms(4), of "[]"] collect_children_concat [OF s(2), of "[]"]
      count_children_concat [OF assms(4)] count_children_concat [OF s(2)] s(1) by simp
  then have "els' = sort els" using s(3,4) by (metis properties_for_sort)
  moreover have "length (concat (sort els)) = length (concat els)"
    by (rule length_concat_mset) simp
  ultimately obtain w3 where "CBB_finish malloc 0 w2 = (Some (concat (sort els)), w3)"
    using CBB_finish_result [OF assms(1) s(5)] so(2) assms(6)
    by (cases "CBB_finish malloc 0 w2") (auto split: option.splits)
  with init x add y so(1) show ?thesis by auto
qed

theorem set_of_canonical_witness:
  "\<exists>w. st_bind (CBB_init zero_malloc 0) (\<lambda>_. st_bind (add_children zero_malloc 0 [[2, 1, 5], [2, 1, 3]]) (\<lambda>_.
             st_bind (CBB_flush_asn1_set_of zero_malloc sort_by 0) (\<lambda>_. CBB_finish zero_malloc 0))) zero_writer
           = (Some [2, 1, 3, 2, 1, 5], w)"
proof -
  have "list_all is_der [[2, 1, 5], [2, 1, 3]]" by (simp add: is_der_short)
  then show ?thesis using set_of_canonical [OF _ _ sort_by_qsort, of zero_malloc "[[2, 1, 5], [2, 1, 3]]"] by simp
qed

text \<open>The comment in \<open>compare_set_of_element\<close> is right: no DER encoding is a proper prefix of another, so
  the result is that of \<open>memcmp\<close> on the common length and the length comparison after it is never needed.\<close>

theorem set_of_prefix_case_unreachable:
  assumes "is_der a" and "is_der b"
  shows "compare_set_of_element a b = c_memcmp (take (min (length a) (length b)) a) (take (min (length a) (length b)) b)"
proof -
  let ?m = "min (length a) (length b)"
  have "a = b" if "c_memcmp (take ?m a) (take ?m b) = 0"
  proof -
    have "take ?m a = take ?m b" using c_memcmp_zero [OF _ that] by simp
    then consider r where "b = a @ r" | r where "a = b @ r"
      by (metis append_take_drop_id min_def take_all_iff nat_le_linear)
    then show ?thesis using assms der_prefix_free by cases auto
  qed
  then show ?thesis by (auto simp: compare_set_of_element_def CBS_len_def min_def Let_def)
qed

theorem set_of_prefix_case_unreachable_witness:
  "compare_set_of_element [2, 1, 5] [2, 1, 3] = c_memcmp [2, 1, 5] [2, 1, 3]"
  using set_of_prefix_case_unreachable [OF is_der_short [of 5] is_der_short [of 3]] by simp

end
