(* ===== verification/Ber.thy ===== *)
theory Ber
  imports Oid
begin

text \<open>
  The conversion of BER to DER (crypto/bytestring/ber.c): the search for BER-only constructs, the
  conversion itself, which writes through a \<open>CBB\<close>, and the reader of implicitly tagged strings.
  The grammar \<open>ber_enc\<close> says which bytes encode which value; the conversion is related to it.
\<close>

definition kMaxDepth :: nat where
  "kMaxDepth = 2048"

definition CBS_ASN1_UTF8STRING :: u32 where "CBS_ASN1_UTF8STRING = 0xc"
definition CBS_ASN1_NUMERICSTRING :: u32 where "CBS_ASN1_NUMERICSTRING = 0x12"
definition CBS_ASN1_PRINTABLESTRING :: u32 where "CBS_ASN1_PRINTABLESTRING = 0x13"
definition CBS_ASN1_T61STRING :: u32 where "CBS_ASN1_T61STRING = 0x14"
definition CBS_ASN1_VIDEOTEXSTRING :: u32 where "CBS_ASN1_VIDEOTEXSTRING = 0x15"
definition CBS_ASN1_IA5STRING :: u32 where "CBS_ASN1_IA5STRING = 0x16"
definition CBS_ASN1_GRAPHICSTRING :: u32 where "CBS_ASN1_GRAPHICSTRING = 0x19"
definition CBS_ASN1_VISIBLESTRING :: u32 where "CBS_ASN1_VISIBLESTRING = 0x1a"
definition CBS_ASN1_GENERALSTRING :: u32 where "CBS_ASN1_GENERALSTRING = 0x1b"
definition CBS_ASN1_UNIVERSALSTRING :: u32 where "CBS_ASN1_UNIVERSALSTRING = 0x1c"
definition CBS_ASN1_BMPSTRING :: u32 where "CBS_ASN1_BMPSTRING = 0x1e"

definition is_string_type :: "u32 \<Rightarrow> bool" where
  "is_string_type tag \<longleftrightarrow>
     tag AND NOT CBS_ASN1_CONSTRUCTED \<in>
       {CBS_ASN1_OCTETSTRING, CBS_ASN1_UTF8STRING, CBS_ASN1_NUMERICSTRING, CBS_ASN1_PRINTABLESTRING,
        CBS_ASN1_T61STRING, CBS_ASN1_VIDEOTEXSTRING, CBS_ASN1_IA5STRING, CBS_ASN1_GRAPHICSTRING,
        CBS_ASN1_VISIBLESTRING, CBS_ASN1_GENERALSTRING, CBS_ASN1_UNIVERSALSTRING, CBS_ASN1_BMPSTRING}"


definition ber_length :: "nat \<Rightarrow> byte list \<Rightarrow> bool" where
  "ber_length n lb \<longleftrightarrow>
     n < 128 \<and> lb = [of_nat n] \<or>
     (\<exists>bs. 0 < length bs \<and> length bs \<le> 4 \<and> be_nat bs = n \<and> lb = (0x80 OR of_nat (length bs)) # bs)"

definition ber_header :: "u32 \<Rightarrow> byte list \<Rightarrow> byte list \<Rightarrow> bool \<Rightarrow> asn1_element" where
  "ber_header tag lb c found =
     \<lparr>el_out = der_tag tag @ lb @ c, el_tag = tag, el_header_len = length (der_tag tag) + length lb, el_ber_found = found\<rparr>"

lemma short_length_byte: "lb AND 0x80 = 0 \<Longrightarrow> unat lb < 128 \<and> of_nat (unat lb) = lb" for lb :: byte
  by (simp add: byte_high_bit_ge)

lemma be_nat_4: "length bs \<le> 4 \<Longrightarrow> be_nat bs < 2 ^ 32"
proof -
  assume "length bs \<le> 4"
  then have "(256 :: nat) ^ length bs \<le> 256 ^ 4" by (intro power_increasing) auto
  with be_nat_less [of bs] show ?thesis by simp
qed

lemma long_is_minimal:
  fixes bs :: "byte list"
  assumes "0 < length bs" and "length bs \<le> 4"
  shows "(of_nat (be_nat bs) :: u64) < 128 \<or> drop_bit ((length bs - 1) * 8) (of_nat (be_nat bs) :: u64) = 0 \<longleftrightarrow>
    der_length (be_nat bs) \<noteq> (0x80 OR of_nat (length bs)) # bs"
proof -
  have u: "unat (of_nat (be_nat bs) :: u64) = be_nat bs" using unat_of_nat_be_nat [of bs] assms(2) by simp
  have a: "(of_nat (be_nat bs) :: u64) < 128 \<longleftrightarrow> be_nat bs < 128" by (simp add: word_less_nat_alt u)
  have b: "drop_bit ((length bs - 1) * 8) (of_nat (be_nat bs) :: u64) = 0 \<longleftrightarrow> be_nat bs < 256 ^ (length bs - 1)"
    by (simp only: drop_bit_eq_0_unat u) (simp add: power_mult mult.commute [of _ 8])
  show ?thesis
  proof (cases "be_nat bs < 128 \<or> be_nat bs < 256 ^ (length bs - 1)")
    case True
    have "der_length (be_nat bs) \<noteq> (0x80 OR of_nat (length bs)) # bs"
    proof (cases "be_nat bs < 128")
      case True
      then show ?thesis using assms(1) by (auto simp: der_length_def)
    next
      case False
      with True have small: "be_nat bs < 256 ^ (length bs - 1)" by simp
      have "octets (be_nat bs) \<noteq> length bs"
      proof
        assume "octets (be_nat bs) = length bs"
        with octets_bounds [of "be_nat bs"] False small show False by simp
      qed
      then have "be_bytes (octets (be_nat bs)) (be_nat bs) \<noteq> bs" by (metis length_be_bytes)
      then show ?thesis using False by (simp add: der_length_def)
    qed
    with True a b show ?thesis by blast
  next
    case False
    then show ?thesis using der_length_long [OF assms(1) refl] a b by simp
  qed
qed

lemma get_ber_definite:
  assumes "ber_length (length c) lb"
  shows "cbs_get_any_asn1_element True (der_tag tag @ lb @ c @ rest) =
    (Some (ber_header tag lb c (lb \<noteq> der_length (length c))), rest)"
proof (cases "length c < 128 \<and> lb = [of_nat (length c)]")
  case True
  then show ?thesis
    by (simp add: cbs_get_any_asn1_element_def parse_der_tag CBS_len_def of_nat_small_byte CBS_get_bytes_apply st_bind_def
        unat_of_nat ber_header_def der_length_def)
next
  case False
  then obtain bs where bs: "0 < length bs" "length bs \<le> 4" "be_nat bs = length c" "lb = (0x80 OR of_nat (length bs)) # bs"
    using assms by (auto simp: ber_length_def)
  have n: "unat ((0x80 OR of_nat (length bs) :: byte) AND 0x7f) = length bs" using bs(2) by (intro len_byte_low) simp
  have tot: "unat (of_nat (be_nat bs) + of_nat (Suc (length (der_tag tag))) + of_nat (length bs) :: u64) =
     be_nat bs + Suc (length (der_tag tag)) + length bs"
    using be_nat_4 [OF bs(2)] bs(2) length_der_tag [of tag] by (simp add: unat_of_nat flip: of_nat_add del: of_nat_Suc)
  have over: "\<not> (of_nat (be_nat bs) + of_nat (Suc (length (der_tag tag))) + of_nat (length bs) :: u64) < of_nat (be_nat bs)"
    unfolding word_less_nat_alt tot using unat_of_nat_be_nat [of bs] bs(2) by simp
  show ?thesis
    using bs n tot over len_byte_high [of "of_nat (length bs)"] long_is_minimal [OF bs(1,2)]
    by (simp add: cbs_get_any_asn1_element_def parse_der_tag CBS_len_def cbs_get_u_apply CBS_get_bytes_apply st_bind_def
        ber_header_def Let_def eq_commute [of "der_length (length c)"])
qed

lemma get_ber_indefinite:
  assumes "tag AND CBS_ASN1_CONSTRUCTED \<noteq> 0"
  shows "cbs_get_any_asn1_element True (der_tag tag @ 0x80 # rest) = (Some (ber_header tag [0x80] [] True), rest)"
  using assms by (simp add: cbs_get_any_asn1_element_def parse_der_tag CBS_len_def CBS_get_bytes_apply st_bind_def ber_header_def Let_def)

lemma get_ber_cases:
  assumes "cbs_get_any_asn1_element True cbs = (Some e, rest)"
  obtains (definite) tag lb c where "ber_length (length c) lb" "cbs = der_tag tag @ lb @ c @ rest"
      "e = ber_header tag lb c (lb \<noteq> der_length (length c))"
  | (indefinite) tag where "tag AND CBS_ASN1_CONSTRUCTED \<noteq> 0" "cbs = der_tag tag @ 0x80 # rest"
      "e = ber_header tag [0x80] [] True"
proof -
  from assms obtain tag header1 where tag: "parse_asn1_tag cbs = (Some tag, header1)"
    by (auto simp: cbs_get_any_asn1_element_def split: prod.splits option.splits)
  with assms obtain lb header2 where h1: "header1 = lb # header2"
    by (cases header1) (auto simp: cbs_get_any_asn1_element_def)
  have cbs: "cbs = der_tag tag @ lb # header2"
    using parse_asn1_tag_canonical [OF tag] h1 by simp
  show thesis
  proof (cases "lb AND 0x80 = 0")
    case True
    then have lb: "unat lb < 128" "of_nat (unat lb) = lb" using short_length_byte by simp_all
    with assms tag h1 True cbs have len: "unat lb \<le> length header2"
      by (auto simp: cbs_get_any_asn1_element_def CBS_len_def st_bind_def CBS_get_bytes_apply split: if_splits)
    let ?c = "take (unat lb) header2"
    have ber: "ber_length (length ?c) [lb]" using lb len by (simp add: ber_length_def)
    from get_ber_definite [OF ber, of tag "drop (unat lb) header2"] assms cbs show thesis
      by (intro definite [OF ber]) auto
  next
    case False
    define n where "n = unat (lb AND 0x7f)"
    have lb: "lb = 0x80 OR of_nat n" using len_byte_recompose [OF False] by (simp add: n_def)
    show thesis
    proof (cases "n = 0 \<and> tag AND CBS_ASN1_CONSTRUCTED \<noteq> 0")
      case True
      then have "lb = 0x80" using lb by simp
      with get_ber_indefinite [of tag header2] True assms cbs show thesis by (intro indefinite [of tag]) auto
    next
      case ind: False
      define L where "L = be_nat (take n header2)"
      have big: "n \<le> 4 \<Longrightarrow> n \<le> length header2 \<Longrightarrow>
        unat (of_nat L + of_nat (Suc (length (der_tag tag))) + of_nat n :: u64) = L + Suc (length (der_tag tag)) + n"
        using be_nat_4 [of "take n header2"] length_der_tag [of tag]
        by (simp add: L_def unat_of_nat flip: of_nat_add del: of_nat_Suc)
      from assms tag h1 False ind have n: "0 < n" "n \<le> 4" "n \<le> length header2"
        by (auto simp: cbs_get_any_asn1_element_def CBS_len_def n_def [symmetric] cbs_get_u_apply cbs Let_def
            split: if_splits prod.splits option.splits)
      from assms tag h1 False ind n big have len: "L + n \<le> length header2"
        by (auto simp: cbs_get_any_asn1_element_def CBS_len_def n_def [symmetric] L_def cbs_get_u_apply cbs st_bind_eq_Some Let_def
          CBS_get_bytes_apply split: if_splits prod.splits option.splits)
      let ?c = "take L (drop n header2)"
      have ber: "ber_length (length ?c) (lb # take n header2)"
        using n len lb by (auto simp: ber_length_def L_def)
      have split: "header2 = take n header2 @ ?c @ drop (n + L) header2"
        by (metis add.commute append_take_drop_id drop_drop)
      from get_ber_definite [OF ber, of tag "drop (n + L) header2"] assms cbs split show thesis
        by (intro definite [OF ber]) auto
    qed
  qed
qed

lemma get_ber_shorter:
  assumes "cbs_get_any_asn1_element True cbs = (Some el, rest)"
  shows "cbs = el_out el @ rest" and "length (drop (el_header_len el) (el_out el)) < length cbs"
    and "length rest < length cbs"
  using assms length_der_tag [of "el_tag el"] by (auto elim!: get_ber_cases simp: ber_header_def)

lemma get_ber_sizes:
  "(Some el, rest) = CBS_get_any_ber_asn1_element cbs \<Longrightarrow>
     length rest < length cbs \<and> length (el_out el) - el_header_len el < length cbs"
  using get_ber_shorter(2,3) [of cbs el rest] by (simp add: CBS_get_any_ber_asn1_element_def)

function cbs_find_ber :: "nat \<Rightarrow> cbs \<Rightarrow> bool option"
  and find_ber_loop :: "nat \<Rightarrow> bool \<Rightarrow> cbs \<Rightarrow> bool option" where
  "cbs_find_ber level orig_in = (if level > kMaxDepth then None else find_ber_loop level False orig_in)"
| "find_ber_loop level ber_found inp =
     (if CBS_len inp > 0 then
        (case CBS_get_any_ber_asn1_element inp of
           (None, _) \<Rightarrow> None
         | (Some el, inp') \<Rightarrow>
             if el_ber_found el then Some True
             else if el_tag el AND CBS_ASN1_CONSTRUCTED \<noteq> 0 then
               if is_string_type (el_tag el) then Some True
               else (case CBS_skip (el_header_len el) (el_out el) of
                       (None, _) \<Rightarrow> None
                     | (Some _, body) \<Rightarrow>
                         (case cbs_find_ber (level + 1) body of
                            None \<Rightarrow> None
                          | Some ber_found' \<Rightarrow> find_ber_loop level ber_found' inp'))
             else find_ber_loop level (el_ber_found el) inp')
      else Some ber_found)"
  by pat_completeness auto
termination
  by (relation "measure (case_sum (\<lambda>(d, cbs). Suc (2 * length cbs)) (\<lambda>(d, f, cbs). 2 * length cbs))")
    (auto simp: CBS_skip_apply CBS_len_def split: if_splits dest!: get_ber_sizes)

definition is_eoc :: "nat \<Rightarrow> cbs \<Rightarrow> bool" where
  "is_eoc header_len c \<longleftrightarrow> header_len = 2 \<and> CBS_len c = 2 \<and> c_memcmp c [0, 0] = 0"

text \<open>
  The choice of \<open>out_contents\<close> and \<open>child_string_tag\<close>: the result is the depth of the \<open>CBB\<close> that
  takes the contents of the element and the tag that its children have to match.
\<close>

definition convert_ber_open :: "allocator \<Rightarrow> nat \<Rightarrow> u32 \<Rightarrow> u32 \<Rightarrow> (cbb_writer, nat \<times> u32) stm" where
  "convert_ber_open malloc k string_tag tag =
     (if string_tag \<noteq> 0 then
        if tag AND NOT CBS_ASN1_CONSTRUCTED \<noteq> string_tag then st_fail
        else st_return (k, string_tag)
      else
        let strng = tag AND CBS_ASN1_CONSTRUCTED \<noteq> 0 \<and> is_string_type tag;
            out_tag = (if strng then tag AND NOT CBS_ASN1_CONSTRUCTED else tag);
            child_string_tag = (if strng then out_tag else string_tag)
        in st_bind (CBB_add_asn1 malloc k out_tag) (\<lambda>_. st_return (k + 1, child_string_tag)))"

definition is_indefinite :: "asn1_element \<Rightarrow> bool" where
  "is_indefinite el \<longleftrightarrow>
     CBS_len (el_out el) = el_header_len el \<and> el_header_len el > 0 \<and> el_out el ! (el_header_len el - 1) = 0x80"

text \<open>
  \<open>cbs_convert_ber\<close> and its loop; the state is the input and the writer. The nested calls on the
  contents of a definite-length element work on a copy of the input.
\<close>

function cbs_convert_ber :: "allocator \<Rightarrow> nat \<Rightarrow> u32 \<Rightarrow> bool \<Rightarrow> nat \<Rightarrow> (cbs \<times> cbb_writer, unit) stm"
  and convert_ber_loop :: "allocator \<Rightarrow> nat \<Rightarrow> u32 \<Rightarrow> bool \<Rightarrow> nat \<Rightarrow> (cbs \<times> cbb_writer, unit) stm" where
  "cbs_convert_ber malloc k string_tag looking_for_eoc level (inp, w) =
     (if level > kMaxDepth then (None, (inp, w))
      else convert_ber_loop malloc k string_tag looking_for_eoc level (inp, w))"
| "convert_ber_loop malloc k string_tag looking_for_eoc level (inp, w) =
     (if CBS_len inp > 0 then
        (case CBS_get_any_ber_asn1_element inp of
           (None, inp1) \<Rightarrow> (None, (inp1, w))
         | (Some el, inp1) \<Rightarrow>
             if is_eoc (el_header_len el) (el_out el) then
               (if looking_for_eoc then Some () else None, (inp1, w))
             else
               (case convert_ber_open malloc k string_tag (el_tag el) w of
                  (None, w1) \<Rightarrow> (None, (inp1, w1))
                | (Some (k', child_string_tag), w1) \<Rightarrow>
                    if is_indefinite el then
                      (case cbs_convert_ber malloc k' child_string_tag True (level + 1) (inp1, w1) of
                         (None, s) \<Rightarrow> (None, s)
                       | (Some _, (inp2, w2)) \<Rightarrow>
                           (case CBB_flush malloc k w2 of
                              (None, w3) \<Rightarrow> (None, (inp2, w3))
                            | (Some _, w3) \<Rightarrow>
                                convert_ber_loop malloc k string_tag looking_for_eoc level (inp2, w3)))
                    else
                      (case CBS_skip (el_header_len el) (el_out el) of
                         (None, _) \<Rightarrow> (None, (inp1, w1))
                       | (Some _, body) \<Rightarrow>
                           (case (if el_tag el AND CBS_ASN1_CONSTRUCTED \<noteq> 0
                                  then map_prod id snd (cbs_convert_ber malloc k' child_string_tag False (level + 1) (body, w1))
                                  else CBB_add_bytes malloc k' body w1) of
                              (None, w2) \<Rightarrow> (None, (inp1, w2))
                            | (Some _, w2) \<Rightarrow>
                                (case CBB_flush malloc k w2 of
                                   (None, w3) \<Rightarrow> (None, (inp1, w3))
                                 | (Some _, w3) \<Rightarrow>
                                     convert_ber_loop malloc k string_tag looking_for_eoc level (inp1, w3))))))
      else (if looking_for_eoc then None else Some (), (inp, w)))"
  by pat_completeness auto

lemma convert_ber_shrinks:
  "cbs_convert_ber_convert_ber_loop_dom (Inl (malloc, k, st, eoc, l, inp, w)) \<Longrightarrow>
     length (fst (snd (cbs_convert_ber malloc k st eoc l (inp, w)))) \<le> length inp"
  "cbs_convert_ber_convert_ber_loop_dom (Inr (malloc, k, st, eoc, l, inp, w)) \<Longrightarrow>
     length (fst (snd (convert_ber_loop malloc k st eoc l (inp, w)))) \<le> length inp"
proof (induction malloc k st eoc l "(inp, w)" and malloc k st eoc l "(inp, w)" arbitrary: inp w and inp w
    rule: cbs_convert_ber_convert_ber_loop.pinduct)
  case (1 malloc k string_tag looking_for_eoc level inp w)
  then show ?case by (simp add: cbs_convert_ber.psimps)
next
  case (2 malloc k string_tag looking_for_eoc level inp w)
  show ?case
  proof (cases "CBS_len inp > 0")
    case pos: True
    obtain r inp1 where get: "CBS_get_any_ber_asn1_element inp = (r, inp1)" by fastforce
    show ?thesis
    proof (cases r)
      case None
      then show ?thesis using get pos 2(1) by (auto simp: convert_ber_loop.psimps CBS_get_any_ber_asn1_element_def cbs_get_any_asn1_element_def st_bind_def CBS_get_bytes_apply Let_def split: prod.splits option.splits if_splits)
    next
      case (Some el)
      have len: "length inp1 < length inp" using get_ber_sizes [of el inp1 inp] get Some by simp
      note [simp] = convert_ber_loop.psimps [OF 2(1)] pos get Some
      show ?thesis
      proof (cases "is_eoc (el_header_len el) (el_out el)")
        case True
        then show ?thesis using len by simp
      next
        case eoc: False
        obtain o1 w1 where opn: "convert_ber_open malloc k string_tag (el_tag el) w = (o1, w1)" by fastforce
        show ?thesis
        proof (cases o1)
          case None
          then show ?thesis using len eoc opn by simp
        next
          case o1: (Some p)
          obtain k' c where p: "p = (k', c)" by fastforce
          note IH = 2(2-) [OF pos get [symmetric] Some eoc opn [symmetric] o1 p [symmetric]]
          show ?thesis
          proof (cases "is_indefinite el")
            case True
            obtain r2 inp2 w2 where rec: "cbs_convert_ber malloc k' c True (level + 1) (inp1, w1) = (r2, (inp2, w2))"
              by (metis prod_cases3)
            obtain r3 w3 where fl: "CBB_flush malloc k w2 = (r3, w3)" by fastforce
            have inp2: "length inp2 \<le> length inp1" using IH(1) [OF True] rec by simp
            have "r2 = Some () \<Longrightarrow> r3 = Some () \<Longrightarrow>
              length (fst (snd (convert_ber_loop malloc k string_tag looking_for_eoc level (inp2, w3)))) \<le> length inp2"
              using IH(2) [OF True rec [symmetric] _ refl fl [symmetric]] by simp
            then show ?thesis using True len eoc opn o1 p rec fl inp2 by (cases r2; cases r3) auto
          next
            case False
            obtain r2 body where sk: "CBS_skip (el_header_len el) (el_out el) = (r2, body)" by fastforce
            obtain r3 w2 where bd: "(if el_tag el AND CBS_ASN1_CONSTRUCTED \<noteq> 0
                then map_prod id snd (cbs_convert_ber malloc k' c False (level + 1) (body, w1))
                else CBB_add_bytes malloc k' body w1) = (r3, w2)" by fastforce
            obtain r4 w3 where fl: "CBB_flush malloc k w2 = (r4, w3)" by fastforce
            have "r2 = Some () \<Longrightarrow> r3 = Some () \<Longrightarrow> r4 = Some () \<Longrightarrow>
              length (fst (snd (convert_ber_loop malloc k string_tag looking_for_eoc level (inp1, w3)))) \<le> length inp1"
              using IH(4) [OF False sk [symmetric] _ bd [symmetric] _ fl [symmetric]] by simp
            then show ?thesis using False len eoc opn o1 p sk bd fl by (cases r2; cases r3; cases r4) auto
          qed
        qed
      qed
    qed
  next
    case False
    then show ?thesis by (simp add: convert_ber_loop.psimps [OF 2(1)])
  qed
qed

termination cbs_convert_ber
proof (relation "measure (case_sum (\<lambda>(malloc, k, s, e, l, inp, w). Suc (2 * length inp)) (\<lambda>(malloc, k, s, e, l, inp, w). 2 * length inp))", goal_cases)
  case (4 malloc k st eoc l inp w x y el xa ya p k' c xc yc u inp2 w2 r w3 v)
  have "length inp2 \<le> length y" using convert_ber_shrinks(1) [OF 4(14)] 4 by (metis fst_conv snd_conv)
  then show ?case using get_ber_sizes [of el y inp] 4 by simp
qed (auto simp: CBS_skip_apply CBS_len_def split: if_splits dest!: get_ber_sizes)

definition CBS_asn1_ber_to_der :: "allocator \<Rightarrow> (cbs, cbs \<times> byte list option) stm" where
  "CBS_asn1_ber_to_der malloc inp =
     (case cbs_find_ber 0 inp of
        None \<Rightarrow> (None, inp)
      | Some conversion_needed \<Rightarrow>
          if \<not> conversion_needed then
            st_bind CBS_get_any_asn1_element (\<lambda>(out, _, _). st_return (out, None)) inp
          else
            (case CBB_init malloc (CBS_len inp) zero_writer of
               (None, _) \<Rightarrow> (None, inp)
             | (Some _, w) \<Rightarrow>
                 (case cbs_convert_ber malloc 0 0 False 0 (inp, w) of
                    (None, (inp1, _)) \<Rightarrow> (None, inp1)
                  | (Some _, (inp1, w1)) \<Rightarrow>
                      (case CBB_finish malloc 0 w1 of
                         (None, _) \<Rightarrow> (None, inp1)
                       | (Some storage, _) \<Rightarrow>
                           (Some (CBS_init storage (length storage), Some storage), inp1)))))"

function implicit_string_loop :: "allocator \<Rightarrow> u32 \<Rightarrow> cbs \<Rightarrow> (cbb_writer, unit) stm" where
  "implicit_string_loop malloc inner_tag child =
     (if CBS_len child > 0 then
        (case CBS_get_asn1 inner_tag child of
           (None, _) \<Rightarrow> st_fail
         | (Some chunk, child') \<Rightarrow>
             st_bind (CBB_add_bytes malloc 0 chunk) (\<lambda>_. implicit_string_loop malloc inner_tag child'))
      else st_return ())"
  by pat_completeness auto
termination
proof (relation "measure (\<lambda>(malloc, inner_tag, child). length child)")
  fix malloc :: allocator and inner_tag child x y chunk
  assume "(x, y) = CBS_get_asn1 inner_tag child" and "x = Some chunk"
  then have "child = der_element inner_tag chunk @ y" using CBS_get_asn1_canonical by metis
  then show "((malloc, inner_tag, y), malloc, inner_tag, child) \<in> measure (\<lambda>(malloc, inner_tag, child). length child)"
    using length_der_tag [of inner_tag] by (simp add: der_element_def)
qed simp

definition CBS_get_asn1_implicit_string :: "allocator \<Rightarrow> u32 \<Rightarrow> u32 \<Rightarrow> (cbs, cbs \<times> byte list option) stm" where
  "CBS_get_asn1_implicit_string malloc outer_tag inner_tag inp =
     (if CBS_peek_asn1_tag inp outer_tag then
        st_bind (CBS_get_asn1 outer_tag) (\<lambda>out. st_return (out, None)) inp
      else
        (case CBB_init malloc (CBS_len inp) zero_writer of
           (None, _) \<Rightarrow> (None, inp)
         | (Some _, w) \<Rightarrow>
             (case CBS_get_asn1 (outer_tag OR CBS_ASN1_CONSTRUCTED) inp of
                (None, inp1) \<Rightarrow> (None, inp1)
              | (Some child, inp1) \<Rightarrow>
                  (case st_bind (implicit_string_loop malloc inner_tag child) (\<lambda>_. CBB_finish malloc 0) w of
                     (None, _) \<Rightarrow> (None, inp1)
                   | (Some data, _) \<Rightarrow> (Some (CBS_init data (length data), Some data), inp1)))))"

text \<open>BER values: what an encoding stands for, whatever length forms it uses.\<close>

datatype ber = BPrim u32 "byte list" | BConstr u32 "ber list"

abbreviation constructed :: "u32 \<Rightarrow> bool" where
  "constructed tag \<equiv> tag AND CBS_ASN1_CONSTRUCTED \<noteq> 0"

text \<open>\<open>ber_enc n t bs\<close>: the bytes \<open>bs\<close> encode \<open>t\<close>, which is nested at most \<open>n\<close> deep.\<close>

inductive ber_enc :: "nat \<Rightarrow> ber \<Rightarrow> byte list \<Rightarrow> bool"
  and ber_encs :: "nat \<Rightarrow> ber list \<Rightarrow> byte list \<Rightarrow> bool" where
  prim: "\<not> constructed tag \<Longrightarrow> ber_length (length c) lb \<Longrightarrow> der_tag tag @ lb @ c \<noteq> [0, 0] \<Longrightarrow>
     ber_enc n (BPrim tag c) (der_tag tag @ lb @ c)"
| definite: "constructed tag \<Longrightarrow> ber_length (length c) lb \<Longrightarrow> ber_encs n ts c \<Longrightarrow>
     ber_enc (Suc n) (BConstr tag ts) (der_tag tag @ lb @ c)"
| indefinite: "constructed tag \<Longrightarrow> ber_encs n ts c \<Longrightarrow>
     ber_enc (Suc n) (BConstr tag ts) (der_tag tag @ [0x80] @ c @ [0, 0])"
| nil: "ber_encs n [] []"
| cons: "ber_enc n t bs \<Longrightarrow> ber_encs n ts cs \<Longrightarrow> ber_encs n (t # ts) (bs @ cs)"

text \<open>The fragments of a constructed string, and the DER encoding of a value.\<close>

fun str_ok :: "u32 \<Rightarrow> ber \<Rightarrow> bool" where
  "str_ok s (BPrim tag c) \<longleftrightarrow> tag = s"
| "str_ok s (BConstr tag ts) \<longleftrightarrow> tag AND NOT CBS_ASN1_CONSTRUCTED = s \<and> list_all (str_ok s) ts"

fun str_contents :: "ber \<Rightarrow> byte list" where
  "str_contents (BPrim tag c) = c"
| "str_contents (BConstr tag ts) = concat (map str_contents ts)"

fun to_der :: "ber \<Rightarrow> byte list" where
  "to_der (BPrim tag c) = der_element tag c"
| "to_der (BConstr tag ts) =
     (if is_string_type tag
      then der_element (tag AND NOT CBS_ASN1_CONSTRUCTED) (concat (map str_contents ts))
      else der_element tag (concat (map to_der ts)))"

fun der_ok :: "ber \<Rightarrow> bool" where
  "der_ok (BPrim tag c) \<longleftrightarrow> length c \<le> 0xfffffffe"
| "der_ok (BConstr tag ts) \<longleftrightarrow>
     (if is_string_type tag
      then list_all (str_ok (tag AND NOT CBS_ASN1_CONSTRUCTED)) ts \<and> length (concat (map str_contents ts)) \<le> 0xfffffffe
      else list_all der_ok ts \<and> length (concat (map to_der ts)) \<le> 0xfffffffe)"

definition child_tag :: "u32 \<Rightarrow> u32 \<Rightarrow> u32" where
  "child_tag s tag = (if s \<noteq> 0 then s else if constructed tag \<and> is_string_type tag then tag AND NOT CBS_ASN1_CONSTRUCTED else 0)"

definition out_tag :: "u32 \<Rightarrow> u32" where
  "out_tag tag = (if constructed tag \<and> is_string_type tag then tag AND NOT CBS_ASN1_CONSTRUCTED else tag)"

definition wrap :: "u32 \<Rightarrow> u32 \<Rightarrow> byte list \<Rightarrow> byte list" where
  "wrap s tag b = (if s \<noteq> 0 then b else der_element (out_tag tag) b)"

definition conv :: "u32 \<Rightarrow> ber \<Rightarrow> byte list" where
  "conv s t = (if s \<noteq> 0 then str_contents t else to_der t)"

definition conv_ok :: "u32 \<Rightarrow> ber \<Rightarrow> bool" where
  "conv_ok s t \<longleftrightarrow> (if s \<noteq> 0 then str_ok s t else der_ok t)"

declare cbs_convert_ber.simps [simp del] convert_ber_loop.simps [simp del] cbs_find_ber.simps [simp del]
  find_ber_loop.simps [simp del] implicit_string_loop.simps [simp del]

lemma is_string_type_tag: "is_string_type tag \<Longrightarrow> tag AND NOT CBS_ASN1_CONSTRUCTED \<noteq> 0"
  by (auto simp: is_string_type_def CBS_ASN1_OCTETSTRING_def CBS_ASN1_UTF8STRING_def CBS_ASN1_NUMERICSTRING_def
      CBS_ASN1_PRINTABLESTRING_def CBS_ASN1_T61STRING_def CBS_ASN1_VIDEOTEXSTRING_def CBS_ASN1_IA5STRING_def
      CBS_ASN1_GRAPHICSTRING_def CBS_ASN1_VISIBLESTRING_def CBS_ASN1_GENERALSTRING_def CBS_ASN1_UNIVERSALSTRING_def
      CBS_ASN1_BMPSTRING_def)

lemma primitive_tag: "\<not> constructed tag \<Longrightarrow> tag AND NOT CBS_ASN1_CONSTRUCTED = tag"
proof -
  assume "\<not> constructed tag"
  then have "tag AND CBS_ASN1_CONSTRUCTED = 0" by simp
  then have "(tag AND CBS_ASN1_CONSTRUCTED) OR (tag AND NOT CBS_ASN1_CONSTRUCTED) = tag AND NOT CBS_ASN1_CONSTRUCTED" by simp
  moreover have "(tag AND CBS_ASN1_CONSTRUCTED) OR (tag AND NOT CBS_ASN1_CONSTRUCTED) = tag"
    by (rule bit_word_eqI) (auto simp: bit_simps)
  ultimately show ?thesis by simp
qed

lemma convert_open_result:
  assumes "malloc_sized malloc" and "refines w st" and "depth st = k"
    and "convert_ber_open malloc k s tag w = (Some (k', c), w1)"
  shows "\<exists>st1. refines w1 st1 \<and> depth st1 = k' \<and> c = child_tag s tag \<and> (s \<noteq> 0 \<longrightarrow> tag AND NOT CBS_ASN1_CONSTRUCTED = s) \<and>
    (\<forall>b. aflush k (aappend k' b st1) = aappend k (wrap s tag b) st \<and> k \<le> depth (aappend k' b st1) \<and>
         (s = 0 \<longrightarrow> open_ok k (aappend k' b st1) \<longrightarrow> length b \<le> 0xfffffffe))"
proof (cases "s \<noteq> 0")
  case True
  have flush: "aflush k (aappend k b st) = aappend k b st" for b
    using assms(3) by (simp add: aflush_def aappend_def at_depth_comp comp_def split_def)
  show ?thesis
    using True assms flush by (intro exI [of _ st]) (auto simp: convert_ber_open_def child_tag_def wrap_def split: if_splits)
next
  case False
  let ?t = "der_tag (out_tag tag)"
  have add: "CBB_add_asn1 malloc k (out_tag tag) w = (Some (), w1)" and k': "k' = Suc k" "c = child_tag s tag"
    using assms(4) False
    by (auto simp: convert_ber_open_def Let_def st_bind_eq_Some out_tag_def child_tag_def split: if_splits)
  have "refines w1 (aopen k ?t Asn1_prefix st)"
    using writesD [OF writes_add_asn1 [OF assms(1)] assms(2) _ add] assms(3) by (simp add: write_result_def)
  then show ?thesis
    using False k' assms(3) by (intro exI [of _ "aopen k ?t Asn1_prefix st"]) (simp add: aflush_child open_ok_child wrap_def der_element_def)
qed

lemma conv_prim: "\<not> constructed tag \<Longrightarrow> (s = 0 \<longrightarrow> length c \<le> 0xfffffffe) \<Longrightarrow> (s \<noteq> 0 \<longrightarrow> tag AND NOT CBS_ASN1_CONSTRUCTED = s) \<Longrightarrow>
    conv_ok s (BPrim tag c) \<and> wrap s tag c = conv s (BPrim tag c)"
  by (auto simp: conv_ok_def conv_def wrap_def out_tag_def primitive_tag)

lemma conv_constr:
  assumes "constructed tag" and "s \<noteq> 0 \<longrightarrow> tag AND NOT CBS_ASN1_CONSTRUCTED = s" and "list_all (conv_ok (child_tag s tag)) ts"
    and "s = 0 \<longrightarrow> length (concat (map (conv (child_tag s tag)) ts)) \<le> 0xfffffffe"
  shows "conv_ok s (BConstr tag ts) \<and> wrap s tag (concat (map (conv (child_tag s tag)) ts)) = conv s (BConstr tag ts)"
proof (cases "s = 0")
  case False
  then show ?thesis using assms by (simp add: conv_ok_def [abs_def] conv_def [abs_def] wrap_def child_tag_def)
next
  case True
  then show ?thesis
    using assms(1,3,4) is_string_type_tag [of tag]
    by (cases "is_string_type tag") (simp_all add: conv_ok_def [abs_def] conv_def [abs_def] wrap_def child_tag_def out_tag_def)
qed

lemma is_indefinite_header:
  "is_indefinite (ber_header tag [0x80] [] f)"
  "ber_length (length c) lb \<Longrightarrow> \<not> is_indefinite (ber_header tag lb c f)"
proof -
  show "is_indefinite (ber_header tag [0x80] [] f)" by (simp add: is_indefinite_def ber_header_def CBS_len_def nth_append)
  assume lb: "ber_length (length c) lb"
  show "\<not> is_indefinite (ber_header tag lb c f)"
  proof
    assume ind: "is_indefinite (ber_header tag lb c f)"
    then have c: "c = []" by (simp add: is_indefinite_def ber_header_def CBS_len_def)
    have ne: "lb \<noteq> []" using lb by (auto simp: ber_length_def)
    then have "(der_tag tag @ lb) ! (length (der_tag tag) + length lb - 1) = last lb"
      by (metis Nil_is_append_conv last_appendR last_conv_nth length_append)
    then have last: "last lb = 0x80" using ind c by (simp add: is_indefinite_def ber_header_def)
    have "last lb = 0"
      using lb c
    proof (auto simp: ber_length_def)
      fix bs :: "byte list"
      assume "bs \<noteq> []" "be_nat bs = 0"
      then show "last bs = 0" by (cases bs rule: rev_cases) (simp_all add: unat_eq_0)
    qed
    with last show False by simp
  qed
qed

lemma is_eoc_iff: "is_eoc (el_header_len (ber_header tag lb c f)) (el_out (ber_header tag lb c f)) \<longleftrightarrow>
    der_tag tag @ lb @ c = [0, 0] \<and> length (der_tag tag) + length lb = 2"
proof -
  have "der_tag tag @ lb @ c = [0, 0] \<longleftrightarrow> length (der_tag tag @ lb @ c) = 2 \<and> c_memcmp (der_tag tag @ lb @ c) [0, 0] = 0"
  proof
    assume "der_tag tag @ lb @ c = [0, 0]"
    then show "length (der_tag tag @ lb @ c) = 2 \<and> c_memcmp (der_tag tag @ lb @ c) [0, 0] = 0" by (simp only:) simp
  qed (use c_memcmp_zero [of "der_tag tag @ lb @ c" "[0, 0]"] in auto)
  then show ?thesis by (auto simp: is_eoc_def ber_header_def CBS_len_def)
qed

lemma eoc_definite:
  assumes "ber_length (length c) lb"
  shows "is_eoc (el_header_len (ber_header tag lb c f)) (el_out (ber_header tag lb c f)) \<longleftrightarrow> der_tag tag @ lb @ c = [0, 0]"
proof -
  have "0 < length lb" using assms by (auto simp: ber_length_def)
  moreover have "0 < length (der_tag tag)" using length_der_tag [of tag] by simp
  ultimately have "length (der_tag tag) + length lb = 2" if "der_tag tag @ lb @ c = [0, 0]"
    using arg_cong [OF that, of length] unfolding length_append list.size by linarith
  then show ?thesis unfolding is_eoc_iff by blast
qed

lemma eoc_input:
  assumes "cbs_get_any_asn1_element True inp = (Some el, inp1)" and "is_eoc (el_header_len el) (el_out el)"
  shows "inp = [0, 0] @ inp1"
  using assms(1)
proof (cases rule: get_ber_cases)
  case (definite tag lb c)
  then have "der_tag tag @ lb @ c = [0, 0]" using assms(2) eoc_definite by blast
  then have "(der_tag tag @ lb @ c) @ inp1 = [0, 0] @ inp1" by (rule arg_cong)
  then show ?thesis using definite(2) by simp
next
  case (indefinite tag)
  then show ?thesis using assms(2) is_eoc_iff [of tag "[0x80]" "[]" True] by (auto simp: append_eq_Cons_conv)
qed

lemma flush_refines:
  "malloc_sized malloc \<Longrightarrow> refines w st \<Longrightarrow> k \<le> depth st \<Longrightarrow> CBB_flush malloc k w = (Some u, w') \<Longrightarrow>
     refines w' (aflush k st) \<and> open_ok k st"
  using writesD [OF writes_flush_open_ok] by (fastforce simp: write_result_def)

lemma bytes_refines:
  assumes "malloc_sized malloc" and "length bs < 2 ^ 64" and "refines w st" and "depth st = k" and "CBB_add_bytes malloc k bs w = (Some u, w')"
  shows "refines w' (aappend k bs st)"
  using writesD [OF writes_add_bytes [OF assms(1,2)] assms(3) _ assms(5)] assms(4) by (simp add: write_result_def)

text \<open>
  What a successful call has done: it read the encodings of a list of values, up to the end of the
  input or up to an end-of-contents marker, and appended their conversions.
\<close>

definition converted :: "nat \<Rightarrow> u32 \<Rightarrow> bool \<Rightarrow> nat \<Rightarrow> cbs \<Rightarrow> awriter \<Rightarrow> cbs \<Rightarrow> cbb_writer \<Rightarrow> bool" where
  "converted k s eoc n inp st inp' w' \<longleftrightarrow>
     (\<exists>ts bs. ber_encs n ts bs \<and> list_all (conv_ok s) ts \<and>
        (if eoc then inp = bs @ [0, 0] @ inp' else inp = bs \<and> inp' = []) \<and>
        refines w' (aappend k (concat (map (conv s) ts)) st))"

lemma at_depth_id: "at_depth k (\<lambda>s. s) st = st"
  by (induction k "\<lambda>s :: awriter. s" st rule: at_depth.induct) simp_all

lemma aappend_nil: "depth st = k \<Longrightarrow> aappend k [] st = st"
proof -
  assume "depth st = k"
  then obtain r where "sub_at k st = (r, [])" using sub_at_depth_leaf by blast
  then have "aappend k [] st = at_depth k (\<lambda>s. s) st" unfolding aappend_def by (intro at_depth_cong) simp
  then show ?thesis by (simp add: at_depth_id)
qed

lemma converted_nil: "refines w st \<Longrightarrow> depth st = k \<Longrightarrow> inp = (if eoc then [0, 0] @ inp' else []) \<Longrightarrow> (\<not> eoc \<longrightarrow> inp' = []) \<Longrightarrow>
   converted k s eoc n inp st inp' w"
  unfolding converted_def
  by (intro exI [of _ "[]"]) (auto simp: aappend_nil intro: ber_enc_ber_encs.intros)


lemma converted_cons:
  assumes "ber_enc n t b" and "conv_ok s t" and "converted k s eoc n inp1 (aappend k (conv s t) st) inp' w'" and "depth st = k"
  shows "converted k s eoc n (b @ inp1) st inp' w'"
proof -
  from assms(3) obtain ts bs where "ber_encs n ts bs" "list_all (conv_ok s) ts"
    "if eoc then inp1 = bs @ [0, 0] @ inp' else inp1 = bs \<and> inp' = []"
    "refines w' (aappend k (concat (map (conv s) ts)) (aappend k (conv s t) st))"
    unfolding converted_def by blast
  then show ?thesis
    unfolding converted_def using assms(1,2,4)
    by (intro exI [of _ "t # ts"] exI [of _ "b @ bs"]) (auto intro: ber_enc_ber_encs.intros split: if_splits)
qed

text \<open>The flush after an element closes it, whatever its contents became.\<close>

lemma flush_constructed:
  assumes "malloc_sized malloc" and "constructed tag" and "c = child_tag s tag" and "s \<noteq> 0 \<longrightarrow> tag AND NOT CBS_ASN1_CONSTRUCTED = s"
    and fl: "\<And>b. aflush k (aappend k' b st1) = aappend k (wrap s tag b) st" "\<And>b. k \<le> depth (aappend k' b st1)"
      "\<And>b. s = 0 \<Longrightarrow> open_ok k (aappend k' b st1) \<Longrightarrow> length b \<le> 0xfffffffe"
    and ts: "list_all (conv_ok c) ts" "refines w2 (aappend k' (concat (map (conv c) ts)) st1)"
    and "CBB_flush malloc k w2 = (Some (), w3)"
  shows "conv_ok s (BConstr tag ts)" and "refines w3 (aappend k (conv s (BConstr tag ts)) st)"
proof -
  note r = flush_refines [OF assms(1) ts(2) fl(2) assms(10)]
  have "s = 0 \<longrightarrow> length (concat (map (conv (child_tag s tag)) ts)) \<le> 0xfffffffe" using fl(3) r assms(3) by blast
  from conv_constr [OF assms(2,4) _ this] ts(1) assms(3) r fl(1)
  show "conv_ok s (BConstr tag ts)" "refines w3 (aappend k (conv s (BConstr tag ts)) st)" by auto
qed

lemma convert_ber_converted:
  assumes "malloc_sized malloc"
  shows "cbs_convert_ber malloc k s eoc l (inp, w) = (Some (), (inp', w')) \<Longrightarrow> refines w st \<Longrightarrow> depth st = k \<Longrightarrow> length inp < 2 ^ 64 \<Longrightarrow>
      l \<le> kMaxDepth \<and> converted k s eoc (kMaxDepth - l) inp st inp' w'"
    and "convert_ber_loop malloc k s eoc l (inp, w) = (Some (), (inp', w')) \<Longrightarrow> refines w st \<Longrightarrow> depth st = k \<Longrightarrow> length inp < 2 ^ 64 \<Longrightarrow>
      converted k s eoc (kMaxDepth - l) inp st inp' w'"
  using assms
proof (induction malloc k s eoc l "(inp, w)" and malloc k s eoc l "(inp, w)" arbitrary: inp w inp' w' st and inp w inp' w' st
    rule: cbs_convert_ber_convert_ber_loop.induct)
  case (1 malloc k s eoc level inp w)
  then show ?case by (auto simp: cbs_convert_ber.simps split: if_splits)
next
  case (2 malloc k s eoc level inp w)
  show ?case
  proof (cases "CBS_len inp > 0")
    case False
    with 2 show ?thesis by (auto simp: convert_ber_loop.simps [of _ _ _ _ _ inp] CBS_len_def split: if_splits intro!: converted_nil)
  next
    case pos: True
    obtain r inp1 where get: "CBS_get_any_ber_asn1_element inp = (r, inp1)" by fastforce
    then obtain el where Some: "r = Some el" using "2.prems"(1) pos by (cases r) (auto simp: convert_ber_loop.simps [of _ _ _ _ _ inp])
    note run = "2.prems"(1) [unfolded convert_ber_loop.simps [of malloc k s eoc level inp w] get Some prod.case option.case if_P [OF pos]]
    show ?thesis
    proof (cases "is_eoc (el_header_len el) (el_out el)")
      case True
      then have e: "eoc" "inp1 = inp'" "w = w'" using run by (auto split: if_splits)
      have "inp = [0, 0] @ inp1" using get Some by (intro eoc_input [OF _ True]) (simp add: CBS_get_any_ber_asn1_element_def)
      then show ?thesis using e "2.prems" by (intro converted_nil) auto
    next
      case eoc: False
      note run' = run [unfolded if_not_P [OF eoc]]
      obtain o1 w1 where opn: "convert_ber_open malloc k s (el_tag el) w = (o1, w1)" by fastforce
      then obtain k' c where o1: "o1 = Some (k', c)" using run' by (cases o1) auto
      note run' = run' [unfolded opn o1 prod.case option.case]
      note IH = "2.hyps" [OF pos get [symmetric] Some eoc opn [symmetric] o1 refl]
      from convert_open_result [OF \<open>malloc_sized malloc\<close> "2.prems"(2,3) opn [unfolded o1]] obtain st1
        where st1: "refines w1 st1" "depth st1 = k'" "c = child_tag s (el_tag el)" "s \<noteq> 0 \<longrightarrow> el_tag el AND NOT CBS_ASN1_CONSTRUCTED = s"
        and fl: "\<And>b. aflush k (aappend k' b st1) = aappend k (wrap s (el_tag el) b) st" "\<And>b. k \<le> depth (aappend k' b st1)"
          "\<And>b. s = 0 \<Longrightarrow> open_ok k (aappend k' b st1) \<Longrightarrow> length b \<le> 0xfffffffe"
        by blast
      from get Some have "cbs_get_any_asn1_element True inp = (Some el, inp1)" by (simp add: CBS_get_any_ber_asn1_element_def)
      then show ?thesis
      proof (cases rule: get_ber_cases)
        case (definite tag lb c0)
        then have el: "el_tag el = tag" by (simp add: ber_header_def)
        have ind: "\<not> is_indefinite el" using is_indefinite_header(2) definite(1,3) by blast
        have sk: "CBS_skip (el_header_len el) (el_out el) = (Some (), c0)"
          using definite(3) by (simp add: ber_header_def CBS_skip_apply)
        note run' = run' [unfolded if_not_P [OF ind] sk prod.case option.case]
        obtain r2 w2 where bd: "(if constructed (el_tag el)
            then map_prod id snd (cbs_convert_ber malloc k' c False (level + 1) (c0, w1))
            else CBB_add_bytes malloc k' c0 w1) = (r2, w2)" by fastforce
        then obtain w3 where r2: "r2 = Some ()" and flsh: "CBB_flush malloc k w2 = (Some (), w3)"
          and loop: "convert_ber_loop malloc k s eoc level (inp1, w3) = (Some (), (inp', w'))"
          using run' by (cases r2) (auto split: prod.splits option.splits)
        note IH = IH(3-4) [OF ind sk [symmetric] refl]
        have len: "length c0 < 2 ^ 64" "length inp1 < 2 ^ 64" using "2.prems"(4) definite(2) by simp_all
        show ?thesis
        proof (cases "constructed tag")
          case True
          then obtain inp2 where rec: "cbs_convert_ber malloc k' c False (level + 1) (c0, w1) = (Some (), (inp2, w2))"
            using bd r2 el by (cases "cbs_convert_ber malloc k' c False (level + 1) (c0, w1)") auto
          have l: "level + 1 \<le> kMaxDepth" and cv: "converted k' c False (kMaxDepth - (level + 1)) c0 st1 inp2 w2"
            using IH(1) [OF _ rec st1(1,2) len(1) "2.prems"(5)] True el by simp_all
          then obtain ts where ts: "ber_encs (kMaxDepth - (level + 1)) ts c0" "list_all (conv_ok c) ts"
            "refines w2 (aappend k' (concat (map (conv c) ts)) st1)"
            unfolding converted_def by auto
          note cc = flush_constructed [OF "2.prems"(5) True st1(3,4) [unfolded el] fl [unfolded el] ts(2,3) flsh]
          have enc: "ber_enc (kMaxDepth - level) (BConstr tag ts) (der_tag tag @ lb @ c0)"
            using ber_enc_ber_encs.definite [OF True definite(1) ts(1)] l by (simp add: Suc_diff_Suc)
          from converted_cons [OF enc cc(1) IH(2) [OF bd [symmetric] r2 flsh [symmetric] refl loop cc(2) _ len(2) "2.prems"(5)] "2.prems"(3)]
          show ?thesis using definite(2) "2.prems"(3) by simp
        next
          case False
          then have add: "CBB_add_bytes malloc k' c0 w1 = (Some (), w2)" using bd r2 el by simp
          have w2: "refines w2 (aappend k' c0 st1)" using bytes_refines [OF "2.prems"(5) len(1) st1(1,2) add] .
          note r = flush_refines [OF "2.prems"(5) w2 fl(2) flsh]
          then have "s = 0 \<longrightarrow> length c0 \<le> 0xfffffffe" using fl(3) by blast
          then have cc: "conv_ok s (BPrim tag c0)" "wrap s tag c0 = conv s (BPrim tag c0)"
            using conv_prim [OF False, of s c0] st1 el by simp_all
          have "der_tag tag @ lb @ c0 \<noteq> [0, 0]" using eoc eoc_definite [OF definite(1)] definite(3) by blast
          then have enc: "ber_enc (kMaxDepth - level) (BPrim tag c0) (der_tag tag @ lb @ c0)"
            using ber_enc_ber_encs.prim [OF False definite(1)] by blast
          have "refines w3 (aappend k (conv s (BPrim tag c0)) st)"
            using r fl(1) cc el by simp
          from converted_cons [OF enc cc(1) IH(2) [OF bd [symmetric] r2 flsh [symmetric] refl loop this _ len(2) "2.prems"(5)] "2.prems"(3)]
          show ?thesis using definite(2) "2.prems"(3) by simp
        qed
      next
        case (indefinite tag)
        then have el: "el_tag el = tag" by (simp add: ber_header_def)
        have ind: "is_indefinite el" using is_indefinite_header(1) indefinite(3) by simp
        note run' = run' [unfolded if_P [OF ind]]
        obtain r2 inp2 w2 where rec: "cbs_convert_ber malloc k' c True (level + 1) (inp1, w1) = (r2, (inp2, w2))"
          by (metis prod_cases3)
        with run' obtain w3 where r2: "r2 = Some ()" and flsh: "CBB_flush malloc k w2 = (Some (), w3)"
          and loop: "convert_ber_loop malloc k s eoc level (inp2, w3) = (Some (), (inp', w'))"
          by (cases r2) (auto split: prod.splits option.splits)
        note IH = IH(1-2) [OF ind]
        have len: "length inp1 < 2 ^ 64" using "2.prems"(4) indefinite(2) by simp
        have l: "level + 1 \<le> kMaxDepth" and cv: "converted k' c True (kMaxDepth - (level + 1)) inp1 st1 inp2 w2"
          using IH(1) [OF rec [unfolded r2] st1(1,2) len "2.prems"(5)] by simp_all
        then obtain ts bs where ts: "ber_encs (kMaxDepth - (level + 1)) ts bs" "list_all (conv_ok c) ts"
          "inp1 = bs @ [0, 0] @ inp2" "refines w2 (aappend k' (concat (map (conv c) ts)) st1)"
          unfolding converted_def by auto
        note cc = flush_constructed [OF "2.prems"(5) indefinite(1) st1(3,4) [unfolded el] fl [unfolded el] ts(2,4) flsh]
        have enc: "ber_enc (kMaxDepth - level) (BConstr tag ts) (der_tag tag @ [0x80] @ bs @ [0, 0])"
          using ber_enc_ber_encs.indefinite [OF indefinite(1) ts(1)] l by (simp add: Suc_diff_Suc)
        have "length inp2 < 2 ^ 64" using len ts(3) by simp
        then have "converted k s eoc (kMaxDepth - level) inp2 (aappend k (conv s (BConstr tag ts)) st) inp' w'"
          using IH(2) [OF rec [symmetric] r2 refl flsh [symmetric] refl loop cc(2) _ _ "2.prems"(5)] "2.prems"(3) by simp
        from converted_cons [OF enc cc(1) this "2.prems"(3)] show ?thesis using indefinite(2) ts(3) by simp
      qed
    qed
  qed
qed


lemma find_ber_element:
  assumes "length c < 2 ^ 32"
  shows "find_ber_loop l f (der_element tag c @ rest) =
    (if constructed tag
     then if is_string_type tag then Some True
          else case cbs_find_ber (l + 1) c of None \<Rightarrow> None | Some f' \<Rightarrow> find_ber_loop l f' rest
     else find_ber_loop l False rest)"
proof -
  have "0 < CBS_len (der_element tag c @ rest)" using length_der_tag [of tag] by (simp add: CBS_len_def der_element_def)
  then show ?thesis
    by (subst find_ber_loop.simps)
      (simp add: CBS_get_any_ber_asn1_element_def get_any_der_element [OF assms] CBS_skip_der_header)
qed

lemma constructed_cleared: "\<not> constructed (tag AND NOT CBS_ASN1_CONSTRUCTED)"
  by (simp add: and.assoc)

lemma find_ber_Nil: "find_ber_loop l f [] = Some f"
  by (subst find_ber_loop.simps) (simp add: CBS_len_def)

lemma find_ber_to_der:
  "ber_enc n t bs \<Longrightarrow> der_ok t \<Longrightarrow> l + n \<le> kMaxDepth \<Longrightarrow> find_ber_loop l f (to_der t @ rest) = find_ber_loop l False rest"
  "ber_encs n ts bs \<Longrightarrow> list_all der_ok ts \<Longrightarrow> l + n \<le> kMaxDepth \<Longrightarrow> find_ber_loop l False (concat (map to_der ts)) = Some False"
proof (induction n t bs and n ts bs arbitrary: l f rest and l rule: ber_enc_ber_encs.inducts)
  case (prim tag c lb n)
  then show ?case by (simp add: find_ber_element)
next
  case (definite tag c lb n ts)
  then show ?case by (auto simp: find_ber_element constructed_cleared cbs_find_ber.simps)
next
  case (indefinite tag n ts c)
  then show ?case by (auto simp: find_ber_element constructed_cleared cbs_find_ber.simps)
next
  case (nil n)
  then show ?case by (simp add: find_ber_Nil)
next
  case (cons n t bs ts cs)
  then show ?case by simp
qed

lemma ber_to_der_cases:
  assumes "malloc_sized malloc" and "length inp < 2 ^ 64"
    and "CBS_asn1_ber_to_der malloc inp = (Some (out, storage), inp')"
  obtains (no_ber) "cbs_find_ber 0 inp = Some False" "is_der out" "inp = out @ inp'" "storage = None"
  | (ber) ts where "cbs_find_ber 0 inp = Some True" "ber_encs kMaxDepth ts inp" "list_all der_ok ts"
      "out = concat (map to_der ts)" "inp' = []" "storage = Some out"
proof (cases "cbs_find_ber 0 inp")
  case None
  then show thesis using assms(3) by (simp add: CBS_asn1_ber_to_der_def)
next
  case (Some found)
  show thesis
  proof (cases found)
    case False
    then have "\<exists>t h. CBS_get_any_asn1_element inp = (Some (out, t, h), inp')" "storage = None"
      using assms(3) Some by (auto simp: CBS_asn1_ber_to_der_def st_bind_eq_Some)
    then show thesis using no_ber Some False by (simp add: CBS_get_any_asn1_element_iff)
  next
    case True
    obtain x w where init: "CBB_init malloc (CBS_len inp) zero_writer = (x, w)" by fastforce
    with assms(3) Some True have x: "x \<noteq> None" by (auto simp: CBS_asn1_ber_to_der_def split: option.splits)
    have w: "refines w ([], [])" using CBB_init_refines(1) [OF assms(1) _ init x] assms(2) by (simp add: CBS_len_def)
    obtain r inp1 w1 where cv: "cbs_convert_ber malloc 0 0 False 0 (inp, w) = (r, (inp1, w1))" by (metis prod_cases3)
    with assms(3) Some True init x have r: "r = Some ()" by (cases r) (auto simp: CBS_asn1_ber_to_der_def split: option.splits)
    obtain y w2 where fin: "CBB_finish malloc 0 w1 = (y, w2)" by fastforce
    with assms(3) Some True init x cv r have out: "y = Some out" "storage = Some out" "inp1 = inp'"
      by (auto simp: CBS_asn1_ber_to_der_def CBS_init_def split: option.splits)
    from convert_ber_converted(1) [OF assms(1) cv [unfolded r] w _ assms(2)] obtain ts
      where ts: "ber_encs kMaxDepth ts inp" "list_all (conv_ok 0) ts" "inp1 = []"
        "refines w1 (aappend 0 (concat (map (conv 0) ts)) ([], []))"
      unfolding converted_def by auto
    have c0: "conv 0 = to_der" "conv_ok 0 = der_ok" by (auto simp: conv_def conv_ok_def fun_eq_iff)
    have "refines w1 (concat (map to_der ts), [])" using ts(4) by (simp add: aappend_def c0)
    from CBB_finish_result [OF assms(1) this] fin out(1) have "out = concat (map to_der ts)" by simp
    then show thesis using ber ts out Some True by (simp add: c0)
  qed
qed

text \<open>An operation succeeds if the abstract result is admissible and small.\<close>

lemma writes_total:
  assumes "writes malloc D op ok f" and "refines w st" and "D st" and "ok st" and "roomy_writer malloc w" and "small (f st)"
  shows "\<exists>a w'. op w = (Some a, w') \<and> refines w' (f st) \<and> roomy_writer malloc w'"
proof -
  obtain r w' where op: "op w = (r, w')" by fastforce
  then have "write_result malloc w (ok st) (f st) (r \<noteq> None) w'" using writesD [OF assms(1-3)] by blast
  with assms(4-6) op show ?thesis by (auto simp: write_result_def split: if_splits)
qed

lemma convert_open_total:
  assumes "malloc_sized malloc" and "refines w st" and "depth st = k" and "roomy_writer malloc w"
    and "s \<noteq> 0 \<longrightarrow> tag AND NOT CBS_ASN1_CONSTRUCTED = s"
    and "small (aappend k (wrap s tag b) st)"
  shows "\<exists>k' w1 st1. convert_ber_open malloc k s tag w = (Some (k', child_tag s tag), w1) \<and> refines w1 st1 \<and>
    roomy_writer malloc w1 \<and> depth st1 = k' \<and> small st1 \<and>
    (\<forall>b. aflush k (aappend k' b st1) = aappend k (wrap s tag b) st \<and> k \<le> depth (aappend k' b st1) \<and>
       length (layout (aappend k' b st1)) \<le> length (layout (aappend k (wrap s tag b) st)) \<and>
       ((s = 0 \<longrightarrow> length b \<le> 0xfffffffe) \<longrightarrow> open_ok k (aappend k' b st1)))"
proof (cases "s \<noteq> 0")
  case True
  have flush: "aflush k (aappend k b st) = aappend k b st" for b
    using assms(3) by (simp add: aflush_def aappend_def at_depth_comp comp_def split_def)
  have "small st" using assms(3,6) True by (simp add: small_def aappend_leaf(1) wrap_def)
  then show ?thesis
    using True assms flush by (intro exI [of _ k] exI [of _ w] exI [of _ st]) (auto simp: convert_ber_open_def child_tag_def wrap_def)
next
  case False
  let ?st1 = "aopen k (der_tag (out_tag tag)) Asn1_prefix st"
  have k: "k \<le> depth st" using assms(3) by simp
  have fl: "aflush k (aappend (Suc k) b ?st1) = aappend k (wrap s tag b) st" for b
    using False k by (simp add: aflush_child wrap_def der_element_def)
  have grow: "length (layout (aappend (Suc k) b ?st1)) \<le> length (layout (aappend k (wrap s tag b) st))" for b
    using aflush_grow [of k "aappend (Suc k) b ?st1"] k by (simp add: fl)
  have "length (layout ?st1) \<le> length (layout (aappend (Suc k) b ?st1))"
    using k by (simp add: aappend_leaf(1))
  with grow [of b] assms(6) have sm: "small ?st1" by (simp add: small_def)
  obtain w1 where add: "CBB_add_asn1 malloc k (out_tag tag) w = (Some (), w1)" "refines w1 ?st1" "roomy_writer malloc w1"
    using writes_total [OF writes_add_asn1 [OF assms(1)] assms(2) k open_ok_leaf [OF assms(3)] assms(4) sm] by auto
  have "convert_ber_open malloc k s tag w = (Some (Suc k, child_tag s tag), w1)"
    using add(1) False by (simp add: convert_ber_open_def Let_def out_tag_def child_tag_def)
  then show ?thesis
    using add False fl grow sm k by (intro exI [of _ "Suc k"] exI [of _ w1] exI [of _ ?st1]) (auto simp: open_ok_child)
qed


lemma convert_open_totalE:
  assumes "malloc_sized malloc" and "refines w st" and "depth st = k" and "roomy_writer malloc w"
    and "s \<noteq> 0 \<longrightarrow> tag AND NOT CBS_ASN1_CONSTRUCTED = s" and "s = 0 \<longrightarrow> length b \<le> 0xfffffffe"
    and "small (aappend k (wrap s tag b) st)"
  obtains k' w1 st1 where "convert_ber_open malloc k s tag w = (Some (k', child_tag s tag), w1)" and "refines w1 st1"
    and "roomy_writer malloc w1" and "depth st1 = k'" and "small (aappend k' b st1)"
    and "aflush k (aappend k' b st1) = aappend k (wrap s tag b) st" and "k \<le> depth (aappend k' b st1)"
    and "open_ok k (aappend k' b st1)"
proof -
  from convert_open_total [OF assms(1-5,7)] obtain k' w1 st1 where
    op: "convert_ber_open malloc k s tag w = (Some (k', child_tag s tag), w1)" "refines w1 st1" "roomy_writer malloc w1" "depth st1 = k'"
    and fl: "\<forall>b. aflush k (aappend k' b st1) = aappend k (wrap s tag b) st \<and> k \<le> depth (aappend k' b st1) \<and>
       length (layout (aappend k' b st1)) \<le> length (layout (aappend k (wrap s tag b) st)) \<and>
       ((s = 0 \<longrightarrow> length b \<le> 0xfffffffe) \<longrightarrow> open_ok k (aappend k' b st1))"
    by (elim exE conjE) (rule that)
  note at_b = fl [THEN spec, of b]
  have "small (aappend k' b st1)" using at_b assms(7) unfolding small_def by (meson le_less_trans)
  then show thesis using that [OF op _ _ _ _] at_b assms(6) by blast
qed

lemma conv_constr_inv:
  assumes "constructed tag" and "conv_ok s (BConstr tag ts)"
  shows "s \<noteq> 0 \<longrightarrow> tag AND NOT CBS_ASN1_CONSTRUCTED = s" and "list_all (conv_ok (child_tag s tag)) ts"
    and "s = 0 \<longrightarrow> length (concat (map (conv (child_tag s tag)) ts)) \<le> 0xfffffffe"
    and "wrap s tag (concat (map (conv (child_tag s tag)) ts)) = conv s (BConstr tag ts)"
  using assms is_string_type_tag [of tag]
  by (auto simp: conv_ok_def [abs_def] conv_def [abs_def] wrap_def child_tag_def out_tag_def split: if_splits)

lemma der_tag_constructed: "constructed tag \<Longrightarrow> der_tag tag @ lb \<noteq> 0 # bs"
proof
  assume tag: "constructed tag" and eq: "der_tag tag @ lb = 0 # bs"
  have "parse_asn1_tag (0 # bs) = (Some 0, bs)" by (simp add: parse_asn1_tag_def st_bind_def Let_def)
  with eq have "tag = 0" using parse_der_tag [of tag lb] by simp
  with tag show False by simp
qed

text \<open>The rest of an iteration once the contents of the element are written.\<close>

definition convert_ber_close :: "allocator \<Rightarrow> nat \<Rightarrow> u32 \<Rightarrow> bool \<Rightarrow> nat \<Rightarrow> unit option \<times> cbs \<times> cbb_writer \<Rightarrow> unit option \<times> cbs \<times> cbb_writer" where
  "convert_ber_close malloc k s eoc l res =
     (case res of (None, x) \<Rightarrow> (None, x)
      | (Some _, (inp, w2)) \<Rightarrow>
          (case CBB_flush malloc k w2 of
             (None, w3) \<Rightarrow> (None, (inp, w3))
           | (Some _, w3) \<Rightarrow> convert_ber_loop malloc k s eoc l (inp, w3)))"

lemma loop_definite:
  assumes "ber_length (length c) lb" and "der_tag tag @ lb @ c \<noteq> [0, 0]"
    and "convert_ber_open malloc k s tag w = (Some (k', child), w1)"
  shows "convert_ber_loop malloc k s eoc l (der_tag tag @ lb @ c @ rest, w) =
    convert_ber_close malloc k s eoc l
      (map_prod id (\<lambda>w2. (rest, w2))
        (if constructed tag then map_prod id snd (cbs_convert_ber malloc k' child False (l + 1) (c, w1))
         else CBB_add_bytes malloc k' c w1))"
proof -
  have "0 < CBS_len (der_tag tag @ lb @ c @ rest)" using length_der_tag [of tag] by (simp add: CBS_len_def)
  moreover have "CBS_skip (length (der_tag tag) + length lb) (der_tag tag @ lb @ c) = (Some (), c)" by (simp add: CBS_skip_apply)
  ultimately show ?thesis
    using eoc_definite [OF assms(1), of tag "lb \<noteq> der_length (length c)"] assms(2,3) is_indefinite_header(2) [OF assms(1), of tag]
    by (subst convert_ber_loop.simps)
      (simp add: CBS_get_any_ber_asn1_element_def get_ber_definite [OF assms(1)] convert_ber_close_def,
        auto simp: ber_header_def split: prod.splits option.splits)
qed

lemma loop_indefinite:
  assumes "constructed tag" and "convert_ber_open malloc k s tag w = (Some (k', child), w1)"
  shows "convert_ber_loop malloc k s eoc l (der_tag tag @ 0x80 # rest, w) =
    convert_ber_close malloc k s eoc l (cbs_convert_ber malloc k' child True (l + 1) (rest, w1))"
proof -
  have "0 < CBS_len (der_tag tag @ 0x80 # rest)" by (simp add: CBS_len_def)
  moreover have "\<not> is_eoc (el_header_len (ber_header tag [0x80] [] True)) (el_out (ber_header tag [0x80] [] True))"
    unfolding is_eoc_iff by (auto simp: append_eq_Cons_conv)
  ultimately show ?thesis
    using assms is_indefinite_header(1) [of tag]
    by (subst convert_ber_loop.simps)
      (simp add: CBS_get_any_ber_asn1_element_def get_ber_indefinite convert_ber_close_def,
        auto simp: ber_header_def split: prod.splits option.splits)
qed

lemma loop_end: "convert_ber_loop malloc k s eoc l ((if eoc then [0, 0] @ rest else []), w) = (Some (), ((if eoc then rest else []), w))"
proof -
  have "ber_length (length []) [0]" "der_tag 0 = [0]" by (auto simp: ber_length_def) code_simp
  from get_ber_definite [OF this(1), of 0 rest] eoc_definite [OF this(1), of 0 "[0] \<noteq> der_length 0"] this(2)
  have "cbs_get_any_asn1_element True (0 # 0 # rest) = (Some (ber_header 0 [0] [] ([0] \<noteq> der_length 0)), rest)"
    "is_eoc (el_header_len (ber_header 0 [0] [] ([0] \<noteq> der_length 0))) (el_out (ber_header 0 [0] [] ([0] \<noteq> der_length 0)))" by simp_all
  then show ?thesis
    by (cases eoc) (simp_all add: convert_ber_loop.simps [of _ _ _ _ _ "[]"] convert_ber_loop.simps [of _ _ _ _ _ "0 # _"] CBS_len_def CBS_get_any_ber_asn1_element_def)
qed


lemma close_total:
  assumes "malloc_sized malloc" and "refines w2 (aappend k' b st1)" and "roomy_writer malloc w2"
    and st1: "aflush k (aappend k' b st1) = aappend k (wrap s tag b) st" "k \<le> depth (aappend k' b st1)" "open_ok k (aappend k' b st1)"
    and "small (aappend k (wrap s tag b) st)"
  shows "\<exists>w3. convert_ber_close malloc k s eoc l (Some (), (inp, w2)) = convert_ber_loop malloc k s eoc l (inp, w3) \<and>
    refines w3 (aappend k (wrap s tag b) st) \<and> roomy_writer malloc w3"
  using writes_total [OF writes_flush_open_ok [OF assms(1)] assms(2) st1(2,3) assms(3)] assms(7) st1(1)
  by (auto simp: convert_ber_close_def)

lemma small_append: "depth st = k \<Longrightarrow> small (aappend k (b @ c) st) \<Longrightarrow> small (aappend k b st)"
  by (simp add: small_def aappend_leaf(1))

lemma convert_ber_total:
  assumes "malloc_sized malloc"
  shows "ber_enc n t bs \<Longrightarrow> l + n \<le> kMaxDepth \<Longrightarrow> refines w st \<Longrightarrow> depth st = k \<Longrightarrow> roomy_writer malloc w \<Longrightarrow> conv_ok s t \<Longrightarrow>
      length bs < 2 ^ 64 \<Longrightarrow> small (aappend k (conv s t) st) \<Longrightarrow>
      \<exists>w1. convert_ber_loop malloc k s eoc l (bs @ rest, w) = convert_ber_loop malloc k s eoc l (rest, w1) \<and>
        refines w1 (aappend k (conv s t) st) \<and> roomy_writer malloc w1"
    and "ber_encs n ts bs \<Longrightarrow> l + n \<le> kMaxDepth \<Longrightarrow> refines w st \<Longrightarrow> depth st = k \<Longrightarrow> roomy_writer malloc w \<Longrightarrow> list_all (conv_ok s) ts \<Longrightarrow>
      length bs < 2 ^ 64 \<Longrightarrow> small (aappend k (concat (map (conv s) ts)) st) \<Longrightarrow>
      \<exists>w'. cbs_convert_ber malloc k s eoc l (bs @ (if eoc then [0, 0] @ rest else []), w) = (Some (), ((if eoc then rest else []), w')) \<and>
        refines w' (aappend k (concat (map (conv s) ts)) st) \<and> roomy_writer malloc w'"
proof (induction n t bs and n ts bs arbitrary: l w st k s eoc rest and l w st k s eoc rest rule: ber_enc_ber_encs.inducts)
  case (prim tag c lb n)
  have ok: "s \<noteq> 0 \<longrightarrow> tag AND NOT CBS_ASN1_CONSTRUCTED = s" "s = 0 \<longrightarrow> length c \<le> 0xfffffffe" "conv s (BPrim tag c) = wrap s tag c"
    using prim by (auto simp: conv_ok_def conv_def wrap_def out_tag_def primitive_tag)
  have smw: "small (aappend k (wrap s tag c) st)" using prim(10) ok(3) by simp
  from convert_open_totalE [OF assms prim(5,6,7) ok(1,2) smw] obtain k' w1 st1
    where op: "convert_ber_open malloc k s tag w = (Some (k', child_tag s tag), w1)" "refines w1 st1" "roomy_writer malloc w1" "depth st1 = k'"
    and sm: "small (aappend k' c st1)"
    and fl: "aflush k (aappend k' c st1) = aappend k (wrap s tag c) st" "k \<le> depth (aappend k' c st1)" "open_ok k (aappend k' c st1)" .
  obtain w2 where w2: "CBB_add_bytes malloc k' c w1 = (Some (), w2)" "refines w2 (aappend k' c st1)" "roomy_writer malloc w2"
    using writes_total [OF writes_add_bytes [OF assms] op(2) _ open_ok_leaf [OF op(4)] op(3) sm] op(4) prim(9) by auto
  obtain w3 where "convert_ber_close malloc k s eoc l (Some (), (rest, w2)) = convert_ber_loop malloc k s eoc l (rest, w3)"
    "refines w3 (aappend k (wrap s tag c) st)" "roomy_writer malloc w3"
    using close_total [OF assms w2(2,3) fl(1,2,3) smw, of eoc l rest] by blast
  then show ?case
    using loop_definite [OF prim(2,3) op(1), of eoc l rest] prim(1) w2(1) ok(3) by (intro exI [of _ w3]) simp
next
  case (definite tag c lb n ts)
  note ok = conv_constr_inv [OF definite(1,9)]
  let ?b = "concat (map (conv (child_tag s tag)) ts)"
  have smw: "small (aappend k (wrap s tag ?b) st)" using definite(11) ok(4) by simp
  from convert_open_totalE [OF assms definite(6,7,8) ok(1,3) smw] obtain k' w1 st1
    where op: "convert_ber_open malloc k s tag w = (Some (k', child_tag s tag), w1)" "refines w1 st1" "roomy_writer malloc w1" "depth st1 = k'"
    and sm: "small (aappend k' ?b st1)"
    and fl: "aflush k (aappend k' ?b st1) = aappend k (wrap s tag ?b) st" "k \<le> depth (aappend k' ?b st1)" "open_ok k (aappend k' ?b st1)" .
  obtain w2 where w2: "cbs_convert_ber malloc k' (child_tag s tag) False (l + 1) (c, w1) = (Some (), ([], w2))"
    "refines w2 (aappend k' ?b st1)" "roomy_writer malloc w2"
    using definite(4) [of "l + 1" w1 st1 k' "child_tag s tag" False] op definite(5,10) ok(2) sm by auto
  obtain w3 where "convert_ber_close malloc k s eoc l (Some (), (rest, w2)) = convert_ber_loop malloc k s eoc l (rest, w3)"
    "refines w3 (aappend k (wrap s tag ?b) st)" "roomy_writer malloc w3"
    using close_total [OF assms w2(2,3) fl(1,2,3) smw, of eoc l rest] by blast
  moreover have "der_tag tag @ lb @ c \<noteq> [0, 0]" using der_tag_constructed [OF definite(1)] by auto
  ultimately show ?case
    using loop_definite [OF definite(2) _ op(1), of eoc l rest] definite(1) w2(1) ok(4) by (intro exI [of _ w3]) simp
next
  case (indefinite tag n ts c)
  note ok = conv_constr_inv [OF indefinite(1,8)]
  let ?b = "concat (map (conv (child_tag s tag)) ts)"
  have smw: "small (aappend k (wrap s tag ?b) st)" using indefinite(10) ok(4) by simp
  from convert_open_totalE [OF assms indefinite(5,6,7) ok(1,3) smw] obtain k' w1 st1
    where op: "convert_ber_open malloc k s tag w = (Some (k', child_tag s tag), w1)" "refines w1 st1" "roomy_writer malloc w1" "depth st1 = k'"
    and sm: "small (aappend k' ?b st1)"
    and fl: "aflush k (aappend k' ?b st1) = aappend k (wrap s tag ?b) st" "k \<le> depth (aappend k' ?b st1)" "open_ok k (aappend k' ?b st1)" .
  obtain w2 where w2: "cbs_convert_ber malloc k' (child_tag s tag) True (l + 1) (c @ [0, 0] @ rest, w1) = (Some (), (rest, w2))"
    "refines w2 (aappend k' ?b st1)" "roomy_writer malloc w2"
    using indefinite(3) [of "l + 1" w1 st1 k' "child_tag s tag" True rest] op indefinite(4,9) ok(2) sm by auto
  obtain w3 where "convert_ber_close malloc k s eoc l (Some (), (rest, w2)) = convert_ber_loop malloc k s eoc l (rest, w3)"
    "refines w3 (aappend k (wrap s tag ?b) st)" "roomy_writer malloc w3"
    using close_total [OF assms w2(2,3) fl(1,2,3) smw, of eoc l rest] by blast
  then show ?case
    using loop_indefinite [OF indefinite(1) op(1), of eoc l "c @ [0, 0] @ rest"] w2(1) ok(4) by (intro exI [of _ w3]) simp
next
  case (nil n)
  then show ?case using loop_end [of malloc k s eoc l rest w] by (simp add: cbs_convert_ber.simps aappend_nil)
next
  case (cons n t bs ts cs)
  let ?rest = "if eoc then [0, 0] @ rest else []"
  have st: "aappend k (concat (map (conv s) ts)) (aappend k (conv s t) st) = aappend k (concat (map (conv s) (t # ts))) st"
    using cons.prems(3) by simp
  have sm: "small (aappend k (conv s t) st)" using small_append [OF cons.prems(3)] cons.prems(7) by simp
  obtain w1 where w1: "convert_ber_loop malloc k s eoc l (bs @ cs @ ?rest, w) = convert_ber_loop malloc k s eoc l (cs @ ?rest, w1)"
    "refines w1 (aappend k (conv s t) st)" "roomy_writer malloc w1"
    using cons.IH(1) [OF cons.prems(1,2,3,4) _ _ sm, of eoc "cs @ ?rest"] cons.prems(5,6) by auto
  obtain w2 where "cbs_convert_ber malloc k s eoc l (cs @ ?rest, w1) = (Some (), ((if eoc then rest else []), w2))"
    "refines w2 (aappend k (concat (map (conv s) (t # ts))) st)" "roomy_writer malloc w2"
    using cons.IH(2) [OF cons.prems(1) w1(2) _ w1(3), of k s eoc rest] cons.prems(3,5,6,7) st by auto
  then show ?case using w1(1) cons.prems(1) by (auto simp: cbs_convert_ber.simps)
qed

lemma str_contents_bound:
  "ber_enc n t bs \<Longrightarrow> length (str_contents t) \<le> length bs"
  "ber_encs n ts bs \<Longrightarrow> length (concat (map str_contents ts)) \<le> length bs"
  by (induction n t bs and n ts bs rule: ber_enc_ber_encs.inducts) auto

lemma ber_length_nonempty: "ber_length n lb \<Longrightarrow> 0 < length lb"
  by (auto simp: ber_length_def)

lemma der_element_bound:
  assumes "length b \<le> 0xfffffffe" and "length b \<le> 9 * m" and "2 + m \<le> j"
  shows "length (der_element tag b) \<le> 9 * j"
proof -
  have "length (der_element tag b) \<le> length b + 16" using assms(1) by (intro length_der_element) simp
  with assms(2,3) show ?thesis by linarith
qed

lemma to_der_bound:
  "ber_enc n t bs \<Longrightarrow> der_ok t \<Longrightarrow> length (to_der t) \<le> 9 * length bs"
  "ber_encs n ts bs \<Longrightarrow> list_all der_ok ts \<Longrightarrow> length (concat (map to_der ts)) \<le> 9 * length bs"
proof (induction n t bs and n ts bs rule: ber_enc_ber_encs.inducts)
  case (prim tag c lb n)
  have "2 + length c \<le> length (der_tag tag @ lb @ c)"
    using ber_length_nonempty [OF prim(2)] length_der_tag [of tag] unfolding length_append by linarith
  with prim show ?case by (simp only: to_der.simps der_ok.simps) (rule der_element_bound [of _ "length c"], simp_all)
next
  case (definite tag c lb n ts)
  have len: "2 + length c \<le> length (der_tag tag @ lb @ c)"
    using ber_length_nonempty [OF definite(2)] length_der_tag [of tag] unfolding length_append by linarith
  have "length (concat (map str_contents ts)) \<le> 9 * length c" using str_contents_bound(2) [OF definite(3)] by simp
  with definite len show ?case
    by (cases "is_string_type tag") (simp_all only: to_der.simps der_ok.simps if_True if_False, (blast intro: der_element_bound)+)
next
  case (indefinite tag n ts c)
  have len: "2 + length c \<le> length (der_tag tag @ [0x80] @ c @ [0, 0])" by simp
  have "length (concat (map str_contents ts)) \<le> 9 * length c" using str_contents_bound(2) [OF indefinite(2)] by simp
  with indefinite len show ?case
    by (cases "is_string_type tag") (simp_all only: to_der.simps der_ok.simps if_True if_False, (blast intro: der_element_bound)+)
next
  case (cons n t bs ts cs)
  then show ?case by simp
qed simp

lemma ber_to_der_total:
  assumes "malloc_sized malloc" and "\<forall>n. malloc n \<noteq> None" and "length inp < 2 ^ 56"
    and "cbs_find_ber 0 inp = Some True" and "ber_encs kMaxDepth ts inp" and "list_all der_ok ts"
  shows "CBS_asn1_ber_to_der malloc inp = (Some (concat (map to_der ts), Some (concat (map to_der ts))), [])"
proof -
  obtain x w where init: "CBB_init malloc (CBS_len inp) zero_writer = (x, w)" by fastforce
  have x: "x \<noteq> None" "roomy_writer malloc w" and w: "refines w ([], [])"
    using CBB_init_refines [OF assms(1) _ init] assms(2,3) by (simp_all add: CBS_len_def)
  have c0: "conv 0 = to_der" "conv_ok 0 = der_ok" by (auto simp: conv_def conv_ok_def fun_eq_iff)
  have ab: "aappend 0 (concat (map to_der ts)) ([], []) = (concat (map to_der ts), [])" by (simp add: aappend_def)
  have len: "length (concat (map to_der ts)) < 2 ^ 62" using to_der_bound(2) [OF assms(5,6)] assms(3) by simp
  then have sm: "small (concat (map to_der ts), [])" by (simp add: small_def)
  obtain w1 where cv: "cbs_convert_ber malloc 0 0 False 0 (inp, w) = (Some (), ([], w1))"
    "refines w1 (concat (map to_der ts), [])" "roomy_writer malloc w1"
    using convert_ber_total(2) [OF assms(1,5) _ w _ x(2), of 0 0 0 False] assms(3,6) sm by (auto simp: c0 ab)
  obtain w2 where "CBB_finish malloc 0 w1 = (Some (concat (map to_der ts)), w2)"
    using CBB_finish_result [OF assms(1) cv(2)] cv(3) len
    by (cases "CBB_finish malloc 0 w1") (auto split: option.splits)
  with init x cv assms(4) show ?thesis by (auto simp: CBS_asn1_ber_to_der_def CBS_init_def)
qed

lemma find_ber_example: "cbs_find_ber 0 [0x24, 0x80, 4, 1, 0xaa, 4, 1, 0xbb, 0, 0] = Some True"
proof -
  have "der_tag 0x20000004 = [0x24]" "constructed 0x20000004" by code_simp+
  with get_ber_indefinite [of "0x20000004" "[4, 1, 0xaa, 4, 1, 0xbb, 0, 0]"] show ?thesis
    by (simp add: cbs_find_ber.simps find_ber_loop.simps [of _ _ "_ # _"] CBS_len_def CBS_get_any_ber_asn1_element_def ber_header_def)
qed

lemma der_element_2_5: "der_element 2 [5] = [2, 1, 5]"
  by code_simp

lemma ber_to_der_example:
  "CBS_asn1_ber_to_der zero_malloc [0x24, 0x80, 4, 1, 0xaa, 4, 1, 0xbb, 0, 0] = (Some ([4, 2, 0xaa, 0xbb], Some [4, 2, 0xaa, 0xbb]), [])"
proof -
  let ?ts = "[BConstr 0x20000004 [BPrim 4 [0xaa], BPrim 4 [0xbb]]]"
  have tags: "der_tag 0x20000004 = [0x24]" "der_tag 4 = [4]" "constructed 0x20000004" "\<not> constructed 4" by code_simp+
  have lb: "ber_length 1 [1]" by (simp add: ber_length_def)
  have "ber_enc 2047 (BPrim 4 [b]) [4, 1, b]" for b
    using ber_enc_ber_encs.prim [OF tags(4), of "[b]" "[1]" 2047] lb tags(2) by simp
  then have "ber_encs 2047 [BPrim 4 [0xaa], BPrim 4 [0xbb]] ([4, 1, 0xaa] @ [4, 1, 0xbb] @ [])"
    by (intro ber_enc_ber_encs.cons ber_enc_ber_encs.nil)
  from ber_enc_ber_encs.indefinite [OF tags(3) this] tags(1)
  have "ber_enc 2048 (BConstr 0x20000004 [BPrim 4 [0xaa], BPrim 4 [0xbb]]) [0x24, 0x80, 4, 1, 0xaa, 4, 1, 0xbb, 0, 0]" by simp
  from ber_enc_ber_encs.cons [OF this ber_enc_ber_encs.nil]
  have "ber_encs kMaxDepth ?ts [0x24, 0x80, 4, 1, 0xaa, 4, 1, 0xbb, 0, 0]" by (simp add: kMaxDepth_def)
  moreover have "is_string_type 0x20000004" "0x20000004 AND NOT CBS_ASN1_CONSTRUCTED = (4 :: u32)" "der_length 2 = [2]" by code_simp+
  then have "list_all der_ok ?ts" "concat (map to_der ?ts) = [4, 2, 0xaa, 0xbb]"
    using tags by (simp_all add: der_element_def numeral_2_eq_2)
  ultimately show ?thesis
    using ber_to_der_total [OF zero_malloc_ok(1) _ _ find_ber_example, of ?ts]
    by simp
qed


text \<open>C13. \<open>CBS_asn1_ber_to_der\<close>, once BER has been found, succeeds exactly when all of its input is a sequence of BER
  encodings of values nested at most \<open>kMaxDepth\<close> deep whose constructed strings consist of fragments of their
  own type and whose DER lengths are representable. Its output is the DER encodings of all those values, and the
  input is empty afterwards. The comment in internal.h says something else, that one BER element is read and
  the input advanced over that element: the code goes on to the end of the input, and fails if it is malformed.\<close>

theorem ber_to_der_exact:
  assumes "malloc_sized malloc" and "\<forall>n. malloc n \<noteq> None" and "length inp < 2 ^ 56"
    and "cbs_find_ber 0 inp = Some True"
  shows "CBS_asn1_ber_to_der malloc inp = (Some (out, storage), inp') \<longleftrightarrow>
    (\<exists>ts. ber_encs kMaxDepth ts inp \<and> list_all der_ok ts \<and> out = concat (map to_der ts) \<and> storage = Some out \<and> inp' = [])"
proof
  assume run: "CBS_asn1_ber_to_der malloc inp = (Some (out, storage), inp')"
  have "length inp < 2 ^ 64" using assms(3) by simp
  from ber_to_der_cases [OF assms(1) this run] assms(4) show
    "\<exists>ts. ber_encs kMaxDepth ts inp \<and> list_all der_ok ts \<and> out = concat (map to_der ts) \<and> storage = Some out \<and> inp' = []"
    by (metis option.inject)
next
  assume "\<exists>ts. ber_encs kMaxDepth ts inp \<and> list_all der_ok ts \<and> out = concat (map to_der ts) \<and> storage = Some out \<and> inp' = []"
  then show "CBS_asn1_ber_to_der malloc inp = (Some (out, storage), inp')"
    using ber_to_der_total [OF assms] by auto
qed

theorem ber_to_der_exact_witness:
  "\<exists>ts. ber_encs kMaxDepth ts [0x24, 0x80, 4, 1, 0xaa, 4, 1, 0xbb, 0, 0] \<and> list_all der_ok ts \<and> concat (map to_der ts) = [4, 2, 0xaa, 0xbb]"
  using ber_to_der_exact [OF zero_malloc_ok(1) _ _ find_ber_example, of "[4, 2, 0xaa, 0xbb]" "Some [4, 2, 0xaa, 0xbb]" "[]"] ber_to_der_example
  by auto

text \<open>C14. What \<open>CBS_asn1_ber_to_der\<close> returns after a conversion contains no BER that \<open>cbs_find_ber\<close> could find:
  running it on its own output would not convert again.\<close>

theorem ber_to_der_output_is_der:
  assumes "malloc_sized malloc" and "length inp < 2 ^ 64" and "CBS_asn1_ber_to_der malloc inp = (Some (out, Some storage), inp')"
  shows "cbs_find_ber 0 out = Some False"
  using assms
proof (cases rule: ber_to_der_cases)
  case (ber ts)
  then show ?thesis using find_ber_to_der(2) [OF ber(2,3), of 0] by (simp add: cbs_find_ber.simps)
qed simp

theorem ber_to_der_output_is_der_witness:
  "CBS_asn1_ber_to_der zero_malloc [0x24, 0x80, 4, 1, 0xaa, 4, 1, 0xbb, 0, 0] = (Some ([4, 2, 0xaa, 0xbb], Some [4, 2, 0xaa, 0xbb]), []) \<and>
   cbs_find_ber 0 [4, 2, 0xaa, 0xbb] = Some False"
proof -
  have "CBS_asn1_ber_to_der zero_malloc [0x24, 0x80, 4, 1, 0xaa, 4, 1, 0xbb, 0, 0] = (Some ([4, 2, 0xaa, 0xbb], Some [4, 2, 0xaa, 0xbb]), [])"
    by (rule ber_to_der_example)
  with ber_to_der_output_is_der [OF zero_malloc_ok(1) _ this] show ?thesis by simp
qed

text \<open>C15. \<open>cbs_find_ber\<close> forgets what it found: the flag is overwritten by the next sibling. In the SEQUENCE
  below the first member contains a constructed OCTET STRING, which only BER allows, and an INTEGER
  follows; nothing is reported and \<open>CBS_asn1_ber_to_der\<close> returns the BER input as it is.\<close>

theorem find_ber_forgets_nested_ber:
  "cbs_find_ber 0 [0x30, 5, 0x24, 3, 4, 1, 0xaa] = Some True \<and>
   cbs_find_ber 0 [0x30, 10, 0x30, 5, 0x24, 3, 4, 1, 0xaa, 2, 1, 5] = Some False \<and>
   CBS_asn1_ber_to_der malloc [0x30, 10, 0x30, 5, 0x24, 3, 4, 1, 0xaa, 2, 1, 5] =
     (Some ([0x30, 10, 0x30, 5, 0x24, 3, 4, 1, 0xaa, 2, 1, 5], None), [])"
proof -
  let ?str = "der_element 0x20000004 [4, 1, 0xaa]"
  let ?seq = "der_element 0x20000010 ?str"
  let ?all = "der_element 0x20000010 (?seq @ der_element 2 [5])"
  have e: "?str = [0x24, 3, 4, 1, 0xaa]" "?seq = [0x30, 5, 0x24, 3, 4, 1, 0xaa]" "?all = [0x30, 10, 0x30, 5, 0x24, 3, 4, 1, 0xaa, 2, 1, 5]"
    by code_simp+
  have t: "constructed 0x20000004" "is_string_type 0x20000004" "constructed 0x20000010" "\<not> is_string_type 0x20000010" "\<not> constructed 2"
    by code_simp+
  have str: "cbs_find_ber l ?str = Some True" if "l \<le> kMaxDepth" for l
    using find_ber_element [of "[4, 1, 0xaa]" l False "0x20000004" "[]"] that t by (simp add: cbs_find_ber.simps)
  have seq: "find_ber_loop l False (?seq @ rest) = find_ber_loop l True rest" if "l < kMaxDepth" for l rest
    using find_ber_element [of ?str l False "0x20000010" rest] str [of "l + 1"] that t e(1) by simp
  have "find_ber_loop 1 False (?seq @ der_element 2 [5]) = Some False"
    using seq [of 1 "der_element 2 [5]"] find_ber_element [of "[5]" 1 True 2 "[]"] t by (simp add: find_ber_Nil kMaxDepth_def)
  moreover have len: "length (?seq @ der_element 2 [5]) < 2 ^ 32" unfolding e(2) der_element_2_5 by simp
  ultimately have all: "cbs_find_ber 0 ?all = Some False"
    using find_ber_element [OF len, of 0 False "0x20000010" "[]"] t
    by (simp add: cbs_find_ber.simps find_ber_Nil kMaxDepth_def)
  have one: "cbs_find_ber 0 ?seq = Some True" using seq [of 0 "[]"] by (simp add: cbs_find_ber.simps find_ber_Nil kMaxDepth_def)
  have "is_der ?all" unfolding is_der_def by (intro exI [of _ "0x20000010"] exI [of _ "?seq @ der_element 2 [5]"]) (use len in simp)
  then obtain tg h where get: "CBS_get_any_asn1_element ?all = (Some (?all, tg, h), [])"
    using CBS_get_any_asn1_element_iff [of ?all ?all "[]"] by auto
  show ?thesis
    using all [unfolded e(3)] one [unfolded e(2)] get [unfolded e(3)] by (simp add: CBS_asn1_ber_to_der_def st_bind_def)
qed


lemma implicit_string_loop_canonical:
  "implicit_string_loop malloc tag child w = (Some (), w') \<Longrightarrow>
     \<exists>chunks. list_all (\<lambda>c. length c < 2 ^ 32) chunks \<and> child = concat (map (der_element tag) chunks)"
proof (induction malloc tag child arbitrary: w rule: implicit_string_loop.induct)
  case (1 malloc tag child)
  show ?case
  proof (cases "child = []")
    case True
    then show ?thesis by (intro exI [of _ "[]"]) simp
  next
    case False
    then have len: "0 < CBS_len child" by (simp add: CBS_len_def)
    with "1.prems" obtain chunk rest w1 where get: "CBS_get_asn1 tag child = (Some chunk, rest)"
      and run: "implicit_string_loop malloc tag rest w1 = (Some (), w')"
      by (auto simp: implicit_string_loop.simps [of _ _ child] st_bind_eq_Some split: prod.splits option.splits)
    from "1.IH" [OF len get [symmetric] refl run] obtain chunks
      where "list_all (\<lambda>c. length c < 2 ^ 32) chunks" "rest = concat (map (der_element tag) chunks)" by blast
    with CBS_get_asn1_canonical [OF get] show ?thesis by (intro exI [of _ "chunk # chunks"]) simp
  qed
qed

lemma implicit_string_Nil: "implicit_string_loop malloc tag [] = st_return ()"
  by (simp add: implicit_string_loop.simps [of _ _ "[]"] CBS_len_def)

lemma implicit_string_Cons:
  assumes "length c < 2 ^ 32"
  shows "implicit_string_loop malloc tag (der_element tag c @ child) =
      st_bind (CBB_add_bytes malloc 0 c) (\<lambda>_. implicit_string_loop malloc tag child)"
proof -
  have "0 < CBS_len (der_element tag c @ child)" using length_der_tag [of tag] by (simp add: CBS_len_def der_element_def)
  then show ?thesis by (simp add: implicit_string_loop.simps [of _ _ "der_element tag c @ _"] CBS_get_asn1_der [OF assms])
qed

lemma writes_implicit_string_loop:
  fixes op :: "(cbb_writer, unit) stm"
  assumes "malloc_sized malloc"
  shows "writes malloc (\<lambda>st. 0 \<le> depth st) op (open_ok 0) (aappend 0 bs) \<Longrightarrow> list_all (\<lambda>c. length c < 2 ^ 32) chunks \<Longrightarrow>
    writes malloc (\<lambda>st. 0 \<le> depth st)
      (st_bind op (\<lambda>_. implicit_string_loop malloc tag (concat (map (der_element tag) chunks)))) (open_ok 0) (aappend 0 (bs @ concat chunks))"
proof (induction chunks arbitrary: op bs)
  case Nil
  then show ?case by (simp only: list.map concat.simps append_Nil2 implicit_string_Nil st_bind_return_unit)
next
  case (Cons c chunks)
  have len: "length c < 2 ^ 32" "length c < 2 ^ 64" using Cons.prems(2) by simp_all
  from Cons.IH [OF writes_then [OF Cons.prems(1) writes_add_bytes [OF assms len(2)]]] Cons.prems(2) show ?case
    by (simp add: implicit_string_Cons [OF len(1)] st_bind_assoc_fun)
qed

lemma implicit_string_loop_result:
  assumes "malloc_sized malloc" and "list_all (\<lambda>c. length c < 2 ^ 32) chunks" and "refines w ([], [])"
    and run: "implicit_string_loop malloc tag (concat (map (der_element tag) chunks)) w = (r, w')"
  shows "write_result malloc w True (concat chunks, []) (r \<noteq> None) w'"
proof (cases chunks)
  case Nil
  with run assms(3) show ?thesis by (auto simp: implicit_string_Nil write_result_def)
next
  case (Cons c cs)
  then have len: "length c < 2 ^ 32" "length c < 2 ^ 64" "list_all (\<lambda>c. length c < 2 ^ 32) cs" using assms(2) by simp_all
  note wr = writes_implicit_string_loop [OF assms(1) writes_add_bytes [OF assms(1) len(2)] len(3), of tag]
  have "aappend 0 (concat chunks) ([], []) = (concat chunks, [])" "open_ok 0 ([], [])" by (simp_all add: aappend_def open_ok_def)
  then show ?thesis using writesD [OF wr assms(3) _ run [unfolded Cons list.map concat.simps implicit_string_Cons [OF len(1)]]] Cons by simp
qed

lemma peek_der: "CBS_peek_asn1_tag (der_element tag c @ rest) t \<longleftrightarrow> t = tag"
  using length_der_tag [of tag] by (simp add: CBS_peek_asn1_tag_def CBS_len_def der_element_def parse_der_tag)

lemma implicit_string_run:
  assumes "malloc_sized malloc" and "list_all (\<lambda>c. length c < 2 ^ 32) chunks" and "refines w ([], [])"
    and "roomy_writer malloc w" and "length (concat chunks) < 2 ^ 62"
  shows "\<exists>w2. st_bind (implicit_string_loop malloc inner (concat (map (der_element inner) chunks))) (\<lambda>_. CBB_finish malloc 0) w
    = (Some (concat chunks), w2)"
proof -
  obtain r w1 where run: "implicit_string_loop malloc inner (concat (map (der_element inner) chunks)) w = (r, w1)" by fastforce
  have "r = Some ()" "refines w1 (concat chunks, [])" "roomy_writer malloc w1"
    using implicit_string_loop_result [OF assms(1-3) run] assms(4,5) by (auto simp: write_result_def small_def split: if_splits)
  with assms(5) run CBB_finish_result [OF assms(1), of w1 "concat chunks" "[]"] show ?thesis
    by (cases "CBB_finish malloc 0 w1") (auto split: option.splits)
qed

lemma length_chunks: "length (concat chunks) \<le> length (concat (map (der_element tag) chunks))"
  by (induction chunks) (auto simp: der_element_def)

lemma get_implicit_constructed:
  assumes "malloc_sized malloc" and "\<forall>n. malloc n \<noteq> None" and "length inp < 2 ^ 62" and "\<not> CBS_peek_asn1_tag inp outer"
  shows "CBS_get_asn1_implicit_string malloc outer inner inp = (Some (out, storage), rest) \<longleftrightarrow>
    (\<exists>chunks. list_all (\<lambda>c. length c < 2 ^ 32) chunks \<and> length (concat (map (der_element inner) chunks)) < 2 ^ 32 \<and>
       inp = der_element (outer OR CBS_ASN1_CONSTRUCTED) (concat (map (der_element inner) chunks)) @ rest \<and>
       out = concat chunks \<and> storage = Some out)"
    (is "?run \<longleftrightarrow> (\<exists>chunks. ?spec chunks)")
proof -
  obtain x w where init: "CBB_init malloc (CBS_len inp) zero_writer = (x, w)" by fastforce
  have x: "x \<noteq> None" "roomy_writer malloc w" and w: "refines w ([], [])"
    using CBB_init_refines [OF assms(1) _ init] assms(2,3) by (simp_all add: CBS_len_def)
  have tot: "\<exists>w2. st_bind (implicit_string_loop malloc inner (concat (map (der_element inner) chunks))) (\<lambda>_. CBB_finish malloc 0) w
    = (Some (concat chunks), w2)"
    if "list_all (\<lambda>c. length c < 2 ^ 32) chunks" "length (concat (map (der_element inner) chunks)) < 2 ^ 32" for chunks
    using implicit_string_run [OF assms(1) that(1) w x(2)] length_chunks [of chunks inner] that(2) by simp
  show ?thesis
  proof
    assume ?run
    then obtain child where get: "CBS_get_asn1 (outer OR CBS_ASN1_CONSTRUCTED) inp = (Some child, rest)" and st: "storage = Some out"
      and body: "\<exists>w2. st_bind (implicit_string_loop malloc inner child) (\<lambda>_. CBB_finish malloc 0) w = (Some out, w2)"
      using assms(4) init x(1) by (auto simp: CBS_get_asn1_implicit_string_def CBS_init_def split: prod.splits option.splits)
    from body obtain w1 where "implicit_string_loop malloc inner child w = (Some (), w1)" by (auto elim: st_bindE)
    from implicit_string_loop_canonical [OF this] obtain chunks
      where "list_all (\<lambda>c. length c < 2 ^ 32) chunks" "child = concat (map (der_element inner) chunks)" by blast
    with CBS_get_asn1_canonical [OF get] tot [of chunks] body st show "\<exists>chunks. ?spec chunks" by (intro exI [of _ chunks]) auto
  next
    assume "\<exists>chunks. ?spec chunks"
    then obtain chunks where sp: "?spec chunks" by blast
    with tot [of chunks] assms(4) init x(1) show ?run
      by (auto simp: CBS_get_asn1_implicit_string_def CBS_init_def CBS_get_asn1_der)
  qed
qed

text \<open>C16. \<open>CBS_get_asn1_implicit_string\<close> accepts exactly a primitive element with the outer tag, which it
  returns in place, and a constructed one made of chunks with the inner tag, whose concatenation it
  returns in fresh memory.\<close>

theorem implicit_string_exact:
  assumes "malloc_sized malloc" and "\<forall>n. malloc n \<noteq> None" and "length inp < 2 ^ 62" and "outer AND CBS_ASN1_CONSTRUCTED = 0"
  shows "CBS_get_asn1_implicit_string malloc outer inner inp = (Some (out, storage), rest) \<longleftrightarrow>
    (length out < 2 ^ 32 \<and> inp = der_element outer out @ rest \<and> storage = None) \<or>
    (\<exists>chunks. list_all (\<lambda>c. length c < 2 ^ 32) chunks \<and> length (concat (map (der_element inner) chunks)) < 2 ^ 32 \<and>
       inp = der_element (outer OR CBS_ASN1_CONSTRUCTED) (concat (map (der_element inner) chunks)) @ rest \<and>
       out = concat chunks \<and> storage = Some out)"
proof (cases "CBS_peek_asn1_tag inp outer")
  case True
  have "outer OR CBS_ASN1_CONSTRUCTED \<noteq> outer"
  proof
    assume "outer OR CBS_ASN1_CONSTRUCTED = outer"
    moreover have "(outer OR CBS_ASN1_CONSTRUCTED) AND CBS_ASN1_CONSTRUCTED = CBS_ASN1_CONSTRUCTED"
      by (rule bit_word_eqI) (auto simp: bit_simps)
    ultimately have "outer AND CBS_ASN1_CONSTRUCTED = CBS_ASN1_CONSTRUCTED" by simp
    then show False using assms(4) by (simp add: CBS_ASN1_CONSTRUCTED_def CBS_ASN1_TAG_SHIFT_def)
  qed
  then have "inp \<noteq> der_element (outer OR CBS_ASN1_CONSTRUCTED) c @ rest" for c
    using True peek_der [of "outer OR CBS_ASN1_CONSTRUCTED" c rest outer] by auto
  then show ?thesis
    using True der_typed.dec_iff [of outer inp out rest]
    by (auto simp: CBS_get_asn1_implicit_string_def st_bind_eq_Some)
next
  case False
  then have "inp \<noteq> der_element outer out @ rest" using peek_der [of outer out rest outer] by auto
  then show ?thesis using get_implicit_constructed [OF assms(1-3) False] by simp
qed

theorem implicit_string_exact_witness:
  "CBS_get_asn1_implicit_string zero_malloc 0x80000000 4 [0xa0, 6, 4, 1, 0xaa, 4, 1, 0xbb] = (Some ([0xaa, 0xbb], Some [0xaa, 0xbb]), [])"
proof -
  have e: "0x80000000 AND CBS_ASN1_CONSTRUCTED = 0" "der_element 4 [0xaa] = [4, 1, 0xaa]" "der_element 4 [0xbb] = [4, 1, 0xbb]"
    "der_element (0x80000000 OR CBS_ASN1_CONSTRUCTED) [4, 1, 0xaa, 4, 1, 0xbb] = [0xa0, 6, 4, 1, 0xaa, 4, 1, 0xbb]" by code_simp+
  show ?thesis
    unfolding implicit_string_exact [OF zero_malloc_ok(1) allI [OF zero_malloc_ok(2)] _ e(1), of "[0xa0, 6, 4, 1, 0xaa, 4, 1, 0xbb]", simplified]
    by (rule disjI2, rule exI [of _ "[[0xaa], [0xbb]]"]) (simp add: e)
qed

end
