(* ===== verification/Stack.thy ===== *)
theory Stack
  imports Mem Qsort
begin

text \<open>
  The pointer stacks of crypto/stack/stack.c. A pointer is an \<open>'p option\<close>, \<open>None\<close> being NULL; the
  comparison function of a stack is a function pointer of type \<open>'c\<close>, and \<open>call\<close> says what calling it
  does. An operation that checks its argument for NULL takes a \<open>stack option\<close>. libc's \<open>qsort\<close> is a
  parameter.
\<close>

type_synonym 'p ptr = "'p option"

text \<open>What \<open>malloc\<close> returns for a number of bytes, seen as an array of pointers.\<close>

type_synonym 'p array_allocator = "nat \<Rightarrow> 'p ptr list option"

definition array_sized :: "'p array_allocator \<Rightarrow> bool" where
  "array_sized malloc \<longleftrightarrow> (\<forall>n b. malloc n = Some b \<longrightarrow> length b = n div 8)"

definition array_malloc :: "'p array_allocator \<Rightarrow> nat \<Rightarrow> 'p ptr list option" where
  "array_malloc malloc sz =
     (if size_add sz OPENSSL_MALLOC_PREFIX < sz then None
      else map_option (drop (OPENSSL_MALLOC_PREFIX div 8)) (malloc (sz + OPENSSL_MALLOC_PREFIX)))"

definition array_realloc :: "'p array_allocator \<Rightarrow> 'p ptr list \<Rightarrow> nat \<Rightarrow> 'p ptr list option" where
  "array_realloc malloc old new_size =
     (case array_malloc malloc new_size of
        None \<Rightarrow> None
      | Some ret \<Rightarrow> Some (mem_store ret 0 (take (min (8 * length old) new_size div 8) old)))"

subsection \<open>The operations\<close>

record ('p, 'c) stack =
  stk_num :: nat
  stk_data :: "'p ptr list"
  stk_sorted :: bool
  stk_num_alloc :: nat
  stk_comp :: "'c option"

definition kMinSize :: nat where
  "kMinSize = 4"

definition sizeof_STACK :: nat where
  "sizeof_STACK = 40"

definition sk_new :: "'p array_allocator \<Rightarrow> 'c option \<Rightarrow> ('p, 'c) stack option" where
  "sk_new malloc cmp_func =
     (case array_malloc malloc sizeof_STACK of
        None \<Rightarrow> None
      | Some _ \<Rightarrow>
          (case array_malloc malloc (8 * kMinSize) of
             None \<Rightarrow> None
           | Some _ \<Rightarrow> Some \<lparr>stk_num = 0, stk_data = replicate kMinSize None, stk_sorted = False,
                             stk_num_alloc = kMinSize, stk_comp = cmp_func\<rparr>))"

definition sk_new_null :: "'p array_allocator \<Rightarrow> ('p, 'c) stack option" where
  "sk_new_null malloc = sk_new malloc None"

definition sk_num :: "('p, 'c) stack option \<Rightarrow> nat" where
  "sk_num sk = (case sk of None \<Rightarrow> 0 | Some s \<Rightarrow> stk_num s)"

definition sk_zero :: "('p, 'c) stack option \<Rightarrow> ('p, 'c) stack option" where
  "sk_zero sk =
     (case sk of
        None \<Rightarrow> None
      | Some s \<Rightarrow>
          if stk_num s = 0 then sk
          else Some (s\<lparr>stk_data := mem_store (stk_data s) 0 (replicate (stk_num s) None),
                       stk_num := 0, stk_sorted := False\<rparr>))"

definition sk_value :: "('p, 'c) stack option \<Rightarrow> nat \<Rightarrow> 'p ptr" where
  "sk_value sk i =
     (case sk of None \<Rightarrow> None | Some s \<Rightarrow> if i \<ge> stk_num s then None else stk_data s ! i)"

definition sk_set :: "('p, 'c) stack option \<Rightarrow> nat \<Rightarrow> 'p ptr \<Rightarrow> 'p ptr \<times> ('p, 'c) stack option" where
  "sk_set sk i v =
     (case sk of
        None \<Rightarrow> (None, None)
      | Some s \<Rightarrow> if i \<ge> stk_num s then (None, sk) else (v, Some (s\<lparr>stk_data := (stk_data s)[i := v]\<rparr>)))"

text \<open>The result is the sequence of pointers that the free function is called on.\<close>

definition sk_pop_free_ex :: "('p, 'c) stack option \<Rightarrow> 'p list" where
  "sk_pop_free_ex sk =
     (case sk of None \<Rightarrow> [] | Some s \<Rightarrow> List.map_filter (\<lambda>i. stk_data s ! i) [0..<stk_num s])"

text \<open>The growing of the array in \<open>sk_insert\<close>.\<close>

definition sk_grow :: "'p array_allocator \<Rightarrow> ('p, 'c) stack \<Rightarrow> ('p, 'c) stack option" where
  "sk_grow malloc s =
     (if stk_num_alloc s \<le> size_add (stk_num s) 1 then
        let doubled = size_mul (stk_num_alloc s) 2;
            overflow = (\<lambda>n. n < stk_num_alloc s \<or> size_mul n 8 div 8 \<noteq> n);
            new_alloc = (if overflow doubled then size_add (stk_num_alloc s) 1 else doubled)
        in if overflow new_alloc then None
           else (case array_realloc malloc (stk_data s) (size_mul new_alloc 8) of
                   None \<Rightarrow> None
                 | Some data \<Rightarrow> Some (s\<lparr>stk_data := data, stk_num_alloc := new_alloc\<rparr>))
      else Some s)"

definition sk_insert :: "'p array_allocator \<Rightarrow> ('p, 'c) stack option \<Rightarrow> 'p ptr \<Rightarrow> nat \<Rightarrow> nat \<times> ('p, 'c) stack option" where
  "sk_insert malloc sk p where' =
     (case sk of
        None \<Rightarrow> (0, None)
      | Some s \<Rightarrow>
          (case sk_grow malloc s of
             None \<Rightarrow> (0, sk)
           | Some t \<Rightarrow>
               let n = stk_num t;
                   data = (if where' \<ge> n then (stk_data t)[n := p]
                           else (mem_store (stk_data t) (where' + 1) (take (n - where') (drop where' (stk_data t))))[where' := p])
               in (size_add n 1, Some (t\<lparr>stk_data := data, stk_num := size_add n 1, stk_sorted := False\<rparr>))))"

definition sk_delete :: "('p, 'c) stack option \<Rightarrow> nat \<Rightarrow> 'p ptr \<times> ('p, 'c) stack option" where
  "sk_delete sk where' =
     (case sk of
        None \<Rightarrow> (None, None)
      | Some s \<Rightarrow>
          if where' \<ge> stk_num s then (None, sk)
          else let ret = stk_data s ! where';
                   data = (if where' \<noteq> stk_num s - 1
                           then mem_store (stk_data s) where' (take (stk_num s - where' - 1) (drop (where' + 1) (stk_data s)))
                           else stk_data s)
               in (ret, Some (s\<lparr>stk_data := data, stk_num := stk_num s - 1\<rparr>)))"

text \<open>The first index from \<open>i\<close> on whose pointer satisfies a test, as the linear loops find it.\<close>

fun first_index :: "('p ptr \<Rightarrow> bool) \<Rightarrow> nat \<Rightarrow> 'p ptr list \<Rightarrow> nat option" where
  "first_index P i [] = None"
| "first_index P i (x # xs) = (if P x then Some i else first_index P (Suc i) xs)"

definition sk_delete_ptr :: "('p, 'c) stack option \<Rightarrow> 'p ptr \<Rightarrow> 'p ptr \<times> ('p, 'c) stack option" where
  "sk_delete_ptr sk p =
     (case sk of
        None \<Rightarrow> (None, None)
      | Some s \<Rightarrow>
          (case first_index (\<lambda>x. x = p) 0 (take (stk_num s) (stk_data s)) of
             None \<Rightarrow> (None, sk)
           | Some i \<Rightarrow> sk_delete sk i))"

definition sk_is_sorted :: "('p, 'c) stack option \<Rightarrow> bool" where
  "sk_is_sorted sk = (case sk of None \<Rightarrow> True | Some s \<Rightarrow> stk_sorted s)"

text \<open>The binary search of \<open>sk_find\<close>; \<open>cmp\<close> compares the wanted element with an element.\<close>

function sk_bsearch :: "('p ptr \<Rightarrow> int) \<Rightarrow> 'p ptr list \<Rightarrow> nat \<Rightarrow> nat \<Rightarrow> nat option" where
  "sk_bsearch cmp data lo hi =
     (if lo < hi then
        let mid = lo + (hi - lo - 1) div 2;
            r = cmp (data ! mid)
        in if r > 0 then sk_bsearch cmp data (mid + 1) hi
           else if r < 0 then sk_bsearch cmp data lo mid
           else if hi - lo = 1 then Some mid
           else sk_bsearch cmp data lo (mid + 1)
      else None)"
  by pat_completeness auto
termination
  by (relation "measure (\<lambda>(cmp, data, lo, hi). hi - lo)") auto

definition sk_find :: "('c \<Rightarrow> 'p ptr \<Rightarrow> 'p ptr \<Rightarrow> int) \<Rightarrow> ('p, 'c) stack option \<Rightarrow> 'p ptr \<Rightarrow> nat option" where
  "sk_find call sk p =
     (case sk of
        None \<Rightarrow> None
      | Some s \<Rightarrow>
          (case stk_comp s of
             None \<Rightarrow> first_index (\<lambda>x. x = p) 0 (take (stk_num s) (stk_data s))
           | Some cmp_func \<Rightarrow>
               if p = None then None
               else if \<not> sk_is_sorted sk
               then first_index (\<lambda>elem. call cmp_func p elem = 0) 0 (take (stk_num s) (stk_data s))
               else sk_bsearch (call cmp_func p) (stk_data s) 0 (stk_num s)))"

definition sk_shift :: "('p, 'c) stack option \<Rightarrow> 'p ptr \<times> ('p, 'c) stack option" where
  "sk_shift sk =
     (case sk of None \<Rightarrow> (None, None) | Some s \<Rightarrow> if stk_num s = 0 then (None, sk) else sk_delete sk 0)"

definition sk_push :: "'p array_allocator \<Rightarrow> ('p, 'c) stack \<Rightarrow> 'p ptr \<Rightarrow> nat \<times> ('p, 'c) stack option" where
  "sk_push malloc s p = sk_insert malloc (Some s) p (stk_num s)"

definition sk_pop :: "('p, 'c) stack option \<Rightarrow> 'p ptr \<times> ('p, 'c) stack option" where
  "sk_pop sk =
     (case sk of
        None \<Rightarrow> (None, None)
      | Some s \<Rightarrow> if stk_num s = 0 then (None, sk) else sk_delete sk (stk_num s - 1))"

definition sk_dup :: "'p array_allocator \<Rightarrow> ('p, 'c) stack option \<Rightarrow> ('p, 'c) stack option" where
  "sk_dup malloc sk =
     (case sk of
        None \<Rightarrow> None
      | Some s \<Rightarrow>
          (case array_malloc malloc sizeof_STACK of
             None \<Rightarrow> None
           | Some _ \<Rightarrow>
               (case array_malloc malloc (size_mul 8 (stk_num_alloc s)) of
                  None \<Rightarrow> None
                | Some fresh \<Rightarrow>
                    Some \<lparr>stk_num = stk_num s, stk_data = mem_store fresh 0 (take (stk_num s) (stk_data s)),
                          stk_sorted = stk_sorted s, stk_num_alloc = stk_num_alloc s, stk_comp = stk_comp s\<rparr>)))"

definition sk_sort :: "('c \<Rightarrow> 'p ptr \<Rightarrow> 'p ptr \<Rightarrow> int) \<Rightarrow> (('p ptr \<Rightarrow> 'p ptr \<Rightarrow> int) \<Rightarrow> 'p ptr list \<Rightarrow> 'p ptr list) \<Rightarrow>
    ('p, 'c) stack option \<Rightarrow> ('p, 'c) stack option" where
  "sk_sort call qsort sk =
     (case sk of
        None \<Rightarrow> None
      | Some s \<Rightarrow>
          (case stk_comp s of
             None \<Rightarrow> sk
           | Some cmp_func \<Rightarrow>
               if stk_sorted s then sk
               else let data = (if stk_num s \<ge> 2
                                then mem_store (stk_data s) 0 (qsort (call cmp_func) (take (stk_num s) (stk_data s)))
                                else stk_data s)
                    in Some (s\<lparr>stk_data := data, stk_sorted := True\<rparr>)))"

definition sk_set_cmp_func :: "('p, 'c) stack \<Rightarrow> 'c option \<Rightarrow> 'c option \<times> ('p, 'c) stack" where
  "sk_set_cmp_func s cmp_func =
     (stk_comp s, s\<lparr>stk_sorted := (if stk_comp s \<noteq> cmp_func then False else stk_sorted s), stk_comp := cmp_func\<rparr>)"

text \<open>
  The loop of \<open>sk_deep_copy\<close> from index \<open>i\<close>: the array with the copies, or the pointers that the
  free function is called on when a copy fails. The copy function may depend on the copies made so
  far, as an allocator that runs out does.
\<close>

function deep_copy_loop :: "('p list \<Rightarrow> 'p \<Rightarrow> 'p ptr) \<Rightarrow> nat \<Rightarrow> nat \<Rightarrow> 'p list \<Rightarrow> 'p ptr list \<Rightarrow> 'p list + 'p ptr list" where
  "deep_copy_loop copy num i made data =
     (if i < num then
        (case data ! i of
           None \<Rightarrow> deep_copy_loop copy num (i + 1) made data
         | Some x \<Rightarrow>
             (case copy made x of
                None \<Rightarrow> Inl (List.map_filter (\<lambda>j. data ! j) [0..<i])
              | Some y \<Rightarrow> deep_copy_loop copy num (i + 1) (made @ [y]) (data[i := Some y])))
      else Inr data)"
  by pat_completeness auto
termination
  by (relation "measure (\<lambda>(copy, num, i, made, data). num - i)") auto

text \<open>The reference: copying a list of pointers in order, until a copy fails.\<close>

fun copy_all :: "('p list \<Rightarrow> 'p \<Rightarrow> 'p ptr) \<Rightarrow> 'p list \<Rightarrow> 'p ptr list \<Rightarrow> 'p list + 'p ptr list" where
  "copy_all copy made [] = Inr []"
| "copy_all copy made (None # xs) = map_sum id ((#) None) (copy_all copy made xs)"
| "copy_all copy made (Some x # xs) =
     (case copy made x of
        None \<Rightarrow> Inl made
      | Some y \<Rightarrow> map_sum id ((#) (Some y)) (copy_all copy (made @ [y]) xs))"

definition sk_deep_copy :: "'p array_allocator \<Rightarrow> ('p list \<Rightarrow> 'p \<Rightarrow> 'p ptr) \<Rightarrow> ('p, 'c) stack option \<Rightarrow>
    'p list \<times> ('p, 'c) stack option" where
  "sk_deep_copy malloc copy sk =
     (case sk_dup malloc sk of
        None \<Rightarrow> ([], None)
      | Some ret \<Rightarrow>
          (case deep_copy_loop copy (stk_num ret) 0 [] (stk_data ret) of
             Inl freed \<Rightarrow> (freed, None)
           | Inr data \<Rightarrow> ([], Some (ret\<lparr>stk_data := data\<rparr>))))"


declare sk_bsearch.simps [simp del] deep_copy_loop.simps [simp del]

subsection \<open>The list a stack stands for\<close>

definition elems :: "('p, 'c) stack \<Rightarrow> 'p ptr list" where
  "elems s = take (stk_num s) (stk_data s)"

definition sk_wf :: "('p, 'c) stack \<Rightarrow> bool" where
  "sk_wf s \<longleftrightarrow> stk_num s < stk_num_alloc s \<and> length (stk_data s) = stk_num_alloc s \<and> 8 * stk_num_alloc s < 2 ^ 64"

lemma length_elems [simp]: "sk_wf s \<Longrightarrow> length (elems s) = stk_num s"
  by (simp add: elems_def sk_wf_def)

lemma pointer_overflow_iff: "n < 2 ^ 64 \<Longrightarrow> size_mul n 8 div 8 \<noteq> n \<longleftrightarrow> 2 ^ 64 \<le> 8 * n"
proof -
  assume n: "n < 2 ^ 64"
  have "(n * 8) mod 2 ^ 64 div 8 < 2 ^ 61" using mod_less_divisor [of "2 ^ 64" "n * 8"] by (simp add: less_mult_imp_div_less)
  with n show ?thesis by (cases "8 * n < 2 ^ 64") (auto simp: size_mul_def)
qed

lemma array_malloc_length: "array_sized malloc \<Longrightarrow> array_malloc malloc (8 * n) = Some b \<Longrightarrow> length b = n"
  by (auto simp: array_malloc_def array_sized_def OPENSSL_MALLOC_PREFIX_def split: if_splits)

lemma array_malloc_total: "\<forall>n. malloc n \<noteq> None \<Longrightarrow> n < 2 ^ 64 - 8 \<Longrightarrow> array_malloc malloc n \<noteq> None"
  by (simp add: array_malloc_def OPENSSL_MALLOC_PREFIX_def)

lemma array_realloc_Some:
  assumes "array_sized malloc" and "array_realloc malloc old (8 * n) = Some b" and "length old \<le> n"
  shows "length b = n" and "take (length old) b = old"
proof -
  obtain ret where ret: "array_malloc malloc (8 * n) = Some ret" and b: "b = mem_store ret 0 old"
    using assms(2,3) by (auto simp: array_realloc_def min_def split: option.splits if_splits)
  have "length ret = n" using array_malloc_length [OF assms(1) ret] .
  then show "length b = n" "take (length old) b = old" using b assms(3) by (simp_all add: mem_store_def)
qed

text \<open>Inserting into and deleting from the used part of an array.\<close>

lemma take_insert_cells:
  assumes "n < length xs"
  shows "take (Suc n) (if i \<ge> n then xs[n := p] else (mem_store xs (i + 1) (take (n - i) (drop i xs)))[i := p]) =
    take i (take n xs) @ [p] @ drop i (take n xs)"
proof (cases "i \<ge> n")
  case True
  then show ?thesis using assms by (simp add: take_Suc_conv_app_nth)
next
  case False
  have "mem_store xs (i + 1) (take (n - i) (drop i xs)) = take i xs @ [xs ! i] @ take (n - i) (drop i xs) @ drop (Suc n) xs"
    using assms False by (simp add: mem_store_def take_Suc_conv_app_nth)
  then have "(mem_store xs (i + 1) (take (n - i) (drop i xs)))[i := p] = take i xs @ [p] @ take (n - i) (drop i xs) @ drop (Suc n) xs"
    using assms False by (simp add: list_update_append)
  then show ?thesis using assms False by (simp add: drop_take min_def Suc_diff_le)
qed

lemma take_delete_cells:
  assumes "n \<le> length xs" and "i < n"
  shows "take (n - 1) (if i \<noteq> n - 1 then mem_store xs i (take (n - i - 1) (drop (i + 1) xs)) else xs) =
    take i (take n xs) @ drop (Suc i) (take n xs)"
  using assms by (auto simp: mem_store_def drop_take min_def)

lemma length_insert_cells:
  "n < length xs \<Longrightarrow> length (if i \<ge> n then xs[n := p] else (mem_store xs (i + 1) (take (n - i) (drop i xs)))[i := p]) = length xs"
  by (auto simp: mem_store_def)

lemma sk_grow_Some:
  assumes "array_sized malloc" and "sk_wf s" and "sk_grow malloc s = Some t"
  shows "sk_wf t \<and> Suc (stk_num t) < stk_num_alloc t \<and> elems t = elems s \<and> stk_num t = stk_num s \<and>
    stk_comp t = stk_comp s \<and> stk_sorted t = stk_sorted s"
proof (cases "stk_num_alloc s \<le> size_add (stk_num s) 1")
  case False
  have "Suc (stk_num s) < 2 ^ 64" using assms(2) by (simp add: sk_wf_def)
  then show ?thesis using False assms by (simp add: sk_grow_def)
next
  case True
  define n where "n = (if 2 ^ 64 \<le> 16 * stk_num_alloc s then stk_num_alloc s + 1 else 2 * stk_num_alloc s)"
  have wf: "stk_num s < stk_num_alloc s" "length (stk_data s) = stk_num_alloc s" "8 * stk_num_alloc s < 2 ^ 64"
    using assms(2) by (simp_all add: sk_wf_def)
  have d: "size_mul (stk_num_alloc s) 2 = 2 * stk_num_alloc s" "size_add (stk_num_alloc s) 1 = stk_num_alloc s + 1"
    using wf by simp_all
  have run: "8 * n < 2 ^ 64" "\<exists>data. array_realloc malloc (stk_data s) (8 * n) = Some data \<and> t = s\<lparr>stk_data := data, stk_num_alloc := n\<rparr>"
    using assms(3) True wf pointer_overflow_iff [of "2 * stk_num_alloc s"] pointer_overflow_iff [of "stk_num_alloc s + 1"]
    by (auto simp: sk_grow_def Let_def d n_def mult.commute [of "stk_num_alloc s" 8] split: if_splits option.splits)
  then obtain data where data: "array_realloc malloc (stk_data s) (8 * n) = Some data" "t = s\<lparr>stk_data := data, stk_num_alloc := n\<rparr>" by blast
  have n: "stk_num_alloc s < n" using wf by (auto simp: n_def)
  note r = array_realloc_Some [OF assms(1) data(1)]
  have len: "length data = n" "take (stk_num_alloc s) data = stk_data s" using r wf(2) n by simp_all
  have "take (stk_num s) data = take (stk_num s) (take (stk_num_alloc s) data)" using wf by simp
  then have "elems t = elems s" using len(2) data(2) by (simp add: elems_def)
  then show ?thesis using data(2) len n wf run(1) by (simp add: sk_wf_def)
qed


lemma sk_insert_result:
  assumes "array_sized malloc" and "sk_wf s" and "sk_insert malloc (Some s) p i = (n, sk')"
  obtains s' where "sk' = Some s'" and "sk_wf s'" and "stk_comp s' = stk_comp s"
    and "if n = 0 then s' = s else n = Suc (stk_num s) \<and> elems s' = take i (elems s) @ [p] @ drop i (elems s) \<and> \<not> stk_sorted s'"
proof (cases "sk_grow malloc s")
  case None
  then show thesis using assms that [of s] by (auto simp: sk_insert_def)
next
  case (Some t)
  note t = sk_grow_Some [OF assms(1,2) Some]
  have wf: "stk_num t < length (stk_data t)" "size_add (stk_num t) 1 = Suc (stk_num t)" using t by (auto simp: sk_wf_def)
  define data where "data = (if i \<ge> stk_num t then (stk_data t)[stk_num t := p]
     else (mem_store (stk_data t) (i + 1) (take (stk_num t - i) (drop i (stk_data t))))[i := p])"
  have run: "sk_insert malloc (Some s) p i = (Suc (stk_num t), Some (t\<lparr>stk_data := data, stk_num := Suc (stk_num t), stk_sorted := False\<rparr>))"
    using Some wf(2) by (simp only: sk_insert_def option.case data_def Let_def)
  have len: "length data = length (stk_data t)" unfolding data_def by (rule length_insert_cells [OF wf(1)])
  have "take (Suc (stk_num t)) data = take i (elems t) @ [p] @ drop i (elems t)"
    unfolding data_def elems_def by (rule take_insert_cells [OF wf(1)])
  then have el: "take (Suc (stk_num t)) data = take i (elems s) @ [p] @ drop i (elems s)" using t by simp
  show thesis
    by (rule that [of "t\<lparr>stk_data := data, stk_num := Suc (stk_num t), stk_sorted := False\<rparr>"])
      (use assms(3) run t len el in \<open>auto simp: sk_wf_def elems_def\<close>)
qed

lemma sk_delete_result:
  assumes "sk_wf s"
  shows "\<exists>s'. sk_delete (Some s) i = (if i < stk_num s then elems s ! i else None, Some s') \<and> sk_wf s' \<and>
    elems s' = take i (elems s) @ drop (Suc i) (elems s) \<and> stk_comp s' = stk_comp s \<and> stk_sorted s' = stk_sorted s \<and>
    (stk_num s \<le> i \<longrightarrow> s' = s)"
proof (cases "i < stk_num s")
  case False
  then show ?thesis using assms by (simp add: sk_delete_def)
next
  case True
  define data where "data = (if i \<noteq> stk_num s - 1 then mem_store (stk_data s) i (take (stk_num s - i - 1) (drop (i + 1) (stk_data s))) else stk_data s)"
  have "length data = length (stk_data s)" using assms True by (auto simp: data_def sk_wf_def mem_store_def)
  moreover have "take (stk_num s - 1) data = take i (elems s) @ drop (Suc i) (elems s)"
    unfolding data_def elems_def using assms True by (intro take_delete_cells) (simp_all add: sk_wf_def)
  moreover have "sk_delete (Some s) i = (elems s ! i, Some (s\<lparr>stk_data := data, stk_num := stk_num s - 1\<rparr>))"
    using True by (simp add: sk_delete_def data_def elems_def)
  ultimately show ?thesis using assms True
    by (intro exI [of _ "s\<lparr>stk_data := data, stk_num := stk_num s - 1\<rparr>"]) (auto simp: sk_wf_def elems_def)
qed

lemma sk_new_wf: "sk_new malloc cmp_func = Some s \<Longrightarrow> sk_wf s \<and> elems s = [] \<and> \<not> stk_sorted s \<and> stk_comp s = cmp_func"
  by (auto simp: sk_new_def sk_wf_def elems_def kMinSize_def split: option.splits)


subsection \<open>The contract of a sequence\<close>

text \<open>
  What the users of a sequence rely on: inserting at a position fails without effect or inserts
  there, removing returns the element and closes the gap.
\<close>

locale sequence =
  fixes inv :: "'s \<Rightarrow> bool" and els :: "'s \<Rightarrow> 'e list"
    and ins :: "'s \<Rightarrow> 'e \<Rightarrow> nat \<Rightarrow> nat \<times> 's" and del :: "'s \<Rightarrow> nat \<Rightarrow> 'e \<times> 's"
  assumes ins_inv: "inv s \<Longrightarrow> inv (snd (ins s e i))"
    and ins_els: "inv s \<Longrightarrow> els (snd (ins s e i)) =
      (if fst (ins s e i) = 0 then els s else take i (els s) @ [e] @ drop i (els s))"
    and ins_count: "inv s \<Longrightarrow> fst (ins s e i) \<noteq> 0 \<Longrightarrow> fst (ins s e i) = Suc (length (els s))"
    and del_inv: "inv s \<Longrightarrow> inv (snd (del s i))"
    and del_fst: "inv s \<Longrightarrow> i < length (els s) \<Longrightarrow> fst (del s i) = els s ! i"
    and del_els: "inv s \<Longrightarrow> els (snd (del s i)) = take i (els s) @ drop (Suc i) (els s)"
begin

text \<open>Clients that append a list of elements, and that take elements from one end.\<close>

primrec append_all :: "'s \<Rightarrow> 'e list \<Rightarrow> bool \<times> 's" where
  "append_all s [] = (True, s)"
| "append_all s (e # es) =
     (case ins s e (length (els s)) of (n, s') \<Rightarrow> if n = 0 then (False, s') else append_all s' es)"

primrec take_back :: "'s \<Rightarrow> nat \<Rightarrow> 'e list \<times> 's" where
  "take_back s 0 = ([], s)"
| "take_back s (Suc n) =
     (case del s (length (els s) - 1) of (e, s') \<Rightarrow> case take_back s' n of (es, t) \<Rightarrow> (e # es, t))"

primrec take_front :: "'s \<Rightarrow> nat \<Rightarrow> 'e list \<times> 's" where
  "take_front s 0 = ([], s)"
| "take_front s (Suc n) = (case del s 0 of (e, s') \<Rightarrow> case take_front s' n of (es, t) \<Rightarrow> (e # es, t))"

lemma append_all_els:
  "inv s \<Longrightarrow> append_all s es = (True, t) \<Longrightarrow> inv t \<and> els t = els s @ es"
proof (induction es arbitrary: s)
  case (Cons e es)
  then show ?case using ins_inv [of s e "length (els s)"] ins_els [of s e "length (els s)"]
    by (cases "ins s e (length (els s))") (auto split: if_splits)
qed simp

lemma take_back_els:
  "inv s \<Longrightarrow> n \<le> length (els s) \<Longrightarrow> fst (take_back s n) = take n (rev (els s))"
proof (induction n arbitrary: s)
  case (Suc n)
  obtain e s' where d: "del s (length (els s) - 1) = (e, s')" by fastforce
  have "els s \<noteq> []" using Suc.prems(2) by auto
  then have e: "e = last (els s)" "els s' = butlast (els s)" "inv s'"
    using del_fst [OF Suc.prems(1), of "length (els s) - 1"] del_els [OF Suc.prems(1), of "length (els s) - 1"]
      del_inv [OF Suc.prems(1), of "length (els s) - 1"] d Suc.prems(2)
    by (auto simp: last_conv_nth butlast_conv_take)
  have "take (Suc n) (rev (els s)) = last (els s) # take n (rev (butlast (els s)))"
    using Suc.prems(2) by (cases "els s" rule: rev_cases) auto
  with Suc.IH [OF e(3)] e Suc.prems(2) d show ?case by (simp add: split_def)
qed simp

lemma take_front_els:
  "inv s \<Longrightarrow> n \<le> length (els s) \<Longrightarrow> fst (take_front s n) = take n (els s)"
proof (induction n arbitrary: s)
  case (Suc n)
  obtain e s' where d: "del s 0 = (e, s')" by fastforce
  then obtain xs where "els s = e # xs" "els s' = xs" "inv s'"
    using del_fst [OF Suc.prems(1), of 0] del_els [OF Suc.prems(1), of 0] del_inv [OF Suc.prems(1), of 0] Suc.prems(2)
    by (cases "els s") auto
  with Suc.IH [of s'] Suc.prems(2) d show ?case by (simp add: split_def)
qed simp

text \<open>Last in, first out from the back; first in, first out from the front.\<close>

lemma lifo: "inv s \<Longrightarrow> append_all s es = (True, t) \<Longrightarrow> fst (take_back t (length es)) = rev es"
  using append_all_els [of s es t] take_back_els [of t "length es"] by simp

lemma fifo: "inv s \<Longrightarrow> append_all s es = (True, t) \<Longrightarrow> fst (take_front t (length (els s) + length es)) = els s @ es"
  using append_all_els [of s es t] take_front_els [of t "length (els s) + length es"] by simp

end

definition ins_stack :: "'p array_allocator \<Rightarrow> ('p, 'c) stack \<Rightarrow> 'p ptr \<Rightarrow> nat \<Rightarrow> nat \<times> ('p, 'c) stack" where
  "ins_stack malloc s p i = map_prod id the (sk_insert malloc (Some s) p i)"

definition del_stack :: "('p, 'c) stack \<Rightarrow> nat \<Rightarrow> 'p ptr \<times> ('p, 'c) stack" where
  "del_stack s i = map_prod id the (sk_delete (Some s) i)"

interpretation stk: sequence "\<lambda>s. array_sized malloc \<and> sk_wf s" elems "ins_stack malloc" del_stack for malloc :: "'p array_allocator"
proof
  fix s :: "('p, 'c) stack" and e :: "'p ptr" and i :: nat
  assume a: "array_sized malloc \<and> sk_wf s"
  obtain n sk' where run: "sk_insert malloc (Some s) e i = (n, sk')" by fastforce
  then obtain s' where "sk' = Some s'" "sk_wf s'"
    "if n = 0 then s' = s else n = Suc (stk_num s) \<and> elems s' = take i (elems s) @ [e] @ drop i (elems s) \<and> \<not> stk_sorted s'"
    using sk_insert_result a by metis
  with run a show "array_sized malloc \<and> sk_wf (snd (ins_stack malloc s e i))"
    "elems (snd (ins_stack malloc s e i)) = (if fst (ins_stack malloc s e i) = 0 then elems s else take i (elems s) @ [e] @ drop i (elems s))"
    "fst (ins_stack malloc s e i) \<noteq> 0 \<Longrightarrow> fst (ins_stack malloc s e i) = Suc (length (elems s))"
    by (auto simp: ins_stack_def split: if_splits)
  from sk_delete_result [of s i] a show "array_sized malloc \<and> sk_wf (snd (del_stack s i))"
    "elems (snd (del_stack s i)) = take i (elems s) @ drop (Suc i) (elems s)"
    "i < length (elems s) \<Longrightarrow> fst (del_stack s i) = elems s ! i"
    by (auto simp: del_stack_def)
qed


subsection \<open>Searching\<close>

text \<open>A comparison function: a total preorder whose sign is consistent when the arguments are swapped.\<close>

definition cmp_ok :: "('a \<Rightarrow> 'a \<Rightarrow> int) \<Rightarrow> bool" where
  "cmp_ok cmp \<longleftrightarrow> total_cmp cmp \<and> (\<forall>a b. cmp a b \<le> 0 \<longleftrightarrow> 0 \<le> cmp b a)"

text \<open>The flag \<open>sorted\<close> tells the truth.\<close>

definition sorted_flag_ok :: "('c \<Rightarrow> 'p ptr \<Rightarrow> 'p ptr \<Rightarrow> int) \<Rightarrow> ('p, 'c) stack \<Rightarrow> bool" where
  "sorted_flag_ok call s \<longleftrightarrow>
     (stk_sorted s \<longrightarrow> (case stk_comp s of None \<Rightarrow> True | Some f \<Rightarrow> sorted_wrt (\<lambda>a b. call f a b \<le> 0) (elems s)))"

definition is_first :: "('a \<Rightarrow> bool) \<Rightarrow> 'a list \<Rightarrow> nat option \<Rightarrow> bool" where
  "is_first P xs r \<longleftrightarrow>
     (case r of None \<Rightarrow> \<forall>x \<in> set xs. \<not> P x
      | Some i \<Rightarrow> i < length xs \<and> P (xs ! i) \<and> (\<forall>j < i. \<not> P (xs ! j)))"

lemma is_first_unique: "is_first P xs r \<Longrightarrow> is_first P xs r' \<Longrightarrow> r = r'"
  by (auto simp: is_first_def split: option.splits) (metis nth_mem linorder_neqE_nat)+

lemma first_index_is_first: "is_first P xs (map_option (\<lambda>i. i - k) (first_index P k xs)) \<and> (\<forall>i. first_index P k xs = Some i \<longrightarrow> k \<le> i)"
proof (induction xs arbitrary: k)
  case (Cons x xs)
  from Cons [of "Suc k"] show ?case
    by (cases "first_index P (Suc k) xs")
      (auto simp: is_first_def nth_Cons' Suc_diff_Suc split: if_splits)
qed (simp add: is_first_def)

lemma first_index_0: "is_first P xs (first_index P 0 xs)"
  using first_index_is_first [of P xs 0] by (simp add: option.map_ident)

text \<open>
  The binary search: everything before \<open>lo\<close> is smaller than the wanted element, everything from
  \<open>hi\<close> on is larger, or equal with an equal element left below \<open>hi\<close>.
\<close>

lemma sk_bsearch_is_first:
  fixes xs :: "'p ptr list"
  assumes mono: "\<And>i j. i \<le> j \<Longrightarrow> j < length xs \<Longrightarrow> cmp (xs ! j) > 0 \<Longrightarrow> cmp (xs ! i) > 0"
      "\<And>i j. i \<le> j \<Longrightarrow> j < length xs \<Longrightarrow> cmp (xs ! i) < 0 \<Longrightarrow> cmp (xs ! j) < 0"
    and data: "\<And>i. i < length xs \<Longrightarrow> data ! i = xs ! i"
  shows "lo \<le> hi \<Longrightarrow> hi \<le> length xs \<Longrightarrow> (\<forall>i < lo. cmp (xs ! i) > 0) \<Longrightarrow>
    (\<forall>i < length xs. hi \<le> i \<longrightarrow> cmp (xs ! i) < 0 \<or> (\<exists>j. lo \<le> j \<and> j < hi \<and> cmp (xs ! j) = 0)) \<Longrightarrow>
    is_first (\<lambda>x. cmp x = 0) xs (sk_bsearch cmp data lo hi)"
proof (induction "hi - lo" arbitrary: lo hi rule: less_induct)
  case less
  show ?case
  proof (cases "lo < hi")
    case False
    then have "cmp (xs ! i) \<noteq> 0" if "i < length xs" for i
      using that less.prems by (cases "i < lo") (auto simp: not_less)
    then show ?thesis using False by (auto simp: sk_bsearch.simps [of _ _ lo] is_first_def in_set_conv_nth)
  next
    case True
    define mid where "mid = lo + (hi - lo - 1) div 2"
    have mid: "lo \<le> mid" "mid < hi" "data ! mid = xs ! mid" using True less.prems(2) data by (auto simp: mid_def)
    note step = sk_bsearch.simps [of cmp data lo hi, unfolded Let_def mid_def [symmetric] mid(3)]
    consider "cmp (xs ! mid) > 0" | "cmp (xs ! mid) < 0" | "cmp (xs ! mid) = 0" "hi - lo = 1" | "cmp (xs ! mid) = 0" "hi - lo \<noteq> 1"
      by linarith
    then show ?thesis
    proof cases
      case 1
      have low: "cmp (xs ! i) > 0" if "i \<le> mid" for i using mono(1) [OF that _ 1] mid less.prems(2) by simp
      have "is_first (\<lambda>x. cmp x = 0) xs (sk_bsearch cmp data (mid + 1) hi)"
      proof (rule less.hyps)
        show "\<forall>i<length xs. hi \<le> i \<longrightarrow> cmp (xs ! i) < 0 \<or> (\<exists>j\<ge>mid + 1. j < hi \<and> cmp (xs ! j) = 0)"
        proof (intro allI impI)
          fix i assume "i < length xs" "hi \<le> i"
          with less.prems(4) consider "cmp (xs ! i) < 0" | j where "lo \<le> j" "j < hi" "cmp (xs ! j) = 0" by blast
          then show "cmp (xs ! i) < 0 \<or> (\<exists>j\<ge>mid + 1. j < hi \<and> cmp (xs ! j) = 0)"
          proof cases
            case 2
            then have "\<not> j \<le> mid" using low [of j] by auto
            with 2 show ?thesis by (intro disjI2 exI [of _ j]) simp
          qed simp
        qed
      qed (use True mid less.prems(2) low in \<open>auto simp: less_Suc_eq_le\<close>)
      then show ?thesis using step True 1 by simp
    next
      case 2
      have high: "cmp (xs ! i) < 0" if "mid \<le> i" "i < length xs" for i using mono(2) [OF that 2] .
      have "is_first (\<lambda>x. cmp x = 0) xs (sk_bsearch cmp data lo mid)"
        by (rule less.hyps) (use True mid less.prems high in auto)
      then show ?thesis using step True 2 by simp
    next
      case 3
      then have "mid = lo" using mid by simp
      then show ?thesis using step True 3 less.prems by (auto simp: is_first_def)
    next
      case 4
      then have "mid + 1 < hi" using True by (auto simp: mid_def)
      then have "is_first (\<lambda>x. cmp x = 0) xs (sk_bsearch cmp data lo (mid + 1))"
      proof (intro less.hyps)
        show "\<forall>i<length xs. mid + 1 \<le> i \<longrightarrow> cmp (xs ! i) < 0 \<or> (\<exists>j\<ge>lo. j < mid + 1 \<and> cmp (xs ! j) = 0)"
          using 4(1) mid(1) by (intro allI impI disjI2 exI [of _ mid]) simp
      qed (use True mid less.prems in auto)
      then show ?thesis using step True 4 by simp
    qed
  qed
qed

lemma sk_find_is_first:
  assumes "sk_wf s" and "sorted_flag_ok call s" and "\<And>f. stk_comp s = Some f \<Longrightarrow> cmp_ok (call f)"
    and "stk_comp s = Some f" and "p \<noteq> None"
  shows "is_first (\<lambda>x. call f p x = 0) (elems s) (sk_find call (Some s) p)"
proof (cases "stk_sorted s")
  case False
  then show ?thesis using assms(4,5) first_index_0 by (auto simp: sk_find_def sk_is_sorted_def elems_def)
next
  case True
  have ok: "cmp_ok (call f)" using assms(3,4) by blast
  have srt: "sorted_wrt (\<lambda>a b. call f a b \<le> 0) (elems s)" using assms(2,4) True by (simp add: sorted_flag_ok_def)
  have le: "call f (elems s ! i) (elems s ! j) \<le> 0" if "i \<le> j" "j < length (elems s)" for i j
  proof (cases "i = j")
    case True
    then show ?thesis using ok unfolding cmp_ok_def total_cmp_def by blast
  next
    case False
    then show ?thesis using sorted_wrt_nth_less [OF srt, of i j] that by simp
  qed
  have trans: "call f a b \<le> 0 \<Longrightarrow> call f b c \<le> 0 \<Longrightarrow> call f a c \<le> 0" for a b c
    using ok by (auto simp: cmp_ok_def total_cmp_def)
  have swap: "call f a b \<le> 0 \<longleftrightarrow> 0 \<le> call f b a" for a b using ok by (auto simp: cmp_ok_def)
  have "is_first (\<lambda>x. call f p x = 0) (elems s) (sk_bsearch (call f p) (stk_data s) 0 (stk_num s))"
  proof (rule sk_bsearch_is_first)
    fix i j assume ij: "i \<le> j" "j < length (elems s)"
    show "call f p (elems s ! i) > 0" if "call f p (elems s ! j) > 0"
      using that trans [of p "elems s ! i" "elems s ! j"] le [OF ij] by linarith
    show "call f p (elems s ! j) < 0" if "call f p (elems s ! i) < 0"
      using that trans [of "elems s ! i" "elems s ! j" p] le [OF ij] swap by (metis linorder_not_le)
  qed (use assms(1) in \<open>auto simp: elems_def sk_wf_def\<close>)
  then show ?thesis using True assms(4,5) by (auto simp: sk_find_def sk_is_sorted_def)
qed


subsection \<open>Programs of stack operations\<close>

datatype ('p, 'c) sk_cmd =
  Insert "'p ptr" nat | Push "'p ptr" | Delete nat | Delete_ptr "'p ptr" | Pop | Shift | Zero | Sort | Set_cmp "'c option"

datatype ('p, 'c) sk_result = Count nat | Pointer "'p ptr" | Function "'c option" | Done

fun run_sk :: "('c \<Rightarrow> 'p ptr \<Rightarrow> 'p ptr \<Rightarrow> int) \<Rightarrow> (('p ptr \<Rightarrow> 'p ptr \<Rightarrow> int) \<Rightarrow> 'p ptr list \<Rightarrow> 'p ptr list) \<Rightarrow> 'p array_allocator \<Rightarrow>
    ('p, 'c) sk_cmd \<Rightarrow> ('p, 'c) stack \<Rightarrow> ('p, 'c) sk_result \<times> ('p, 'c) stack option" where
  "run_sk call qsort malloc (Insert p i) s = map_prod Count id (sk_insert malloc (Some s) p i)"
| "run_sk call qsort malloc (Push p) s = map_prod Count id (sk_push malloc s p)"
| "run_sk call qsort malloc (Delete i) s = map_prod Pointer id (sk_delete (Some s) i)"
| "run_sk call qsort malloc (Delete_ptr p) s = map_prod Pointer id (sk_delete_ptr (Some s) p)"
| "run_sk call qsort malloc Pop s = map_prod Pointer id (sk_pop (Some s))"
| "run_sk call qsort malloc Shift s = map_prod Pointer id (sk_shift (Some s))"
| "run_sk call qsort malloc Zero s = (Done, sk_zero (Some s))"
| "run_sk call qsort malloc Sort s = (Done, sk_sort call qsort (Some s))"
| "run_sk call qsort malloc (Set_cmp f) s = map_prod Function Some (sk_set_cmp_func s f)"

fun run_sks :: "('c \<Rightarrow> 'p ptr \<Rightarrow> 'p ptr \<Rightarrow> int) \<Rightarrow> (('p ptr \<Rightarrow> 'p ptr \<Rightarrow> int) \<Rightarrow> 'p ptr list \<Rightarrow> 'p ptr list) \<Rightarrow> 'p array_allocator \<Rightarrow>
    ('p, 'c) sk_cmd list \<Rightarrow> ('p, 'c) stack option \<Rightarrow> ('p, 'c) sk_result list \<times> ('p, 'c) stack option" where
  "run_sks call qsort malloc (c # cs) (Some s) =
     (case run_sk call qsort malloc c s of (r, sk) \<Rightarrow> case run_sks call qsort malloc cs sk of (rs, sk') \<Rightarrow> (r # rs, sk'))"
| "run_sks call qsort malloc cs sk = ([], sk)"

text \<open>The abstract steps: on a list and the current comparison function. Only an insertion may fail.\<close>

inductive seq_step :: "('c \<Rightarrow> 'p ptr \<Rightarrow> 'p ptr \<Rightarrow> int) \<Rightarrow> ('p, 'c) sk_cmd \<Rightarrow> 'p ptr list \<times> 'c option \<Rightarrow> ('p, 'c) sk_result \<Rightarrow>
    'p ptr list \<times> 'c option \<Rightarrow> bool" for call where
  insert_fail: "seq_step call (Insert p i) (xs, f) (Count 0) (xs, f)"
| insert_ok: "seq_step call (Insert p i) (xs, f) (Count (Suc (length xs))) (take i xs @ [p] @ drop i xs, f)"
| push_fail: "seq_step call (Push p) (xs, f) (Count 0) (xs, f)"
| push_ok: "seq_step call (Push p) (xs, f) (Count (Suc (length xs))) (xs @ [p], f)"
| delete_out: "length xs \<le> i \<Longrightarrow> seq_step call (Delete i) (xs, f) (Pointer None) (xs, f)"
| delete_in: "seq_step call (Delete (length xs)) (xs @ [x] @ ys, f) (Pointer x) (xs @ ys, f)"
| delete_ptr_out: "p \<notin> set xs \<Longrightarrow> seq_step call (Delete_ptr p) (xs, f) (Pointer None) (xs, f)"
| delete_ptr_in: "p \<notin> set xs \<Longrightarrow> seq_step call (Delete_ptr p) (xs @ [p] @ ys, f) (Pointer p) (xs @ ys, f)"
| pop_empty: "seq_step call Pop ([], f) (Pointer None) ([], f)"
| pop_last: "seq_step call Pop (xs @ [x], f) (Pointer x) (xs, f)"
| shift_empty: "seq_step call Shift ([], f) (Pointer None) ([], f)"
| shift_first: "seq_step call Shift (x # xs, f) (Pointer x) (xs, f)"
| zero: "seq_step call Zero (xs, f) Done ([], f)"
| sort_none: "seq_step call Sort (xs, None) Done (xs, None)"
| sort_some: "mset ys = mset xs \<Longrightarrow> sorted_wrt (\<lambda>a b. call f a b \<le> 0) ys \<Longrightarrow> seq_step call Sort (xs, Some f) Done (ys, Some f)"
| set_cmp: "seq_step call (Set_cmp g) (xs, f) (Function f) (xs, g)"

inductive seq_steps :: "('c \<Rightarrow> 'p ptr \<Rightarrow> 'p ptr \<Rightarrow> int) \<Rightarrow> ('p, 'c) sk_cmd list \<Rightarrow> 'p ptr list \<times> 'c option \<Rightarrow> ('p, 'c) sk_result list \<Rightarrow>
    'p ptr list \<times> 'c option \<Rightarrow> bool" for call where
  finish: "seq_steps call [] a [] a"
| step: "seq_step call c a r b \<Longrightarrow> seq_steps call cs b rs d \<Longrightarrow> seq_steps call (c # cs) a (r # rs) d"

inductive_cases seq_step_PushE: "seq_step call (Push p) a r b"
inductive_cases seq_step_PopE: "seq_step call Pop a r b"
inductive_cases seq_step_ShiftE: "seq_step call Shift a r b"

abbreviation seq_of :: "('p, 'c) stack \<Rightarrow> 'p ptr list \<times> 'c option" where
  "seq_of s \<equiv> (elems s, stk_comp s)"

definition sk_inv :: "('c \<Rightarrow> 'p ptr \<Rightarrow> 'p ptr \<Rightarrow> int) \<Rightarrow> ('p, 'c) stack \<Rightarrow> bool" where
  "sk_inv call s \<longleftrightarrow> sk_wf s \<and> sorted_flag_ok call s"

lemma elems_nth_split: "i < length xs \<Longrightarrow> xs = take i xs @ [xs ! i] @ drop (Suc i) xs"
  by (simp add: id_take_nth_drop)

lemma sorted_wrt_remove: "sorted_wrt P xs \<Longrightarrow> sorted_wrt P (take i xs @ drop (Suc i) xs)"
proof -
  assume "sorted_wrt P xs"
  then have "sorted_wrt P (take i xs @ drop i xs)" by simp
  then show ?thesis by (cases "drop i xs") (auto simp: sorted_wrt_append drop_Suc tl_drop [symmetric])
qed

lemma sk_delete_inv:
  assumes "sk_inv call s"
  obtains s' where "sk_delete (Some s) i = (if i < stk_num s then elems s ! i else None, Some s')" and "sk_inv call s'"
    and "elems s' = take i (elems s) @ drop (Suc i) (elems s)" and "stk_comp s' = stk_comp s"
proof -
  from sk_delete_result [of s i] assms obtain s' where "sk_delete (Some s) i = (if i < stk_num s then elems s ! i else None, Some s')"
    "sk_wf s'" "elems s' = take i (elems s) @ drop (Suc i) (elems s)" "stk_comp s' = stk_comp s" "stk_sorted s' = stk_sorted s"
    unfolding sk_inv_def by blast
  then show thesis using assms sorted_wrt_remove by (intro that [of s']) (auto simp: sk_inv_def sorted_flag_ok_def split: option.splits)
qed

lemma sk_insert_inv:
  assumes "array_sized malloc" and "sk_inv call s" and "sk_insert malloc (Some s) p i = (n, sk')"
  obtains s' where "sk' = Some s'" and "sk_inv call s'" and "stk_comp s' = stk_comp s"
    and "if n = 0 then s' = s else n = Suc (stk_num s) \<and> elems s' = take i (elems s) @ [p] @ drop i (elems s)"
proof -
  have "sk_wf s" using assms(2) by (simp add: sk_inv_def)
  from sk_insert_result [OF assms(1) this assms(3)] obtain s' where s': "sk' = Some s'" "sk_wf s'" "stk_comp s' = stk_comp s"
    "if n = 0 then s' = s else n = Suc (stk_num s) \<and> elems s' = take i (elems s) @ [p] @ drop i (elems s) \<and> \<not> stk_sorted s'" .
  then have "sk_inv call s'" using assms(2) by (auto simp: sk_inv_def sorted_flag_ok_def split: if_splits)
  then show thesis using s' by (intro that [of s']) (auto split: if_splits)
qed


lemma sk_zero_inv:
  assumes "sk_inv call s"
  obtains s' where "sk_zero (Some s) = Some s'" and "sk_inv call s'" and "elems s' = []" and "stk_comp s' = stk_comp s"
proof (cases "stk_num s = 0")
  case True
  then show thesis using assms that [of s] by (simp add: sk_zero_def elems_def)
next
  case False
  let ?s' = "s\<lparr>stk_data := mem_store (stk_data s) 0 (replicate (stk_num s) None), stk_num := 0, stk_sorted := False\<rparr>"
  show thesis
    by (rule that [of ?s']) (use False assms in \<open>auto simp: sk_zero_def sk_inv_def sk_wf_def sorted_flag_ok_def elems_def\<close>)
qed

lemma sk_sort_inv:
  assumes "qsort_contract qsort" and "\<forall>f. cmp_ok (call f)" and "sk_inv call s"
  obtains s' where "sk_sort call qsort (Some s) = Some s'" and "sk_inv call s'" and "stk_comp s' = stk_comp s"
    and "mset (elems s') = mset (elems s)" and "stk_comp s = None \<longrightarrow> s' = s"
    and "\<forall>f. stk_comp s = Some f \<longrightarrow> stk_sorted s' \<and> sorted_wrt (\<lambda>a b. call f a b \<le> 0) (elems s')"
proof (cases "stk_comp s")
  case None
  then show thesis using assms(3) by (intro that [of s]) (auto simp: sk_sort_def)
next
  case (Some f)
  show thesis
  proof (cases "stk_sorted s")
    case True
    then show thesis using Some assms(3) by (intro that [of s]) (auto simp: sk_sort_def sk_inv_def sorted_flag_ok_def)
  next
    case False
    define xs where "xs = (if stk_num s \<ge> 2 then qsort (call f) (elems s) else elems s)"
    have wf: "sk_wf s" using assms(3) by (simp add: sk_inv_def)
    have tot: "total_cmp (call f)" using assms(2) by (simp add: cmp_ok_def)
    have m: "mset xs = mset (elems s)" using assms(1) by (simp add: xs_def qsort_contract_def)
    then have len: "length xs = stk_num s" using wf by (metis length_elems mset_eq_length)
    have srt: "sorted_wrt (\<lambda>a b. call f a b \<le> 0) xs"
    proof (cases "stk_num s \<ge> 2")
      case True
      then show ?thesis using assms(1) tot by (simp add: xs_def qsort_contract_def)
    next
      case False
      then show ?thesis using len by (cases xs rule: remdups_adj.cases) auto
    qed
    define s' where "s' = s\<lparr>stk_data := (if stk_num s \<ge> 2 then mem_store (stk_data s) 0 (qsort (call f) (take (stk_num s) (stk_data s))) else stk_data s), stk_sorted := True\<rparr>"
    have "qsort (call f) (elems s) = xs" if "stk_num s \<ge> 2" using that by (simp add: xs_def)
    then have el: "elems s' = xs" "length (stk_data s') = length (stk_data s)" "stk_num s' = stk_num s"
      using wf len by (auto simp: s'_def elems_def mem_store_def xs_def sk_wf_def)
    have "sk_sort call qsort (Some s) = Some s'" using Some False by (simp add: sk_sort_def s'_def)
    then show thesis
      by (rule that) (use el m srt wf Some in \<open>auto simp: s'_def sk_inv_def sk_wf_def sorted_flag_ok_def\<close>)
  qed
qed

lemma sk_set_cmp_inv:
  "sk_inv call s \<Longrightarrow> \<exists>s'. sk_set_cmp_func s f = (stk_comp s, s') \<and> sk_inv call s' \<and> elems s' = elems s \<and> stk_comp s' = f"
  by (auto simp: sk_set_cmp_func_def sk_inv_def sk_wf_def sorted_flag_ok_def elems_def split: option.splits)

lemma first_index_elems:
  assumes "sk_wf s"
  shows "is_first (\<lambda>x. x = p) (elems s) (first_index (\<lambda>x. x = p) 0 (take (stk_num s) (stk_data s)))"
  using first_index_0 by (simp add: elems_def)

lemma sk_inv_wf: "sk_inv call s \<Longrightarrow> sk_wf s"
  by (simp add: sk_inv_def)

lemma sk_delete_at:
  assumes inv: "sk_inv call s" and i: "i < stk_num s"
  shows "\<exists>s'. sk_delete (Some s) i = (elems s ! i, Some s') \<and> sk_inv call s' \<and> elems s' = take i (elems s) @ drop (Suc i) (elems s) \<and>
      stk_comp s' = stk_comp s"
  by (rule sk_delete_inv [OF inv, of i]) (use i in auto)

lemma run_sk_delete:
  assumes inv: "sk_inv call s" and run: "run_sk call qsort malloc (Delete i) s = (r, sk')"
  shows "\<exists>s'. sk' = Some s' \<and> sk_inv call s' \<and> seq_step call (Delete i) (seq_of s) r (seq_of s')"
proof -
  note wf = sk_inv_wf [OF inv] and del = sk_delete_at [OF inv]
  show ?thesis
  proof (cases "i < stk_num s")
    case True
    from del [OF this] obtain s' where "sk_delete (Some s) i = (elems s ! i, Some s')" "sk_inv call s'"
      "elems s' = take i (elems s) @ drop (Suc i) (elems s)" "stk_comp s' = stk_comp s" by blast
    moreover have "length (take i (elems s)) = i" using True wf by simp
    ultimately show ?thesis
      using run seq_step.delete_in [of call "take i (elems s)" "elems s ! i" "drop (Suc i) (elems s)"] elems_nth_split [of i "elems s"] True wf
      by (auto simp del: append.assoc)
  next
    case False
    then show ?thesis using run inv wf by (auto simp: sk_delete_def intro!: seq_step.delete_out)
  qed
qed

lemma run_sk_delete_ptr:
  assumes inv: "sk_inv call s" and run: "run_sk call qsort malloc (Delete_ptr p) s = (r, sk')"
  shows "\<exists>s'. sk' = Some s' \<and> sk_inv call s' \<and> seq_step call (Delete_ptr p) (seq_of s) r (seq_of s')"
proof -
  note wf = sk_inv_wf [OF inv] and del = sk_delete_at [OF inv]
  show ?thesis
  proof (cases "first_index (\<lambda>x. x = p) 0 (take (stk_num s) (stk_data s))")
    case None
    then have "p \<notin> set (elems s)" using first_index_elems [OF wf, of p] by (auto simp: is_first_def)
    then show ?thesis using None run inv by (auto simp: sk_delete_ptr_def intro: seq_step.delete_ptr_out)
  next
    case (Some i)
    then have i: "i < stk_num s" "elems s ! i = p" "\<forall>j<i. elems s ! j \<noteq> p"
      using first_index_elems [OF wf, of p] wf by (auto simp: is_first_def)
    then have "p \<notin> set (take i (elems s))" by (auto simp: in_set_conv_nth)
    with del [OF i(1)] i Some run wf show ?thesis
      using seq_step.delete_ptr_in [of p "take i (elems s)" call "drop (Suc i) (elems s)"] elems_nth_split [of i "elems s"]
      by (auto simp: sk_delete_ptr_def)
  qed
qed

lemma run_sk_pop:
  assumes inv: "sk_inv call s" and run: "run_sk call qsort malloc Pop s = (r, sk')"
  shows "\<exists>s'. sk' = Some s' \<and> sk_inv call s' \<and> seq_step call Pop (seq_of s) r (seq_of s')"
proof -
  note wf = sk_inv_wf [OF inv] and del = sk_delete_at [OF inv]
  show ?thesis
  proof (cases "stk_num s = 0")
    case True
    then show ?thesis using run inv by (auto simp: sk_pop_def elems_def intro: seq_step.pop_empty)
  next
    case False
    then have "elems s \<noteq> []" using wf by (metis length_elems length_0_conv)
    then have "take (stk_num s - 1) (elems s) = butlast (elems s)" "drop (Suc (stk_num s - 1)) (elems s) = []" "elems s ! (stk_num s - 1) = last (elems s)"
      using wf False by (simp_all add: butlast_conv_take last_conv_nth)
    with del [of "stk_num s - 1"] False run show ?thesis
      using seq_step.pop_last [of call "butlast (elems s)" "last (elems s)"] \<open>elems s \<noteq> []\<close> by (auto simp: sk_pop_def)
  qed
qed

lemma run_sk_shift:
  assumes inv: "sk_inv call s" and run: "run_sk call qsort malloc Shift s = (r, sk')"
  shows "\<exists>s'. sk' = Some s' \<and> sk_inv call s' \<and> seq_step call Shift (seq_of s) r (seq_of s')"
proof -
  note wf = sk_inv_wf [OF inv] and del = sk_delete_at [OF inv]
  show ?thesis
  proof (cases "elems s")
    case Nil
    then have "stk_num s = 0" using length_elems [OF wf] by simp
    then show ?thesis using Nil run inv by (auto simp: sk_shift_def intro: seq_step.shift_empty)
  next
    case (Cons x xs)
    then have "0 < stk_num s" using length_elems [OF wf] by auto
    with del [of 0] Cons run show ?thesis using seq_step.shift_first [of call x xs] by (auto simp: sk_shift_def)
  qed
qed

lemma run_sk_step:
  assumes "array_sized malloc" and "qsort_contract qsort" and "\<forall>f. cmp_ok (call f)" and inv: "sk_inv call s"
    and run: "run_sk call qsort malloc c s = (r, sk')"
  shows "\<exists>s'. sk' = Some s' \<and> sk_inv call s' \<and> seq_step call c (seq_of s) r (seq_of s')"
proof -
  have wf: "sk_wf s" using inv by (rule sk_inv_wf)
  show ?thesis
  proof (cases c)
    case (Insert p i)
    obtain n sk1 where ins: "sk_insert malloc (Some s) p i = (n, sk1)" by fastforce
    from sk_insert_inv [OF assms(1) inv ins] obtain s' where "sk1 = Some s'" "sk_inv call s'" "stk_comp s' = stk_comp s"
      "if n = 0 then s' = s else n = Suc (stk_num s) \<and> elems s' = take i (elems s) @ [p] @ drop i (elems s)" .
    then show ?thesis using run Insert ins wf seq_step.insert_ok [of call p i "elems s"] seq_step.insert_fail [of call p i "elems s"]
      by (cases "n = 0") auto
  next
    case (Push p)
    obtain n sk1 where ins: "sk_insert malloc (Some s) p (stk_num s) = (n, sk1)" by fastforce
    from sk_insert_inv [OF assms(1) inv ins] obtain s' where "sk1 = Some s'" "sk_inv call s'" "stk_comp s' = stk_comp s"
      "if n = 0 then s' = s else n = Suc (stk_num s) \<and> elems s' = take (stk_num s) (elems s) @ [p] @ drop (stk_num s) (elems s)" .
    then show ?thesis using run Push ins wf seq_step.push_ok [of call p "elems s"] seq_step.push_fail [of call p "elems s"]
      by (cases "n = 0") (auto simp: sk_push_def)
  next
    case (Delete i)
    then show ?thesis using run_sk_delete [OF inv] run by blast
  next
    case (Delete_ptr p)
    then show ?thesis using run_sk_delete_ptr [OF inv] run by blast
  next
    case Pop
    then show ?thesis using run_sk_pop [OF inv] run by blast
  next
    case Shift
    then show ?thesis using run_sk_shift [OF inv] run by blast
  next
    case Zero
    from sk_zero_inv [OF inv] obtain s' where "sk_zero (Some s) = Some s'" "sk_inv call s'" "elems s' = []" "stk_comp s' = stk_comp s" .
    then show ?thesis using run Zero seq_step.zero [of call "elems s" "stk_comp s"] by (intro exI [of _ s']) auto
  next
    case Sort
    from sk_sort_inv [OF assms(2,3) inv] obtain s' where s': "sk_sort call qsort (Some s) = Some s'" "sk_inv call s'" "stk_comp s' = stk_comp s"
      "mset (elems s') = mset (elems s)" "stk_comp s = None \<longrightarrow> s' = s"
      "\<forall>f. stk_comp s = Some f \<longrightarrow> stk_sorted s' \<and> sorted_wrt (\<lambda>a b. call f a b \<le> 0) (elems s')" .
    then have "seq_step call Sort (seq_of s) Done (seq_of s')"
      by (cases "stk_comp s") (simp_all add: seq_step.sort_none seq_step.sort_some)
    then show ?thesis using run Sort s'(1,2) by (intro exI [of _ s']) auto
  next
    case (Set_cmp f)
    then show ?thesis using run sk_set_cmp_inv [OF inv, of f] seq_step.set_cmp [of call f "elems s" "stk_comp s"] by auto
  qed
qed

lemma run_sks_steps:
  assumes "array_sized malloc" and "qsort_contract qsort" and "\<forall>f. cmp_ok (call f)"
  shows "sk_inv call s \<Longrightarrow> run_sks call qsort malloc cs (Some s) = (rs, sk') \<Longrightarrow>
    \<exists>s'. sk' = Some s' \<and> sk_inv call s' \<and> seq_steps call cs (seq_of s) rs (seq_of s')"
proof (induction cs arbitrary: s rs)
  case Nil
  then show ?case by (auto intro: seq_steps.finish)
next
  case (Cons c cs)
  obtain r sk1 where run: "run_sk call qsort malloc c s = (r, sk1)" by fastforce
  from run_sk_step [OF assms Cons.prems(1) run] obtain s1 where s1: "sk1 = Some s1" "sk_inv call s1" "seq_step call c (seq_of s) r (seq_of s1)" by blast
  obtain rs1 where "run_sks call qsort malloc cs (Some s1) = (rs1, sk')" "rs = r # rs1"
    using Cons.prems(2) run s1(1) by (auto split: prod.splits)
  with Cons.IH [OF s1(2)] s1(3) show ?case by (blast intro: seq_steps.step)
qed

lemma sk_new_inv: "sk_new malloc f = Some s \<Longrightarrow> sk_inv call s \<and> seq_of s = ([], f)"
  using sk_new_wf [of malloc f s] by (auto simp: sk_inv_def sorted_flag_ok_def)

lemma elems_nth: "sk_wf s \<Longrightarrow> i < stk_num s \<Longrightarrow> stk_data s ! i = elems s ! i"
  by (simp add: elems_def)

lemma map_sum_Inr: "map_sum f g x = Inr y \<longleftrightarrow> (\<exists>z. x = Inr z \<and> y = g z)"
  by (cases x) auto

lemma map_filter_ext: "(\<And>x. x \<in> set xs \<Longrightarrow> f x = g x) \<Longrightarrow> List.map_filter f xs = List.map_filter g xs"
  by (induction xs) (simp_all add: List.map_filter_def)

lemma deep_copy_loop_eq:
  "num \<le> length data \<Longrightarrow> i \<le> num \<Longrightarrow> List.map_filter (\<lambda>j. data ! j) [0..<i] = made \<Longrightarrow>
   deep_copy_loop copy num i made data =
     map_sum id (\<lambda>ys. take i data @ ys @ drop num data) (copy_all copy made (drop i (take num data)))"
proof (induction "num - i" arbitrary: i made data)
  case 0
  then show ?case by (subst deep_copy_loop.simps) simp
next
  case (Suc m)
  then have i: "i < num" by simp
  have tl: "drop i (take num data) = data ! i # drop (Suc i) (take num data)"
    using i Suc.prems(1) by (metis Cons_nth_drop_Suc length_take min.absorb2 nth_take)
  show ?case
  proof (cases "data ! i")
    case None
    have mf: "List.map_filter (\<lambda>j. data ! j) [0..<Suc i] = made"
      using None Suc.prems(3) by (simp add: List.map_filter_def)
    have "take (Suc i) data = take i data @ [None]" using i Suc.prems(1) None by (simp add: take_Suc_conv_app_nth)
    then show ?thesis
      using Suc.hyps(1) [of "Suc i" data made] Suc.hyps(2) Suc.prems i mf None tl
      by (simp add: deep_copy_loop.simps [of _ num i _ data] sum.map_comp comp_def id_def)
  next
    case (Some x)
    show ?thesis
    proof (cases "copy made x")
      case None
      then show ?thesis using Some i Suc.prems(3) tl by (simp add: deep_copy_loop.simps [of _ num i _ data])
    next
      case y: (Some y)
      let ?d = "data[i := Some y]"
      have "List.map_filter (\<lambda>j. ?d ! j) [0..<i] = List.map_filter (\<lambda>j. data ! j) [0..<i]"
        by (rule map_filter_ext) auto
      then have mf: "List.map_filter (\<lambda>j. ?d ! j) [0..<Suc i] = made @ [y]"
        using Suc.prems i by (simp add: List.map_filter_def)
      have t: "take (Suc i) ?d = take i data @ [Some y]" "drop (Suc i) (take num ?d) = drop (Suc i) (take num data)" "drop num ?d = drop num data"
        using i Suc.prems(1) by (simp_all add: take_Suc_conv_app_nth take_update_swap drop_update_swap list_update_append)
      then show ?thesis
        using Suc.hyps(1) [of "Suc i" ?d "made @ [y]"] Suc.hyps(2) Suc.prems i mf Some y tl
        by (simp add: deep_copy_loop.simps [of _ num i _ data] sum.map_comp comp_def id_def)
    qed
  qed
qed


lemma sk_dup_Some:
  assumes "array_sized malloc" and "sk_wf s" and "sk_dup malloc (Some s) = Some t"
  shows "sk_wf t \<and> elems t = elems s \<and> stk_comp t = stk_comp s \<and> stk_sorted t = stk_sorted s \<and> stk_num t = stk_num s"
proof -
  have sz: "size_mul 8 (stk_num_alloc s) = 8 * stk_num_alloc s" using assms(2) by (simp add: sk_wf_def)
  then obtain fresh where fresh: "array_malloc malloc (8 * stk_num_alloc s) = Some fresh"
    and t: "t = \<lparr>stk_num = stk_num s, stk_data = mem_store fresh 0 (take (stk_num s) (stk_data s)),
                          stk_sorted = stk_sorted s, stk_num_alloc = stk_num_alloc s, stk_comp = stk_comp s\<rparr>"
    using assms(3) by (auto simp: sk_dup_def split: option.splits)
  have "length fresh = stk_num_alloc s" using array_malloc_length [OF assms(1) fresh] .
  then show ?thesis using assms(2) t by (simp add: sk_wf_def elems_def mem_store_def)
qed

text \<open>A concrete allocator and comparison function, for the examples.\<close>

definition null_array_malloc :: "'p array_allocator" where
  "null_array_malloc n = Some (replicate (n div 8) None)"

definition int_cmp :: "unit \<Rightarrow> int ptr \<Rightarrow> int ptr \<Rightarrow> int" where
  "int_cmp f a b = (case (a, b) of (None, None) \<Rightarrow> 0 | (None, Some y) \<Rightarrow> -1 | (Some x, None) \<Rightarrow> 1 | (Some x, Some y) \<Rightarrow> x - y)"

definition example_stack :: "(int, unit) stack" where
  "example_stack = \<lparr>stk_num = 4, stk_data = [Some 1, Some 2, Some 3, Some 4, None, None, None, None], stk_sorted = True,
     stk_num_alloc = 8, stk_comp = Some ()\<rparr>"

lemma null_array_malloc_sized: "array_sized null_array_malloc"
  by (auto simp: array_sized_def null_array_malloc_def)

lemma int_cmp_ok: "cmp_ok (int_cmp f)"
  by (auto simp: cmp_ok_def total_cmp_def int_cmp_def split: option.splits)

lemma replicate_small: "replicate 4 x = [x, x, x, x]" "replicate 9 x = [x, x, x, x, x, x, x, x, x]"
  by (simp_all add: numeral_eq_Suc)

lemma example_new: "sk_new null_array_malloc (Some ()) =
    Some \<lparr>stk_num = 0, stk_data = replicate 4 None, stk_sorted = False, stk_num_alloc = 4, stk_comp = Some ()\<rparr>"
  by (simp add: sk_new_def array_malloc_def null_array_malloc_def OPENSSL_MALLOC_PREFIX_def sizeof_STACK_def kMinSize_def)

lemma example_run:
  "run_sks int_cmp sort_by null_array_malloc [Push (Some 3), Push (Some 1), Insert (Some 2) 1, Push (Some 4), Sort] (sk_new null_array_malloc (Some ())) =
     ([Count 1, Count 2, Count 3, Count 4, Done], Some example_stack)"
  by (simp add: example_new sk_push_def sk_insert_def sk_grow_def array_realloc_def array_malloc_def null_array_malloc_def
      OPENSSL_MALLOC_PREFIX_def mem_store_def sk_sort_def sort_by_def int_cmp_def example_stack_def Let_def replicate_small)

text \<open>C17. Any sequence of insertions, deletions, sorting and changes of the comparison function on a new stack
  behaves like the same sequence on a list: results and contents agree, only insertions may fail,
  and then they change nothing.\<close>

theorem stack_refines_list:
  assumes "array_sized malloc" and "qsort_contract qsort" and "\<forall>f. cmp_ok (call f)" and "sk_new malloc f = Some s"
    and "run_sks call qsort malloc cs (Some s) = (rs, sk')"
  shows "\<exists>s'. sk' = Some s' \<and> sk_wf s' \<and> seq_steps call cs ([], f) rs (elems s', stk_comp s')"
  using run_sks_steps [OF assms(1-3) _ assms(5)] sk_new_inv [OF assms(4), of call] by (auto simp: sk_inv_def)

theorem stack_refines_list_witness:
  "seq_steps int_cmp [Push (Some 3), Push (Some 1), Insert (Some 2) 1, Push (Some 4), Sort] ([], Some ())
     [Count 1, Count 2, Count 3, Count 4, Done] ([Some 1, Some 2, Some 3, Some 4], Some ())"
  using stack_refines_list [OF null_array_malloc_sized sort_by_qsort allI [OF int_cmp_ok] example_new example_run [unfolded example_new]]
  by (simp add: example_stack_def elems_def)

text \<open>C18. In every state that the operations of \<open>sk_cmd\<close> (insert, push, delete, delete by pointer, pop, shift, zero,
  sort and change of the comparison function) reach from a new stack, the flag \<open>sorted\<close> is honest, and
  \<open>sk_find\<close> returns the first match, in its linear and in its binary search. \<open>sk_set\<close> is not among these operations:
  it can break the order behind the flag. Nor is \<open>sk_deep_copy\<close>, whose copies need not compare as the originals do.\<close>

theorem sk_find_first:
  assumes "array_sized malloc" and "qsort_contract qsort" and "\<forall>f. cmp_ok (call f)" and "sk_new malloc f = Some s"
    and "run_sks call qsort malloc cs (Some s) = (rs, Some s')"
  shows "sorted_flag_ok call s' \<and>
    (case stk_comp s' of
       None \<Rightarrow> is_first (\<lambda>x. x = p) (elems s') (sk_find call (Some s') p)
     | Some g \<Rightarrow> if p = None then sk_find call (Some s') p = None
                 else is_first (\<lambda>x. call g p x = 0) (elems s') (sk_find call (Some s') p))"
proof -
  have inv: "sk_inv call s'" using run_sks_steps [OF assms(1-3) _ assms(5)] sk_new_inv [OF assms(4), of call] by auto
  then have wf: "sk_wf s'" "sorted_flag_ok call s'" by (simp_all add: sk_inv_def)
  show ?thesis
    using wf sk_find_is_first [OF wf, of _ p] assms(3) first_index_elems [OF wf(1), of p]
    by (auto simp: sk_find_def split: option.splits)
qed

theorem sk_find_first_witness:
  "sorted_flag_ok int_cmp example_stack \<and> is_first (\<lambda>x. int_cmp () (Some 3) x = 0) (elems example_stack) (sk_find int_cmp (Some example_stack) (Some 3))"
  using sk_find_first [OF null_array_malloc_sized sort_by_qsort allI [OF int_cmp_ok] example_new example_run [unfolded example_new], of "Some 3"]
  by (simp add: example_stack_def)

text \<open>C19. \<open>sk_deep_copy\<close> returns copies of the elements in order, or, when one copy fails, frees exactly the
  copies made before and returns NULL.\<close>

theorem sk_deep_copy_correct:
  assumes "array_sized malloc" and "sk_wf s"
  shows "case sk_deep_copy malloc copy (Some s) of
           (freed, None) \<Rightarrow> freed = [] \<and> sk_dup malloc (Some s) = None \<or> copy_all copy [] (elems s) = Inl freed
         | (freed, Some t) \<Rightarrow> freed = [] \<and> sk_wf t \<and> stk_comp t = stk_comp s \<and> copy_all copy [] (elems s) = Inr (elems t)"
proof (cases "sk_dup malloc (Some s)")
  case None
  then show ?thesis by (simp add: sk_deep_copy_def)
next
  case (Some t)
  note t = sk_dup_Some [OF assms Some]
  have "stk_num t \<le> length (stk_data t)" using t by (simp add: sk_wf_def)
  from deep_copy_loop_eq [OF this, of 0 "[]" copy]
  have "deep_copy_loop copy (stk_num t) 0 [] (stk_data t) =
      map_sum id (\<lambda>ys. ys @ drop (stk_num t) (stk_data t)) (copy_all copy [] (elems t))"
    by (simp add: elems_def List.map_filter_def)
  then have loop: "deep_copy_loop copy (stk_num t) 0 [] (stk_data t) =
      map_sum id (\<lambda>ys. ys @ drop (stk_num t) (stk_data t)) (copy_all copy [] (elems s))"
    using t by simp
  have len: "copy_all copy made xs = Inr ys \<Longrightarrow> length ys = length xs" for made xs ys
    by (induction copy made xs arbitrary: ys rule: copy_all.induct) (auto simp: map_sum_Inr split: option.splits)
  show ?thesis
  proof (cases "copy_all copy [] (elems s)")
    case (Inl made)
    then show ?thesis using Some loop by (simp add: sk_deep_copy_def)
  next
    case (Inr ys)
    then show ?thesis using Some loop t len [OF Inr] assms(2) by (simp add: sk_deep_copy_def sk_wf_def elems_def)
  qed
qed


theorem sk_deep_copy_correct_witness:
  "fst (sk_deep_copy null_array_malloc (\<lambda>made x. if length made < 2 then Some (x + 10) else None) (Some example_stack)) = [11, 12]"
proof -
  have wf: "sk_wf example_stack" by (simp add: sk_wf_def example_stack_def)
  have dup: "sk_dup null_array_malloc (Some example_stack) \<noteq> None"
    by (simp add: sk_dup_def example_stack_def array_malloc_def null_array_malloc_def OPENSSL_MALLOC_PREFIX_def sizeof_STACK_def)
  have "copy_all (\<lambda>made x. if length made < 2 then Some (x + 10) else None) [] (elems example_stack) = Inl [11, 12]"
    by (simp add: example_stack_def elems_def)
  with sk_deep_copy_correct [OF null_array_malloc_sized wf, of "\<lambda>made x. if length made < 2 then Some (x + 10) else None"] dup show ?thesis
    by (auto split: prod.splits option.splits)
qed

subsection \<open>Stacks and queues\<close>

primrec push_all :: "'p array_allocator \<Rightarrow> ('p, 'c) stack \<Rightarrow> 'p ptr list \<Rightarrow> ('p, 'c) stack option" where
  "push_all malloc s [] = Some s"
| "push_all malloc s (p # ps) =
     (case sk_push malloc s p of (n, sk) \<Rightarrow> if n = 0 then None else push_all malloc (the sk) ps)"

primrec pop_all :: "('p, 'c) stack option \<Rightarrow> nat \<Rightarrow> 'p ptr list" where
  "pop_all sk 0 = []"
| "pop_all sk (Suc n) = (case sk_pop sk of (p, sk') \<Rightarrow> p # pop_all sk' n)"

primrec shift_all :: "('p, 'c) stack option \<Rightarrow> nat \<Rightarrow> 'p ptr list" where
  "shift_all sk 0 = []"
| "shift_all sk (Suc n) = (case sk_shift sk of (p, sk') \<Rightarrow> p # shift_all sk' n)"

lemma push_all_append:
  "array_sized malloc \<Longrightarrow> sk_wf s \<Longrightarrow> push_all malloc s ps = Some t \<Longrightarrow> stk.append_all malloc s ps = (True, t)"
proof (induction ps arbitrary: s)
  case (Cons p ps)
  obtain n sk where ins: "sk_insert malloc (Some s) p (stk_num s) = (n, sk)" by fastforce
  have n: "n \<noteq> 0" "push_all malloc (the sk) ps = Some t" using Cons.prems(3) ins by (auto simp: sk_push_def split: if_splits)
  have "sk_wf (the sk)" using stk.ins_inv [of malloc s p "stk_num s"] Cons.prems ins by (simp add: ins_stack_def)
  from Cons.IH [OF Cons.prems(1) this n(2)] n(1) Cons.prems(2) show ?case
    using ins_stack_def [of malloc s p "stk_num s"] ins by simp
qed simp

lemma sk_delete_del: "sk_wf s \<Longrightarrow> sk_delete (Some s) i = map_prod id Some (del_stack s i)"
  using sk_delete_result [of s i] by (auto simp: del_stack_def)

lemma pop_all_take_back:
  fixes malloc :: "'p array_allocator" and s :: "('p, 'c) stack"
  shows "array_sized malloc \<Longrightarrow> sk_wf s \<Longrightarrow> n \<le> stk_num s \<Longrightarrow> pop_all (Some s) n = fst (stk.take_back s n)"
proof (induction n arbitrary: s)
  case (Suc n)
  obtain p t where d: "del_stack s (stk_num s - 1) = (p, t)" by fastforce
  have "sk_wf t" using stk.del_inv [of malloc s "stk_num s - 1"] Suc.prems d by simp
  moreover have "length (elems t) = stk_num s - 1" using stk.del_els [of malloc s "stk_num s - 1"] Suc.prems d by simp
  ultimately show ?case using Suc d sk_delete_del [OF Suc.prems(2)] by (auto simp: sk_pop_def split_def)
qed simp

lemma shift_all_take_front:
  fixes malloc :: "'p array_allocator" and s :: "('p, 'c) stack"
  shows "array_sized malloc \<Longrightarrow> sk_wf s \<Longrightarrow> n \<le> stk_num s \<Longrightarrow> shift_all (Some s) n = fst (stk.take_front s n)"
proof (induction n arbitrary: s)
  case (Suc n)
  obtain p t where d: "del_stack s 0 = (p, t)" by fastforce
  have "sk_wf t" using stk.del_inv [of malloc s 0] Suc.prems d by simp
  moreover have "length (elems t) = stk_num s - 1" using stk.del_els [of malloc s 0] Suc.prems d by simp
  ultimately show ?case using Suc d sk_delete_del [OF Suc.prems(2)] by (auto simp: sk_shift_def split_def)
qed simp

text \<open>A new stack is last in, first out under \<open>sk_push\<close> and \<open>sk_pop\<close>, and first in, first out under \<open>sk_push\<close>
  and \<open>sk_shift\<close>.\<close>

theorem stack_lifo_fifo:
  assumes "array_sized malloc" and "sk_new malloc f = Some s" and "push_all malloc s ps = Some t"
  shows "pop_all (Some t) (length ps) = rev ps \<and> shift_all (Some t) (length ps) = ps"
proof -
  have new: "sk_wf s" "elems s = []" using sk_new_wf [OF assms(2)] by simp_all
  have app: "stk.append_all malloc s ps = (True, t)" by (rule push_all_append [OF assms(1) new(1) assms(3)])
  have t: "sk_wf t" "elems t = ps" using stk.append_all_els [of malloc s ps t] app assms(1) new by simp_all
  then have n: "stk_num t = length ps" using length_elems [of t] by simp
  show ?thesis
    using stk.lifo [of malloc s ps t] stk.fifo [of malloc s ps t] app assms(1) new t n
      pop_all_take_back [OF assms(1) t(1)] shift_all_take_front [OF assms(1) t(1)] by simp
qed

theorem stack_lifo_fifo_witness:
  "\<exists>t. push_all null_array_malloc \<lparr>stk_num = 0, stk_data = replicate 4 None, stk_sorted = False, stk_num_alloc = 4, stk_comp = Some ()\<rparr>
       [Some 7, Some 8, Some 9] = Some t \<and>
     pop_all (Some t) 3 = [Some 9, Some 8, Some (7 :: int)] \<and> shift_all (Some t) 3 = [Some 7, Some 8, Some 9]"
proof -
  let ?s = "\<lparr>stk_num = 0, stk_data = replicate 4 None, stk_sorted = False, stk_num_alloc = 4, stk_comp = Some ()\<rparr> :: (int, unit) stack"
  have "push_all null_array_malloc ?s [Some 7, Some 8, Some 9] =
      Some \<lparr>stk_num = 3, stk_data = [Some 7, Some 8, Some 9, None], stk_sorted = False, stk_num_alloc = 4, stk_comp = Some ()\<rparr>"
    by (simp add: sk_push_def sk_insert_def sk_grow_def Let_def replicate_small)
  with stack_lifo_fifo [OF null_array_malloc_sized example_new this] show ?thesis by (simp add: numeral_3_eq_3)
qed

text \<open>
  The converse of the correctness of the binary search: among elements that are pairwise different, it finds
  each of them only if they are in order.
\<close>

lemma sk_bsearch_Some: "sk_bsearch cmp data lo hi = Some m \<Longrightarrow> lo \<le> m \<and> m < hi \<and> cmp (data ! m) = 0"
proof (induction cmp data lo hi rule: sk_bsearch.induct)
  case (1 cmp data lo hi)
  define mid where "mid = lo + (hi - lo - 1) div 2"
  have lo: "lo < hi" using 1(4) by (cases "lo < hi") (simp_all add: sk_bsearch.simps [of cmp data lo hi])
  then have mid: "lo \<le> mid" "mid < hi" by (auto simp: mid_def)
  note step = sk_bsearch.simps [of cmp data lo hi, unfolded Let_def mid_def [symmetric]]
  note IH = 1(1-3) [OF lo mid_def refl]
  consider "cmp (data ! mid) > 0" | "cmp (data ! mid) < 0" | "cmp (data ! mid) = 0" by linarith
  then show ?case
  proof cases
    case 1
    then show ?thesis using IH(1) step lo mid \<open>sk_bsearch cmp data lo hi = Some m\<close> by simp
  next
    case 2
    then show ?thesis using IH(2) step lo mid \<open>sk_bsearch cmp data lo hi = Some m\<close> by simp
  next
    case 3
    then show ?thesis using IH(3) step lo mid \<open>sk_bsearch cmp data lo hi = Some m\<close> by (auto split: if_splits)
  qed
qed

lemma sk_bsearch_ordered:
  assumes ok: "cmp_ok cmp" and data: "\<And>i. i < length xs \<Longrightarrow> data ! i = xs ! i"
    and apart: "\<And>i j. i < length xs \<Longrightarrow> j < length xs \<Longrightarrow> i \<noteq> j \<Longrightarrow> cmp (xs ! i) (xs ! j) \<noteq> 0"
  shows "hi \<le> length xs \<Longrightarrow> (\<And>k. lo \<le> k \<Longrightarrow> k < hi \<Longrightarrow> sk_bsearch (cmp (xs ! k)) data lo hi = Some k) \<Longrightarrow>
    lo \<le> i \<Longrightarrow> i < j \<Longrightarrow> j < hi \<Longrightarrow> cmp (xs ! i) (xs ! j) \<le> 0"
proof (induction "hi - lo" arbitrary: lo hi i j rule: less_induct)
  case less
  define mid where "mid = lo + (hi - lo - 1) div 2"
  have mid: "lo \<le> mid" "mid < hi" "data ! mid = xs ! mid" using less.prems data by (auto simp: mid_def)
  note step = sk_bsearch.simps [of _ data lo hi, unfolded Let_def mid_def [symmetric] mid(3)]
  have left: "cmp (xs ! k) (xs ! mid) < 0" "sk_bsearch (cmp (xs ! k)) data lo mid = Some k" if "lo \<le> k" "k < mid" for k
  proof -
    have s: "sk_bsearch (cmp (xs ! k)) data lo hi = Some k" "cmp (xs ! k) (xs ! mid) \<noteq> 0"
      using less.prems(1,2) that mid apart [of k mid] by simp_all
    then show "cmp (xs ! k) (xs ! mid) < 0"
      using sk_bsearch_Some [of "cmp (xs ! k)" data "mid + 1" hi k] that step [of "cmp (xs ! k)"] mid by (auto split: if_splits)
    then show "sk_bsearch (cmp (xs ! k)) data lo mid = Some k" using s(1) step [of "cmp (xs ! k)"] mid by (simp split: if_splits)
  qed
  have right: "cmp (xs ! mid) (xs ! k) < 0" "sk_bsearch (cmp (xs ! k)) data (mid + 1) hi = Some k" if "mid < k" "k < hi" for k
  proof -
    have s: "sk_bsearch (cmp (xs ! k)) data lo hi = Some k" "cmp (xs ! k) (xs ! mid) \<noteq> 0" "cmp (xs ! mid) (xs ! k) \<noteq> 0"
      using less.prems(1,2) that mid apart [of k mid] apart [of mid k] by simp_all
    have gt: "0 < cmp (xs ! k) (xs ! mid)"
      using s(1,2) sk_bsearch_Some [of "cmp (xs ! k)" data lo mid k] that step [of "cmp (xs ! k)"] mid by (auto split: if_splits)
    then show "cmp (xs ! mid) (xs ! k) < 0" using ok s(3) unfolding cmp_ok_def by (metis less_le)
    show "sk_bsearch (cmp (xs ! k)) data (mid + 1) hi = Some k" using s(1) step [of "cmp (xs ! k)"] mid gt by (simp split: if_splits)
  qed
  have trans: "cmp a b \<le> 0 \<Longrightarrow> cmp b c \<le> 0 \<Longrightarrow> cmp a c \<le> 0" for a b c using ok by (auto simp: cmp_ok_def total_cmp_def)
  consider "j < mid" | "mid < i" | "i < mid" "mid = j" | "i = mid" | "i < mid" "mid < j" using less.prems by linarith
  then show ?case
  proof cases
    case 1
    then show ?thesis using less.prems mid left(2) by (intro less.hyps [of mid lo i j]) auto
  next
    case 2
    then show ?thesis using less.prems mid right(2) by (intro less.hyps [of hi "mid + 1" i j]) auto
  next
    case 5
    then show ?thesis using left(1) [of i] right(1) [of j] trans less.prems by (meson less_imp_le)
  qed (use left(1) [of i] right(1) [of j] less.prems in auto)
qed

lemma sk_find_all_iff:
  assumes wf: "sk_wf s" and ok: "cmp_ok (call g)" and comp: "stk_comp s = Some g" and flag: "stk_sorted s"
    and apart: "\<forall>i < stk_num s. \<forall>j < stk_num s. i \<noteq> j \<longrightarrow> call g (elems s ! i) (elems s ! j) \<noteq> 0"
    and ptrs: "None \<notin> set (elems s)"
  shows "(\<forall>k < stk_num s. sk_find call (Some s) (elems s ! k) = Some k) \<longleftrightarrow> sorted_wrt (\<lambda>a b. call g a b \<le> 0) (elems s)"
proof
  have data: "stk_data s ! i = elems s ! i" if "i < length (elems s)" for i using that wf by (simp add: elems_nth)
  have nn: "elems s ! k \<noteq> None" if "k < stk_num s" for k using that wf ptrs by (metis length_elems nth_mem)
  show "sorted_wrt (\<lambda>a b. call g a b \<le> 0) (elems s)" if all: "\<forall>k < stk_num s. sk_find call (Some s) (elems s ! k) = Some k"
    unfolding sorted_wrt_iff_nth_less
  proof (intro allI impI)
    fix i j
    assume ij: "i < j" "j < length (elems s)"
    have "sk_bsearch (call g (elems s ! k)) (stk_data s) 0 (stk_num s) = Some k" if "k < stk_num s" for k
      using all that comp flag nn [OF that] by (auto simp: sk_find_def sk_is_sorted_def)
    then show "call g (elems s ! i) (elems s ! j) \<le> 0"
      using ij wf apart by (intro sk_bsearch_ordered [OF ok data, where lo = 0 and hi = "stk_num s"]) auto
  qed
  show "\<forall>k < stk_num s. sk_find call (Some s) (elems s ! k) = Some k" if srt: "sorted_wrt (\<lambda>a b. call g a b \<le> 0) (elems s)"
  proof (intro allI impI)
    fix k
    assume k: "k < stk_num s"
    have "is_first (\<lambda>x. call g (elems s ! k) x = 0) (elems s) (sk_find call (Some s) (elems s ! k))"
      using sk_find_is_first [OF wf _ _ comp nn [OF k]] srt comp ok by (simp add: sorted_flag_ok_def)
    moreover have "call g (elems s ! k) (elems s ! k) = 0" using ok unfolding cmp_ok_def total_cmp_def by (meson order_antisym)
    then have "is_first (\<lambda>x. call g (elems s ! k) x = 0) (elems s) (Some k)"
      using k wf apart unfolding is_first_def by auto
    ultimately show "sk_find call (Some s) (elems s ! k) = Some k" by (rule is_first_unique)
  qed
qed

lemma sk_set_elems:
  assumes "sk_wf s" and "i < stk_num s" and "sk_set (Some s) i v = (r, Some t)"
  shows "r = v \<and> elems t = (elems s)[i := v] \<and> sk_wf t \<and> stk_comp t = stk_comp s \<and> stk_sorted t = stk_sorted s \<and> stk_num t = stk_num s"
  using assms by (auto simp: sk_set_def elems_def sk_wf_def take_update_swap)

text \<open>C20. \<open>sk_set\<close> stores the pointer and leaves the flag \<open>sorted\<close> alone. On a stack that operations of \<open>sk_cmd\<close>
  have left sorted, when the elements are not NULL and pairwise different afterwards, \<open>sk_find\<close> finds each of
  them at its place if, and only if, the pointer stored has not broken the order: whenever it has, the flag is
  wrong and some element that is in the stack is no longer found.\<close>

theorem sk_set_search_exact:
  assumes "array_sized malloc" and "qsort_contract qsort" and "\<forall>f. cmp_ok (call f)" and "sk_new malloc f = Some s0"
    and "run_sks call qsort malloc cs (Some s0) = (rs, Some s)" and "stk_comp s = Some g" and "sk_is_sorted (Some s)"
    and "i < stk_num s" and "sk_set (Some s) i v = (r, Some t)" and "None \<notin> set (elems t)"
    and "\<forall>j < stk_num t. \<forall>k < stk_num t. j \<noteq> k \<longrightarrow> call g (elems t ! j) (elems t ! k) \<noteq> 0"
  shows "r = v \<and> elems t = (elems s)[i := v] \<and> sk_is_sorted (Some t) \<and>
    ((\<forall>k < stk_num t. sk_find call (Some t) (elems t ! k) = Some k) \<longleftrightarrow> sorted_wrt (\<lambda>a b. call g a b \<le> 0) ((elems s)[i := v]))"
proof -
  have "sk_inv call s" using run_sks_steps [OF assms(1-3) _ assms(5)] sk_new_inv [OF assms(4), of call] by auto
  then have "sk_wf s" by (simp add: sk_inv_def)
  note t = sk_set_elems [OF this assms(8,9)]
  then have "stk_sorted t" "sk_wf t" "stk_comp t = Some g" using assms(6,7) by (simp_all add: sk_is_sorted_def)
  from sk_find_all_iff [of t call g] this t show ?thesis using assms(3,10,11) by (simp add: sk_is_sorted_def)
qed

text \<open>In 1, 2, 3, 4 the first element is replaced by 9, which is not found any more.\<close>

theorem sk_set_search_exact_witness:
  "\<exists>t. sk_set (Some example_stack) 0 (Some 9) = (Some 9, Some t) \<and> elems t = [Some 9, Some 2, Some 3, Some 4] \<and>
     sk_is_sorted (Some t) \<and> (\<exists>k < 4. sk_find int_cmp (Some t) (elems t ! k) \<noteq> Some k)"
proof -
  define t where "t = example_stack\<lparr>stk_data := [Some 9, Some 2, Some 3, Some 4, None, None, None, None]\<rparr>"
  have set: "sk_set (Some example_stack) 0 (Some 9) = (Some 9, Some t)" by (simp add: sk_set_def example_stack_def t_def)
  have el: "elems t = [Some 9, Some 2, Some 3, Some 4]" "stk_num t = 4" by (simp_all add: t_def example_stack_def elems_def)
  have lt: "k < 4 \<longleftrightarrow> k = 0 \<or> k = 1 \<or> k = 2 \<or> k = 3" for k :: nat by auto
  have "sk_is_sorted (Some t) \<and> ((\<forall>k < stk_num t. sk_find int_cmp (Some t) (elems t ! k) = Some k) \<longleftrightarrow>
      sorted_wrt (\<lambda>a b. int_cmp () a b \<le> 0) ((elems example_stack)[0 := Some 9]))"
    using sk_set_search_exact [OF null_array_malloc_sized sort_by_qsort allI [OF int_cmp_ok] example_new example_run [unfolded example_new] _ _ _ set, of "()"]
    by (simp add: el lt int_cmp_def) (simp add: example_stack_def sk_is_sorted_def)
  moreover have "\<not> sorted_wrt (\<lambda>a b. int_cmp () a b \<le> 0) ((elems example_stack)[0 := Some 9])"
    by (simp add: example_stack_def elems_def int_cmp_def)
  ultimately show ?thesis using set el by (intro exI [of _ t]) auto
qed

end
