(* ===== verification/Lhash.thy ===== *)
theory Lhash
  imports Mem "HOL-Library.Multiset"
begin

text \<open>
  crypto/lhash/lhash.c: the chained hash table behind the object and configuration tables.  A
  chain is the list of its items, the array of buckets a list of chains.  The hash and the
  comparison are the client's functions, and \<open>hash_ok\<close> is what lhash.h asks of them.  After the
  operations come the contents of a table as a multiset, the invariant, what each operation does
  to both, the contract of a dictionary with its client lemma, and the bounds on the load.
\<close>

subsection \<open>The table and its operations\<close>

record 'd lh_item =
  it_data :: 'd
  it_hash :: u32

record 'd lhash =
  lh_num_items :: nat
  lh_buckets :: "'d lh_item list list"
  lh_num_buckets :: nat
  lh_callback_depth :: u32

definition kMinNumBuckets :: nat where
  "kMinNumBuckets = 16"

definition kMaxAverageChainLength :: nat where
  "kMaxAverageChainLength = 2"

definition kMinAverageChainLength :: nat where
  "kMinAverageChainLength = 1"

definition sizeof_LHASH :: nat where
  "sizeof_LHASH = 48"

definition sizeof_LHASH_ITEM :: nat where
  "sizeof_LHASH_ITEM = 24"

definition OPENSSL_lh_new :: "allocator \<Rightarrow> 'd lhash option" where
  "OPENSSL_lh_new malloc =
     (case OPENSSL_malloc malloc sizeof_LHASH of
        None \<Rightarrow> None
      | Some _ \<Rightarrow>
          (case OPENSSL_malloc malloc (8 * kMinNumBuckets) of
             None \<Rightarrow> None
           | Some _ \<Rightarrow> Some \<lparr>lh_num_items = 0, lh_buckets = replicate kMinNumBuckets [],
                             lh_num_buckets = kMinNumBuckets, lh_callback_depth = 0\<rparr>))"

definition OPENSSL_lh_num_items :: "'d lhash \<Rightarrow> nat" where
  "OPENSSL_lh_num_items lh = lh_num_items lh"

text \<open>
  A pointer into a chain is the number of its bucket and a position; the position behind the last
  item is the pointer to NULL at the end of the chain.
\<close>

fun chain_pos :: "('d \<Rightarrow> bool) \<Rightarrow> 'd lh_item list \<Rightarrow> nat" where
  "chain_pos P [] = 0"
| "chain_pos P (cur # next_items) = (if P (it_data cur) then 0 else Suc (chain_pos P next_items))"

definition get_next_ptr_and_hash :: "('d \<Rightarrow> u32) \<Rightarrow> ('d \<Rightarrow> 'd \<Rightarrow> int) \<Rightarrow> 'd lhash \<Rightarrow> 'd \<Rightarrow> u32 \<times> nat \<times> nat" where
  "get_next_ptr_and_hash hash cmp lh data =
     (let h = hash data; b = unat h mod lh_num_buckets lh
      in (h, b, chain_pos (\<lambda>x. cmp x data = 0) (lh_buckets lh ! b)))"

definition get_next_ptr_by_key :: "'d lhash \<Rightarrow> 'k \<Rightarrow> u32 \<Rightarrow> ('k \<Rightarrow> 'd \<Rightarrow> int) \<Rightarrow> nat \<times> nat" where
  "get_next_ptr_by_key lh key key_hash cmp_key =
     (let b = unat key_hash mod lh_num_buckets lh
      in (b, chain_pos (\<lambda>x. cmp_key key x = 0) (lh_buckets lh ! b)))"

definition item_at :: "'d lhash \<Rightarrow> nat \<Rightarrow> nat \<Rightarrow> 'd lh_item option" where
  "item_at lh b p = (if p < length (lh_buckets lh ! b) then Some (lh_buckets lh ! b ! p) else None)"

definition OPENSSL_lh_retrieve :: "('d \<Rightarrow> u32) \<Rightarrow> ('d \<Rightarrow> 'd \<Rightarrow> int) \<Rightarrow> 'd lhash \<Rightarrow> 'd \<Rightarrow> 'd option" where
  "OPENSSL_lh_retrieve hash cmp lh data =
     (case get_next_ptr_and_hash hash cmp lh data of (_, b, p) \<Rightarrow> map_option it_data (item_at lh b p))"

definition OPENSSL_lh_retrieve_key :: "'d lhash \<Rightarrow> 'k \<Rightarrow> u32 \<Rightarrow> ('k \<Rightarrow> 'd \<Rightarrow> int) \<Rightarrow> 'd option" where
  "OPENSSL_lh_retrieve_key lh key key_hash cmp_key =
     (case get_next_ptr_by_key lh key key_hash cmp_key of (b, p) \<Rightarrow> map_option it_data (item_at lh b p))"

definition rebucket_item :: "nat \<Rightarrow> 'd lh_item list list \<Rightarrow> 'd lh_item \<Rightarrow> 'd lh_item list list" where
  "rebucket_item new_num_buckets new_buckets cur =
     (let new_bucket = unat (it_hash cur) mod new_num_buckets
      in new_buckets[new_bucket := cur # new_buckets ! new_bucket])"

definition lh_rebucket :: "allocator \<Rightarrow> 'd lhash \<Rightarrow> nat \<Rightarrow> 'd lhash" where
  "lh_rebucket malloc lh new_num_buckets =
     (let alloc_size = size_mul 8 new_num_buckets
      in if alloc_size div 8 \<noteq> new_num_buckets then lh
         else (case OPENSSL_malloc malloc alloc_size of
                 None \<Rightarrow> lh
               | Some _ \<Rightarrow>
                   lh\<lparr>lh_num_buckets := new_num_buckets,
                      lh_buckets := foldl (rebucket_item new_num_buckets) (replicate new_num_buckets []) (concat (lh_buckets lh))\<rparr>))"

definition lh_maybe_resize :: "allocator \<Rightarrow> 'd lhash \<Rightarrow> 'd lhash" where
  "lh_maybe_resize malloc lh =
     (if lh_callback_depth lh > 0 then lh
      else let avg_chain_length = lh_num_items lh div lh_num_buckets lh
           in if avg_chain_length > kMaxAverageChainLength then
                let new_num_buckets = size_mul (lh_num_buckets lh) 2
                in if new_num_buckets > lh_num_buckets lh then lh_rebucket malloc lh new_num_buckets else lh
              else if avg_chain_length < kMinAverageChainLength \<and> lh_num_buckets lh > kMinNumBuckets then
                let half = lh_num_buckets lh div 2;
                    new_num_buckets = (if half < kMinNumBuckets then kMinNumBuckets else half)
                in lh_rebucket malloc lh new_num_buckets
              else lh)"

text \<open>The return value, \<open>*old_data\<close> and the table.\<close>

definition OPENSSL_lh_insert :: "('d \<Rightarrow> u32) \<Rightarrow> ('d \<Rightarrow> 'd \<Rightarrow> int) \<Rightarrow> allocator \<Rightarrow> 'd lhash \<Rightarrow> 'd \<Rightarrow> (bool \<times> 'd option) \<times> 'd lhash" where
  "OPENSSL_lh_insert hash cmp malloc lh data =
     (case get_next_ptr_and_hash hash cmp lh data of (h, b, p) \<Rightarrow>
        (case item_at lh b p of
           Some item \<Rightarrow>
             ((True, Some (it_data item)),
              lh\<lparr>lh_buckets := (lh_buckets lh)[b := (lh_buckets lh ! b)[p := item\<lparr>it_data := data\<rparr>]]\<rparr>)
         | None \<Rightarrow>
             (case OPENSSL_malloc malloc sizeof_LHASH_ITEM of
                None \<Rightarrow> ((False, None), lh)
              | Some _ \<Rightarrow>
                  ((True, None),
                   lh_maybe_resize malloc
                     (lh\<lparr>lh_buckets := (lh_buckets lh)[b := lh_buckets lh ! b @ [\<lparr>it_data = data, it_hash = h\<rparr>]],
                         lh_num_items := size_add (lh_num_items lh) 1\<rparr>)))))"

definition OPENSSL_lh_delete :: "('d \<Rightarrow> u32) \<Rightarrow> ('d \<Rightarrow> 'd \<Rightarrow> int) \<Rightarrow> allocator \<Rightarrow> 'd lhash \<Rightarrow> 'd \<Rightarrow> 'd option \<times> 'd lhash" where
  "OPENSSL_lh_delete hash cmp malloc lh data =
     (case get_next_ptr_and_hash hash cmp lh data of (_, b, p) \<Rightarrow>
        (case item_at lh b p of
           None \<Rightarrow> (None, lh)
         | Some item \<Rightarrow>
             (Some (it_data item),
              lh_maybe_resize malloc
                (lh\<lparr>lh_buckets := (lh_buckets lh)[b := take p (lh_buckets lh ! b) @ drop (Suc p) (lh_buckets lh ! b)],
                    lh_num_items := size_add (lh_num_items lh) (2 ^ 64 - 1)\<rparr>))))"

text \<open>
  Iteration with a callback that works on its own state \<open>arg\<close> and leaves the table alone;
  \<open>callback_depth\<close> is a saturating counter.
\<close>

definition OPENSSL_lh_doall_arg :: "allocator \<Rightarrow> 'd lhash option \<Rightarrow> ('d \<Rightarrow> 'a \<Rightarrow> 'a) \<Rightarrow> 'a \<Rightarrow> 'a \<times> 'd lhash option" where
  "OPENSSL_lh_doall_arg malloc lh func arg =
     (case lh of
        None \<Rightarrow> (arg, None)
      | Some t \<Rightarrow>
          let t1 = (if lh_callback_depth t < - 1 then t\<lparr>lh_callback_depth := lh_callback_depth t + 1\<rparr> else t);
              arg' = foldl (\<lambda>a chain. foldl (\<lambda>a cur. func (it_data cur) a) a chain) arg (lh_buckets t1);
              t2 = (if lh_callback_depth t1 < - 1 then t1\<lparr>lh_callback_depth := lh_callback_depth t1 - 1\<rparr> else t1)
          in (arg', Some (lh_maybe_resize malloc t2)))"


subsection \<open>Contents and invariant\<close>

text \<open>What the table relies on: \<open>cmp\<close> decides an equivalence and equal elements have equal hashes.\<close>

definition hash_ok :: "('d \<Rightarrow> u32) \<Rightarrow> ('d \<Rightarrow> 'd \<Rightarrow> int) \<Rightarrow> bool" where
  "hash_ok hash cmp \<longleftrightarrow> (\<forall>x. cmp x x = 0) \<and> (\<forall>x y. cmp x y = 0 \<longrightarrow> cmp y x = 0 \<and> hash x = hash y) \<and>
     (\<forall>x y z. cmp x y = 0 \<longrightarrow> cmp y z = 0 \<longrightarrow> cmp x z = 0)"

definition apart :: "('d \<Rightarrow> 'd \<Rightarrow> int) \<Rightarrow> 'd multiset \<Rightarrow> bool" where
  "apart cmp M \<longleftrightarrow> (\<forall>x \<in># M. \<forall>y \<in># M - {#x#}. cmp x y \<noteq> 0)"

definition lh_contents :: "'d lhash \<Rightarrow> 'd multiset" where
  "lh_contents lh = mset (map it_data (concat (lh_buckets lh)))"

definition item_ok :: "('d \<Rightarrow> u32) \<Rightarrow> nat \<Rightarrow> nat \<Rightarrow> 'd lh_item \<Rightarrow> bool" where
  "item_ok hash n b it \<longleftrightarrow> unat (it_hash it) mod n = b \<and> it_hash it = hash (it_data it)"

definition placed :: "('d \<Rightarrow> u32) \<Rightarrow> nat \<Rightarrow> 'd lh_item list list \<Rightarrow> bool" where
  "placed hash n bs \<longleftrightarrow> length bs = n \<and>
     (\<forall>b < n. \<forall>it \<in> set (bs ! b). item_ok hash n b it)"

definition lh_wf :: "('d \<Rightarrow> u32) \<Rightarrow> ('d \<Rightarrow> 'd \<Rightarrow> int) \<Rightarrow> 'd lhash \<Rightarrow> bool" where
  "lh_wf hash cmp lh \<longleftrightarrow> hash_ok hash cmp \<and> placed hash (lh_num_buckets lh) (lh_buckets lh) \<and>
     (\<exists>k. lh_num_buckets lh = kMinNumBuckets * 2 ^ k) \<and> lh_num_buckets lh < 2 ^ 61 \<and>
     lh_num_items lh = size (lh_contents lh) mod 2 ^ 64 \<and> apart cmp (lh_contents lh)"

lemma apart_add: "apart cmp (add_mset d N) \<longleftrightarrow> apart cmp N \<and> (\<forall>x \<in># N. cmp d x \<noteq> 0 \<and> cmp x d \<noteq> 0)"
proof
  assume a: "apart cmp (add_mset d N)"
  have "cmp x y \<noteq> 0" if "x \<in># N" "y \<in># N - {#x#}" for x y
  proof -
    have "x \<in># add_mset d N" and "y \<in># add_mset d N - {#x#}" using that by (simp_all add: in_diff_count)
    then show ?thesis using a unfolding apart_def by blast
  qed
  moreover have "cmp d x \<noteq> 0 \<and> cmp x d \<noteq> 0" if x: "x \<in># N" for x
  proof -
    have "d \<in># add_mset d N - {#x#}" and "x \<in># add_mset d N" and "x \<in># add_mset d N - {#d#}" and "d \<in># add_mset d N"
      using x by (auto simp: in_diff_count)
    then show ?thesis using a unfolding apart_def by blast
  qed
  ultimately show "apart cmp N \<and> (\<forall>x \<in># N. cmp d x \<noteq> 0 \<and> cmp x d \<noteq> 0)" by (simp add: apart_def)
next
  assume a: "apart cmp N \<and> (\<forall>x \<in># N. cmp d x \<noteq> 0 \<and> cmp x d \<noteq> 0)"
  have "cmp x y \<noteq> 0" if x: "x \<in># add_mset d N" and y: "y \<in># add_mset d N - {#x#}" for x y
  proof (cases "x = d")
    case True
    then show ?thesis using y a by simp
  next
    case False
    then have xN: "x \<in># N" using x by simp
    have "y = d \<or> y \<in># N - {#x#}" using y by (auto simp: in_diff_count split: if_splits)
    moreover have "cmp x d \<noteq> 0" and "\<And>z. z \<in># N - {#x#} \<Longrightarrow> cmp x z \<noteq> 0"
      using a xN by (simp_all add: apart_def)
    ultimately show ?thesis by blast
  qed
  then show "apart cmp (add_mset d N)" by (simp add: apart_def)
qed

lemma apart_remove: "apart cmp M \<Longrightarrow> x \<in># M \<Longrightarrow> apart cmp (M - {#x#}) \<and> (\<forall>y \<in># M - {#x#}. cmp x y \<noteq> 0 \<and> cmp y x \<noteq> 0)"
  using apart_add [of cmp x "M - {#x#}"] by simp

lemma mset_concat_update:
  "b < length bs \<Longrightarrow> mset (concat (bs[b := c])) + mset (bs ! b) = mset (concat bs) + mset c"
  by (induction bs arbitrary: b) (auto split: nat.split simp: nth_Cons ac_simps)

lemma chain_pos_le: "chain_pos P xs \<le> length xs"
  by (induction xs) auto

lemma chain_pos_found: "chain_pos P xs < length xs \<Longrightarrow> P (it_data (xs ! chain_pos P xs))"
  by (induction xs) (auto split: if_splits)

lemma chain_pos_end: "\<not> chain_pos P xs < length xs \<longleftrightarrow> (\<forall>it \<in> set xs. \<not> P (it_data it))"
  by (induction xs) auto

lemma wf_placed:
  assumes "lh_wf hash cmp lh"
  shows "placed hash (lh_num_buckets lh) (lh_buckets lh)" and "hash_ok hash cmp" and "0 < lh_num_buckets lh"
    and "length (lh_buckets lh) = lh_num_buckets lh"
proof -
  show "placed hash (lh_num_buckets lh) (lh_buckets lh)" and "hash_ok hash cmp"
    using assms unfolding lh_wf_def by blast+
  then show "length (lh_buckets lh) = lh_num_buckets lh" by (simp add: placed_def)
  show "0 < lh_num_buckets lh" using assms unfolding lh_wf_def by (auto simp: kMinNumBuckets_def)
qed

lemma wf_bucket: "lh_wf hash cmp lh \<Longrightarrow> unat (h :: u32) mod lh_num_buckets lh < length (lh_buckets lh)"
  by (simp add: wf_placed)

text \<open>The items equal to \<open>d\<close> are in the bucket of its hash.\<close>

lemma bucket_complete:
  assumes "lh_wf hash cmp lh" and "x \<in># lh_contents lh" and "cmp x d = 0"
  shows "\<exists>it \<in> set (lh_buckets lh ! (unat (hash d) mod lh_num_buckets lh)). it_data it = x"
proof -
  from assms(2) obtain chain it where "chain \<in> set (lh_buckets lh)" "it \<in> set chain" "x = it_data it"
    by (auto simp: lh_contents_def)
  then obtain b where b: "b < length (lh_buckets lh)" "it \<in> set (lh_buckets lh ! b)" "x = it_data it" by (auto simp: in_set_conv_nth)
  have "hash x = hash d" using wf_placed(2) [OF assms(1)] assms(3) unfolding hash_ok_def by blast
  moreover have "item_ok hash (lh_num_buckets lh) b it"
    using wf_placed(1) [OF assms(1)] b(1,2) by (simp add: placed_def)
  ultimately have "unat (hash d) mod lh_num_buckets lh = b" using b(3) unfolding item_ok_def by metis
  with b show ?thesis by auto
qed

lemma bucket_contents: "b < length (lh_buckets lh) \<Longrightarrow> it \<in> set (lh_buckets lh ! b) \<Longrightarrow> it_data it \<in># lh_contents lh"
  unfolding lh_contents_def set_mset_mset set_map set_concat by (meson UN_I imageI nth_mem)

text \<open>What \<open>get_next_ptr_and_hash\<close> finds.\<close>

lemma get_next_ptr_cases:
  assumes "lh_wf hash cmp lh"
  obtains (found) b p it where "get_next_ptr_and_hash hash cmp lh d = (hash d, b, p)" and "b < length (lh_buckets lh)"
      and "b = unat (hash d) mod lh_num_buckets lh"
      and "p < length (lh_buckets lh ! b)" and "item_at lh b p = Some it" and "lh_buckets lh ! b ! p = it"
      and "it_data it \<in># lh_contents lh" and "cmp (it_data it) d = 0"
  | (missing) b p where "get_next_ptr_and_hash hash cmp lh d = (hash d, b, p)" and "b < length (lh_buckets lh)"
      and "b = unat (hash d) mod lh_num_buckets lh" and "item_at lh b p = None" and "\<forall>x \<in># lh_contents lh. cmp x d \<noteq> 0"
proof -
  define b where "b = unat (hash d) mod lh_num_buckets lh"
  define p where "p = chain_pos (\<lambda>x. cmp x d = 0) (lh_buckets lh ! b)"
  have get: "get_next_ptr_and_hash hash cmp lh d = (hash d, b, p)"
    by (simp add: get_next_ptr_and_hash_def Let_def b_def p_def)
  have b: "b < length (lh_buckets lh)" unfolding b_def by (rule wf_bucket [OF assms])
  show thesis
  proof (cases "p < length (lh_buckets lh ! b)")
    case True
    let ?it = "lh_buckets lh ! b ! p"
    have "cmp (it_data ?it) d = 0" using chain_pos_found [of "\<lambda>x. cmp x d = 0" "lh_buckets lh ! b"] True by (simp add: p_def)
    moreover have "it_data ?it \<in># lh_contents lh" using bucket_contents [OF b] True by simp
    ultimately show thesis by (intro found [of b p ?it, OF get b b_def True]) (simp_all add: item_at_def True)
  next
    case False
    then have "\<forall>it \<in> set (lh_buckets lh ! b). cmp (it_data it) d \<noteq> 0"
      using chain_pos_end [of "\<lambda>x. cmp x d = 0" "lh_buckets lh ! b"] by (simp add: p_def)
    then have "\<forall>x \<in># lh_contents lh. cmp x d \<noteq> 0" using bucket_complete [OF assms] unfolding b_def by blast
    then show thesis using False by (intro missing [OF get b b_def]) (simp_all add: item_at_def)
  qed
qed

lemma apart_unique:
  assumes "hash_ok hash cmp" and "apart cmp M" and "x \<in># M" and "y \<in># M" and "cmp x d = 0" and "cmp y d = 0"
  shows "x = y"
proof (rule ccontr)
  assume "x \<noteq> y"
  then have "y \<in># M - {#x#}" using assms(4) by (simp add: in_diff_count)
  moreover have "cmp x y = 0" using assms(1,5,6) unfolding hash_ok_def by blast
  ultimately show False using assms(2,3) unfolding apart_def by blast
qed

lemma wf_apart: "lh_wf hash cmp lh \<Longrightarrow> apart cmp (lh_contents lh)"
  unfolding lh_wf_def by blast

text \<open>A lookup returns the element of the table that \<open>cmp\<close> equates with the key, whichever chain it is in.\<close>

lemma retrieve_iff:
  assumes "lh_wf hash cmp lh"
  shows "OPENSSL_lh_retrieve hash cmp lh d = Some x \<longleftrightarrow> x \<in># lh_contents lh \<and> cmp x d = 0"
  using assms
proof (cases rule: get_next_ptr_cases [where d = d])
  case (found b p it)
  then have "OPENSSL_lh_retrieve hash cmp lh d = Some (it_data it)" by (simp add: OPENSSL_lh_retrieve_def)
  then show ?thesis using found apart_unique [OF wf_placed(2) [OF assms] wf_apart [OF assms], of x "it_data it" d] by auto
next
  case (missing b p)
  then show ?thesis by (auto simp: OPENSSL_lh_retrieve_def)
qed

lemma retrieve_None:
  "lh_wf hash cmp lh \<Longrightarrow> OPENSSL_lh_retrieve hash cmp lh d = None \<longleftrightarrow> (\<forall>x \<in># lh_contents lh. cmp x d \<noteq> 0)"
  using retrieve_iff [of hash cmp lh d] by (metis not_None_eq)


subsection \<open>Resizing\<close>

lemma rebucket_item:
  assumes "placed hash n bs" and "0 < n" and "it_hash it = hash (it_data it)"
  shows "placed hash n (rebucket_item n bs it)" and "mset (concat (rebucket_item n bs it)) = add_mset it (mset (concat bs))"
proof -
  let ?b = "unat (it_hash it) mod n"
  have len: "length bs = n" and b: "?b < n" using assms by (simp_all add: placed_def)
  show "placed hash n (rebucket_item n bs it)"
    using assms by (auto simp: placed_def rebucket_item_def Let_def nth_list_update item_ok_def [of _ _ _ it])
  have "mset (concat (bs[?b := it # bs ! ?b])) + mset (bs ! ?b) = mset (concat bs) + mset (it # bs ! ?b)"
    by (rule mset_concat_update) (simp add: len b)
  then show "mset (concat (rebucket_item n bs it)) = add_mset it (mset (concat bs))"
    by (simp add: rebucket_item_def Let_def)
qed

lemma rebucket_items:
  assumes "placed hash n bs" and "0 < n" and "\<forall>it \<in> set its. it_hash it = hash (it_data it)"
  shows "placed hash n (foldl (rebucket_item n) bs its) \<and>
    mset (concat (foldl (rebucket_item n) bs its)) = mset (concat bs) + mset its"
  using assms by (induction its arbitrary: bs) (simp_all add: rebucket_item)

lemma placed_replicate: "placed hash n (replicate n [])"
  by (simp add: placed_def)

lemma placed_hashes: "placed hash n bs \<Longrightarrow> it \<in> set (concat bs) \<Longrightarrow> it_hash it = hash (it_data it)"
proof -
  assume bs: "placed hash n bs" and "it \<in> set (concat bs)"
  then obtain b where "b < length bs" and "it \<in> set (bs ! b)" by (auto simp: in_set_conv_nth [of _ bs])
  with bs have "item_ok hash n b it" by (simp add: placed_def)
  then show "it_hash it = hash (it_data it)" unfolding item_ok_def by blast
qed

lemma size_mul_less: "size_mul a b < 2 ^ 64"
  by (simp add: size_mul_def)

lemma lh_rebucket_cases:
  fixes lh :: "'d lhash"
  assumes "lh_wf hash cmp lh"
  obtains (kept) "lh_rebucket malloc lh n = lh"
  | (moved) bs where "lh_rebucket malloc lh n = lh\<lparr>lh_num_buckets := n, lh_buckets := bs\<rparr>" and "n < 2 ^ 61"
      and "0 < n \<longrightarrow> placed hash n bs \<and> mset (concat bs) = mset (concat (lh_buckets lh))"
proof -
  let ?bs = "foldl (rebucket_item n) (replicate n []) (concat (lh_buckets lh))"
  have "\<forall>it \<in> set (concat (lh_buckets lh)). it_hash it = hash (it_data it)"
    using placed_hashes [OF wf_placed(1) [OF assms]] by blast
  then have "placed hash n ?bs \<and> mset (concat ?bs) = mset (concat (replicate n [])) + mset (concat (lh_buckets lh))" if "0 < n"
    by (rule rebucket_items [OF placed_replicate that])
  moreover have "mset (concat (replicate n [])) = {#}" by simp
  moreover have "n < 2 ^ 61" if "size_mul 8 n div 8 = n"
    using that size_mul_less [of 8 n] by simp
  ultimately have bs: "n < 2 ^ 61" "0 < n \<longrightarrow> placed hash n ?bs \<and> mset (concat ?bs) = mset (concat (lh_buckets lh))"
    if "size_mul 8 n div 8 = n" using that by (simp, metis add_0)
  show thesis
  proof (cases "size_mul 8 n div 8 = n \<and> OPENSSL_malloc malloc (size_mul 8 n) \<noteq> None")
    case True
    then have "lh_rebucket malloc lh n = lh\<lparr>lh_num_buckets := n, lh_buckets := ?bs\<rparr>"
      by (auto simp: lh_rebucket_def Let_def)
    then show thesis by (rule moved) (use bs True in simp_all)
  next
    case False
    then have "lh_rebucket malloc lh n = lh" by (auto simp: lh_rebucket_def Let_def)
    then show thesis by (rule kept)
  qed
qed

lemma lh_contents_buckets: "mset (concat (lh_buckets t)) = mset (concat (lh_buckets lh)) \<Longrightarrow> lh_contents t = lh_contents lh"
  unfolding lh_contents_def mset_map by simp

lemma lh_rebucket_wf:
  assumes wf: "lh_wf hash cmp lh" and n: "n = kMinNumBuckets * 2 ^ k"
  shows "lh_wf hash cmp (lh_rebucket malloc lh n)" and "lh_contents (lh_rebucket malloc lh n) = lh_contents lh"
    and "lh_num_items (lh_rebucket malloc lh n) = lh_num_items lh"
    and "lh_callback_depth (lh_rebucket malloc lh n) = lh_callback_depth lh"
proof -
  have n0: "0 < n" by (simp add: n kMinNumBuckets_def)
  have "lh_wf hash cmp (lh_rebucket malloc lh n) \<and> lh_contents (lh_rebucket malloc lh n) = lh_contents lh \<and>
      lh_num_items (lh_rebucket malloc lh n) = lh_num_items lh \<and>
      lh_callback_depth (lh_rebucket malloc lh n) = lh_callback_depth lh"
    using wf
  proof (cases rule: lh_rebucket_cases [where malloc = malloc and n = n])
    case kept
    then show ?thesis using wf by simp
  next
    case (moved bs)
    then have bs: "placed hash n bs" "mset (concat bs) = mset (concat (lh_buckets lh))" using n0 by simp_all
    have "lh_contents (lh\<lparr>lh_num_buckets := n, lh_buckets := bs\<rparr>) = lh_contents lh"
      by (rule lh_contents_buckets) (simp add: bs)
    then show ?thesis using wf moved(1,2) bs(1) n by (auto simp: lh_wf_def)
  qed
  then show "lh_wf hash cmp (lh_rebucket malloc lh n)" and "lh_contents (lh_rebucket malloc lh n) = lh_contents lh"
    and "lh_num_items (lh_rebucket malloc lh n) = lh_num_items lh"
    and "lh_callback_depth (lh_rebucket malloc lh n) = lh_callback_depth lh" by blast+
qed

text \<open>The number of buckets stays a power of two times the minimum, and doubling it never wraps.\<close>

lemma buckets_step:
  assumes "lh_wf hash cmp lh"
  shows "\<exists>k. size_mul (lh_num_buckets lh) 2 = kMinNumBuckets * 2 ^ k" and "size_mul (lh_num_buckets lh) 2 = 2 * lh_num_buckets lh"
    and "lh_num_buckets lh > kMinNumBuckets \<Longrightarrow> \<exists>k. lh_num_buckets lh div 2 = kMinNumBuckets * 2 ^ k \<and> lh_num_buckets lh = 2 * (lh_num_buckets lh div 2)"
proof -
  obtain k where k: "lh_num_buckets lh = kMinNumBuckets * 2 ^ k" and lt: "lh_num_buckets lh < 2 ^ 61"
    using assms unfolding lh_wf_def by blast
  then show two: "size_mul (lh_num_buckets lh) 2 = 2 * lh_num_buckets lh" by (subst size_mul_small) simp_all
  show "\<exists>k. size_mul (lh_num_buckets lh) 2 = kMinNumBuckets * 2 ^ k"
    unfolding two by (rule exI [of _ "Suc k"]) (simp add: k)
  assume "lh_num_buckets lh > kMinNumBuckets"
  then obtain j where "k = Suc j" using k by (cases k) simp_all
  then show "\<exists>k. lh_num_buckets lh div 2 = kMinNumBuckets * 2 ^ k \<and> lh_num_buckets lh = 2 * (lh_num_buckets lh div 2)"
    by (intro exI [of _ j]) (simp add: k)
qed

lemma lh_maybe_resize_cases:
  assumes "lh_wf hash cmp lh"
  obtains (kept) "lh_maybe_resize malloc lh = lh"
     and "lh_callback_depth lh = 0 \<longrightarrow> lh_num_items lh div lh_num_buckets lh \<le> 2 \<and>
            (lh_num_buckets lh \<le> kMinNumBuckets \<or> 1 \<le> lh_num_items lh div lh_num_buckets lh)"
  | (grown) k where "lh_maybe_resize malloc lh = lh_rebucket malloc lh (2 * lh_num_buckets lh)"
     and "2 * lh_num_buckets lh = kMinNumBuckets * 2 ^ k" and "2 < lh_num_items lh div lh_num_buckets lh"
     and "lh_callback_depth lh = 0"
  | (shrunk) k where "lh_maybe_resize malloc lh = lh_rebucket malloc lh (lh_num_buckets lh div 2)"
     and "lh_num_buckets lh div 2 = kMinNumBuckets * 2 ^ k" and "lh_num_items lh div lh_num_buckets lh = 0"
     and "lh_num_buckets lh = 2 * (lh_num_buckets lh div 2)" and "lh_callback_depth lh = 0"
proof -
  let ?avg = "lh_num_items lh div lh_num_buckets lh"
  consider "lh_callback_depth lh > 0" | "lh_callback_depth lh = 0" "?avg > 2"
    | "lh_callback_depth lh = 0" "?avg = 0" "lh_num_buckets lh > kMinNumBuckets"
    | "lh_callback_depth lh = 0" "?avg \<le> 2" "lh_num_buckets lh \<le> kMinNumBuckets \<or> 1 \<le> ?avg"
    by (metis bot_nat_0.not_eq_extremum less_one not_le_imp_less word_neq_0_conv)
  then show thesis
  proof cases
    case 1
    then show thesis by (intro kept) (auto simp: lh_maybe_resize_def)
  next
    case 2
    obtain k where "2 * lh_num_buckets lh = kMinNumBuckets * 2 ^ k" using buckets_step(1,2) [OF assms] by auto
    moreover have "lh_maybe_resize malloc lh = lh_rebucket malloc lh (2 * lh_num_buckets lh)"
      using 2 buckets_step(2) [OF assms] wf_placed(3) [OF assms]
      by (simp add: lh_maybe_resize_def kMaxAverageChainLength_def Let_def)
    ultimately show thesis using 2 by (intro grown)
  next
    case 3
    obtain k where k: "lh_num_buckets lh div 2 = kMinNumBuckets * 2 ^ k" "lh_num_buckets lh = 2 * (lh_num_buckets lh div 2)"
      using buckets_step(3) [OF assms 3(3)] by blast
    moreover have "\<not> lh_num_buckets lh div 2 < kMinNumBuckets" unfolding k(1) by simp
    then have "lh_maybe_resize malloc lh = lh_rebucket malloc lh (lh_num_buckets lh div 2)"
      using 3 by (simp add: lh_maybe_resize_def kMaxAverageChainLength_def kMinAverageChainLength_def Let_def)
    ultimately show thesis using 3 by (intro shrunk) auto
  next
    case 4
    then show thesis by (intro kept)
        (auto simp: lh_maybe_resize_def kMaxAverageChainLength_def kMinAverageChainLength_def Let_def)
  qed
qed

lemma lh_maybe_resize_wf:
  assumes wf: "lh_wf hash cmp lh"
  shows "lh_wf hash cmp (lh_maybe_resize malloc lh)" and "lh_contents (lh_maybe_resize malloc lh) = lh_contents lh"
    and "lh_num_items (lh_maybe_resize malloc lh) = lh_num_items lh"
    and "lh_callback_depth (lh_maybe_resize malloc lh) = lh_callback_depth lh"
proof -
  have "lh_maybe_resize malloc lh = lh \<or> (\<exists>k. lh_maybe_resize malloc lh = lh_rebucket malloc lh (kMinNumBuckets * 2 ^ k))"
    using wf by (cases rule: lh_maybe_resize_cases [where malloc = malloc]) metis+
  then show "lh_wf hash cmp (lh_maybe_resize malloc lh)" and "lh_contents (lh_maybe_resize malloc lh) = lh_contents lh"
    and "lh_num_items (lh_maybe_resize malloc lh) = lh_num_items lh"
    and "lh_callback_depth (lh_maybe_resize malloc lh) = lh_callback_depth lh"
    using wf lh_rebucket_wf [OF wf refl] by (elim disjE; auto)+
qed


subsection \<open>Insertion and deletion\<close>

lemma contents_update:
  assumes "b < length (lh_buckets lh)" and "lh_buckets t = (lh_buckets lh)[b := c]"
  shows "lh_contents t + mset (map it_data (lh_buckets lh ! b)) = lh_contents lh + mset (map it_data c)"
  using arg_cong [OF mset_concat_update [OF assms(1), of c], of "image_mset it_data"] assms(2)
  by (simp add: lh_contents_def)

lemma placed_update:
  "placed hash n bs \<Longrightarrow> (\<And>it. it \<in> set c \<Longrightarrow> item_ok hash n b it) \<Longrightarrow> placed hash n (bs[b := c])"
  by (cases "b < length bs") (auto simp: placed_def nth_list_update list_update_beyond split: if_splits)

lemma placed_item: "placed hash n bs \<Longrightarrow> b < length bs \<Longrightarrow> it \<in> set (bs ! b) \<Longrightarrow> item_ok hash n b it"
  by (simp add: placed_def)

lemma mset_delete_nth: "p < length xs \<Longrightarrow> mset (take p xs @ drop (Suc p) xs) = mset xs - {#xs ! p#}"
  using arg_cong [OF id_take_nth_drop [of p xs], of mset] by simp

lemma apart_replace:
  assumes "hash_ok hash cmp" and "apart cmp M" and "x \<in># M" and "cmp x d = 0"
  shows "apart cmp (add_mset d (M - {#x#}))"
proof -
  have "apart cmp (M - {#x#})" and y: "\<forall>y \<in># M - {#x#}. cmp x y \<noteq> 0" using apart_remove [OF assms(2,3)] by blast+
  moreover have "cmp d y \<noteq> 0 \<and> cmp y d \<noteq> 0" if "y \<in># M - {#x#}" for y
    using y that assms(1,4) unfolding hash_ok_def by blast
  ultimately show ?thesis by (simp add: apart_add)
qed

lemma size_succ: "size_add (n mod 2 ^ 64) 1 = Suc n mod 2 ^ 64"
  by (simp add: size_add_def mod_Suc_eq)

lemma size_pred: "size_add (Suc n mod 2 ^ 64) (2 ^ 64 - 1) = n mod 2 ^ 64"
proof -
  have "size_add (Suc n mod 2 ^ 64) (2 ^ 64 - 1) = (Suc n + (2 ^ 64 - 1)) mod 2 ^ 64"
    unfolding size_add_def by (rule mod_add_left_eq)
  also have "Suc n + (2 ^ 64 - 1) = n + 2 ^ 64" by simp
  finally show ?thesis by simp
qed

lemma wf_size: "lh_wf hash cmp lh \<Longrightarrow> lh_num_items lh = size (lh_contents lh) mod 2 ^ 64"
  unfolding lh_wf_def by blast

text \<open>A table with the same number of buckets is well-formed again when the changed chain is.\<close>

lemma lh_wf_update:
  assumes "lh_wf hash cmp lh" and "placed hash (lh_num_buckets lh) (lh_buckets t)" and "lh_num_buckets t = lh_num_buckets lh"
    and "apart cmp (lh_contents t)" and "lh_num_items t = size (lh_contents t) mod 2 ^ 64"
  shows "lh_wf hash cmp t"
  using assms unfolding lh_wf_def by (metis (no_types, lifting))

lemma lh_insert_cases:
  assumes wf: "lh_wf hash cmp lh"
  obtains (replaced) x t where "OPENSSL_lh_retrieve hash cmp lh d = Some x"
      and "OPENSSL_lh_insert hash cmp malloc lh d = ((True, Some x), t)"
      and "lh_wf hash cmp t" and "lh_contents t = add_mset d (lh_contents lh - {#x#})"
      and "lh_num_items t = lh_num_items lh" and "lh_num_buckets t = lh_num_buckets lh"
      and "lh_callback_depth t = lh_callback_depth lh"
  | (failed) "OPENSSL_lh_retrieve hash cmp lh d = None" and "OPENSSL_malloc malloc sizeof_LHASH_ITEM = None"
      and "OPENSSL_lh_insert hash cmp malloc lh d = ((False, None), lh)"
  | (added) t where "OPENSSL_lh_retrieve hash cmp lh d = None"
      and "OPENSSL_lh_insert hash cmp malloc lh d = ((True, None), lh_maybe_resize malloc t)"
      and "lh_wf hash cmp t" and "lh_contents t = add_mset d (lh_contents lh)"
      and "lh_num_items t = size_add (lh_num_items lh) 1" and "lh_num_buckets t = lh_num_buckets lh"
      and "lh_callback_depth t = lh_callback_depth lh" and "OPENSSL_malloc malloc sizeof_LHASH_ITEM \<noteq> None"
  using wf
proof (cases rule: get_next_ptr_cases [where d = d])
  case (found b p it)
  let ?x = "it_data it" and ?n = "lh_num_buckets lh" and ?bs = "lh_buckets lh"
  let ?c = "(?bs ! b)[p := it\<lparr>it_data := d\<rparr>]"
  let ?t = "lh\<lparr>lh_buckets := ?bs[b := ?c]\<rparr>"
  have mem: "it \<in> set (?bs ! b)" using found(4,6) nth_mem by blast
  have hx: "hash ?x = hash d" using found(8) wf_placed(2) [OF wf] unfolding hash_ok_def by blast
  have it: "item_ok hash ?n b it" by (rule placed_item [OF wf_placed(1) [OF wf] found(2) mem])
  have "item_ok hash ?n b i" if "i \<in> set ?c" for i
  proof (cases "i = it\<lparr>it_data := d\<rparr>")
    case True
    then show ?thesis using it hx unfolding item_ok_def by simp metis
  next
    case False
    then have "i \<in> set (?bs ! b)" using that set_update_subset_insert by fastforce
    then show ?thesis by (rule placed_item [OF wf_placed(1) [OF wf] found(2)])
  qed
  then have "placed hash ?n (?bs[b := ?c])" by (rule placed_update [OF wf_placed(1) [OF wf]])
  then have pl: "placed hash ?n (lh_buckets ?t)" by simp
  have "lh_contents ?t + mset (map it_data (?bs ! b)) = lh_contents lh + mset (map it_data ?c)"
    by (rule contents_update [OF found(2)]) simp
  also have "mset (map it_data ?c) = add_mset d (mset (map it_data (?bs ! b)) - {#?x#})"
    using found(4,6) by (simp add: map_update mset_update)
  also have "lh_contents lh + add_mset d (mset (map it_data (?bs ! b)) - {#?x#}) =
      add_mset d (lh_contents lh - {#?x#}) + mset (map it_data (?bs ! b))"
    using found(7) mem by (auto dest!: multi_member_split simp: image_mset_add_mset)
  finally have ct: "lh_contents ?t = add_mset d (lh_contents lh - {#?x#})" by simp
  have ap: "apart cmp (lh_contents ?t)" unfolding ct by (rule apart_replace [OF wf_placed(2) [OF wf] wf_apart [OF wf] found(7,8)])
  have "size (lh_contents ?t) = size (lh_contents lh)" using ct found(7) by (metis insert_DiffM size_add_mset)
  then have "lh_wf hash cmp ?t"
    using wf_size [OF wf] by (intro lh_wf_update [OF wf pl _ ap]) simp_all
  then show thesis
    using ct found(1,5) by (intro replaced [of ?x ?t])
      (simp_all add: OPENSSL_lh_retrieve_def OPENSSL_lh_insert_def)
next
  case (missing b p)
  let ?n = "lh_num_buckets lh" and ?bs = "lh_buckets lh"
  let ?c = "?bs ! b @ [\<lparr>it_data = d, it_hash = hash d\<rparr>]"
  let ?t = "lh\<lparr>lh_buckets := ?bs[b := ?c], lh_num_items := size_add (lh_num_items lh) 1\<rparr>"
  have none: "OPENSSL_lh_retrieve hash cmp lh d = None" using missing(1,4) by (simp add: OPENSSL_lh_retrieve_def)
  have "item_ok hash ?n b i" if "i \<in> set ?c" for i
    using that placed_item [OF wf_placed(1) [OF wf] missing(2)] missing(3) by (auto simp: item_ok_def)
  then have "placed hash ?n (?bs[b := ?c])" by (rule placed_update [OF wf_placed(1) [OF wf]])
  then have pl: "placed hash ?n (lh_buckets ?t)" by simp
  have "lh_contents ?t + mset (map it_data (?bs ! b)) = lh_contents lh + mset (map it_data ?c)"
    by (rule contents_update [OF missing(2)]) simp
  then have ct: "lh_contents ?t = add_mset d (lh_contents lh)" by simp
  have ap: "apart cmp (lh_contents ?t)"
    using missing(5) wf_apart [OF wf] wf_placed(2) [OF wf] unfolding ct apart_add hash_ok_def by blast
  have sz: "size (lh_contents ?t) = Suc (size (lh_contents lh))" unfolding ct by simp
  have "lh_num_items ?t = size_add (size (lh_contents lh) mod 2 ^ 64) 1" using wf_size [OF wf] by simp
  then have "lh_num_items ?t = size (lh_contents ?t) mod 2 ^ 64" unfolding sz size_succ .
  then have "lh_wf hash cmp ?t" by (intro lh_wf_update [OF wf pl _ ap]) simp_all
  then show thesis
  proof (cases "OPENSSL_malloc malloc sizeof_LHASH_ITEM")
    case None
    then show thesis using none missing(1,4) by (intro failed) (simp_all add: OPENSSL_lh_insert_def)
  next
    case (Some m)
    then show thesis using none missing(1,4) ct \<open>lh_wf hash cmp ?t\<close>
      by (intro added [of ?t]) (simp_all add: OPENSSL_lh_insert_def)
  qed
qed


lemma lh_delete_cases:
  assumes wf: "lh_wf hash cmp lh"
  obtains (gone) "OPENSSL_lh_retrieve hash cmp lh d = None" and "OPENSSL_lh_delete hash cmp malloc lh d = (None, lh)"
  | (removed) x t where "OPENSSL_lh_retrieve hash cmp lh d = Some x"
      and "OPENSSL_lh_delete hash cmp malloc lh d = (Some x, lh_maybe_resize malloc t)"
      and "lh_wf hash cmp t" and "lh_contents t = lh_contents lh - {#x#}"
      and "lh_num_items t = size_add (lh_num_items lh) (2 ^ 64 - 1)" and "lh_num_buckets t = lh_num_buckets lh"
      and "lh_callback_depth t = lh_callback_depth lh"
  using wf
proof (cases rule: get_next_ptr_cases [where d = d])
  case (missing b p)
  then show thesis by (intro gone) (simp_all add: OPENSSL_lh_retrieve_def OPENSSL_lh_delete_def)
next
  case (found b p it)
  let ?x = "it_data it" and ?n = "lh_num_buckets lh" and ?bs = "lh_buckets lh"
  let ?c = "take p (?bs ! b) @ drop (Suc p) (?bs ! b)"
  let ?t = "lh\<lparr>lh_buckets := ?bs[b := ?c], lh_num_items := size_add (lh_num_items lh) (2 ^ 64 - 1)\<rparr>"
  have "i \<in> set (?bs ! b)" if "i \<in> set ?c" for i using that by (auto dest: in_set_takeD in_set_dropD)
  then have "item_ok hash ?n b i" if "i \<in> set ?c" for i
    using that placed_item [OF wf_placed(1) [OF wf] found(2)] by blast
  then have "placed hash ?n (?bs[b := ?c])" by (rule placed_update [OF wf_placed(1) [OF wf]])
  then have pl: "placed hash ?n (lh_buckets ?t)" by simp
  have "lh_contents ?t + mset (map it_data (?bs ! b)) = lh_contents lh + mset (map it_data ?c)"
    by (rule contents_update [OF found(2)]) simp
  also have "mset (map it_data ?c) = mset (map it_data (?bs ! b)) - {#?x#}"
    using mset_delete_nth [of p "map it_data (?bs ! b)"] found(4,6) by (simp add: take_map drop_map)
  also have "lh_contents lh + (mset (map it_data (?bs ! b)) - {#?x#}) = (lh_contents lh - {#?x#}) + mset (map it_data (?bs ! b))"
  proof -
    have "?x \<in># mset (map it_data (?bs ! b))" using found(4,6) nth_mem by fastforce
    then show ?thesis using found(7) by (auto dest!: multi_member_split)
  qed
  finally have ct: "lh_contents ?t = lh_contents lh - {#?x#}" by simp
  have ap: "apart cmp (lh_contents ?t)" unfolding ct using apart_remove [OF wf_apart [OF wf] found(7)] by blast
  have sz: "size (lh_contents lh) = Suc (size (lh_contents ?t))" using ct found(7) by (metis insert_DiffM size_add_mset)
  have "lh_num_items ?t = size_add (size (lh_contents lh) mod 2 ^ 64) (2 ^ 64 - 1)" using wf_size [OF wf] by simp
  then have sz: "lh_num_items ?t = size (lh_contents ?t) mod 2 ^ 64" unfolding sz size_pred .
  have "lh_wf hash cmp ?t" by (rule lh_wf_update [OF wf pl _ ap sz]) simp
  then show thesis
    using ct found(1,5) by (intro removed [of ?x ?t])
      (simp_all add: OPENSSL_lh_retrieve_def OPENSSL_lh_delete_def)
qed



subsection \<open>Dictionaries\<close>

text \<open>
  The contract of a table of elements up to an equivalence \<open>same\<close>, with an insertion that may
  run out of memory.  \<open>'a\<close> is the environment an operation runs in (the allocator), and \<open>full\<close> says
  which of them have no room for another element. An insertion fails exactly when the element is
  new and its environment is full; every other operation has one result.
\<close>

datatype 'd dict_op = Ins 'd | Del 'd | Get 'd

datatype 'd dict_res = Inserted "'d option" | NoMemory | Deleted "'d option" | Got "'d option"

inductive map_step :: "('d \<Rightarrow> 'd \<Rightarrow> bool) \<Rightarrow> ('a \<Rightarrow> bool) \<Rightarrow> ('d \<rightharpoonup> 'd) \<Rightarrow> 'a \<times> 'd dict_op \<Rightarrow> 'd dict_res \<Rightarrow> ('d \<rightharpoonup> 'd) \<Rightarrow> bool"
  for same full where
  map_ins: "m d \<noteq> None \<or> \<not> full a \<Longrightarrow>
     map_step same full m (a, Ins d) (Inserted (m d)) (\<lambda>k. if same d k then Some d else m k)"
| map_full: "m d = None \<Longrightarrow> full a \<Longrightarrow> map_step same full m (a, Ins d) NoMemory m"
| map_del: "map_step same full m (a, Del d) (Deleted (m d)) (\<lambda>k. if same d k then None else m k)"
| map_get: "map_step same full m (a, Get d) (Got (m d)) m"

inductive map_run :: "('d \<Rightarrow> 'd \<Rightarrow> bool) \<Rightarrow> ('a \<Rightarrow> bool) \<Rightarrow> ('d \<rightharpoonup> 'd) \<Rightarrow> ('a \<times> 'd dict_op) list \<Rightarrow> 'd dict_res list \<Rightarrow> ('d \<rightharpoonup> 'd) \<Rightarrow> bool"
  for same full where
  run_nil: "map_run same full m [] [] m"
| run_cons: "map_step same full m c r m' \<Longrightarrow> map_run same full m' cs rs m'' \<Longrightarrow> map_run same full m (c # cs) (r # rs) m''"

text \<open>The reference leaves no choice: the results and the final map are determined by the operations.\<close>

lemma map_step_det: "map_step same full m c r m' \<Longrightarrow> map_step same full m c r2 m2 \<Longrightarrow> r2 = r \<and> m2 = m'"
  by (auto elim!: map_step.cases)

lemma map_run_det: "map_run same full m cs rs m' \<Longrightarrow> map_run same full m cs rs2 m2 \<Longrightarrow> rs2 = rs \<and> m2 = m'"
proof (induction arbitrary: rs2 m2 rule: map_run.induct)
  case (run_nil m)
  then show ?case by (auto elim: map_run.cases)
next
  case (run_cons m c r m' cs rs m'')
  from run_cons.prems obtain r1 m1 rs1 where "map_step same full m c r1 m1" "map_run same full m1 cs rs1 m2" "rs2 = r1 # rs1"
    by (auto elim: map_run.cases)
  then show ?case using map_step_det [OF run_cons.hyps(1)] run_cons.IH by blast
qed

definition dict_step :: "('s \<Rightarrow> 'd \<Rightarrow> 'd option) \<Rightarrow> ('a \<Rightarrow> 's \<Rightarrow> 'd \<Rightarrow> (bool \<times> 'd option) \<times> 's) \<Rightarrow>
    ('a \<Rightarrow> 's \<Rightarrow> 'd \<Rightarrow> 'd option \<times> 's) \<Rightarrow> 's \<Rightarrow> 'a \<times> 'd dict_op \<Rightarrow> 'd dict_res \<times> 's" where
  "dict_step lookup ins del s c =
     (case c of
        (a, Ins d) \<Rightarrow> (case ins a s d of ((ok, old), s') \<Rightarrow> (if ok then Inserted old else NoMemory, s'))
      | (a, Del d) \<Rightarrow> (case del a s d of (r, s') \<Rightarrow> (Deleted r, s'))
      | (a, Get d) \<Rightarrow> (Got (lookup s d), s))"

fun dict_run :: "('s \<Rightarrow> 'd \<Rightarrow> 'd option) \<Rightarrow> ('a \<Rightarrow> 's \<Rightarrow> 'd \<Rightarrow> (bool \<times> 'd option) \<times> 's) \<Rightarrow>
    ('a \<Rightarrow> 's \<Rightarrow> 'd \<Rightarrow> 'd option \<times> 's) \<Rightarrow> 's \<Rightarrow> ('a \<times> 'd dict_op) list \<Rightarrow> 'd dict_res list \<times> 's" where
  "dict_run lookup ins del s [] = ([], s)"
| "dict_run lookup ins del s (c # cs) =
     (case dict_step lookup ins del s c of (r, s') \<Rightarrow>
        (case dict_run lookup ins del s' cs of (rs, s'') \<Rightarrow> (r # rs, s'')))"

locale dictionary =
  fixes inv :: "'s \<Rightarrow> bool"
    and lookup :: "'s \<Rightarrow> 'd \<Rightarrow> 'd option"
    and ins :: "'a \<Rightarrow> 's \<Rightarrow> 'd \<Rightarrow> (bool \<times> 'd option) \<times> 's"
    and del :: "'a \<Rightarrow> 's \<Rightarrow> 'd \<Rightarrow> 'd option \<times> 's"
    and same :: "'d \<Rightarrow> 'd \<Rightarrow> bool"
    and full :: "'a \<Rightarrow> bool"
  assumes ins_inv: "inv s \<Longrightarrow> inv (snd (ins a s d))"
    and del_inv: "inv s \<Longrightarrow> inv (snd (del a s d))"
    and ins_old: "inv s \<Longrightarrow> snd (fst (ins a s d)) = lookup s d"
    and ins_ok: "inv s \<Longrightarrow> fst (fst (ins a s d)) \<Longrightarrow> lookup (snd (ins a s d)) k = (if same d k then Some d else lookup s k)"
    and ins_fail: "inv s \<Longrightarrow> \<not> fst (fst (ins a s d)) \<Longrightarrow> snd (ins a s d) = s"
    and ins_full: "inv s \<Longrightarrow> fst (fst (ins a s d)) \<longleftrightarrow> lookup s d \<noteq> None \<or> \<not> full a"
    and del_old: "inv s \<Longrightarrow> fst (del a s d) = lookup s d"
    and del_lookup: "inv s \<Longrightarrow> lookup (snd (del a s d)) k = (if same d k then None else lookup s k)"
begin

lemma dict_step_map:
  assumes "inv s"
  shows "inv (snd (dict_step lookup ins del s (a, c)))" and "map_step same full (lookup s) (a, c) (fst (dict_step lookup ins del s (a, c))) (lookup (snd (dict_step lookup ins del s (a, c))))"
proof -
  have "inv (snd (dict_step lookup ins del s (a, c))) \<and> map_step same full (lookup s) (a, c) (fst (dict_step lookup ins del s (a, c))) (lookup (snd (dict_step lookup ins del s (a, c))))"
  proof (cases c)
    case (Ins d)
    obtain ok old s' where r: "ins a s d = ((ok, old), s')" by (metis surj_pair)
    have old: "old = lookup s d" using ins_old [OF assms, of a d] r by simp
    have inv: "inv s'" using ins_inv [OF assms, of a d] r by simp
    show ?thesis
    proof (cases ok)
      case True
      then have "lookup s' = (\<lambda>k. if same d k then Some d else lookup s k)" using ins_ok [OF assms, of a d] r by auto
      moreover have "lookup s d \<noteq> None \<or> \<not> full a" using ins_full [OF assms, of a d] r True by simp
      ultimately show ?thesis using map_ins [of "lookup s" d full a same] Ins r True old inv by (simp add: dict_step_def)
    next
      case False
      then have "s' = s" and "lookup s d = None" and "full a" using ins_fail [OF assms, of a d] ins_full [OF assms, of a d] r by auto
      then show ?thesis using map_full [of "lookup s" d full a same] Ins r False inv by (simp add: dict_step_def)
    qed
  next
    case (Del d)
    obtain old s' where r: "del a s d = (old, s')" by (metis surj_pair)
    have "old = lookup s d" using del_old [OF assms, of a d] r by simp
    moreover have "inv s'" using del_inv [OF assms, of a d] r by simp
    moreover have "lookup s' = (\<lambda>k. if same d k then None else lookup s k)" using del_lookup [OF assms, of a d] r by auto
    ultimately show ?thesis using map_del [of same full "lookup s" a d] Del r by (simp add: dict_step_def)
  next
    case (Get d)
    then show ?thesis using map_get [of same full "lookup s" a d] assms by (simp add: dict_step_def)
  qed
  then show "inv (snd (dict_step lookup ins del s (a, c)))" and "map_step same full (lookup s) (a, c) (fst (dict_step lookup ins del s (a, c))) (lookup (snd (dict_step lookup ins del s (a, c))))"
    by blast+
qed

lemma dict_run_map:
  assumes "inv s"
  shows "inv (snd (dict_run lookup ins del s cs)) \<and> map_run same full (lookup s) cs (fst (dict_run lookup ins del s cs)) (lookup (snd (dict_run lookup ins del s cs)))"
  using assms
proof (induction cs arbitrary: s)
  case Nil
  then show ?case by (simp add: run_nil)
next
  case (Cons c cs)
  obtain a d where c: "c = (a, d)" by (cases c)
  obtain r s' where r: "dict_step lookup ins del s c = (r, s')" by (cases "dict_step lookup ins del s c")
  have inv: "inv s'" and step: "map_step same full (lookup s) c r (lookup s')" using dict_step_map [OF Cons.prems, where a = a and c = d] r c by simp_all
  obtain rs s'' where rs: "dict_run lookup ins del s' cs = (rs, s'')" by (cases "dict_run lookup ins del s' cs")
  show ?case using run_cons [OF step] Cons.IH [OF inv] r rs c by simp
qed

end


text \<open>The allocator has no memory for a new \<open>LHASH_ITEM\<close>.\<close>

definition no_item :: "allocator \<Rightarrow> bool" where
  "no_item malloc \<longleftrightarrow> OPENSSL_malloc malloc sizeof_LHASH_ITEM = None"

definition lh_run :: "('d \<Rightarrow> u32) \<Rightarrow> ('d \<Rightarrow> 'd \<Rightarrow> int) \<Rightarrow> 'd lhash \<Rightarrow> (allocator \<times> 'd dict_op) list \<Rightarrow> 'd dict_res list \<times> 'd lhash" where
  "lh_run hash cmp = dict_run (OPENSSL_lh_retrieve hash cmp) (OPENSSL_lh_insert hash cmp) (OPENSSL_lh_delete hash cmp)"

lemma retrieve_eqI:
  assumes "lh_wf hash cmp t" and "\<And>x. x \<in># lh_contents t \<and> cmp x k = 0 \<longleftrightarrow> r = Some x"
  shows "OPENSSL_lh_retrieve hash cmp t k = r"
  by (metis assms not_Some_eq retrieve_iff)

text \<open>Taking out the element equal to \<open>d\<close> keeps every element that is not.\<close>

lemma contents_other:
  assumes wf: "lh_wf hash cmp lh" and old: "OPENSSL_lh_retrieve hash cmp lh d = Some x" and k: "cmp d k \<noteq> 0"
  shows "y \<in># lh_contents lh - {#x#} \<and> cmp y k = 0 \<longleftrightarrow> OPENSSL_lh_retrieve hash cmp lh k = Some y"
proof -
  have "cmp x d = 0" using old retrieve_iff [OF wf] by blast
  then have "cmp x k \<noteq> 0" using k wf_placed(2) [OF wf] unfolding hash_ok_def by blast
  then show ?thesis unfolding retrieve_iff [OF wf] by (auto dest: in_diffD simp: in_diff_count)
qed

lemma retrieve_add:
  assumes wf: "lh_wf hash cmp lh" "lh_wf hash cmp t"
    and t: "lh_contents t = add_mset d
      (case OPENSSL_lh_retrieve hash cmp lh d of None \<Rightarrow> lh_contents lh | Some x \<Rightarrow> lh_contents lh - {#x#})"
  shows "OPENSSL_lh_retrieve hash cmp t k = (if cmp d k = 0 then Some d else OPENSSL_lh_retrieve hash cmp lh k)"
proof (cases "cmp d k = 0")
  case True
  then have "OPENSSL_lh_retrieve hash cmp t k = Some d" by (simp add: retrieve_iff [OF wf(2)] t)
  then show ?thesis using True by simp
next
  case False
  have "OPENSSL_lh_retrieve hash cmp t k = OPENSSL_lh_retrieve hash cmp lh k"
  proof (rule retrieve_eqI [OF wf(2)])
    fix y
    show "y \<in># lh_contents t \<and> cmp y k = 0 \<longleftrightarrow> OPENSSL_lh_retrieve hash cmp lh k = Some y"
    proof (cases "OPENSSL_lh_retrieve hash cmp lh d")
      case None
      then show ?thesis using False by (auto simp: t retrieve_iff [OF wf(1), of k])
    next
      case (Some x)
      then show ?thesis using False contents_other [OF wf(1) Some False, of y] by (auto simp: t)
    qed
  qed
  then show ?thesis using False by simp
qed

lemma retrieve_remove:
  assumes wf: "lh_wf hash cmp lh" "lh_wf hash cmp t" and old: "OPENSSL_lh_retrieve hash cmp lh d = Some x"
    and t: "lh_contents t = lh_contents lh - {#x#}"
  shows "OPENSSL_lh_retrieve hash cmp t k = (if cmp d k = 0 then None else OPENSSL_lh_retrieve hash cmp lh k)"
proof (cases "cmp d k = 0")
  case True
  have x: "x \<in># lh_contents lh" "cmp x d = 0" using old retrieve_iff [OF wf(1)] by blast+
  then have "cmp y k \<noteq> 0" if "y \<in># lh_contents t" for y
    using that apart_remove [OF wf_apart [OF wf(1)] x(1)] True wf_placed(2) [OF wf(1)] unfolding t hash_ok_def by blast
  then show ?thesis using True by (simp add: retrieve_None [OF wf(2)])
next
  case False
  then show ?thesis using retrieve_eqI [OF wf(2)] contents_other [OF wf(1) old False] by (simp add: t)
qed

lemma retrieve_cong: "lh_wf hash cmp t \<Longrightarrow> lh_wf hash cmp lh \<Longrightarrow> lh_contents t = lh_contents lh \<Longrightarrow>
    OPENSSL_lh_retrieve hash cmp t k = OPENSSL_lh_retrieve hash cmp lh k"
  by (rule retrieve_eqI) (simp_all add: retrieve_iff)

interpretation lht: dictionary "lh_wf hash cmp" "OPENSSL_lh_retrieve hash cmp" "OPENSSL_lh_insert hash cmp"
  "OPENSSL_lh_delete hash cmp" "\<lambda>d k. cmp d k = 0" no_item
proof
  fix s a d k
  assume wf: "lh_wf hash cmp s"
  let ?i = "OPENSSL_lh_insert hash cmp a s d" and ?look = "OPENSSL_lh_retrieve hash cmp"
  have "lh_wf hash cmp (snd ?i) \<and> snd (fst ?i) = ?look s d \<and>
     (fst (fst ?i) \<longrightarrow> ?look (snd ?i) k = (if cmp d k = 0 then Some d else ?look s k)) \<and>
     (\<not> fst (fst ?i) \<longrightarrow> snd ?i = s) \<and> (fst (fst ?i) \<longleftrightarrow> ?look s d \<noteq> None \<or> \<not> no_item a)"
    using wf
  proof (cases rule: lh_insert_cases [where malloc = a and d = d])
    case (replaced x t)
    then show ?thesis using retrieve_add [OF wf replaced(3), of d k] by simp
  next
    case failed
    then show ?thesis using wf by (simp add: no_item_def)
  next
    case (added t)
    then show ?thesis using retrieve_add [OF wf added(3), of d k] lh_maybe_resize_wf [OF added(3)]
        retrieve_cong [OF lh_maybe_resize_wf(1) [OF added(3)] added(3)] by (simp add: no_item_def)
  qed
  then show "lh_wf hash cmp (snd ?i)" and "snd (fst ?i) = ?look s d"
    and "fst (fst ?i) \<Longrightarrow> ?look (snd ?i) k = (if cmp d k = 0 then Some d else ?look s k)"
    and "\<not> fst (fst ?i) \<Longrightarrow> snd ?i = s" and "fst (fst ?i) \<longleftrightarrow> ?look s d \<noteq> None \<or> \<not> no_item a" by blast+
  let ?d = "OPENSSL_lh_delete hash cmp a s d"
  have "lh_wf hash cmp (snd ?d) \<and> fst ?d = ?look s d \<and> ?look (snd ?d) k = (if cmp d k = 0 then None else ?look s k)"
    using wf
  proof (cases rule: lh_delete_cases [where malloc = a and d = d])
    case gone
    have "?look s k = None" if "cmp d k = 0"
      using that gone(1) wf_placed(2) [OF wf] unfolding retrieve_None [OF wf] hash_ok_def by blast
    then show ?thesis using gone wf by simp
  next
    case (removed x t)
    then show ?thesis using retrieve_remove [OF wf removed(3,1,4), of k] lh_maybe_resize_wf [OF removed(3)]
        retrieve_cong [OF lh_maybe_resize_wf(1) [OF removed(3)] removed(3)] by simp
  qed
  then show "lh_wf hash cmp (snd ?d)" and "fst ?d = ?look s d"
    and "?look (snd ?d) k = (if cmp d k = 0 then None else ?look s k)" by blast+
qed


lemma lh_new_wf:
  assumes "hash_ok hash cmp" and "OPENSSL_lh_new malloc = Some lh"
  shows "lh_wf hash cmp lh" and "lh_contents lh = {#}" and "lh_num_items lh = 0" and "lh_num_buckets lh = kMinNumBuckets"
    and "lh_callback_depth lh = 0"
proof -
  have lh: "lh = \<lparr>lh_num_items = 0, lh_buckets = replicate kMinNumBuckets [], lh_num_buckets = kMinNumBuckets, lh_callback_depth = 0\<rparr>"
    using assms(2) by (auto simp: OPENSSL_lh_new_def split: option.splits)
  then show ct: "lh_contents lh = {#}" by (simp add: lh_contents_def)
  show "lh_num_items lh = 0" and nb: "lh_num_buckets lh = kMinNumBuckets" and "lh_callback_depth lh = 0" by (simp_all add: lh)
  have "\<exists>k. kMinNumBuckets = kMinNumBuckets * 2 ^ k" by (rule exI [of _ 0]) simp
  moreover have "placed hash kMinNumBuckets (lh_buckets lh)" by (simp add: lh placed_replicate)
  ultimately show "lh_wf hash cmp lh"
    using assms(1) ct nb \<open>lh_num_items lh = 0\<close> by (simp add: lh_wf_def apart_def kMinNumBuckets_def)
qed

lemma lh_run_map:
  "lh_wf hash cmp lh \<Longrightarrow> lh_wf hash cmp (snd (lh_run hash cmp lh cs)) \<and>
    map_run (\<lambda>d k. cmp d k = 0) no_item (OPENSSL_lh_retrieve hash cmp lh) cs (fst (lh_run hash cmp lh cs))
      (OPENSSL_lh_retrieve hash cmp (snd (lh_run hash cmp lh cs)))"
  unfolding lh_run_def by (rule lht.dict_run_map)

subsection \<open>Load\<close>

definition balanced :: "'d lhash \<Rightarrow> bool" where
  "balanced lh \<longleftrightarrow> lh_callback_depth lh = 0 \<and> lh_num_items lh < 3 * lh_num_buckets lh \<and>
     (lh_num_buckets lh = kMinNumBuckets \<or> lh_num_buckets lh \<le> lh_num_items lh)"

lemma lh_rebucket_total:
  assumes "\<forall>sz. malloc sz \<noteq> None" and "n < 2 ^ 60"
  shows "lh_num_buckets (lh_rebucket malloc lh n) = n"
proof -
  have "size_mul 8 n = 8 * n" using assms(2) by (intro size_mul_small) simp
  moreover have "OPENSSL_malloc malloc (8 * n) \<noteq> None"
    using assms by (auto simp: OPENSSL_malloc_def OPENSSL_MALLOC_PREFIX_def)
  ultimately show ?thesis by (auto simp: lh_rebucket_def Let_def)
qed

lemma wf_min: "lh_wf hash cmp lh \<Longrightarrow> kMinNumBuckets \<le> lh_num_buckets lh"
  unfolding lh_wf_def by auto

lemma lh_maybe_resize_balanced:
  assumes wf: "lh_wf hash cmp t" and total: "\<forall>sz. malloc sz \<noteq> None" and depth: "lh_callback_depth t = 0"
    and hi: "lh_num_items t \<le> 3 * lh_num_buckets t"
    and lo: "lh_num_buckets t = kMinNumBuckets \<or> lh_num_buckets t \<le> Suc (lh_num_items t)"
    and small: "lh_num_items t < 2 ^ 60"
  shows "balanced (lh_maybe_resize malloc t)"
  using wf
proof (cases rule: lh_maybe_resize_cases [where malloc = malloc])
  case kept
  have "lh_num_items t div lh_num_buckets t < 3" and "lh_num_buckets t \<le> kMinNumBuckets \<or> 1 \<le> lh_num_items t div lh_num_buckets t"
    using kept(2) depth by simp_all
  then have "lh_num_items t < 3 * lh_num_buckets t" and "lh_num_buckets t \<le> kMinNumBuckets \<or> lh_num_buckets t \<le> lh_num_items t"
    using wf_placed(3) [OF wf] by (simp_all add: div_less_iff_less_mult less_eq_div_iff_mult_less_eq)
  then show ?thesis unfolding kept(1) using depth wf_min [OF wf] by (auto simp: balanced_def)
next
  case (grown k)
  have "3 \<le> lh_num_items t div lh_num_buckets t" using grown(3) by simp
  then have n: "3 * lh_num_buckets t \<le> lh_num_items t"
    using wf_placed(3) [OF wf] by (simp add: less_eq_div_iff_mult_less_eq)
  then have "lh_num_buckets (lh_rebucket malloc t (2 * lh_num_buckets t)) = 2 * lh_num_buckets t"
    using small by (intro lh_rebucket_total [OF total]) simp
  then show ?thesis unfolding grown(1) balanced_def
    using lh_rebucket_wf(3,4) [OF wf grown(2), of malloc] depth hi n wf_placed(3) [OF wf] by simp
next
  case (shrunk k)
  let ?h = "lh_num_buckets t div 2"
  have n: "lh_num_items t < lh_num_buckets t" using shrunk(3) wf_placed(3) [OF wf] by (simp add: div_eq_0_iff)
  have "lh_num_buckets t < 2 ^ 61" using wf unfolding lh_wf_def by blast
  then have h: "lh_num_buckets (lh_rebucket malloc t ?h) = ?h"
    by (intro lh_rebucket_total [OF total]) simp
  have "kMinNumBuckets \<le> ?h" unfolding shrunk(2) by simp
  then have "lh_num_buckets t \<noteq> kMinNumBuckets" using shrunk(4) unfolding kMinNumBuckets_def by linarith
  then show ?thesis unfolding shrunk(1) balanced_def h
    using lh_rebucket_wf(3,4) [OF wf shrunk(2), of malloc] depth lo n wf_placed(3) [OF wf] shrunk(4) by auto
qed


lemma balanced_update: "balanced lh \<Longrightarrow> lh_callback_depth t = lh_callback_depth lh \<Longrightarrow> lh_num_items t = lh_num_items lh \<Longrightarrow>
    lh_num_buckets t = lh_num_buckets lh \<Longrightarrow> balanced t"
  by (simp add: balanced_def)

lemma wf_small: "lh_wf hash cmp lh \<Longrightarrow> size (lh_contents lh) < 2 ^ 60 \<Longrightarrow> lh_num_items lh = size (lh_contents lh)"
  using wf_size [of hash cmp lh] by simp

lemma lh_insert_balanced:
  assumes wf: "lh_wf hash cmp lh" and total: "\<forall>sz. malloc sz \<noteq> None" and bal: "balanced lh"
    and small: "Suc (size (lh_contents lh)) < 2 ^ 60"
  shows "balanced (snd (OPENSSL_lh_insert hash cmp malloc lh d))"
    and "size (lh_contents (snd (OPENSSL_lh_insert hash cmp malloc lh d))) \<le> Suc (size (lh_contents lh))"
proof -
  have "balanced (snd (OPENSSL_lh_insert hash cmp malloc lh d)) \<and>
      size (lh_contents (snd (OPENSSL_lh_insert hash cmp malloc lh d))) \<le> Suc (size (lh_contents lh))"
    using wf
  proof (cases rule: lh_insert_cases [where malloc = malloc and d = d])
    case (replaced x t)
    then show ?thesis using balanced_update [OF bal replaced(7,5,6)] by (simp add: size_Diff_submset size_mset_mono)
  next
    case failed
    then show ?thesis using bal by simp
  next
    case (added t)
    have "lh_num_items t = Suc (lh_num_items lh)" using wf_small [OF wf] wf_small [OF added(3)] added(4) small by simp
    then have "balanced (lh_maybe_resize malloc t)"
      using bal added(6,7) small wf_small [OF wf]
      by (intro lh_maybe_resize_balanced [OF added(3) total]) (auto simp: balanced_def)
    then show ?thesis using added(2,4) lh_maybe_resize_wf(2) [OF added(3), of malloc] by simp
  qed
  then show "balanced (snd (OPENSSL_lh_insert hash cmp malloc lh d))"
    and "size (lh_contents (snd (OPENSSL_lh_insert hash cmp malloc lh d))) \<le> Suc (size (lh_contents lh))" by blast+
qed

lemma lh_delete_balanced:
  assumes wf: "lh_wf hash cmp lh" and total: "\<forall>sz. malloc sz \<noteq> None" and bal: "balanced lh"
    and small: "size (lh_contents lh) < 2 ^ 60"
  shows "balanced (snd (OPENSSL_lh_delete hash cmp malloc lh d))"
    and "size (lh_contents (snd (OPENSSL_lh_delete hash cmp malloc lh d))) \<le> size (lh_contents lh)"
proof -
  have "balanced (snd (OPENSSL_lh_delete hash cmp malloc lh d)) \<and>
      size (lh_contents (snd (OPENSSL_lh_delete hash cmp malloc lh d))) \<le> size (lh_contents lh)"
    using wf
  proof (cases rule: lh_delete_cases [where malloc = malloc and d = d])
    case gone
    then show ?thesis using bal by simp
  next
    case (removed x t)
    have "x \<in># lh_contents lh" using removed(1) retrieve_iff [OF wf] by blast
    then have sz: "Suc (size (lh_contents t)) = size (lh_contents lh)" unfolding removed(4) by (metis insert_DiffM size_add_mset)
    then have "Suc (lh_num_items t) = lh_num_items lh" using wf_small [OF wf] wf_small [OF removed(3)] small by simp
    then have "balanced (lh_maybe_resize malloc t)"
      using bal removed(6,7) small wf_small [OF wf]
      by (intro lh_maybe_resize_balanced [OF removed(3) total]) (auto simp: balanced_def)
    then show ?thesis using removed(2) sz lh_maybe_resize_wf(2) [OF removed(3), of malloc] by simp
  qed
  then show "balanced (snd (OPENSSL_lh_delete hash cmp malloc lh d))"
    and "size (lh_contents (snd (OPENSSL_lh_delete hash cmp malloc lh d))) \<le> size (lh_contents lh)" by blast+
qed

lemma lh_run_balanced:
  assumes "lh_wf hash cmp lh" and "\<forall>c \<in> set cs. \<forall>sz. fst c sz \<noteq> None" and "balanced lh"
    and "size (lh_contents lh) + length cs < 2 ^ 60"
  shows "balanced (snd (lh_run hash cmp lh cs))"
  using assms
proof (induction cs arbitrary: lh)
  case Nil
  then show ?case by (simp add: lh_run_def)
next
  case (Cons c cs)
  obtain malloc e where c: "c = (malloc, e)" by (cases c)
  let ?s = "dict_step (OPENSSL_lh_retrieve hash cmp) (OPENSSL_lh_insert hash cmp) (OPENSSL_lh_delete hash cmp) lh c"
  have total: "\<forall>sz. malloc sz \<noteq> None" using Cons.prems(2) c by simp
  have wf: "lh_wf hash cmp (snd ?s)" unfolding c by (rule lht.dict_step_map(1) [OF Cons.prems(1)])
  have "balanced (snd ?s) \<and> size (lh_contents (snd ?s)) \<le> Suc (size (lh_contents lh))"
  proof (cases e)
    case (Ins d)
    then show ?thesis using lh_insert_balanced [OF Cons.prems(1) total Cons.prems(3), of d] Cons.prems(4)
      by (auto simp: c dict_step_def split: prod.split)
  next
    case (Del d)
    then show ?thesis using lh_delete_balanced [OF Cons.prems(1) total Cons.prems(3), of d] Cons.prems(4)
      by (auto simp: c dict_step_def split: prod.split)
  next
    case (Get d)
    then show ?thesis using Cons.prems by (simp add: c dict_step_def)
  qed
  then show ?case using Cons.IH [OF wf] Cons.prems(2,4) by (auto simp: lh_run_def split: prod.split)
qed



subsection \<open>Iteration\<close>

lemma foldl_concat_fold: "foldl (\<lambda>a chain. foldl (\<lambda>a cur. func (it_data cur) a) a chain) arg bs = fold func (map it_data (concat bs)) arg"
  by (induction bs arbitrary: arg) (simp_all add: foldl_conv_fold fold_map comp_def)

lemma contents_depth [simp]: "lh_contents (lh\<lparr>lh_callback_depth := n\<rparr>) = lh_contents lh"
  by (simp add: lh_contents_def)

lemma wf_depth [simp]: "lh_wf hash cmp (lh\<lparr>lh_callback_depth := n\<rparr>) = lh_wf hash cmp lh"
  by (simp add: lh_wf_def)

lemma doall_unfold:
  "\<exists>n. OPENSSL_lh_doall_arg malloc (Some lh) func arg =
     (fold func (map it_data (concat (lh_buckets lh))) arg, Some (lh_maybe_resize malloc (lh\<lparr>lh_callback_depth := n\<rparr>))) \<and>
     (n = lh_callback_depth lh \<or> n = - 1)"
proof -
  let ?d = "lh_callback_depth lh"
  consider "?d < - 1" "?d + 1 < - 1" | "?d < - 1" "?d + 1 = - 1" | "?d = - 1"
    using word_order.extremum [of ?d] by (metis le_less word_order.extremum)
  then show ?thesis
  proof cases
    case 1
    then show ?thesis by (intro exI [of _ ?d]) (simp add: OPENSSL_lh_doall_arg_def Let_def foldl_concat_fold)
  next
    case 2
    then have "?d = - 2" by (simp add: eq_neg_iff_add_eq_0 add.commute)
    then show ?thesis by (intro exI [of _ "- 1"]) (simp add: OPENSSL_lh_doall_arg_def Let_def foldl_concat_fold)
  next
    case 3
    then have "OPENSSL_lh_doall_arg malloc (Some lh) func arg =
        (fold func (map it_data (concat (lh_buckets lh))) arg, Some (lh_maybe_resize malloc lh))"
      by (simp add: OPENSSL_lh_doall_arg_def Let_def foldl_concat_fold)
    moreover have "lh\<lparr>lh_callback_depth := ?d\<rparr> = lh" by simp
    ultimately show ?thesis by metis
  qed
qed

lemma apart_sorted: "apart cmp (mset xs) \<Longrightarrow> sorted_wrt (\<lambda>x y. cmp x y \<noteq> 0) xs"
  by (induction xs) (auto simp: apart_add)

lemma sorted_distinct: "sorted_wrt (\<lambda>x y. cmp x y \<noteq> 0) xs \<Longrightarrow> \<forall>x. cmp x x = (0 :: int) \<Longrightarrow> distinct xs"
  by (induction xs) auto

text \<open>A lookup by key is the lookup of any element with that key and hash.\<close>

lemma retrieve_key_eq:
  assumes "key_hash = hash d" and "\<And>x. cmp_key key x = 0 \<longleftrightarrow> cmp x d = 0"
  shows "OPENSSL_lh_retrieve_key lh key key_hash cmp_key = OPENSSL_lh_retrieve hash cmp lh d"
  by (simp add: OPENSSL_lh_retrieve_key_def OPENSSL_lh_retrieve_def get_next_ptr_by_key_def get_next_ptr_and_hash_def Let_def assms)

subsection \<open>A concrete run\<close>

text \<open>Numbers that are their own hash, and an allocator that never fails.\<close>

definition num_hash :: "u32 \<Rightarrow> u32" where
  "num_hash x = x mod 100"

definition num_cmp :: "u32 \<Rightarrow> u32 \<Rightarrow> int" where
  "num_cmp x y = (if x mod 100 = y mod 100 then 0 else 1)"

definition give :: allocator where
  "give sz = Some []"

definition sample_ops :: "(allocator \<times> u32 dict_op) list" where
  "sample_ops = [(give, Ins 1), (give, Ins 17), ((\<lambda>_. None), Ins 5), (give, Ins 117), (give, Del 1), (give, Get 17), (give, Get 1)]"

definition sample_table :: "u32 lhash" where
  "sample_table = \<lparr>lh_num_items = 0, lh_buckets = replicate 16 [], lh_num_buckets = 16, lh_callback_depth = 0\<rparr>"

lemma num_hash_ok: "hash_ok num_hash num_cmp"
  by (simp add: hash_ok_def num_hash_def num_cmp_def)

lemma sample_new: "OPENSSL_lh_new give = Some sample_table"
  by (simp add: OPENSSL_lh_new_def OPENSSL_malloc_def give_def sizeof_LHASH_def kMinNumBuckets_def sample_table_def
      OPENSSL_MALLOC_PREFIX_def)

lemma sample_run: "lh_run num_hash num_cmp sample_table sample_ops =
   ([Inserted None, Inserted None, NoMemory, Inserted (Some 17), Deleted (Some 1), Got (Some 117), Got None],
    sample_table\<lparr>lh_num_items := 1, lh_buckets := (replicate 16 [])[1 := [\<lparr>it_data = 117, it_hash = 17\<rparr>]]\<rparr>)"
  by (simp add: lh_run_def sample_ops_def dict_step_def OPENSSL_lh_insert_def OPENSSL_lh_delete_def OPENSSL_lh_retrieve_def
      get_next_ptr_and_hash_def sample_table_def Let_def num_hash_def num_cmp_def item_at_def OPENSSL_malloc_def give_def
      sizeof_LHASH_ITEM_def OPENSSL_MALLOC_PREFIX_def lh_maybe_resize_def kMaxAverageChainLength_def
      kMinAverageChainLength_def kMinNumBuckets_def nth_list_update size_add_def)


subsection \<open>Properties\<close>

text \<open>C25. Any sequence of insertions, deletions and lookups on a new table, each with its own
  allocator, gives the results of the same operations on a map from elements up to \<open>cmp\<close>. An
  insertion fails exactly when the element is new and the allocator of that call refuses the memory
  of an item, and then changes nothing; that the array of buckets cannot be resized is never seen.
\<close>

theorem lhash_refines_map:
  assumes "hash_ok hash cmp" and "OPENSSL_lh_new malloc = Some lh" and "lh_run hash cmp lh cs = (rs, t)"
  shows "map_run (\<lambda>d k. cmp d k = 0) (\<lambda>malloc. OPENSSL_malloc malloc sizeof_LHASH_ITEM = None) Map.empty cs rs
    (OPENSSL_lh_retrieve hash cmp t)"
proof -
  note new = lh_new_wf [OF assms(1,2)]
  have "OPENSSL_lh_retrieve hash cmp lh = Map.empty" by (rule ext) (simp add: retrieve_None [OF new(1)] new(2))
  moreover have "no_item = (\<lambda>malloc. OPENSSL_malloc malloc sizeof_LHASH_ITEM = None)" by (simp add: fun_eq_iff no_item_def)
  ultimately show ?thesis using lh_run_map [OF new(1), of cs] assms(3) by simp
qed

theorem lhash_refines_map_witness:
  "map_run (\<lambda>d k. num_cmp d k = 0) (\<lambda>malloc. OPENSSL_malloc malloc sizeof_LHASH_ITEM = None) Map.empty
     [(give, Ins 1), (give, Ins 17), ((\<lambda>_. None), Ins 5), (give, Ins 117), (give, Del 1), (give, Get 17), (give, Get 1)]
     [Inserted None, Inserted None, NoMemory, Inserted (Some 17), Deleted (Some 1), Got (Some 117), Got None]
     (OPENSSL_lh_retrieve num_hash num_cmp (snd (lh_run num_hash num_cmp sample_table sample_ops)))"
  using lhash_refines_map [OF num_hash_ok sample_new sample_run] unfolding sample_run by (simp add: sample_ops_def)

text \<open>C26. In every table such a sequence leads to, the number of buckets is 16 times a power of two,
  each item is in the bucket of its hash, which is cached with it, no two items are equal and
  \<open>num_items\<close> counts them.
\<close>

theorem lhash_invariant:
  assumes "hash_ok hash cmp" and "OPENSSL_lh_new malloc = Some lh" and "lh_run hash cmp lh cs = (rs, t)"
  shows "length (lh_buckets t) = lh_num_buckets t \<and> (\<exists>k. lh_num_buckets t = 16 * 2 ^ k) \<and>
    (\<forall>b it. b < lh_num_buckets t \<longrightarrow> it \<in> set (lh_buckets t ! b) \<longrightarrow>
       unat (it_hash it) mod lh_num_buckets t = b \<and> it_hash it = hash (it_data it)) \<and>
    sorted_wrt (\<lambda>x y. cmp x y \<noteq> 0) (map it_data (concat (lh_buckets t))) \<and>
    OPENSSL_lh_num_items t = length (concat (lh_buckets t)) mod 2 ^ 64"
proof -
  have wf: "lh_wf hash cmp t" using lh_run_map [OF lh_new_wf(1) [OF assms(1,2)], of cs] assms(3) by simp
  have "sorted_wrt (\<lambda>x y. cmp x y \<noteq> 0) (map it_data (concat (lh_buckets t)))"
    by (rule apart_sorted) (use wf_apart [OF wf] in \<open>simp add: lh_contents_def\<close>)
  moreover have "OPENSSL_lh_num_items t = length (concat (lh_buckets t)) mod 2 ^ 64"
    using wf_size [OF wf] by (simp add: OPENSSL_lh_num_items_def lh_contents_def)
  moreover have "\<exists>k. lh_num_buckets t = 16 * 2 ^ k" using wf unfolding lh_wf_def kMinNumBuckets_def by blast
  moreover have "item_ok hash (lh_num_buckets t) b it" if "b < lh_num_buckets t" "it \<in> set (lh_buckets t ! b)" for b it
    using that placed_item [OF wf_placed(1) [OF wf]] wf_placed(4) [OF wf] by simp
  ultimately show ?thesis using wf_placed(4) [OF wf] unfolding item_ok_def by blast
qed

theorem lhash_invariant_witness:
  "lh_num_buckets (snd (lh_run num_hash num_cmp sample_table sample_ops)) = 16 \<and>
   sorted_wrt (\<lambda>x y. num_cmp x y \<noteq> 0)
     (map it_data (concat (lh_buckets (snd (lh_run num_hash num_cmp sample_table sample_ops))))) \<and>
   OPENSSL_lh_num_items (snd (lh_run num_hash num_cmp sample_table sample_ops)) = 1"
  using lhash_invariant [OF num_hash_ok sample_new sample_run] unfolding sample_run
  by (simp add: OPENSSL_lh_num_items_def sample_table_def)

text \<open>C27. With allocations that succeed the table stays proportionate: fewer than three items a
  bucket, and above the minimum of 16 never more buckets than items. This is shown for runs of fewer
  than \<open>2 ^ 60\<close> operations, on which the sizes do not wrap around.
\<close>

theorem lhash_load:
  assumes "hash_ok hash cmp" and "OPENSSL_lh_new malloc = Some lh" and "\<forall>c \<in> set cs. \<forall>sz. fst c sz \<noteq> None"
    and "length cs < 2 ^ 60" and "lh_run hash cmp lh cs = (rs, t)"
  shows "OPENSSL_lh_num_items t < 3 * lh_num_buckets t \<and>
    (lh_num_buckets t = 16 \<or> lh_num_buckets t \<le> OPENSSL_lh_num_items t)"
proof -
  note new = lh_new_wf [OF assms(1,2)]
  have "balanced lh" using new by (simp add: balanced_def kMinNumBuckets_def)
  then have "balanced t" using lh_run_balanced [OF new(1) assms(3)] new(2) assms(4,5) by simp
  then show ?thesis by (simp add: balanced_def OPENSSL_lh_num_items_def kMinNumBuckets_def)
qed

theorem lhash_load_witness:
  "OPENSSL_lh_num_items (snd (lh_run num_hash num_cmp sample_table (map (\<lambda>i. (give, Ins (of_nat i))) [0..<60]))) <
     3 * lh_num_buckets (snd (lh_run num_hash num_cmp sample_table (map (\<lambda>i. (give, Ins (of_nat i))) [0..<60])))"
  using lhash_load [OF num_hash_ok sample_new _ _ prod.collapse [symmetric], of "map (\<lambda>i. (give, Ins (of_nat i))) [0..<60]"]
  by (auto simp: give_def simp del: upt_rec_numeral)

text \<open>Iteration calls the function once for each element of the table, and leaves a table with
  the same elements, however it is resized at the end.
\<close>

theorem lhash_doall:
  assumes "hash_ok hash cmp" and "OPENSSL_lh_new malloc = Some lh" and "lh_run hash cmp lh cs = (rs, t)"
    and "OPENSSL_lh_doall_arg malloc' (Some t) func arg = (arg', t')"
  shows "\<exists>xs u. t' = Some u \<and> arg' = fold func xs arg \<and>
    (\<forall>x. x \<in> set xs \<longleftrightarrow> OPENSSL_lh_retrieve hash cmp t x = Some x) \<and> distinct xs \<and>
    OPENSSL_lh_retrieve hash cmp u = OPENSSL_lh_retrieve hash cmp t"
proof -
  have wf: "lh_wf hash cmp t" using lh_run_map [OF lh_new_wf(1) [OF assms(1,2)], of cs] assms(3) by simp
  obtain n where n: "OPENSSL_lh_doall_arg malloc' (Some t) func arg =
     (fold func (map it_data (concat (lh_buckets t))) arg, Some (lh_maybe_resize malloc' (t\<lparr>lh_callback_depth := n\<rparr>)))"
    using doall_unfold [of malloc' t func arg] by blast
  let ?xs = "map it_data (concat (lh_buckets t))" and ?u = "t\<lparr>lh_callback_depth := n\<rparr>"
  have u: "lh_wf hash cmp ?u" using wf by simp
  have refl: "\<forall>x. cmp x x = 0" using assms(1) unfolding hash_ok_def by blast
  have "mset ?xs = lh_contents t" by (simp add: lh_contents_def)
  then have mem: "x \<in> set ?xs \<longleftrightarrow> x \<in># lh_contents t" for x by (metis set_mset_mset)
  have "\<forall>x. x \<in> set ?xs \<longleftrightarrow> OPENSSL_lh_retrieve hash cmp t x = Some x"
    unfolding mem retrieve_iff [OF wf] using refl by simp
  moreover have "distinct ?xs"
    by (rule sorted_distinct [of cmp, OF apart_sorted refl]) (use wf_apart [OF wf] \<open>mset ?xs = lh_contents t\<close> in simp)
  moreover have "OPENSSL_lh_retrieve hash cmp (lh_maybe_resize malloc' ?u) = OPENSSL_lh_retrieve hash cmp t"
    using retrieve_cong [OF lh_maybe_resize_wf(1) [OF u] wf] lh_maybe_resize_wf(2) [OF u] by (intro ext) simp
  moreover have "t' = Some (lh_maybe_resize malloc' ?u)" and "arg' = fold func ?xs arg" using n assms(4) by simp_all
  ultimately show ?thesis by blast
qed


theorem lhash_doall_witness:
  "\<exists>xs u. OPENSSL_lh_doall_arg give (Some (snd (lh_run num_hash num_cmp sample_table sample_ops))) (\<lambda>d n. n + unat (d :: u32)) 0 =
     (fold (\<lambda>d n. n + unat (d :: u32)) xs 0, Some u) \<and> distinct xs \<and> 117 \<in> set xs"
proof -
  let ?t = "snd (lh_run num_hash num_cmp sample_table sample_ops)"
  have "OPENSSL_lh_retrieve num_hash num_cmp ?t 117 = Some 117"
    unfolding sample_run
    by (simp add: OPENSSL_lh_retrieve_def get_next_ptr_and_hash_def Let_def num_hash_def num_cmp_def item_at_def sample_table_def)
  moreover obtain n t' where n: "OPENSSL_lh_doall_arg give (Some ?t) (\<lambda>d n. n + unat (d :: u32)) 0 = (n, t')"
    by (cases "OPENSSL_lh_doall_arg give (Some ?t) (\<lambda>d n. n + unat (d :: u32)) 0")
  obtain xs u where "t' = Some u" and "n = fold (\<lambda>d n. n + unat (d :: u32)) xs 0" and "distinct xs"
    and "\<forall>x. x \<in> set xs \<longleftrightarrow> OPENSSL_lh_retrieve num_hash num_cmp ?t x = Some x"
    using lhash_doall [OF num_hash_ok sample_new prod.collapse [symmetric] n] by blast
  ultimately show ?thesis using n by (intro exI [of _ xs] exI [of _ u]) simp
qed

end
