(* ===== verification/Base64.thy ===== *)
theory Base64
  imports Mem
begin

text \<open>
  crypto/base64/base64.c: the encoder and decoder of PEM bodies, block by block and streaming.
  An output buffer is the list of the bytes written to it since the call; \<open>*out_len\<close> is returned
  beside it. The reference is RFC 4648: \<open>b64_with e\<close> encodes an octet string with \<open>e\<close> in the bits
  beyond the last octet. The streaming operations are compared with it for every way of cutting
  their input into calls.
\<close>

subsection \<open>Constant-time helpers\<close>

definition constant_time_lt_args_8 :: "byte \<Rightarrow> byte \<Rightarrow> byte" where
  "constant_time_lt_args_8 a b = ucast (constant_time_msb_w (ucast a - ucast b))"

definition constant_time_in_range_8 :: "byte \<Rightarrow> byte \<Rightarrow> byte \<Rightarrow> byte" where
  "constant_time_in_range_8 a min_c max_c = constant_time_lt_args_8 (a - min_c) (max_c - min_c + 1)"

subsection \<open>Encoding\<close>

definition conv_bin2ascii :: "byte \<Rightarrow> byte" where
  "conv_bin2ascii a0 =
     (let a = a0 AND 0x3f;
          ret = constant_time_select_8 (constant_time_eq_8 (ucast a) 62) 0x2b 0x2f;
          ret = constant_time_select_8 (constant_time_lt_args_8 a 62) (a - 52 + 0x30) ret;
          ret = constant_time_select_8 (constant_time_lt_args_8 a 52) (a - 26 + 0x61) ret;
          ret = constant_time_select_8 (constant_time_lt_args_8 a 26) (a + 0x41) ret
      in ret)"

definition EVP_EncodedLength :: "nat \<Rightarrow> nat option" where
  "EVP_EncodedLength len =
     (if size_add len 2 < len then None
      else let len1 = size_add len 2 div 3
           in if size_mul len1 4 div 4 \<noteq> len1 then None
              else let len2 = size_mul len1 4
                   in if size_add len2 1 < len2 then None else Some (size_add len2 1))"

record evp_encode_ctx =
  data_used :: nat
  ctx_data :: "byte list"
  eof_seen :: bool
  error_encountered :: bool

definition sizeof_ctx_data :: nat where
  "sizeof_ctx_data = 48"

definition EVP_EncodeInit :: evp_encode_ctx where
  "EVP_EncodeInit = \<lparr>data_used = 0, ctx_data = replicate sizeof_ctx_data 0, eof_seen = False, error_encountered = False\<rparr>"

definition EVP_ENCODE_CTX_new :: "allocator \<Rightarrow> evp_encode_ctx option" where
  "EVP_ENCODE_CTX_new malloc = map_option (\<lambda>_. EVP_EncodeInit) (OPENSSL_malloc malloc 56)"

text \<open>The characters written from \<open>dst\<close> on, and their number.\<close>

fun encode_block_loop :: "byte list \<Rightarrow> byte list \<times> nat" where
  "encode_block_loop [] = ([], 0)"
| "encode_block_loop [s0] =
     (let l = push_bit 16 (ucast s0 :: u32)
      in ([conv_bin2ascii (ucast (drop_bit 18 l)), conv_bin2ascii (ucast (drop_bit 12 l)), 0x3d, 0x3d], 4))"
| "encode_block_loop [s0, s1] =
     (let l = push_bit 16 (ucast s0 :: u32) OR push_bit 8 (ucast s1)
      in ([conv_bin2ascii (ucast (drop_bit 18 l)), conv_bin2ascii (ucast (drop_bit 12 l)),
           conv_bin2ascii (ucast (drop_bit 6 l)), 0x3d], 4))"
| "encode_block_loop (s0 # s1 # s2 # src) =
     (let l = push_bit 16 (ucast s0 :: u32) OR push_bit 8 (ucast s1) OR ucast s2;
          (dst, ret) = encode_block_loop src
      in (conv_bin2ascii (ucast (drop_bit 18 l)) # conv_bin2ascii (ucast (drop_bit 12 l)) #
          conv_bin2ascii (ucast (drop_bit 6 l)) # conv_bin2ascii (ucast l) # dst, ret + 4))"

definition EVP_EncodeBlock :: "byte list \<Rightarrow> byte list \<times> nat" where
  "EVP_EncodeBlock src = (case encode_block_loop src of (dst, ret) \<Rightarrow> (dst @ [0], ret))"

text \<open>
  \<open>out\<close> is what has been written since the start of the output buffer, \<open>tot\<close> the position of the
  \<open>out\<close> pointer in it; each line overwrites the NUL that ends the one before.
\<close>

definition encode_line :: "byte list \<Rightarrow> nat \<Rightarrow> byte list \<Rightarrow> byte list \<times> nat" where
  "encode_line out tot blk =
     (case EVP_EncodeBlock blk of (dst, encoded) \<Rightarrow>
        (mem_store (mem_store out tot dst) (tot + encoded) [0x0a, 0], encoded))"

function encode_update_loop :: "byte list \<Rightarrow> nat \<Rightarrow> byte list \<Rightarrow> (byte list \<times> nat option) \<times> byte list" where
  "encode_update_loop out tot inp =
     (if length inp \<ge> sizeof_ctx_data then
        (case encode_line out tot (take sizeof_ctx_data inp) of (out', encoded) \<Rightarrow>
           if size_add (size_add tot encoded) 1 < tot then ((out', None), drop sizeof_ctx_data inp)
           else encode_update_loop out' (size_add tot (encoded + 1)) (drop sizeof_ctx_data inp))
      else ((out, Some tot), inp))"
  by pat_completeness auto
termination
  by (relation "measure (\<lambda>(out, tot, inp). length inp)") (auto simp: sizeof_ctx_data_def)

declare encode_update_loop.simps [simp del]

text \<open>The rest of \<open>EVP_EncodeUpdate\<close> after a line pending from earlier calls.\<close>

definition encode_tail :: "byte list \<Rightarrow> nat \<Rightarrow> byte list \<Rightarrow> evp_encode_ctx \<Rightarrow> (byte list \<times> nat) \<times> evp_encode_ctx" where
  "encode_tail out tot rest ctx1 =
     (case encode_update_loop out tot rest of
        ((out', None), _) \<Rightarrow> ((out', 0), ctx1)
      | ((out', Some tot'), rest') \<Rightarrow>
          ((out', if tot' > INT_MAX then 0 else tot'),
           ctx1\<lparr>ctx_data := (if length rest' \<noteq> 0 then mem_store (ctx_data ctx1) 0 rest' else ctx_data ctx1),
                data_used := length rest'\<rparr>))"

text \<open>What is written to the output buffer, \<open>*out_len\<close>, and the context.\<close>

definition EVP_EncodeUpdate :: "evp_encode_ctx \<Rightarrow> byte list \<Rightarrow> (byte list \<times> nat) \<times> evp_encode_ctx" where
  "EVP_EncodeUpdate ctx inp =
     (if length inp = 0 then (([], 0), ctx)
      else if sizeof_ctx_data - data_used ctx > length inp then
        (([], 0), ctx\<lparr>ctx_data := mem_store (ctx_data ctx) (data_used ctx) inp, data_used := data_used ctx + length inp\<rparr>)
      else
        let todo = sizeof_ctx_data - data_used ctx;
            (out, tot, rest, ctx1) =
              (if data_used ctx \<noteq> 0 then
                 let full = mem_store (ctx_data ctx) (data_used ctx) (take todo inp);
                     (out, encoded) = encode_line [] 0 full
                 in (out, encoded + 1, drop todo inp, ctx\<lparr>ctx_data := full, data_used := 0\<rparr>)
               else ([], 0, inp, ctx))
        in encode_tail out tot rest ctx1)"

definition EVP_EncodeFinal :: "evp_encode_ctx \<Rightarrow> (byte list \<times> nat) \<times> evp_encode_ctx" where
  "EVP_EncodeFinal ctx =
     (if data_used ctx = 0 then (([], 0), ctx)
      else case encode_line [] 0 (take (data_used ctx) (ctx_data ctx)) of (out, encoded) \<Rightarrow>
             ((out, encoded + 1), ctx\<lparr>data_used := 0\<rparr>))"

subsection \<open>Decoding\<close>

definition EVP_DecodedLength :: "nat \<Rightarrow> nat option" where
  "EVP_DecodedLength len = (if len mod 4 \<noteq> 0 then None else Some ((len div 4) * 3))"

definition EVP_DecodeInit :: evp_encode_ctx where
  "EVP_DecodeInit = \<lparr>data_used = 0, ctx_data = replicate sizeof_ctx_data 0, eof_seen = False, error_encountered = False\<rparr>"

definition base64_ascii_to_bin :: "byte \<Rightarrow> byte" where
  "base64_ascii_to_bin a =
     (let is_upper = constant_time_in_range_8 a 0x41 0x5a;
          is_lower = constant_time_in_range_8 a 0x61 0x7a;
          is_digit = constant_time_in_range_8 a 0x30 0x39;
          is_plus = constant_time_eq_8 (ucast a) 0x2b;
          is_slash = constant_time_eq_8 (ucast a) 0x2f;
          is_equals = constant_time_eq_8 (ucast a) 0x3d;
          ret = 0 OR (is_upper AND (a - 0x41));
          ret = ret OR (is_lower AND (a - 0x61 + 26));
          ret = ret OR (is_digit AND (a - 0x30 + 52));
          ret = ret OR (is_plus AND 62);
          ret = ret OR (is_slash AND 63);
          is_valid = is_upper OR is_lower OR is_digit OR is_plus OR is_slash OR is_equals
      in ret OR NOT is_valid)"

text \<open>The bytes written to \<open>out\<close>; \<open>*out_num_bytes\<close> is their number.\<close>

definition quad_switch :: "nat \<Rightarrow> u32 \<Rightarrow> byte list option" where
  "quad_switch padding_pattern v =
     (if padding_pattern = 0 then Some [ucast (drop_bit 16 v), ucast (drop_bit 8 v), ucast v]
      else if padding_pattern = 1 then Some [ucast (drop_bit 16 v), ucast (drop_bit 8 v)]
      else if padding_pattern = 3 then Some [ucast (drop_bit 16 v)]
      else None)"

definition base64_decode_quad :: "byte \<Rightarrow> byte \<Rightarrow> byte \<Rightarrow> byte \<Rightarrow> byte list option" where
  "base64_decode_quad in0 in1 in2 in3 =
     (let a = base64_ascii_to_bin in0; b = base64_ascii_to_bin in1;
          c = base64_ascii_to_bin in2; d = base64_ascii_to_bin in3
      in if a = 0xff \<or> b = 0xff \<or> c = 0xff \<or> d = 0xff then None
         else let v = push_bit 18 (ucast a :: u32) OR push_bit 12 (ucast b) OR push_bit 6 (ucast c) OR ucast d;
                  padding_pattern = (if in0 = 0x3d then 8 else 0) + (if in1 = 0x3d then 4 else 0) +
                                    (if in2 = 0x3d then 2 else 0) + (if in3 = 0x3d then 1 else (0 :: nat))
              in quad_switch padding_pattern v)"

definition is_skipped :: "byte \<Rightarrow> bool" where
  "is_skipped c \<longleftrightarrow> c = 0x20 \<or> c = 0x09 \<or> c = 0x0d \<or> c = 0x0a"

text \<open>The loop of \<open>EVP_DecodeUpdate\<close>: whether it ran to the end, the bytes written and the context.\<close>

fun decode_update_loop :: "evp_encode_ctx \<Rightarrow> byte list \<Rightarrow> byte list \<Rightarrow> (bool \<times> byte list) \<times> evp_encode_ctx" where
  "decode_update_loop ctx out [] = ((True, out), ctx)"
| "decode_update_loop ctx out (c # inp) =
     (if is_skipped c then decode_update_loop ctx out inp
      else if eof_seen ctx then ((False, out), ctx\<lparr>error_encountered := True\<rparr>)
      else
        let ctx1 = ctx\<lparr>ctx_data := mem_store (ctx_data ctx) (data_used ctx) [c], data_used := data_used ctx + 1\<rparr>
        in if data_used ctx1 = 4 then
             (case base64_decode_quad (ctx_data ctx1 ! 0) (ctx_data ctx1 ! 1) (ctx_data ctx1 ! 2) (ctx_data ctx1 ! 3) of
                None \<Rightarrow> ((False, out), ctx1\<lparr>error_encountered := True\<rparr>)
              | Some bs \<Rightarrow>
                  let ctx2 = ctx1\<lparr>data_used := 0\<rparr>
                  in decode_update_loop (if length bs < 3 then ctx2\<lparr>eof_seen := True\<rparr> else ctx2) (out @ bs) inp)
           else decode_update_loop ctx1 out inp)"

text \<open>The return value, the bytes written to \<open>out\<close> with \<open>*out_len\<close>, and the context.\<close>

definition EVP_DecodeUpdate :: "evp_encode_ctx \<Rightarrow> byte list \<Rightarrow> (int \<times> byte list \<times> nat) \<times> evp_encode_ctx" where
  "EVP_DecodeUpdate ctx inp =
     (if error_encountered ctx then ((- 1, [], 0), ctx)
      else case decode_update_loop ctx [] inp of
             ((False, out), ctx') \<Rightarrow> ((- 1, out, 0), ctx')
           | ((True, out), ctx') \<Rightarrow>
               if length out > INT_MAX then ((- 1, out, 0), ctx'\<lparr>error_encountered := True\<rparr>)
               else ((if eof_seen ctx' then 0 else 1, out, length out), ctx'))"

definition EVP_DecodeFinal :: "evp_encode_ctx \<Rightarrow> int" where
  "EVP_DecodeFinal ctx = (if error_encountered ctx \<or> data_used ctx \<noteq> 0 then - 1 else 1)"

fun decode_base64_loop :: "byte list \<Rightarrow> byte list option" where
  "decode_base64_loop (a # b # c # d # inp) =
     (case base64_decode_quad a b c d of
        None \<Rightarrow> None
      | Some bs \<Rightarrow>
          if length bs \<noteq> 3 \<and> inp \<noteq> [] then None else map_option ((@) bs) (decode_base64_loop inp))"
| "decode_base64_loop _ = Some []"

definition EVP_DecodeBase64 :: "nat \<Rightarrow> byte list \<Rightarrow> byte list option" where
  "EVP_DecodeBase64 max_out inp =
     (if length inp mod 4 \<noteq> 0 then None
      else case EVP_DecodedLength (length inp) of
             None \<Rightarrow> None
           | Some max_len \<Rightarrow> if max_out < max_len then None else decode_base64_loop inp)"

function pad_block :: "byte list \<Rightarrow> byte list" where
  "pad_block dst = (if length dst mod 3 \<noteq> 0 then pad_block (dst @ [0]) else dst)"
  by pat_completeness auto
termination
  by (relation "measure (\<lambda>dst. (3 - length dst mod 3) mod 3)") (auto simp: mod_Suc split: if_splits)

declare pad_block.simps [simp del]

text \<open>The return value, \<open>None\<close> for \<open>-1\<close>, with what is written to \<open>dst\<close>.\<close>

definition EVP_DecodeBlock :: "byte list \<Rightarrow> byte list option" where
  "EVP_DecodeBlock src =
     (let src1 = dropWhile (\<lambda>c. c = 0x20 \<or> c = 0x09) src;
          src2 = rev (dropWhile is_skipped (rev src1))
      in case EVP_DecodedLength (length src2) of
           None \<Rightarrow> None
         | Some dst_len \<Rightarrow>
             if dst_len > INT_MAX then None else map_option pad_block (EVP_DecodeBase64 dst_len src2))"

definition alphabet :: string where
  "alphabet = ''ABCDEFGHIJKLMNOPQRSTUVWXYZabcdefghijklmnopqrstuvwxyz0123456789+/''"

definition b64_char :: "nat \<Rightarrow> byte" where
  "b64_char n = of_char (alphabet ! n)"

text \<open>RFC 4648, section 4; \<open>e\<close> are the bits beyond the last octet, zero in the canonical encoding.\<close>

fun b64_with :: "nat \<Rightarrow> byte list \<Rightarrow> byte list" where
  "b64_with e [] = []"
| "b64_with e [x] =
     [b64_char (unat x div 4), b64_char (unat x mod 4 * 16 + e mod 16), 0x3d, 0x3d]"
| "b64_with e [x, y] =
     [b64_char (unat x div 4), b64_char (unat x mod 4 * 16 + unat y div 16), b64_char (unat y mod 16 * 4 + e mod 4), 0x3d]"
| "b64_with e (x # y # z # rest) =
     b64_char (unat x div 4) # b64_char (unat x mod 4 * 16 + unat y div 16) #
     b64_char (unat y mod 16 * 4 + unat z div 64) # b64_char (unat z mod 64) # b64_with e rest"


lemma ucast_byte_less: "(ucast a :: u64) < ucast b \<longleftrightarrow> a < b" for a b :: byte
  by (simp add: word_less_nat_alt unat_ucast_up)

lemma constant_time_lt_args_8_eq: "constant_time_lt_args_8 a b = (if a < b then 255 else 0)"
proof -
  have "\<not> bit (ucast a :: u64) 63" and "\<not> bit (ucast b :: u64) 63" by (auto simp: bit_simps dest: bit_imp_le_length)
  then have "bit (ucast a - ucast b :: u64) 63 \<longleftrightarrow> a < b" using bit63_diff [of "ucast a" "ucast b"] by (simp add: ucast_byte_less)
  then show ?thesis by (simp add: constant_time_lt_args_8_def constant_time_msb_w_eq ucast_minus_one_byte)
qed

lemma constant_time_in_range_8_eq:
  assumes "unat min_c \<le> unat max_c" and "unat max_c < 255"
  shows "constant_time_in_range_8 a min_c max_c = (if min_c \<le> a \<and> a \<le> max_c then 255 else 0)"
proof -
  have "unat (max_c - min_c + 1) = unat max_c - unat min_c + 1"
    using assms by (simp add: unat_word_ariths unat_sub word_le_nat_alt)
  moreover have "unat (a - min_c) = (if min_c \<le> a then unat a - unat min_c else unat a + 256 - unat min_c)"
    by (simp add: unat_sub_if' word_le_nat_alt)
  ultimately have "a - min_c < max_c - min_c + 1 \<longleftrightarrow> min_c \<le> a \<and> a \<le> max_c"
    using assms byte_bound [of a] by (auto simp: word_less_nat_alt word_le_nat_alt split: if_splits)
  then show ?thesis by (simp add: constant_time_in_range_8_def constant_time_lt_args_8_eq)
qed

lemma ucast_byte_eq: "(ucast a :: u64) = ucast c \<longleftrightarrow> a = c" for a c :: byte
  by (metis linorder_neq_iff ucast_byte_less)

definition sextet_char :: "byte \<Rightarrow> byte" where
  "sextet_char a = (if a < 26 then a + 0x41 else if a < 52 then a - 26 + 0x61 else if a < 62 then a - 52 + 0x30
     else if a = 62 then 0x2b else 0x2f)"

lemma sextet_char_all: "list_all (\<lambda>n. sextet_char (word_of_int n) = of_char (alphabet ! nat n)) [0..63]"
  by code_simp

lemma sextet_char_of_nat: "n < 64 \<Longrightarrow> sextet_char (of_nat n) = b64_char n"
proof -
  assume "n < 64"
  then have "int n \<in> set [0..63]" by simp
  then have "sextet_char (word_of_int (int n)) = of_char (alphabet ! nat (int n))"
    using sextet_char_all unfolding list_all_iff by blast
  then show ?thesis by (simp add: b64_char_def)
qed

lemma conv_bin2ascii_eq: "conv_bin2ascii a = b64_char (unat a mod 64)"
proof -
  have "a AND 0x3f = take_bit 6 a" by (simp add: take_bit_eq_mask mask_eq_exp_minus_1)
  then have m: "unat (a AND 0x3f) = unat a mod 64" by (simp add: take_bit_eq_mod unat_mod)
  have "(ucast (a AND 0x3f) = (62 :: u64)) = (a AND 0x3f = 62)" using ucast_byte_eq [of "a AND 0x3f" 62] by simp
  then have "conv_bin2ascii a = sextet_char (a AND 0x3f)"
    by (simp add: conv_bin2ascii_def sextet_char_def Let_def constant_time_lt_args_8_eq constant_time_eq_8_eq constant_time_select_8_eq)
  also have "a AND 0x3f = of_nat (unat a mod 64)" by (simp flip: m)
  also have "sextet_char (of_nat (unat a mod 64)) = b64_char (unat a mod 64)" by (simp add: sextet_char_of_nat)
  finally show ?thesis .
qed

lemma unat_or_push:
  fixes a b :: u32
  assumes "unat b < 2 ^ n" and "unat a * 2 ^ n + unat b < 2 ^ 32"
  shows "unat (push_bit n a OR b) = unat a * 2 ^ n + unat b"
proof -
  have "take_bit n b = b" using assms(1) by (simp add: word_unat_eq_iff unsigned_take_bit_eq take_bit_nat_eq_self)
  then have "push_bit n a OR b = push_bit n a + b" by (rule or_push_bit_eq_add)
  also have "\<dots> = of_nat (unat a * 2 ^ n + unat b)" by (simp add: push_bit_eq_mult mult.commute)
  finally show ?thesis using assms(2) by (simp only: unat_of_nat) simp
qed

lemma unat_sextet: "unat (ucast (drop_bit k l) :: byte) mod 64 = unat l div 2 ^ k mod 64" for l :: u32
  by (simp add: unat_ucast_mod unat_drop mod_mod_cancel)

lemma unat_byte_of: "unat (ucast (drop_bit k l) :: byte) = unat l div 2 ^ k mod 256" for l :: u32
  by (simp add: unat_ucast_mod unat_drop)

lemma unat_triple: "unat (push_bit 16 (ucast x :: u32) OR push_bit 8 (ucast y) OR ucast z) = unat x * 65536 + unat y * 256 + unat z"
  for x y z :: byte
  using byte_bound [of x] byte_bound [of y] byte_bound [of z]
  by (simp add: unat_or_push unat_ucast_up)

lemma digits: "n = k * q + r \<Longrightarrow> r < k \<Longrightarrow> n mod k = (r :: nat)" "n = k * q + r \<Longrightarrow> r < k \<Longrightarrow> n div k = (q :: nat)"
  by simp_all

lemma sextets_3:
  assumes "y < 256" and "z < 256" and "x < 256" and v: "v = x * 65536 + y * 256 + (z :: nat)"
  shows "v div 2 ^ 18 mod 64 = x div 4" and "v div 2 ^ 12 mod 64 = x mod 4 * 16 + y div 16"
    and "v div 2 ^ 6 mod 64 = y mod 16 * 4 + z div 64" and "v mod 64 = z mod 64"
proof -
  have v1: "v div 256 = x * 256 + y" using assms by simp
  have "v div 65536 = v div 256 div 256" by (simp add: div_mult2_eq [symmetric])
  then have v2: "v div 65536 = x" using v1 assms(1) by simp
  have "v div 2 ^ 18 = v div 65536 div 4" by (simp add: div_mult2_eq [symmetric])
  then show "v div 2 ^ 18 mod 64 = x div 4" using v2 assms(3) by simp
  have "v div 2 ^ 12 = v div 256 div 16" by (simp add: div_mult2_eq [symmetric])
  then have "v div 2 ^ 12 = x * 16 + y div 16" unfolding v1 by simp
  then have "v div 2 ^ 12 = 64 * (x div 4) + (x mod 4 * 16 + y div 16)" using div_mult_mod_eq [of x 4] by linarith
  moreover have "x mod 4 * 16 + y div 16 < 64" using assms(1) by simp
  ultimately show "v div 2 ^ 12 mod 64 = x mod 4 * 16 + y div 16" by (rule digits)
  have v6: "v = 64 * ((x * 256 + y) * 4) + z" unfolding v by simp
  then have "v div 64 = (x * 256 + y) * 4 + z div 64" by simp
  moreover have "y * 4 = 64 * (y div 16) + y mod 16 * 4" using div_mult_mod_eq [of y 16] by linarith
  ultimately have "v div 2 ^ 6 = 64 * (x * 16 + y div 16) + (y mod 16 * 4 + z div 64)" by simp
  moreover have "y mod 16 * 4 + z div 64 < 64" using assms(2) by simp
  ultimately show "v div 2 ^ 6 mod 64 = y mod 16 * 4 + z div 64" by (rule digits)
  show "v mod 64 = z mod 64" unfolding v6 by (rule mod_mult_self4)
qed

definition char_sextet :: "byte \<Rightarrow> byte" where
  "char_sextet c = (if 0x41 \<le> c \<and> c \<le> 0x5a then c - 0x41 else if 0x61 \<le> c \<and> c \<le> 0x7a then c - 0x61 + 26
     else if 0x30 \<le> c \<and> c \<le> 0x39 then c - 0x30 + 52 else if c = 0x2b then 62 else if c = 0x2f then 63
     else if c = 0x3d then 0 else 255)"

lemma base64_ascii_to_bin_eq: "base64_ascii_to_bin c = char_sextet c"
proof -
  have "(ucast c = (0x2b :: u64)) = (c = 0x2b)" "(ucast c = (0x2f :: u64)) = (c = 0x2f)" "(ucast c = (0x3d :: u64)) = (c = 0x3d)"
    using ucast_byte_eq [of c 43] ucast_byte_eq [of c 47] ucast_byte_eq [of c 61] by simp_all
  moreover have "(255 :: byte) AND w = w" for w
  proof -
    have "(255 :: byte) = - 1" by simp
    then show ?thesis by (metis and.left_neutral)
  qed
  moreover have "w OR (- 256) = w" for w :: byte
  proof -
    have "(- 256 :: byte) = 0" by code_simp
    then show ?thesis by (metis or.right_neutral)
  qed
  ultimately show ?thesis
    unfolding base64_ascii_to_bin_def char_sextet_def Let_def
    by (auto simp: constant_time_in_range_8_eq constant_time_eq_8_eq word_le_nat_alt)
qed

lemma byte_all: "list_all (\<lambda>n. P (word_of_int n)) [0..255] \<Longrightarrow> P (c :: byte)"
proof -
  have "uint c \<in> set [0..255]" using uint_bounded [of c] by simp
  moreover have "c = word_of_int (uint c)" by simp
  ultimately show "list_all (\<lambda>n. P (word_of_int n)) [0..255] \<Longrightarrow> P c" by (metis list_all_iff)
qed

lemma char_sextet_table: "list_all (\<lambda>n. let v = char_sextet (word_of_int n) in v = 255 \<or> (word_of_int n :: byte) = 0x3d \<and> v = 0 \<or> v < 64 \<and> word_of_int n = sextet_char v) [0..255]"
  by code_simp

lemma sextet_char_table: "list_all (\<lambda>n. char_sextet (sextet_char (word_of_int n)) = word_of_int n \<and> sextet_char (word_of_int n) \<noteq> 0x3d) [0..63]"
  by code_simp

lemma ascii_to_bin_cases:
  obtains (invalid) "base64_ascii_to_bin c = 255"
  | (pad) "c = 0x3d" and "base64_ascii_to_bin c = 0"
  | (sextet) n where "n < 64" and "c = b64_char n" and "base64_ascii_to_bin c = of_nat n"
proof -
  let ?v = "base64_ascii_to_bin c"
  have "let v = char_sextet c in v = 255 \<or> c = 0x3d \<and> v = 0 \<or> v < 64 \<and> c = sextet_char v"
    by (rule byte_all [OF char_sextet_table])
  then consider "?v = 255" | "c = 0x3d" "?v = 0" | "?v < 64" "c = sextet_char ?v"
    by (auto simp: base64_ascii_to_bin_eq Let_def)
  then show thesis
  proof cases
    case 3
    then have "unat ?v < 64" by (simp add: word_less_nat_alt)
    then show thesis using 3(2) sextet_char_of_nat [of "unat ?v"] by (intro sextet [of "unat ?v"]) simp_all
  qed (use invalid pad in blast)+
qed

lemma ascii_to_bin_char:
  assumes "n < 64"
  shows "base64_ascii_to_bin (b64_char n) = of_nat n" and "b64_char n \<noteq> 0x3d"
proof -
  have "int n \<in> set [0..63]" using assms by simp
  then have "char_sextet (sextet_char (word_of_int (int n))) = word_of_int (int n) \<and> sextet_char (word_of_int (int n)) \<noteq> 0x3d"
    using sextet_char_table unfolding list_all_iff by blast
  then show "base64_ascii_to_bin (b64_char n) = of_nat n" and "b64_char n \<noteq> 0x3d"
    using sextet_char_of_nat [OF assms] by (simp_all add: base64_ascii_to_bin_eq)
qed

subsection \<open>Block encoding and decoding\<close>

lemma groups_Suc: "(5 + n) div 3 = Suc (Suc (Suc n) div 3)"
  by arith

lemma conv_sextet: "conv_bin2ascii (ucast (drop_bit k l)) = b64_char (unat l div 2 ^ k mod 64)" for l :: u32
  by (simp only: conv_bin2ascii_eq unat_sextet)

lemma conv_sextet_0: "conv_bin2ascii (ucast l) = b64_char (unat l mod 64)" for l :: u32
  using conv_sextet [of 0 l] by simp

lemma conv_triple:
  fixes x y z :: byte
  assumes l: "l = (push_bit 16 (ucast x :: u32) OR push_bit 8 (ucast y) OR ucast z)"
  shows "conv_bin2ascii (ucast (drop_bit 18 l)) = b64_char (unat x div 4)"
    and "conv_bin2ascii (ucast (drop_bit 12 l)) = b64_char (unat x mod 4 * 16 + unat y div 16)"
    and "conv_bin2ascii (ucast (drop_bit 6 l)) = b64_char (unat y mod 16 * 4 + unat z div 64)"
    and "conv_bin2ascii (ucast l) = b64_char (unat z mod 64)"
proof -
  note l3 = sextets_3 [OF byte_bound byte_bound byte_bound unat_triple [of x y z, folded l]]
  show "conv_bin2ascii (ucast (drop_bit 18 l)) = b64_char (unat x div 4)"
    and "conv_bin2ascii (ucast (drop_bit 12 l)) = b64_char (unat x mod 4 * 16 + unat y div 16)"
    and "conv_bin2ascii (ucast (drop_bit 6 l)) = b64_char (unat y mod 16 * 4 + unat z div 64)"
    unfolding conv_sextet l3 by (rule refl)+
  show "conv_bin2ascii (ucast l) = b64_char (unat z mod 64)" unfolding conv_sextet_0 l3 by (rule refl)
qed

lemma encode_block_loop_eq: "encode_block_loop src = (b64_with 0 src, 4 * ((length src + 2) div 3))"
proof (induction src rule: encode_block_loop.induct)
  case (2 s0)
  show ?case using conv_triple [of _ s0 0 0] by (simp add: Let_def)
next
  case (3 s0 s1)
  show ?case using conv_triple [of _ s0 s1 0] by (simp add: Let_def)
next
  case (4 s0 s1 s2 src)
  then have IH: "encode_block_loop src = (b64_with 0 src, 4 * ((length src + 2) div 3))" by simp
  show ?case unfolding encode_block_loop.simps Let_def IH prod.case conv_triple [OF refl] b64_with.simps
    by (simp add: groups_Suc)
qed simp

lemma EVP_EncodeBlock_eq: "EVP_EncodeBlock src = (b64_with 0 src @ [0], 4 * ((length src + 2) div 3))"
  by (simp add: EVP_EncodeBlock_def encode_block_loop_eq)

lemma length_b64 [simp]: "length (b64_with e src) = 4 * ((length src + 2) div 3)"
  by (induction src rule: encode_block_loop.induct) (simp_all add: groups_Suc)


lemma unat_quad:
  assumes "a < 64" and "b < 64" and "c < 64" and "d < 64"
  shows "unat (push_bit 18 (ucast (of_nat a :: byte) :: u32) OR push_bit 12 (ucast (of_nat b :: byte)) OR
     push_bit 6 (ucast (of_nat c :: byte)) OR ucast (of_nat d :: byte)) = a * 262144 + b * 4096 + c * 64 + d"
proof -
  have u: "unat (ucast (of_nat n :: byte) :: u32) = n" if "n < 64" for n
    using that by (simp add: unat_ucast_up unat_of_nat)
  show ?thesis using assms by (simp add: unat_or_push u)
qed

lemma div_mod_split: "m * (n * k) = (m div n) * (n * n * k) + m mod n * (n * k)" for m n k :: nat
  by (metis add_mult_distrib div_mult_mod_eq mult.assoc)

lemma octets_4:
  assumes "b < 64" and "c < 64" and "d < 64" and v: "v = a * 262144 + b * 4096 + c * 64 + (d :: nat)" and "a < 64"
  shows "v div 2 ^ 16 mod 256 = a * 4 + b div 16" and "v div 2 ^ 8 mod 256 = b mod 16 * 16 + c div 4"
    and "v mod 256 = c mod 4 * 64 + d"
proof -
  have v1: "v = 256 * (a * 1024 + b * 16 + c div 4) + (c mod 4 * 64 + d)" using v div_mod_split [of c 4 16] by simp
  have r1: "c mod 4 * 64 + d < 256" using assms(3) by linarith
  show "v mod 256 = c mod 4 * 64 + d" by (rule digits(1) [OF v1 r1])
  have v2: "v div 2 ^ 8 = a * 1024 + b * 16 + c div 4" using digits(2) [OF v1 r1] by simp
  then have v3: "v div 2 ^ 8 = 256 * (a * 4 + b div 16) + (b mod 16 * 16 + c div 4)" using div_mod_split [of b 16 1] by simp
  have r2: "b mod 16 * 16 + c div 4 < 256" using assms(2) by linarith
  show "v div 2 ^ 8 mod 256 = b mod 16 * 16 + c div 4" by (rule digits(1) [OF v3 r2])
  have "v div 2 ^ 16 = v div 2 ^ 8 div 256" by (simp add: div_mult2_eq [symmetric])
  then have "v div 2 ^ 16 = a * 4 + b div 16" using digits(2) [OF v3 r2] by simp
  moreover have "a * 4 + b div 16 < 256" using assms(1,5) by linarith
  ultimately show "v div 2 ^ 16 mod 256 = a * 4 + b div 16" by simp
qed

lemma quad_bytes:
  assumes "a < 64" and "b < 64" and "c < 64" and "d < 64"
    and v: "v = push_bit 18 (ucast (of_nat a :: byte) :: u32) OR push_bit 12 (ucast (of_nat b :: byte)) OR
     push_bit 6 (ucast (of_nat c :: byte)) OR ucast (of_nat d :: byte)"
  shows "(ucast (drop_bit 16 v) :: byte) = of_nat (a * 4 + b div 16)" and "(ucast (drop_bit 8 v) :: byte) = of_nat (b mod 16 * 16 + c div 4)"
    and "(ucast v :: byte) = of_nat (c mod 4 * 64 + d)"
proof -
  note o = octets_4 [OF assms(2,3,4) unat_quad [OF assms(1-4)] assms(1), folded v]
  have w: "unat w = n \<Longrightarrow> w = of_nat n" for w :: byte and n by auto
  show "(ucast (drop_bit 16 v) :: byte) = of_nat (a * 4 + b div 16)" and "(ucast (drop_bit 8 v) :: byte) = of_nat (b mod 16 * 16 + c div 4)"
    by (rule w, unfold unat_byte_of, rule o)+
  show "(ucast v :: byte) = of_nat (c mod 4 * 64 + d)"
    by (rule w) (use o(3) unat_byte_of [of 0 v] in simp)
qed

lemma ascii_to_bin_pad: "base64_ascii_to_bin 0x3d = 0"
  by (simp add: base64_ascii_to_bin_eq char_sextet_def)

lemma of_nat_not_255: "n < 64 \<Longrightarrow> (of_nat n :: byte) \<noteq> 0xff"
  by (auto simp: word_unat_eq_iff unat_of_nat)

lemma decode_quad_chars:
  assumes "a < 64" and "b < 64"
  shows "c < 64 \<Longrightarrow> d < 64 \<Longrightarrow> base64_decode_quad (b64_char a) (b64_char b) (b64_char c) (b64_char d) =
      Some [of_nat (a * 4 + b div 16), of_nat (b mod 16 * 16 + c div 4), of_nat (c mod 4 * 64 + d)]"
    and "c < 64 \<Longrightarrow> base64_decode_quad (b64_char a) (b64_char b) (b64_char c) 0x3d =
      Some [of_nat (a * 4 + b div 16), of_nat (b mod 16 * 16 + c div 4)]"
    and "base64_decode_quad (b64_char a) (b64_char b) 0x3d 0x3d = Some [of_nat (a * 4 + b div 16)]"
proof -
  note chars = ascii_to_bin_char of_nat_not_255 ascii_to_bin_pad assms base64_decode_quad_def Let_def quad_switch_def
  show "base64_decode_quad (b64_char a) (b64_char b) (b64_char c) (b64_char d) =
      Some [of_nat (a * 4 + b div 16), of_nat (b mod 16 * 16 + c div 4), of_nat (c mod 4 * 64 + d)]" if "c < 64" "d < 64"
    using quad_bytes [OF assms that refl] that by (simp add: chars)
  show "base64_decode_quad (b64_char a) (b64_char b) (b64_char c) 0x3d =
      Some [of_nat (a * 4 + b div 16), of_nat (b mod 16 * 16 + c div 4)]" if "c < 64"
    using quad_bytes [OF assms that, of 0, simplified] that by (simp add: chars)
  show "base64_decode_quad (b64_char a) (b64_char b) 0x3d 0x3d = Some [of_nat (a * 4 + b div 16)]"
    using quad_bytes [OF assms, of 0 0, simplified] by (simp add: chars)
qed


lemma decode_quad_None:
  assumes "base64_decode_quad a b c d = Some bs"
  obtains (full) i j k l where "i < 64" "j < 64" "k < 64" "l < 64" "a = b64_char i" "b = b64_char j" "c = b64_char k" "d = b64_char l"
  | (two) i j k where "i < 64" "j < 64" "k < 64" "a = b64_char i" "b = b64_char j" "c = b64_char k" "d = 0x3d"
  | (one) i j where "i < 64" "j < 64" "a = b64_char i" "b = b64_char j" "c = 0x3d" "d = 0x3d"
proof -
  have ok: "base64_ascii_to_bin a \<noteq> 255" "base64_ascii_to_bin b \<noteq> 255" "base64_ascii_to_bin c \<noteq> 255" "base64_ascii_to_bin d \<noteq> 255"
    using assms by (auto simp: base64_decode_quad_def)
  then obtain v where "quad_switch ((if a = 0x3d then 8 else 0) + (if b = 0x3d then 4 else 0) +
      (if c = 0x3d then 2 else 0) + (if d = 0x3d then 1 else 0)) v = Some bs"
    using assms by (simp add: base64_decode_quad_def Let_def)
  then have ab: "a \<noteq> 0x3d" "b \<noteq> 0x3d" and cd: "c = 0x3d \<longrightarrow> d = 0x3d"
    by (simp_all add: quad_switch_def split: if_split_asm)
  have chars: "x = 0x3d \<or> (\<exists>n < 64. x = b64_char n)" if "base64_ascii_to_bin x \<noteq> 255" for x
    using that by (cases x rule: ascii_to_bin_cases) auto
  obtain i j where ij: "i < 64" "a = b64_char i" "j < 64" "b = b64_char j" using chars ok(1,2) ab by metis
  show thesis
  proof (cases "d = 0x3d")
    case True
    then show thesis using ij two [of i j] one [of i j] chars [OF ok(3)] by metis
  next
    case False
    then obtain k l where "k < 64" "c = b64_char k" "l < 64" "d = b64_char l" using chars ok(3,4) cd by metis
    then show thesis using ij full [of i j k l] by simp
  qed
qed


text \<open>A quad is accepted exactly when it is the encoding of one, two or three octets, with any spare bits.\<close>

lemma unat_octets:
  assumes "i < 64" "j < 64" "k < 64" "l < 64"
  shows "unat (of_nat (i * 4 + j div 16) :: byte) = i * 4 + j div 16"
    and "unat (of_nat (j mod 16 * 16 + k div 4) :: byte) = j mod 16 * 16 + k div 4"
    and "unat (of_nat (k mod 4 * 64 + l) :: byte) = k mod 4 * 64 + l"
proof -
  have u: "n < 256 \<Longrightarrow> unat (of_nat n :: byte) = n" for n by (simp add: unat_of_nat)
  show "unat (of_nat (i * 4 + j div 16) :: byte) = i * 4 + j div 16" by (rule u) (use assms in linarith)
  show "unat (of_nat (j mod 16 * 16 + k div 4) :: byte) = j mod 16 * 16 + k div 4" by (rule u) (use assms in linarith)
  show "unat (of_nat (k mod 4 * 64 + l) :: byte) = k mod 4 * 64 + l" by (rule u) (use assms in linarith)
qed

lemma sextets_of_octets:
  fixes i j k l :: nat
  assumes "i < 64" "j < 64" "k < 64" "l < 64"
  shows "(i * 4 + j div 16) div 4 = i" and "(i * 4 + j div 16) mod 4 * 16 + j mod 16 = j"
    and "(i * 4 + j div 16) mod 4 * 16 + (j mod 16 * 16 + k div 4) div 16 = j"
    and "(j mod 16 * 16 + k div 4) mod 16 * 4 + k mod 4 = k"
    and "(j mod 16 * 16 + k div 4) mod 16 * 4 + (k mod 4 * 64 + l) div 64 = k"
    and "(k mod 4 * 64 + l) mod 64 = l"
proof -
  have j: "j div 16 < 4" and k: "k div 4 < 16" using assms by linarith+
  show "(i * 4 + j div 16) div 4 = i" using j by simp
  have m: "(i * 4 + j div 16) mod 4 = j div 16" using j by simp
  show "(i * 4 + j div 16) mod 4 * 16 + j mod 16 = j" unfolding m by simp
  have "(j mod 16 * 16 + k div 4) div 16 = j mod 16" using k by simp
  then show "(i * 4 + j div 16) mod 4 * 16 + (j mod 16 * 16 + k div 4) div 16 = j" unfolding m by simp
  have n: "(j mod 16 * 16 + k div 4) mod 16 = k div 4" using k by simp
  show "(j mod 16 * 16 + k div 4) mod 16 * 4 + k mod 4 = k" unfolding n by simp
  have "(k mod 4 * 64 + l) div 64 = k mod 4" using assms by simp
  then show "(j mod 16 * 16 + k div 4) mod 16 * 4 + (k mod 4 * 64 + l) div 64 = k" unfolding n by simp
  show "(k mod 4 * 64 + l) mod 64 = l" using assms by simp
qed

lemma octets_of_sextets:
  fixes x y z :: nat
  assumes "x < 256" "y < 256" "z < 256" "e < 16"
  shows "(x div 4) * 4 + (x mod 4 * 16 + y div 16) div 16 = x" and "(x div 4) * 4 + (x mod 4 * 16 + e) div 16 = x"
    and "(x mod 4 * 16 + y div 16) mod 16 * 16 + (y mod 16 * 4 + z div 64) div 4 = y"
    and "(x mod 4 * 16 + y div 16) mod 16 * 16 + (y mod 16 * 4 + e mod 4) div 4 = y"
    and "(y mod 16 * 4 + z div 64) mod 4 * 64 + z mod 64 = z"
    and "x div 4 < 64" and "x mod 4 * 16 + y div 16 < 64" and "y mod 16 * 4 + z div 64 < 64"
    and "x mod 4 * 16 + e < 64" and "y mod 16 * 4 + e mod 4 < 64"
proof -
  have y: "y div 16 < 16" and z: "z div 64 < 4" using assms by linarith+
  show "(x div 4) * 4 + (x mod 4 * 16 + y div 16) div 16 = x" using y by simp
  show "(x div 4) * 4 + (x mod 4 * 16 + e) div 16 = x" using assms(4) by simp
  have m: "(x mod 4 * 16 + y div 16) mod 16 = y div 16" using y by simp
  have "(y mod 16 * 4 + z div 64) div 4 = y mod 16" using z by simp
  then show "(x mod 4 * 16 + y div 16) mod 16 * 16 + (y mod 16 * 4 + z div 64) div 4 = y" unfolding m by simp
  have "(y mod 16 * 4 + e mod 4) div 4 = y mod 16" by simp
  then show "(x mod 4 * 16 + y div 16) mod 16 * 16 + (y mod 16 * 4 + e mod 4) div 4 = y" unfolding m by simp
  have "(y mod 16 * 4 + z div 64) mod 4 = z div 64" using z by simp
  then show "(y mod 16 * 4 + z div 64) mod 4 * 64 + z mod 64 = z" by simp
  show "x div 4 < 64" and "x mod 4 * 16 + y div 16 < 64" and "y mod 16 * 4 + z div 64 < 64"
    and "x mod 4 * 16 + e < 64" and "y mod 16 * 4 + e mod 4 < 64"
    using assms by linarith+
qed

lemma decode_quad_iff:
  "base64_decode_quad a b c d = Some bs \<longleftrightarrow> bs \<noteq> [] \<and> length bs \<le> 3 \<and> (\<exists>e. [a, b, c, d] = b64_with e bs)"
proof
  assume q: "base64_decode_quad a b c d = Some bs"
  then show "bs \<noteq> [] \<and> length bs \<le> 3 \<and> (\<exists>e. [a, b, c, d] = b64_with e bs)"
  proof (cases rule: decode_quad_None)
    case (full i j k l)
    then have bs: "bs = [of_nat (i * 4 + j div 16), of_nat (j mod 16 * 16 + k div 4), of_nat (k mod 4 * 64 + l)]"
      using q decode_quad_chars(1) [of i j k l] by simp
    have "[a, b, c, d] = b64_with 0 bs"
      unfolding bs b64_with.simps unat_octets [OF full(1-4)] sextets_of_octets [OF full(1-4)] using full by simp
    then show ?thesis using bs by auto
  next
    case (two i j k)
    then have bs: "bs = [of_nat (i * 4 + j div 16), of_nat (j mod 16 * 16 + k div 4)]"
      using q decode_quad_chars(2) [of i j k] by simp
    have "[a, b, c, d] = b64_with (k mod 4) bs"
      unfolding bs b64_with.simps unat_octets [OF two(1-3,3)] mod_mod_trivial sextets_of_octets [OF two(1-3,3)] using two by simp
    then show ?thesis using bs by auto
  next
    case (one i j)
    then have bs: "bs = [of_nat (i * 4 + j div 16)]"
      using q decode_quad_chars(3) [of i j] by simp
    have "[a, b, c, d] = b64_with (j mod 16) bs"
      unfolding bs b64_with.simps unat_octets [OF one(1,2,2,2)] mod_mod_trivial sextets_of_octets [OF one(1,2,2,2)] using one by simp
    then show ?thesis using bs by auto
  qed
next
  assume "bs \<noteq> [] \<and> length bs \<le> 3 \<and> (\<exists>e. [a, b, c, d] = b64_with e bs)"
  then obtain e where bs: "bs \<noteq> []" "length bs \<le> 3" and e: "[a, b, c, d] = b64_with e bs" by blast
  then consider x where "bs = [x]" | x y where "bs = [x, y]" | x y z where "bs = [x, y, z]"
    by (cases bs rule: encode_block_loop.cases) auto
  then show "base64_decode_quad a b c d = Some bs"
  proof cases
    case (1 x)
    have "e mod 16 < 16" by simp
    note o = octets_of_sextets [OF byte_bound [of x] byte_bound [of x] byte_bound [of x] this]
    have abcd: "a = b64_char (unat x div 4)" "b = b64_char (unat x mod 4 * 16 + e mod 16)" "c = 0x3d" "d = 0x3d"
      using e unfolding 1 b64_with.simps by simp_all
    show ?thesis unfolding abcd 1 decode_quad_chars(3) [OF o(6) o(9)] o(2) by simp
  next
    case (2 x y)
    have "e mod 16 < 16" by simp
    note o = octets_of_sextets [OF byte_bound [of x] byte_bound [of y] byte_bound [of y] this]
    have "e mod 16 mod 4 = e mod 4" by (simp add: mod_mod_cancel)
    note o' = o(4,10) [unfolded this]
    have abcd: "a = b64_char (unat x div 4)" "b = b64_char (unat x mod 4 * 16 + unat y div 16)" "c = b64_char (unat y mod 16 * 4 + e mod 4)" "d = 0x3d"
      using e unfolding 2 b64_with.simps by simp_all
    show ?thesis unfolding abcd 2 decode_quad_chars(2) [OF o(6) o(7) o'(2)] o(1) o'(1) by simp
  next
    case (3 x y z)
    have e0: "(0 :: nat) < 16" and z: "unat z mod 64 < 64" by simp_all
    note o = octets_of_sextets [OF byte_bound [of x] byte_bound [of y] byte_bound [of z] e0]
    have abcd: "a = b64_char (unat x div 4)" "b = b64_char (unat x mod 4 * 16 + unat y div 16)" "c = b64_char (unat y mod 16 * 4 + unat z div 64)" "d = b64_char (unat z mod 64)"
      using e unfolding 3 b64_with.simps by simp_all
    show ?thesis unfolding abcd 3 decode_quad_chars(1) [OF o(6) o(7) o(8) z] o(1) o(3) o(5) by simp
  qed
qed


lemma b64_with_3: "b64_with e (x # y # z # rest) = b64_with e' [x, y, z] @ b64_with e rest"
  by simp

lemma b64_eq_Nil [simp]: "b64_with e y = [] \<longleftrightarrow> y = []"
  by (cases "(e, y)" rule: b64_with.cases) auto

lemma b64_quad_short: "y \<noteq> [] \<Longrightarrow> length y \<le> 3 \<Longrightarrow> length (b64_with e y) = 4"
  by (cases "(e, y)" rule: b64_with.cases) auto

lemma decode_base64_loop_iff:
  "length t mod 4 = 0 \<Longrightarrow> decode_base64_loop t = Some y \<longleftrightarrow> (\<exists>e. t = b64_with e y)"
proof (induction t arbitrary: y rule: decode_base64_loop.induct)
  case (1 a b c d inp)
  note IH = 1(1)
  have len: "length inp mod 4 = 0" using 1(2) by (simp add: mod_Suc split: if_splits)
  show ?case
  proof
    assume "decode_base64_loop (a # b # c # d # inp) = Some y"
    then obtain bs y' where bs: "base64_decode_quad a b c d = Some bs" and y: "y = bs @ y'" and y': "decode_base64_loop inp = Some y'"
      and full: "length bs = 3 \<or> inp = []"
      by (auto split: option.splits if_splits)
    obtain e where bs1: "bs \<noteq> []" "length bs \<le> 3" and e: "[a, b, c, d] = b64_with e bs" using bs decode_quad_iff by blast
    show "\<exists>e. a # b # c # d # inp = b64_with e y"
    proof (cases "inp = []")
      case True
      then show ?thesis using e y y' by (intro exI [of _ e]) simp
    next
      case False
      then have "length bs = 3" using full by simp
      then obtain x1 x2 x3 where x: "bs = [x1, x2, x3]" by (auto simp: numeral_3_eq_3 length_Suc_conv)
      have "(bs = bs \<and> length bs \<noteq> 3 \<and> inp \<noteq> []) = False" using x by simp
      then obtain e' where "inp = b64_with e' y'" using IH [OF bs _ len] y' x by auto
      then show ?thesis using e x y by (intro exI [of _ e']) simp
    qed
  next
    assume "\<exists>e. a # b # c # d # inp = b64_with e y"
    then obtain e where e: "a # b # c # d # inp = b64_with e y" by blast
    have "y \<noteq> []" using e by auto
    show "decode_base64_loop (a # b # c # d # inp) = Some y"
    proof (cases "length y \<le> 3")
      case True
      have "length (b64_with e y) = 4" by (rule b64_quad_short [OF \<open>y \<noteq> []\<close> True])
      then have "inp = []" using arg_cong [OF e, of length] by (simp del: length_b64)
      moreover have "base64_decode_quad a b c d = Some y" using e \<open>y \<noteq> []\<close> True \<open>inp = []\<close> decode_quad_iff by blast
      ultimately show ?thesis by simp
    next
      case False
      then obtain x1 x2 x3 y' where y: "y = x1 # x2 # x3 # y'" by (cases y rule: encode_block_loop.cases) auto
      have e3: "[a, b, c, d] = b64_with e [x1, x2, x3]" and inp: "inp = b64_with e y'" using e y by simp_all
      have bs: "base64_decode_quad a b c d = Some [x1, x2, x3]" using e3 decode_quad_iff [of a b c d "[x1, x2, x3]"] by auto
      have "decode_base64_loop inp = Some y'" using IH [OF bs _ len] inp by auto
      then show ?thesis using bs y by simp
    qed
  qed
qed (auto simp: mod_Suc dest: sym)

lemma EVP_DecodeBase64_iff:
  "EVP_DecodeBase64 max_out t = Some y \<longleftrightarrow> 3 * (length t div 4) \<le> max_out \<and> (\<exists>e. t = b64_with e y)"
proof (cases "length t mod 4 = 0")
  case True
  then show ?thesis using decode_base64_loop_iff [OF True, of y]
    by (auto simp: EVP_DecodeBase64_def EVP_DecodedLength_def)
next
  case False
  moreover have "length (b64_with e y) mod 4 = 0" for e by simp
  ultimately show ?thesis by (auto simp: EVP_DecodeBase64_def simp del: length_b64)
qed


subsection \<open>Streaming decoder\<close>

definition dec_quads :: "byte list \<Rightarrow> byte list option" where
  "dec_quads t = (if length t mod 4 = 0 then decode_base64_loop t else None)"

text \<open>What decoding the pending characters \<open>p\<close> and then the text \<open>t\<close> gives, after the end of data or before.\<close>

definition dec_rest :: "bool \<Rightarrow> byte list \<Rightarrow> byte list \<Rightarrow> byte list option" where
  "dec_rest eof p t = (if eof then if p @ t = [] then Some [] else None else dec_quads (p @ t))"

definition pending :: "evp_encode_ctx \<Rightarrow> byte list" where
  "pending ctx = take (data_used ctx) (ctx_data ctx)"

definition dec_ok :: "evp_encode_ctx \<Rightarrow> bool" where
  "dec_ok ctx \<longleftrightarrow> length (ctx_data ctx) = sizeof_ctx_data \<and> data_used ctx < 4 \<and> \<not> error_encountered ctx \<and>
     (eof_seen ctx \<longrightarrow> data_used ctx = 0)"

lemma dec_quads_Cons:
  "dec_quads (a # b # c # d # t) =
     (case base64_decode_quad a b c d of
        None \<Rightarrow> None
      | Some bs \<Rightarrow> map_option ((@) bs) (dec_rest (length bs < 3) [] t))"
proof (cases "base64_decode_quad a b c d")
  case None
  then show ?thesis by (simp add: dec_quads_def)
next
  case (Some bs)
  have len: "length (a # b # c # d # t) mod 4 = length t mod 4" by simp
  have "length bs \<le> 3" using Some decode_quad_iff by blast
  then show ?thesis using Some unfolding dec_quads_def dec_rest_def len by (cases "length bs = 3"; cases "t = []") auto
qed

lemma pending_push:
  assumes "dec_ok ctx"
  shows "pending (ctx\<lparr>ctx_data := mem_store (ctx_data ctx) (data_used ctx) [c], data_used := data_used ctx + 1\<rparr>) = pending ctx @ [c]"
  using assms by (simp add: dec_ok_def pending_def sizeof_ctx_data_def mem_store_def)

lemma map_append_Nil: "map_option ((@) []) r = r"
  by (cases r) simp_all

lemma map_append_append: "map_option ((@) v) (map_option ((@) w) r) = map_option ((@) (v @ w)) r"
  by (cases r) simp_all

definition dec_sim :: "evp_encode_ctx \<Rightarrow> byte list \<Rightarrow> byte list \<Rightarrow> (bool \<times> byte list) \<times> evp_encode_ctx \<Rightarrow> bool" where
  "dec_sim ctx out t r \<longleftrightarrow>
     (case r of
        ((False, _), ctx') \<Rightarrow> error_encountered ctx' \<and> (\<forall>u. dec_rest (eof_seen ctx) (pending ctx) (t @ u) = None)
      | ((True, out'), ctx') \<Rightarrow> dec_ok ctx' \<and> (\<exists>w. out' = out @ w \<and>
          length w + data_used ctx' \<le> data_used ctx + length t \<and>
          (\<forall>u. dec_rest (eof_seen ctx) (pending ctx) (t @ u) = map_option ((@) w) (dec_rest (eof_seen ctx') (pending ctx') u))))"

text \<open>One character that keeps the loop going: the context moves on and \<open>w\<close> is written.\<close>

lemma dec_sim_step:
  assumes "dec_sim ctx1 (out @ w) t r" and "data_used ctx1 + length w \<le> Suc (data_used ctx)"
    and "\<And>u. dec_rest (eof_seen ctx) (pending ctx) (c # u) = map_option ((@) w) (dec_rest (eof_seen ctx1) (pending ctx1) u)"
  shows "dec_sim ctx out (c # t) r"
proof -
  obtain ok out' ctx' where r: "r = ((ok, out'), ctx')" by (metis surj_pair)
  show ?thesis
  proof (cases ok)
    case True
    with assms(1) r obtain v where "dec_ok ctx'" "out' = (out @ w) @ v" "length v + data_used ctx' \<le> data_used ctx1 + length t"
      "\<forall>u. dec_rest (eof_seen ctx1) (pending ctx1) (t @ u) = map_option ((@) v) (dec_rest (eof_seen ctx') (pending ctx') u)"
      by (auto simp: dec_sim_def)
    then show ?thesis using assms(2,3) r True unfolding dec_sim_def
      by (auto intro!: exI [of _ "w @ v"] simp: map_append_append)
  next
    case False
    then show ?thesis using assms(1,3) r by (auto simp: dec_sim_def)
  qed
qed

lemma decode_update_loop_spec:
  "dec_ok ctx \<Longrightarrow> dec_sim ctx out (filter (\<lambda>c. \<not> is_skipped c) inp) (decode_update_loop ctx out inp)"
proof (induction ctx out inp rule: decode_update_loop.induct)
  case (1 ctx out)
  then show ?case by (auto simp: dec_sim_def map_append_Nil)
next
  case (2 ctx out c inp)
  let ?t = "filter (\<lambda>c. \<not> is_skipped c) inp"
  let ?c1 = "ctx\<lparr>ctx_data := mem_store (ctx_data ctx) (data_used ctx) [c], data_used := data_used ctx + 1\<rparr>"
  have p1: "pending ?c1 = pending ctx @ [c]" by (rule pending_push [OF 2(4)])
  consider "is_skipped c" | "\<not> is_skipped c" "eof_seen ctx" | "\<not> is_skipped c" "\<not> eof_seen ctx" "data_used ctx = 3"
    | "\<not> is_skipped c" "\<not> eof_seen ctx" "data_used ctx \<noteq> 3" by blast
  then show ?case
  proof cases
    case 1
    then show ?thesis using 2 by simp
  next
    case 2
    then show ?thesis by (simp add: dec_sim_def dec_rest_def)
  next
    case 3
    have "length (pending ctx) = 3" using 2(4) 3(3) by (simp add: pending_def dec_ok_def sizeof_ctx_data_def)
    then obtain a0 a1 a2 where p: "pending ctx = [a0, a1, a2]" by (auto simp: numeral_3_eq_3 length_Suc_conv)
    have "take 4 (ctx_data ?c1) = [a0, a1, a2, c]" using p1 p 3(3) by (simp add: pending_def)
    then have "ctx_data ?c1 ! i = [a0, a1, a2, c] ! i" if "i < 4" for i using that by (metis nth_take)
    from this [of 0] this [of 1] this [of 2] this [of 3]
    have d: "ctx_data ?c1 ! 0 = a0" "ctx_data ?c1 ! 1 = a1" "ctx_data ?c1 ! 2 = a2" "ctx_data ?c1 ! 3 = c"
      by simp_all
    have rest: "dec_rest False (pending ctx) (c # u) = dec_quads (a0 # a1 # a2 # c # u)" for u
      using p by (simp add: dec_rest_def)
    show ?thesis
    proof (cases "base64_decode_quad a0 a1 a2 c")
      case None
      then show ?thesis using 3 d by (simp add: dec_sim_def rest dec_quads_Cons)
    next
      case (Some bs)
      have q: "base64_decode_quad (ctx_data ?c1 ! 0) (ctx_data ?c1 ! 1) (ctx_data ?c1 ! 2) (ctx_data ?c1 ! 3) = Some bs"
        unfolding d by (rule Some)
      let ?c2 = "?c1\<lparr>data_used := 0\<rparr>"
      let ?c3 = "if length bs < 3 then ?c2\<lparr>eof_seen := True\<rparr> else ?c2"
      have "dec_ok ?c3" using 2(4) by (auto simp: dec_ok_def sizeof_ctx_data_def)
      then have "dec_sim ?c3 (out @ bs) ?t (decode_update_loop ?c3 (out @ bs) inp)"
        using 2(2) [OF 3(1,2) refl _ q refl] 3(3) by simp
      moreover have "length bs \<le> 3" using Some decode_quad_iff by blast
      moreover have "pending ?c3 = []" by (simp add: pending_def)
      then have "dec_rest (eof_seen ctx) (pending ctx) (c # u) = map_option ((@) bs) (dec_rest (eof_seen ?c3) (pending ?c3) u)" for u
        using 3(2) \<open>length bs \<le> 3\<close> by (simp add: rest dec_quads_Cons Some)
      ultimately have "dec_sim ctx out (c # ?t) (decode_update_loop ?c3 (out @ bs) inp)"
        using 3(3) by (intro dec_sim_step [where w = bs and ?ctx1.0 = ?c3]) simp_all
      then show ?thesis using 3 Some d by (cases "length bs < 3") (simp_all add: Let_def)
    qed
  next
    case 4
    have "dec_sim ?c1 out ?t (decode_update_loop ?c1 out inp)"
      using 2(3) [OF 4(1,2) refl] 4 2(4) by (simp add: dec_ok_def sizeof_ctx_data_def)
    then have "dec_sim ctx out (c # ?t) (decode_update_loop ?c1 out inp)"
      using 4 p1 by (intro dec_sim_step [where w = "[]" and ?ctx1.0 = ?c1]) (simp_all add: map_append_Nil dec_rest_def)
    then show ?thesis using 4 by simp
  qed
qed


text \<open>Decoding a text in pieces: the output of all calls, when none fails and the end is accepted.\<close>

fun decode_chunks :: "evp_encode_ctx \<Rightarrow> byte list list \<Rightarrow> byte list option" where
  "decode_chunks ctx [] = (if EVP_DecodeFinal ctx = 1 then Some [] else None)"
| "decode_chunks ctx (c # cs) =
     (case EVP_DecodeUpdate ctx c of ((ret, out, out_len), ctx') \<Rightarrow>
        if ret < 0 then None else map_option ((@) (take out_len out)) (decode_chunks ctx' cs))"

lemma EVP_DecodeUpdate_sim:
  assumes "dec_ok ctx" and "data_used ctx + length inp \<le> INT_MAX"
  obtains (bad) out where "EVP_DecodeUpdate ctx inp = ((- 1, out, 0), snd (EVP_DecodeUpdate ctx inp))"
      and "\<forall>u. dec_rest (eof_seen ctx) (pending ctx) (filter (\<lambda>c. \<not> is_skipped c) inp @ u) = None"
  | (good) ret out ctx' where "EVP_DecodeUpdate ctx inp = ((ret, out, length out), ctx')" and "0 \<le> ret" and "dec_ok ctx'"
      and "length out + data_used ctx' \<le> data_used ctx + length inp"
      and "\<forall>u. dec_rest (eof_seen ctx) (pending ctx) (filter (\<lambda>c. \<not> is_skipped c) inp @ u) =
             map_option ((@) out) (dec_rest (eof_seen ctx') (pending ctx') u)"
proof -
  obtain ok out ctx' where r: "decode_update_loop ctx [] inp = ((ok, out), ctx')" by (metis surj_pair)
  have sim: "dec_sim ctx [] (filter (\<lambda>c. \<not> is_skipped c) inp) ((ok, out), ctx')"
    using decode_update_loop_spec [OF assms(1), of "[]" inp] r by simp
  have no_error: "\<not> error_encountered ctx" using assms(1) by (simp add: dec_ok_def)
  show thesis
  proof (cases ok)
    case True
    then have "length out + data_used ctx' \<le> data_used ctx + length (filter (\<lambda>c. \<not> is_skipped c) inp)"
      using sim by (auto simp: dec_sim_def)
    then have "length out + data_used ctx' \<le> data_used ctx + length inp"
      using length_filter_le [of "\<lambda>c. \<not> is_skipped c" inp] by linarith
    then show thesis using sim True r no_error assms(2)
      by (intro good [of "if eof_seen ctx' then 0 else 1" out ctx']) (auto simp: dec_sim_def EVP_DecodeUpdate_def)
  next
    case False
    then show thesis using sim r no_error by (intro bad [of out]) (auto simp: dec_sim_def EVP_DecodeUpdate_def)
  qed
qed

lemma decode_chunks_spec:
  "dec_ok ctx \<Longrightarrow> data_used ctx + length (concat cs) \<le> INT_MAX \<Longrightarrow>
    decode_chunks ctx cs = dec_rest (eof_seen ctx) (pending ctx) (filter (\<lambda>c. \<not> is_skipped c) (concat cs))"
proof (induction cs arbitrary: ctx)
  case Nil
  then show ?case
    by (auto simp: EVP_DecodeFinal_def dec_rest_def dec_quads_def dec_ok_def pending_def sizeof_ctx_data_def mod_less)
next
  case (Cons c cs)
  have len: "data_used ctx + length c \<le> INT_MAX" using Cons.prems(2) by simp
  show ?case using Cons.prems(1) len
  proof (cases rule: EVP_DecodeUpdate_sim)
    case (bad out)
    then show ?thesis by (auto split: prod.splits)
  next
    case (good ret out ctx')
    then show ?thesis using Cons.IH [OF good(3)] Cons.prems(2) by simp
  qed
qed

lemma decode_init_ok: "dec_ok EVP_DecodeInit" "pending EVP_DecodeInit = []" "eof_seen EVP_DecodeInit = False" "data_used EVP_DecodeInit = 0"
  by (simp_all add: dec_ok_def EVP_DecodeInit_def pending_def)


subsection \<open>Streaming encoder\<close>

text \<open>The lines of 64 characters that a PEM body has.\<close>

function b64_lines :: "byte list \<Rightarrow> byte list" where
  "b64_lines x = (if x = [] then [] else b64_with 0 (take 48 x) @ 0x0a # b64_lines (drop 48 x))"
  by pat_completeness auto
termination
  by (relation "measure length") auto

declare b64_lines.simps [simp del]

fun encode_chunks :: "evp_encode_ctx \<Rightarrow> byte list list \<Rightarrow> byte list" where
  "encode_chunks ctx [] = (case EVP_EncodeFinal ctx of ((out, out_len), _) \<Rightarrow> take out_len out)"
| "encode_chunks ctx (c # cs) =
     (case EVP_EncodeUpdate ctx c of ((out, out_len), ctx') \<Rightarrow> take out_len out @ encode_chunks ctx' cs)"

definition enc_ok :: "evp_encode_ctx \<Rightarrow> bool" where
  "enc_ok ctx \<longleftrightarrow> length (ctx_data ctx) = sizeof_ctx_data \<and> data_used ctx < sizeof_ctx_data"

lemma b64_lines_line: "length l = 48 \<Longrightarrow> b64_lines (l @ x) = b64_with 0 l @ 0x0a # b64_lines x"
  by (subst b64_lines.simps) auto

lemma b64_lines_short: "length x < 48 \<Longrightarrow> b64_lines x = (if x = [] then [] else b64_with 0 x @ [0x0a])"
  using b64_lines.simps [of x] b64_lines.simps [of "[]"] by simp

lemma encode_line_eq:
  assumes "tot \<le> length out" and "length out \<le> tot + 1"
  shows "encode_line out tot blk = (take tot out @ b64_with 0 blk @ [0x0a, 0], 4 * ((length blk + 2) div 3))"
  using assms by (simp add: encode_line_def EVP_EncodeBlock_eq mem_store_def)

lemma encode_update_loop_spec:
  assumes "tot \<le> length out" and "length out \<le> tot + 1" and "tot + 2 * length inp < 2 ^ 63"
  shows "\<exists>w out' rest. encode_update_loop out tot inp = ((out', Some (tot + length w)), rest) \<and>
     tot + length w \<le> length out' \<and> length out' \<le> tot + length w + 1 \<and>
     take (tot + length w) out' = take tot out @ w \<and> length rest < 48 \<and> length w + length rest \<le> 2 * length inp \<and>
     (\<forall>u. b64_lines (inp @ u) = w @ b64_lines (rest @ u))"
  using assms
proof (induction out tot inp rule: encode_update_loop.induct)
  case (1 out tot inp)
  show ?case
  proof (cases "length inp \<ge> 48")
    case True
    let ?l = "take 48 inp" and ?r = "drop 48 inp" and ?w1 = "b64_with 0 (take 48 inp) @ [0x0a]"
    let ?out1 = "take tot out @ b64_with 0 ?l @ [0x0a, 0]"
    have line: "encode_line out tot ?l = (?out1, 64)" using encode_line_eq [OF 1(2,3), of ?l] True by simp
    have lw: "length ?w1 = 65" using True by simp
    have s: "size_add (size_add tot 64) 1 = tot + 65" "size_add tot (64 + 1) = tot + 65" using 1(4) True by simp_all
    have IH: "\<exists>w out' rest. encode_update_loop ?out1 (tot + 65) ?r = ((out', Some (tot + 65 + length w)), rest) \<and>
       tot + 65 + length w \<le> length out' \<and> length out' \<le> tot + 65 + length w + 1 \<and>
       take (tot + 65 + length w) out' = take (tot + 65) ?out1 @ w \<and> length rest < 48 \<and> length w + length rest \<le> 2 * length ?r \<and>
       (\<forall>u. b64_lines (?r @ u) = w @ b64_lines (rest @ u))"
      by (rule 1(1) [of ?out1 64, unfolded sizeof_ctx_data_def s]) (use True line [symmetric] 1(2-4) in simp_all)
    then obtain w out' rest where w: "encode_update_loop ?out1 (tot + 65) ?r = ((out', Some (tot + 65 + length w)), rest)"
       "tot + 65 + length w \<le> length out'" "length out' \<le> tot + 65 + length w + 1"
       "take (tot + 65 + length w) out' = take (tot + 65) ?out1 @ w" "length rest < 48" "length w + length rest \<le> 2 * length ?r"
       "\<forall>u. b64_lines (?r @ u) = w @ b64_lines (rest @ u)" by blast
    have "encode_update_loop out tot inp = encode_update_loop ?out1 (tot + 65) ?r"
      using line s True by (subst encode_update_loop.simps) (simp add: sizeof_ctx_data_def)
    moreover have "b64_lines (inp @ u) = ?w1 @ w @ b64_lines (rest @ u)" for u
    proof -
      have "b64_lines (inp @ u) = b64_lines (?l @ ?r @ u)" by (metis append.assoc append_take_drop_id)
      also have "\<dots> = ?w1 @ w @ b64_lines (rest @ u)" using b64_lines_line [of ?l "?r @ u"] w(7) True by simp
      finally show ?thesis .
    qed
    moreover have "take (tot + 65) ?out1 = take tot out @ ?w1" using 1(2) True by simp
    ultimately show ?thesis using w lw True
      by (intro exI [of _ "?w1 @ w"] exI [of _ out'] exI [of _ rest]) (simp add: algebra_simps)
  next
    case False
    then have "encode_update_loop out tot inp = ((out, Some tot), inp)"
      by (subst encode_update_loop.simps) (simp add: sizeof_ctx_data_def)
    then show ?thesis using False 1 by (intro exI [of _ "[]"] exI [of _ out] exI [of _ inp]) simp
  qed
qed


lemma encode_tail_spec:
  assumes "length (ctx_data ctx1) = 48" and "tot \<le> length out" and "length out \<le> tot + 1" and "tot \<le> 65" and "length rest < 2 ^ 29"
  shows "\<exists>w out' ctx'. encode_tail out tot rest ctx1 = ((out', tot + length w), ctx') \<and>
     take (tot + length w) out' = take tot out @ w \<and> enc_ok ctx' \<and>
     (\<forall>u. b64_lines (rest @ u) = w @ b64_lines (pending ctx' @ u))"
proof -
  have "tot + 2 * length rest < 2 ^ 63" using assms(4,5) by simp
  from encode_update_loop_spec [OF assms(2,3) this]
  obtain w out' rest' where w: "encode_update_loop out tot rest = ((out', Some (tot + length w)), rest')"
     "take (tot + length w) out' = take tot out @ w" "length rest' < 48" "length w + length rest' \<le> 2 * length rest"
     "\<forall>u. b64_lines (rest @ u) = w @ b64_lines (rest' @ u)" by blast
  let ?ctx = "ctx1\<lparr>ctx_data := (if length rest' \<noteq> 0 then mem_store (ctx_data ctx1) 0 rest' else ctx_data ctx1), data_used := length rest'\<rparr>"
  have "\<not> tot + length w > INT_MAX" using w(4) assms(4,5) by (simp add: INT_MAX_def)
  then have "encode_tail out tot rest ctx1 = ((out', tot + length w), ?ctx)" using w(1) by (simp add: encode_tail_def)
  moreover have "enc_ok ?ctx" and "pending ?ctx = rest'" using w(3) assms(1)
    by (auto simp: enc_ok_def sizeof_ctx_data_def pending_def mem_store_def)
  ultimately show ?thesis using w(2,5) by (intro exI [of _ w] exI [of _ out'] exI [of _ ?ctx]) simp
qed

lemma EVP_EncodeUpdate_spec:
  assumes ok: "enc_ok ctx" and len: "length inp < 2 ^ 29"
  shows "\<exists>w out ctx'. EVP_EncodeUpdate ctx inp = ((out, length w), ctx') \<and> take (length w) out = w \<and> enc_ok ctx' \<and>
     (\<forall>u. b64_lines (pending ctx @ inp @ u) = w @ b64_lines (pending ctx' @ u))"
proof -
  let ?n = "data_used ctx"
  have dl: "length (ctx_data ctx) = 48" and n: "?n < 48" using ok by (simp_all add: enc_ok_def sizeof_ctx_data_def)
  consider "inp = []" | "inp \<noteq> []" "length inp < 48 - ?n" | "48 - ?n \<le> length inp" "?n = 0" "inp \<noteq> []"
    | "48 - ?n \<le> length inp" "?n \<noteq> 0" "inp \<noteq> []" by linarith
  then show ?thesis
  proof cases
    case 1
    then show ?thesis using ok by (intro exI [of _ "[]"] exI [of _ "[]"] exI [of _ ctx]) (simp add: EVP_EncodeUpdate_def)
  next
    case 2
    let ?ctx = "ctx\<lparr>ctx_data := mem_store (ctx_data ctx) ?n inp, data_used := ?n + length inp\<rparr>"
    have "EVP_EncodeUpdate ctx inp = (([], 0), ?ctx)" using 2 by (simp add: EVP_EncodeUpdate_def sizeof_ctx_data_def)
    moreover have "enc_ok ?ctx" using 2 dl n by (simp add: enc_ok_def sizeof_ctx_data_def)
    moreover have "pending ?ctx = pending ctx @ inp" using 2 dl n by (simp add: pending_def mem_store_def)
    ultimately show ?thesis by (intro exI [of _ "[]"] exI [of _ "[]"] exI [of _ ?ctx]) simp
  next
    case 3
    then have "EVP_EncodeUpdate ctx inp = encode_tail [] 0 inp ctx"
      by (simp add: EVP_EncodeUpdate_def sizeof_ctx_data_def)
    moreover have "pending ctx = []" using 3 by (simp add: pending_def)
    ultimately show ?thesis using encode_tail_spec [of ctx 0 "[]" inp] dl len by simp
  next
    case 4
    let ?todo = "48 - ?n"
    let ?full = "mem_store (ctx_data ctx) ?n (take ?todo inp)"
    have full: "?full = pending ctx @ take ?todo inp" and lf: "length ?full = 48"
      using 4 dl n by (simp_all add: mem_store_def pending_def)
    have line: "encode_line [] 0 ?full = (b64_with 0 ?full @ [0x0a, 0], 64)" using encode_line_eq [of 0 "[]" ?full] lf by simp
    have "EVP_EncodeUpdate ctx inp = encode_tail (b64_with 0 ?full @ [0x0a, 0]) 65 (drop ?todo inp) (ctx\<lparr>ctx_data := ?full, data_used := 0\<rparr>)"
      using 4 line by (simp add: EVP_EncodeUpdate_def sizeof_ctx_data_def Let_def)
    moreover have "length (drop ?todo inp) < 2 ^ 29" using len by simp
    then obtain w out' ctx' where "encode_tail (b64_with 0 ?full @ [0x0a, 0]) 65 (drop ?todo inp) (ctx\<lparr>ctx_data := ?full, data_used := 0\<rparr>) =
        ((out', 65 + length w), ctx')" "take (65 + length w) out' = take 65 (b64_with 0 ?full @ [0x0a, 0]) @ w" "enc_ok ctx'"
        "\<forall>u. b64_lines (drop ?todo inp @ u) = w @ b64_lines (pending ctx' @ u)"
      using encode_tail_spec [of "ctx\<lparr>ctx_data := ?full, data_used := 0\<rparr>" 65 "b64_with 0 ?full @ [0x0a, 0]" "drop ?todo inp"] lf len
      by auto
    moreover have "b64_lines (pending ctx @ inp @ u) = b64_with 0 ?full @ 0x0a # b64_lines (drop ?todo inp @ u)" for u
    proof -
      have "pending ctx @ inp @ u = ?full @ drop ?todo inp @ u" unfolding full by (metis append.assoc append_take_drop_id)
      then show ?thesis using b64_lines_line [OF lf] by metis
    qed
    ultimately show ?thesis using lf
      by (intro exI [of _ "(b64_with 0 ?full @ [0x0a]) @ w"] exI [of _ out'] exI [of _ ctx']) simp
  qed
qed

lemma EVP_EncodeFinal_spec:
  assumes "enc_ok ctx"
  shows "\<exists>out n. fst (EVP_EncodeFinal ctx) = (out, n) \<and> take n out = b64_lines (pending ctx)"
proof (cases "data_used ctx = 0")
  case True
  then show ?thesis by (simp add: EVP_EncodeFinal_def pending_def b64_lines_short)
next
  case False
  let ?p = "pending ctx"
  have p: "length ?p < 48" "?p \<noteq> []" using assms False by (auto simp: pending_def enc_ok_def sizeof_ctx_data_def)
  have "EVP_EncodeFinal ctx = ((b64_with 0 ?p @ [0x0a, 0], 4 * ((length ?p + 2) div 3) + 1), ctx\<lparr>data_used := 0\<rparr>)"
    using False encode_line_eq [of 0 "[]" ?p] by (simp add: EVP_EncodeFinal_def pending_def)
  then show ?thesis using p by (simp add: b64_lines_short)
qed

lemma encode_chunks_spec:
  "enc_ok ctx \<Longrightarrow> \<forall>c \<in> set cs. length c < 2 ^ 29 \<Longrightarrow> encode_chunks ctx cs = b64_lines (pending ctx @ concat cs)"
proof (induction cs arbitrary: ctx)
  case Nil
  then show ?case using EVP_EncodeFinal_spec [of ctx] by (auto split: prod.splits)
next
  case (Cons c cs)
  have "length c < 2 ^ 29" using Cons.prems(2) by simp
  from EVP_EncodeUpdate_spec [OF Cons.prems(1) this]
  obtain w out ctx' where w: "EVP_EncodeUpdate ctx c = ((out, length w), ctx')" "take (length w) out = w" "enc_ok ctx'"
     "\<forall>u. b64_lines (pending ctx @ c @ u) = w @ b64_lines (pending ctx' @ u)" by blast
  then show ?case using Cons.IH [OF w(3)] Cons.prems(2) by simp
qed


subsection \<open>Properties\<close>

lemma EVP_EncodedLength_eq:
  assumes "len < 2 ^ 64"
  shows "EVP_EncodedLength len = (if 4 * ((len + 2) div 3) + 1 < 2 ^ 64 then Some (4 * ((len + 2) div 3) + 1) else None)"
proof -
  let ?g = "(len + 2) div 3"
  have wrap: "size_add len 2 < len \<longleftrightarrow> 2 ^ 64 \<le> len + 2" using assms size_add_overflow_iff [of len 2] by simp
  show ?thesis
  proof (cases "len + 2 < 2 ^ 64")
    case False
    then have "(2 ^ 64 :: nat) div 3 \<le> ?g" by (intro div_le_mono) simp
    then have "\<not> 4 * ?g + 1 < 2 ^ 64" by simp
    then show ?thesis using False wrap by (simp add: EVP_EncodedLength_def)
  next
    case True
    then have s: "size_add len 2 = len + 2" "\<not> size_add len 2 < len" using wrap by simp_all
    show ?thesis
    proof (cases "?g * 4 < 2 ^ 64")
      case fits: True
      have "?g * 4 \<noteq> 2 ^ 64 - 1"
      proof
        assume "?g * 4 = 2 ^ 64 - 1"
        then have "(2 ^ 64 - 1) mod 4 = (0 :: nat)" by (metis mod_mult_self2_is_0)
        then show False by simp
      qed
      then have "?g * 4 + 1 < 2 ^ 64" using fits by linarith
      then show ?thesis using fits s by (simp add: EVP_EncodedLength_def Let_def mult.commute)
    next
      case False
      have "size_mul ?g 4 < 2 ^ 64" by (simp add: size_mul_def)
      then have "size_mul ?g 4 div 4 \<noteq> ?g" using False by linarith
      then show ?thesis using False s by (simp add: EVP_EncodedLength_def Let_def)
    qed
  qed
qed

lemma enc_init_ok: "enc_ok EVP_EncodeInit" "pending EVP_EncodeInit = []"
  by (simp_all add: enc_ok_def EVP_EncodeInit_def pending_def sizeof_ctx_data_def)

lemma pad_block_eq: "pad_block dst = dst @ replicate ((3 - length dst mod 3) mod 3) 0"
proof -
  consider "length dst mod 3 = 0" | "length dst mod 3 = 1" | "length dst mod 3 = 2" by linarith
  then show ?thesis
  proof cases
    case 1
    then show ?thesis by (simp add: pad_block.simps [of dst])
  next
    case 2
    then have "pad_block dst = (dst @ [0]) @ [0]"
      by (simp add: pad_block.simps [of dst] pad_block.simps [of "dst @ [0]"] pad_block.simps [of "dst @ [0, 0]"] mod_Suc)
    then show ?thesis using 2 by (simp add: numeral_2_eq_2)
  next
    case 3
    then have "pad_block dst = dst @ [0]" by (simp add: pad_block.simps [of dst] pad_block.simps [of "dst @ [0]"] mod_Suc)
    then show ?thesis using 3 by simp
  qed
qed

lemma skipped_invalid: "is_skipped c \<Longrightarrow> base64_ascii_to_bin c = 255"
  by (auto simp: is_skipped_def base64_ascii_to_bin_eq char_sextet_def)

lemma decoded_chars_valid:
  "length t mod 4 = 0 \<Longrightarrow> decode_base64_loop t = Some y \<Longrightarrow> c \<in> set t \<Longrightarrow> base64_ascii_to_bin c \<noteq> 255"
proof (induction t arbitrary: y rule: decode_base64_loop.induct)
  case (1 a b d f inp)
  then obtain bs y' where bs: "base64_decode_quad a b d f = Some bs" and y': "decode_base64_loop inp = Some y'"
    and full: "length bs = 3 \<or> inp = []"
    by (auto split: option.splits if_splits)
  have "base64_ascii_to_bin a \<noteq> 255 \<and> base64_ascii_to_bin b \<noteq> 255 \<and> base64_ascii_to_bin d \<noteq> 255 \<and> base64_ascii_to_bin f \<noteq> 255"
    using bs by (auto simp: base64_decode_quad_def)
  moreover have "length inp mod 4 = 0" using 1(2) by simp
  then have "c \<in> set inp \<Longrightarrow> base64_ascii_to_bin c \<noteq> 255" using 1(1) [OF bs _ _ y'] full by auto
  ultimately show ?case using 1(4) by auto
qed (auto simp: mod_Suc)

lemma b64_chars_valid: "c \<in> set (b64_with e y) \<Longrightarrow> base64_ascii_to_bin c \<noteq> 255"
  using decoded_chars_valid [of "b64_with e y" y c] decode_base64_loop_iff [of "b64_with e y" y] by auto

lemma trim_end: "\<forall>c \<in> set post. P c \<Longrightarrow> (\<And>c. c \<in> set t \<Longrightarrow> \<not> P c) \<Longrightarrow> rev (dropWhile P (rev (t @ post))) = t"
proof -
  assume post: "\<forall>c \<in> set post. P c" and t: "\<And>c. c \<in> set t \<Longrightarrow> \<not> P c"
  have "dropWhile P (rev post @ rev t) = dropWhile P (rev t)" by (rule dropWhile_append2) (use post in simp)
  also have "\<dots> = rev t" using t by (cases "rev t") (auto dest: arg_cong [of _ _ set])
  finally show ?thesis by simp
qed

text \<open>C21. \<open>EVP_EncodeBlock\<close> writes the RFC 4648 encoding and a NUL, returns the length of the encoding, and
  fills exactly the number of bytes that \<open>EVP_EncodedLength\<close> computes, which fails only where that
  number does not fit in \<open>size_t\<close>.\<close>

theorem base64_encode_correct:
  assumes "length src < 2 ^ 64"
  shows "EVP_EncodeBlock src = (b64_with 0 src @ [0], length (b64_with 0 src)) \<and>
    EVP_EncodedLength (length src) =
      (if length (fst (EVP_EncodeBlock src)) < 2 ^ 64 then Some (length (fst (EVP_EncodeBlock src))) else None)"
  using EVP_EncodedLength_eq [OF assms] by (simp add: EVP_EncodeBlock_eq)

theorem base64_encode_correct_witness:
  "EVP_EncodeBlock [77, 97] = ([84, 87, 69, 61, 0], 4) \<and> EVP_EncodedLength 2 = Some 5"
proof -
  have b: "b64_with 0 [77, 97] = [84, 87, 69, 61]" by code_simp
  have "length [77 :: byte, 97] < 2 ^ 64" by simp
  note c = base64_encode_correct [OF this, unfolded b]
  then have e: "EVP_EncodeBlock [77, 97] = ([84, 87, 69, 61, 0], 4)" by simp
  show ?thesis using c unfolding e by (simp flip: numeral_2_eq_2)
qed

text \<open>C22. \<open>EVP_DecodeBase64\<close> accepts exactly the encodings of octet strings, whatever the bits beyond the last
  octet, when the output buffer has three bytes for every quad; what is encoded is decoded again.\<close>

theorem base64_decode_exact:
  "EVP_DecodeBase64 max_out t = Some y \<longleftrightarrow> 3 * (length t div 4) \<le> max_out \<and> (\<exists>e. t = b64_with e y)"
  by (rule EVP_DecodeBase64_iff)

text \<open>C23. The streaming encoder is independent of how its input is cut: the outputs of the calls together
  are the lines of 48 octets each.\<close>

theorem base64_encode_stream:
  assumes "\<forall>c \<in> set cs. length c < 2 ^ 29"
  shows "encode_chunks EVP_EncodeInit cs = b64_lines (concat cs)"
  using encode_chunks_spec [OF enc_init_ok(1) assms] by (simp add: enc_init_ok)

theorem base64_encode_stream_witness:
  "encode_chunks EVP_EncodeInit [[1], [], [2, 3]] = b64_lines [1, 2, 3]"
  using base64_encode_stream [of "[[1], [], [2, 3]]"] by simp

text \<open>C24. The streaming decoder is independent of how its input is cut and of white space: it succeeds with
  the result of \<open>EVP_DecodeBase64\<close> on the other characters, or fails when that fails; in particular it
  undoes the streaming encoder.\<close>

theorem base64_decode_stream:
  assumes "length (concat cs) \<le> INT_MAX"
  shows "decode_chunks EVP_DecodeInit cs =
    EVP_DecodeBase64 (length (concat cs)) (filter (\<lambda>c. \<not> is_skipped c) (concat cs))"
proof -
  let ?t = "filter (\<lambda>c. \<not> is_skipped c) (concat cs)"
  have "length ?t \<le> length (concat cs)" by (rule length_filter_le)
  then have "3 * (length ?t div 4) \<le> length (concat cs)" by linarith
  then have "EVP_DecodeBase64 (length (concat cs)) ?t = dec_quads ?t"
    by (simp add: EVP_DecodeBase64_def EVP_DecodedLength_def dec_quads_def mult.commute)
  then show ?thesis using decode_chunks_spec [of EVP_DecodeInit cs] assms by (simp add: decode_init_ok dec_rest_def)
qed

theorem base64_decode_stream_witness:
  "decode_chunks EVP_DecodeInit [[0x0a], b64_with 0 [1, 2], [0x20]] = Some [1, 2]"
proof -
  define t where "t = b64_with 0 [1, 2]"
  have "filter (\<lambda>c. \<not> is_skipped c) t = t"
    using b64_chars_valid [of _ 0 "[1, 2]", folded t_def] skipped_invalid by (intro filter_True) metis
  moreover have len: "length t = 4" unfolding t_def by simp
  moreover have "EVP_DecodeBase64 6 t = Some [1, 2]" unfolding EVP_DecodeBase64_iff len t_def by (intro conjI exI [of _ 0]) simp_all
  moreover have "is_skipped 0x0a" "is_skipped 0x20" by (simp_all add: is_skipped_def)
  ultimately show ?thesis
    using base64_decode_stream [of "[[0x0a], t, [0x20]]"] unfolding t_def [symmetric]
    by (simp del: decode_chunks.simps add: INT_MAX_def)
qed

text \<open>\<open>EVP_DecodeBlock\<close> ignores white space around an encoding and returns the octets filled up with NULs
  to a multiple of three.\<close>

theorem base64_decode_block:
  assumes "length y < 2 ^ 29" and "\<forall>c \<in> set pre. c = 0x20 \<or> c = 0x09" and "\<forall>c \<in> set post. is_skipped c"
  shows "EVP_DecodeBlock (pre @ b64_with e y @ post) = Some (y @ replicate ((3 - length y mod 3) mod 3) 0)"
proof -
  let ?t = "b64_with e y" and ?sp = "\<lambda>c :: byte. c = 0x20 \<or> c = 0x09"
  have nosp: "\<not> is_skipped c" if "c \<in> set ?t" for c
    using b64_chars_valid [OF that] skipped_invalid by metis
  have spaces: "?sp c \<Longrightarrow> is_skipped c" for c by (auto simp: is_skipped_def)
  have "dropWhile ?sp (pre @ ?t @ post) = dropWhile ?sp (?t @ post)"
    using assms(2) by (induction pre) auto
  also have "rev (dropWhile is_skipped (rev \<dots>)) = ?t"
  proof (cases ?t)
    case Nil
    have "\<forall>c \<in> set (dropWhile ?sp post). is_skipped c" using assms(3) set_dropWhileD by fastforce
    then show ?thesis using Nil by (simp add: dropWhile_eq_Nil_conv)
  next
    case (Cons c t)
    then have "\<not> ?sp c" using nosp [of c] spaces by auto
    then have "dropWhile ?sp (?t @ post) = ?t @ post" using Cons by simp
    then show ?thesis using trim_end [OF assms(3), of ?t] nosp by simp
  qed
  finally have trim: "rev (dropWhile is_skipped (rev (dropWhile ?sp (pre @ ?t @ post)))) = ?t" .
  have "\<not> INT_MAX < length ?t div 4 * 3" using assms(1) by (simp add: INT_MAX_def)
  moreover have "EVP_DecodeBase64 (length ?t div 4 * 3) ?t = Some y" unfolding EVP_DecodeBase64_iff by auto
  ultimately show ?thesis
    unfolding EVP_DecodeBlock_def Let_def trim by (simp add: EVP_DecodedLength_def pad_block_eq)
qed


theorem base64_decode_block_witness:
  "EVP_DecodeBlock ([0x20] @ b64_with 7 [65] @ [0x0a, 0x20]) = Some [65, 0, 0]"
proof -
  have "replicate 2 (0 :: byte) = [0, 0]" by (simp add: numeral_2_eq_2)
  then show ?thesis using base64_decode_block [of "[65]" "[0x20]" "[0x0a, 0x20]" 7] by (simp add: is_skipped_def)
qed

end
