(* ===== verification/PbEncode.thy ===== *)
theory PbEncode
  imports Mem
begin

text \<open>
  The encoder of nanopb below the level of messages (nanopb/pb_encode.c, with the types of pb.h and
  pb_encode.h): output streams over a buffer, over a client's callback, or only counting; varints,
  zigzag integers, fixed-width integers, tags, strings, length-prefixed submessages; and one
  encoder per type of field. The options are the ones CocoaPods builds with: field descriptors of 32
  bits, error messages on, 64-bit integers. The lemmas reduce every encoder to one \<open>pb_write\<close> of the
  bytes it stands for.
\<close>

section \<open>Encoding protocol buffer values\<close>

subsection \<open>Output streams\<close>

text \<open>
  The callback of a stream with its state: none for a stream that only counts, the library's
  \<open>buf_write\<close> with what has been written to the buffer, or the client's with a state of its own.
\<close>

datatype 's osink = is_sizing: Sizing | OBuffer "byte list" | OClient 's

record 's pb_ostream =
  os_sink :: "'s osink"
  os_max_size :: nat
  os_bytes_written :: nat
  os_errmsg :: "string option"

type_synonym 's ocallback = "'s \<Rightarrow> byte list \<Rightarrow> bool \<times> 's"

definition PB_SET_OERROR :: "string \<Rightarrow> 's pb_ostream \<Rightarrow> 's pb_ostream" where
  "PB_SET_OERROR msg stream = stream\<lparr>os_errmsg := (case os_errmsg stream of None \<Rightarrow> Some msg | Some m \<Rightarrow> Some m)\<rparr>"

definition PB_RETURN_OERROR :: "string \<Rightarrow> ('s pb_ostream, 'a) stm" where
  "PB_RETURN_OERROR msg stream = (None, PB_SET_OERROR msg stream)"

definition PB_OSTREAM_SIZING :: "'s pb_ostream" where
  "PB_OSTREAM_SIZING = \<lparr>os_sink = Sizing, os_max_size = 0, os_bytes_written = 0, os_errmsg = None\<rparr>"

definition pb_ostream_from_buffer :: "nat \<Rightarrow> 's pb_ostream" where
  "pb_ostream_from_buffer bufsize =
     \<lparr>os_sink = OBuffer [], os_max_size = bufsize, os_bytes_written = 0, os_errmsg = None\<rparr>"

text \<open>\<open>stream->callback(stream, buf, count)\<close>; the first case of a buffer is \<open>buf_write\<close>.\<close>

definition stream_callback :: "'s ocallback \<Rightarrow> byte list \<Rightarrow> nat \<Rightarrow> 's osink \<Rightarrow> bool \<times> 's osink" where
  "stream_callback wr buf count sink =
     (case sink of
        Sizing \<Rightarrow> (False, Sizing)
      | OBuffer dest \<Rightarrow> (True, OBuffer (dest @ take count buf))
      | OClient s \<Rightarrow> (case wr s (take count buf) of (ok, s') \<Rightarrow> (ok, OClient s')))"

definition pb_write :: "'s ocallback \<Rightarrow> byte list \<Rightarrow> nat \<Rightarrow> ('s pb_ostream, unit) stm" where
  "pb_write wr buf count stream =
     (let tot = size_add (os_bytes_written stream) count
      in if count > 0 \<and> \<not> is_sizing (os_sink stream) then
           (if tot < os_bytes_written stream \<or> tot > os_max_size stream then PB_RETURN_OERROR ''stream full'' stream
            else case stream_callback wr buf count (os_sink stream) of
                   (False, sink) \<Rightarrow> PB_RETURN_OERROR ''io error'' (stream\<lparr>os_sink := sink\<rparr>)
                 | (True, sink) \<Rightarrow> (Some (), stream\<lparr>os_sink := sink, os_bytes_written := tot\<rparr>))
         else (Some (), stream\<lparr>os_bytes_written := tot\<rparr>))"

subsection \<open>Primitive values\<close>

function varint_loop :: "u64 \<Rightarrow> byte list" where
  "varint_loop v = (if v \<noteq> 0 then (ucast (v AND 0x7F) OR 0x80) # varint_loop (drop_bit 7 v) else [])"
  by pat_completeness auto
termination
proof (relation "measure unat")
  fix v :: u64
  assume "v \<noteq> 0"
  then have "unat v \<noteq> 0" by (simp add: unat_eq_zero)
  moreover have "unat (drop_bit 7 v) = unat v div 128" by (simp add: unat_drop)
  ultimately show "(drop_bit 7 v, v) \<in> measure unat" by simp
qed simp

declare varint_loop.simps [simp del]

text \<open>\<open>buffer[i-1] &= 0x7F\<close>\<close>

definition unset_top :: "byte list \<Rightarrow> byte list" where
  "unset_top buffer = butlast buffer @ [last buffer AND 0x7F]"

definition pb_encode_varint :: "'s ocallback \<Rightarrow> u64 \<Rightarrow> ('s pb_ostream, unit) stm" where
  "pb_encode_varint wr v =
     (if v \<le> 0x7F then pb_write wr [ucast v] 1
      else let buffer = unset_top (varint_loop v) in pb_write wr buffer (length buffer))"

text \<open>An \<open>int64_t\<close> is the word of its two's complement representation.\<close>

definition zigzag :: "u64 \<Rightarrow> u64" where
  "zigzag v = (if sint v < 0 then NOT (push_bit 1 v) else push_bit 1 v)"

definition pb_encode_svarint :: "'s ocallback \<Rightarrow> u64 \<Rightarrow> ('s pb_ostream, unit) stm" where
  "pb_encode_svarint wr v = pb_encode_varint wr (zigzag v)"

definition pb_encode_fixed32 :: "'s ocallback \<Rightarrow> u32 \<Rightarrow> ('s pb_ostream, unit) stm" where
  "pb_encode_fixed32 wr val =
     pb_write wr [ucast (val AND 0xFF), ucast (drop_bit 8 val AND 0xFF), ucast (drop_bit 16 val AND 0xFF),
                  ucast (drop_bit 24 val AND 0xFF)] 4"

definition pb_encode_fixed64 :: "'s ocallback \<Rightarrow> u64 \<Rightarrow> ('s pb_ostream, unit) stm" where
  "pb_encode_fixed64 wr val =
     pb_write wr [ucast (val AND 0xFF), ucast (drop_bit 8 val AND 0xFF), ucast (drop_bit 16 val AND 0xFF),
                  ucast (drop_bit 24 val AND 0xFF), ucast (drop_bit 32 val AND 0xFF), ucast (drop_bit 40 val AND 0xFF),
                  ucast (drop_bit 48 val AND 0xFF), ucast (drop_bit 56 val AND 0xFF)] 8"

type_synonym pb_wire_type = u32

definition PB_WT_VARINT :: pb_wire_type where
  "PB_WT_VARINT = 0"

definition PB_WT_64BIT :: pb_wire_type where
  "PB_WT_64BIT = 1"

definition PB_WT_STRING :: pb_wire_type where
  "PB_WT_STRING = 2"

definition PB_WT_32BIT :: pb_wire_type where
  "PB_WT_32BIT = 5"

definition pb_encode_tag :: "'s ocallback \<Rightarrow> pb_wire_type \<Rightarrow> u32 \<Rightarrow> ('s pb_ostream, unit) stm" where
  "pb_encode_tag wr wiretype field_number = pb_encode_varint wr (push_bit 3 (ucast field_number) OR ucast wiretype)"

text \<open>
  A field descriptor. \<open>ptr\<close> is the address of the descriptor array of a submessage or of the default
  value of another field, None for NULL.
\<close>

record pb_field =
  pf_tag :: u32
  pf_type :: byte
  pf_data_offset :: nat
  pf_size_offset :: int
  pf_data_size :: nat
  pf_array_size :: nat
  pf_ptr :: "nat option"

definition PB_LTYPE :: "byte \<Rightarrow> byte" where
  "PB_LTYPE x = x AND 0x0F"

definition PB_ATYPE :: "byte \<Rightarrow> byte" where
  "PB_ATYPE x = x AND 0xC0"

definition PB_ATYPE_STATIC :: byte where
  "PB_ATYPE_STATIC = 0x00"

definition PB_ATYPE_POINTER :: byte where
  "PB_ATYPE_POINTER = 0x80"

definition pb_encode_tag_for_field :: "'s ocallback \<Rightarrow> pb_field \<Rightarrow> ('s pb_ostream, unit) stm" where
  "pb_encode_tag_for_field wr field =
     (let t = PB_LTYPE (pf_type field)
      in if t \<in> {0x00, 0x01, 0x02, 0x03} then pb_encode_tag wr PB_WT_VARINT (pf_tag field)
         else if t = 0x04 then pb_encode_tag wr PB_WT_32BIT (pf_tag field)
         else if t = 0x05 then pb_encode_tag wr PB_WT_64BIT (pf_tag field)
         else if t \<in> {0x06, 0x07, 0x08, 0x0A} then pb_encode_tag wr PB_WT_STRING (pf_tag field)
         else PB_RETURN_OERROR ''invalid field type'')"

definition pb_encode_string :: "'s ocallback \<Rightarrow> byte list \<Rightarrow> nat \<Rightarrow> ('s pb_ostream, unit) stm" where
  "pb_encode_string wr buffer sz =
     st_bind (pb_encode_varint wr (of_nat sz)) (\<lambda>_. pb_write wr buffer sz)"

subsection \<open>Messages in messages\<close>

text \<open>
  \<open>enc\<close> stands for \<open>pb_encode(_, fields, src_struct)\<close> with the message fixed: the operations below
  call it with streams of their own.
\<close>

definition pb_get_encoded_size :: "('s pb_ostream, unit) stm \<Rightarrow> nat option" where
  "pb_get_encoded_size enc =
     (case enc PB_OSTREAM_SIZING of (None, _) \<Rightarrow> None | (Some _, stream) \<Rightarrow> Some (os_bytes_written stream))"

definition pb_encode_submessage :: "'s ocallback \<Rightarrow> ('s pb_ostream, unit) stm \<Rightarrow> ('s pb_ostream, unit) stm" where
  "pb_encode_submessage wr enc stream =
     (case enc PB_OSTREAM_SIZING of
        (None, substream) \<Rightarrow> (None, stream\<lparr>os_errmsg := os_errmsg substream\<rparr>)
      | (Some _, substream) \<Rightarrow>
          let sz = os_bytes_written substream
          in (case pb_encode_varint wr (of_nat sz) stream of
                (None, stream1) \<Rightarrow> (None, stream1)
              | (Some _, stream1) \<Rightarrow>
                  if is_sizing (os_sink stream1) then pb_write wr [] sz stream1
                  else if size_add (os_bytes_written stream1) sz > os_max_size stream1 then PB_RETURN_OERROR ''stream full'' stream1
                  else
                    (case enc \<lparr>os_sink = os_sink stream1, os_max_size = sz, os_bytes_written = 0, os_errmsg = None\<rparr> of
                       (status, sub2) \<Rightarrow>
                         let stream2 = stream1\<lparr>os_bytes_written := size_add (os_bytes_written stream1) (os_bytes_written sub2),
                                               os_sink := os_sink sub2, os_errmsg := os_errmsg sub2\<rparr>
                         in if os_bytes_written sub2 \<noteq> sz then PB_RETURN_OERROR ''submsg size changed'' stream2
                            else (status, stream2))))"

definition pb_encode_delimited :: "'s ocallback \<Rightarrow> ('s pb_ostream, unit) stm \<Rightarrow> ('s pb_ostream, unit) stm" where
  "pb_encode_delimited wr enc = pb_encode_submessage wr enc"

definition pb_encode_nullterminated :: "'s ocallback \<Rightarrow> ('s pb_ostream, unit) stm \<Rightarrow> ('s pb_ostream, unit) stm" where
  "pb_encode_nullterminated wr enc = st_bind enc (\<lambda>_. pb_write wr [0] 1)"

subsection \<open>Field encoders\<close>

text \<open>\<open>src\<close> is the memory the field is read from; integers are stored in little-endian order.\<close>

definition le_word :: "byte list \<Rightarrow> u64" where
  "le_word bs = foldr (\<lambda>b w. push_bit 8 w OR ucast b) bs 0"

definition le_bytes :: "nat \<Rightarrow> u64 \<Rightarrow> byte list" where
  "le_bytes n v = map (\<lambda>i. ucast (drop_bit (8 * i) v)) [0..<n]"

definition read_int :: "nat \<Rightarrow> byte list \<Rightarrow> u64" where
  "read_int n src = signed_take_bit (8 * n - 1) (le_word (take n src))"

definition safe_read_bool :: "byte list \<Rightarrow> bool" where
  "safe_read_bool p \<longleftrightarrow> (\<exists>b \<in> set (take 1 p). b \<noteq> 0)"

definition pb_enc_bool :: "'s ocallback \<Rightarrow> byte list \<Rightarrow> ('s pb_ostream, unit) stm" where
  "pb_enc_bool wr src = pb_encode_varint wr (if safe_read_bool src then 1 else 0)"

definition pb_enc_varint :: "'s ocallback \<Rightarrow> pb_field \<Rightarrow> byte list \<Rightarrow> ('s pb_ostream, unit) stm" where
  "pb_enc_varint wr field src =
     (if pf_data_size field \<in> {1, 2, 4, 8} then pb_encode_varint wr (read_int (pf_data_size field) src)
      else PB_RETURN_OERROR ''invalid data_size'')"

definition pb_enc_uvarint :: "'s ocallback \<Rightarrow> pb_field \<Rightarrow> byte list \<Rightarrow> ('s pb_ostream, unit) stm" where
  "pb_enc_uvarint wr field src =
     (if pf_data_size field \<in> {1, 2, 4, 8} then pb_encode_varint wr (le_word (take (pf_data_size field) src))
      else PB_RETURN_OERROR ''invalid data_size'')"

definition pb_enc_svarint :: "'s ocallback \<Rightarrow> pb_field \<Rightarrow> byte list \<Rightarrow> ('s pb_ostream, unit) stm" where
  "pb_enc_svarint wr field src =
     (if pf_data_size field \<in> {1, 2, 4, 8} then pb_encode_svarint wr (read_int (pf_data_size field) src)
      else PB_RETURN_OERROR ''invalid data_size'')"

definition pb_enc_fixed64 :: "'s ocallback \<Rightarrow> byte list \<Rightarrow> ('s pb_ostream, unit) stm" where
  "pb_enc_fixed64 wr src = pb_encode_fixed64 wr (le_word (take 8 src))"

definition pb_enc_fixed32 :: "'s ocallback \<Rightarrow> byte list \<Rightarrow> ('s pb_ostream, unit) stm" where
  "pb_enc_fixed32 wr src = pb_encode_fixed32 wr (ucast (le_word (take 4 src)))"

record pb_bytes_array =
  ba_size :: u32
  ba_bytes :: "byte list"

definition offsetof_bytes :: nat where
  "offsetof_bytes = 4"

definition pb_enc_bytes :: "'s ocallback \<Rightarrow> pb_field \<Rightarrow> pb_bytes_array option \<Rightarrow> ('s pb_ostream, unit) stm" where
  "pb_enc_bytes wr field src =
     (case src of
        None \<Rightarrow> pb_encode_string wr [] 0
      | Some bytes \<Rightarrow>
          if PB_ATYPE (pf_type field) = PB_ATYPE_STATIC \<and>
             unat (ba_size bytes) > size_add (pf_data_size field) (2 ^ 64 - offsetof_bytes)
          then PB_RETURN_OERROR ''bytes size exceeded''
          else pb_encode_string wr (ba_bytes bytes) (unat (ba_size bytes)))"

text \<open>The C string at \<open>src\<close>; the position behind the list reads as NUL.\<close>

fun string_size :: "nat \<Rightarrow> byte list \<Rightarrow> nat" where
  "string_size max_size [] = 0"
| "string_size max_size (c # p) = (if 0 < max_size \<and> c \<noteq> 0 then Suc (string_size (max_size - 1) p) else 0)"

definition pb_enc_string :: "'s ocallback \<Rightarrow> pb_field \<Rightarrow> byte list option \<Rightarrow> ('s pb_ostream, unit) stm" where
  "pb_enc_string wr field src =
     (let max_size = (if PB_ATYPE (pf_type field) = PB_ATYPE_POINTER then SIZE_MAX else pf_data_size field)
      in case src of
           None \<Rightarrow> pb_encode_string wr [] 0
         | Some p \<Rightarrow> pb_encode_string wr p (string_size max_size p))"

definition pb_enc_submessage :: "'s ocallback \<Rightarrow> pb_field \<Rightarrow> ('s pb_ostream, unit) stm \<Rightarrow> ('s pb_ostream, unit) stm" where
  "pb_enc_submessage wr field enc =
     (if pf_ptr field = None then PB_RETURN_OERROR ''invalid field descriptor'' else pb_encode_submessage wr enc)"

definition pb_enc_fixed_length_bytes :: "'s ocallback \<Rightarrow> pb_field \<Rightarrow> byte list \<Rightarrow> ('s pb_ostream, unit) stm" where
  "pb_enc_fixed_length_bytes wr field src = pb_encode_string wr src (pf_data_size field)"

section \<open>What the encoders write\<close>

subsection \<open>The bytes of a varint\<close>

text \<open>The base-128 digits of a number, low digit first, every one but the last with the top bit set.\<close>

fun varint_ref :: "nat \<Rightarrow> byte list" where
  "varint_ref n = (if n < 128 then [of_nat n] else of_nat (n mod 128 + 128) # varint_ref (n div 128))"

declare varint_ref.simps [simp del]

lemma varint_ref_small: "n < 128 \<Longrightarrow> varint_ref n = [of_nat n]"
  by (simp add: varint_ref.simps)

lemma varint_ref_large: "128 \<le> n \<Longrightarrow> varint_ref n = of_nat (n mod 128 + 128) # varint_ref (n div 128)"
  by (subst varint_ref.simps) simp

lemma varint_ref_length_pos [simp]: "0 < length (varint_ref n)"
  by (subst varint_ref.simps) simp

lemma varint_ref_length_le: "n < 128 ^ k \<Longrightarrow> 0 < k \<Longrightarrow> length (varint_ref n) \<le> k"
proof (induction k arbitrary: n)
  case (Suc k)
  show ?case
  proof (cases "n < 128")
    case False
    then have "0 < k" using Suc.prems by (cases k) auto
    moreover have "n div 128 < 128 ^ k" using Suc.prems by (simp add: less_mult_imp_div_less mult.commute)
    ultimately have "length (varint_ref (n div 128)) \<le> k" by (rule Suc.IH [rotated])
    then show ?thesis using False by (simp add: varint_ref_large)
  qed (simp add: varint_ref_small)
qed simp

definition varint_bytes :: "u64 \<Rightarrow> byte list" where
  "varint_bytes v = varint_ref (unat v)"

lemma and_7F_take_bit: "w AND 0x7F = take_bit 7 w" for w :: "'a::len word"
  by (simp add: take_bit_eq_mask mask_eq_exp_minus_1)

lemma unat_and_7F: "unat (w AND 0x7F) = unat w mod 128" for w :: "'a::len word"
  unfolding and_7F_take_bit unsigned_take_bit_eq by (simp add: take_bit_eq_mod)

lemma ucast_of_nat_unat: "ucast w = of_nat (unat w)" for w :: "'a::len word"
  by simp

lemma or_80_of_nat: "k < 128 \<Longrightarrow> of_nat k OR (0x80 :: byte) = of_nat (k + 128)"
proof -
  assume "k < 128"
  then have "push_bit 7 1 OR of_nat k = push_bit 7 1 + (of_nat k :: byte)"
    by (intro or_push_bit_eq_add) (simp add: take_bit_of_nat take_bit_nat_eq_self)
  then show ?thesis by (simp add: or.commute add.commute push_bit_eq_mult)
qed

lemma ucast_and_7F: "(ucast (v AND 0x7F) :: byte) = of_nat (unat v mod 128)" for v :: u64
  by (metis unat_and_7F ucast_of_nat_unat)

lemma and_7F_of_nat: "k < 256 \<Longrightarrow> of_nat k AND (0x7F :: byte) = of_nat (k mod 128)"
  by (simp add: word_unat_eq_iff unat_and_7F unat_of_nat)

lemma varint_loop_nonempty: "v \<noteq> 0 \<Longrightarrow> varint_loop v \<noteq> []"
  by (subst varint_loop.simps) simp

lemma unset_top_Cons: "xs \<noteq> [] \<Longrightarrow> unset_top (x # xs) = x # unset_top xs"
  by (simp add: unset_top_def)

lemma unset_top_varint_loop: "v \<noteq> 0 \<Longrightarrow> unset_top (varint_loop v) = varint_bytes v"
proof (induction v rule: varint_loop.induct)
  case (1 v)
  have step: "varint_loop v = of_nat (unat v mod 128 + 128) # varint_loop (drop_bit 7 v)"
    using 1(2) by (subst varint_loop.simps) (simp add: ucast_and_7F or_80_of_nat)
  have dr: "unat (drop_bit 7 v) = unat v div 128" by (simp add: unat_drop)
  show ?case
  proof (cases "unat v < 128")
    case True
    then have "drop_bit 7 v = 0" by (simp add: drop_bit_eq_0_unat)
    moreover have "varint_loop 0 = []" by (simp add: varint_loop.simps)
    moreover have "of_nat (unat v + 128) AND (0x7F :: byte) = of_nat (unat v)"
      using True by (subst and_7F_of_nat) auto
    ultimately show ?thesis using True by (simp add: step varint_bytes_def varint_ref_small unset_top_def)
  next
    case False
    then have nz: "drop_bit 7 v \<noteq> 0" by (simp add: drop_bit_eq_0_unat)
    then have "unset_top (varint_loop (drop_bit 7 v)) = varint_ref (unat v div 128)"
      using 1 by (simp add: varint_bytes_def dr)
    then show ?thesis
      using False nz by (simp add: step varint_bytes_def varint_ref_large unset_top_Cons varint_loop_nonempty)
  qed
qed

lemma pb_encode_varint_write: "pb_encode_varint wr v = pb_write wr (varint_bytes v) (length (varint_bytes v))"
proof (cases "v \<le> 0x7F")
  case True
  then have "unat v < 128" by (simp add: word_le_nat_alt)
  then have "varint_bytes v = [ucast v]" by (simp add: varint_bytes_def varint_ref_small)
  then show ?thesis using True by (simp add: pb_encode_varint_def)
next
  case False
  then have "v \<noteq> 0" by auto
  then show ?thesis using False by (simp add: pb_encode_varint_def unset_top_varint_loop Let_def)
qed

lemma varint_bytes_length: "0 < length (varint_bytes v)" "length (varint_bytes v) \<le> 10"
proof -
  have "unat v < 2 ^ 64" using unsigned_less [of v] by simp
  then show "length (varint_bytes v) \<le> 10" unfolding varint_bytes_def by (intro varint_ref_length_le) auto
qed (use varint_ref_length_pos in \<open>simp only: varint_bytes_def\<close>)

subsection \<open>What an encoder writes\<close>

definition ostream_put :: "byte list \<Rightarrow> 's pb_ostream \<Rightarrow> 's pb_ostream" where
  "ostream_put bs stream =
     stream\<lparr>os_sink := (case os_sink stream of OBuffer xs \<Rightarrow> OBuffer (xs @ bs) | sink \<Rightarrow> sink),
            os_bytes_written := os_bytes_written stream + length bs\<rparr>"

definition is_obuffer :: "'s osink \<Rightarrow> bool" where
  "is_obuffer sink = (case sink of OBuffer _ \<Rightarrow> True | _ \<Rightarrow> False)"

definition ostream_fits :: "nat \<Rightarrow> 's pb_ostream \<Rightarrow> bool" where
  "ostream_fits n stream \<longleftrightarrow>
     os_errmsg stream = None \<and> os_bytes_written stream + n < 2 ^ 64 \<and>
     (is_sizing (os_sink stream) \<or> is_obuffer (os_sink stream) \<and> os_bytes_written stream + n \<le> os_max_size stream)"

definition ostream_full :: "nat \<Rightarrow> 's pb_ostream \<Rightarrow> bool" where
  "ostream_full n stream \<longleftrightarrow>
     os_errmsg stream = None \<and> os_bytes_written stream + n < 2 ^ 64 \<and> is_obuffer (os_sink stream) \<and>
     os_bytes_written stream \<le> os_max_size stream \<and> os_max_size stream < os_bytes_written stream + n"

text \<open>
  The contract of an encoder of the bytes \<open>bs\<close>: a stream that counts or that has room takes exactly
  them, a buffer that is too small is refused.
\<close>

locale wire_encoder =
  fixes enc :: "('s pb_ostream, unit) stm" and bs :: "byte list"
  assumes writes: "ostream_fits (length bs) stream \<Longrightarrow> enc stream = (Some (), ostream_put bs stream)"
    and refuses: "ostream_full (length bs) stream \<Longrightarrow> fst (enc stream) = None"
begin

lemma encoded_size: "length bs < 2 ^ 64 \<Longrightarrow> pb_get_encoded_size enc = Some (length bs)"
  using writes [of PB_OSTREAM_SIZING]
  by (simp add: pb_get_encoded_size_def ostream_fits_def PB_OSTREAM_SIZING_def ostream_put_def)

lemma to_buffer:
  assumes "n < 2 ^ 64" "length bs \<le> n"
  shows "enc (pb_ostream_from_buffer n) =
           (Some (), \<lparr>os_sink = OBuffer bs, os_max_size = n, os_bytes_written = length bs, os_errmsg = None\<rparr>)"
  using assms writes [of "pb_ostream_from_buffer n"]
  by (simp add: ostream_fits_def pb_ostream_from_buffer_def ostream_put_def is_obuffer_def)

lemma to_small_buffer:
  assumes "length bs < 2 ^ 64" "n < length bs"
  shows "fst (enc (pb_ostream_from_buffer n)) = None"
  using assms refuses [of "pb_ostream_from_buffer n"]
  by (simp add: ostream_full_def pb_ostream_from_buffer_def is_obuffer_def)

end

lemma sizing_written [simp]: "os_bytes_written PB_OSTREAM_SIZING = 0"
  by (simp add: PB_OSTREAM_SIZING_def)

lemma ostream_put_simps [simp]:
  "os_max_size (ostream_put bs stream) = os_max_size stream"
  "os_errmsg (ostream_put bs stream) = os_errmsg stream"
  "os_bytes_written (ostream_put bs stream) = os_bytes_written stream + length bs"
  "is_sizing (os_sink (ostream_put bs stream)) = is_sizing (os_sink stream)"
  "is_obuffer (os_sink (ostream_put bs stream)) = is_obuffer (os_sink stream)"
  by (auto simp: ostream_put_def is_obuffer_def split: osink.splits)

lemma ostream_put_put: "ostream_put cs (ostream_put bs stream) = ostream_put (bs @ cs) stream"
  by (simp add: ostream_put_def split: osink.splits)

lemma ostream_fits_append:
  "ostream_fits (m + n) stream \<Longrightarrow> ostream_fits m stream"
  "ostream_fits (m + length bs) stream \<Longrightarrow> ostream_fits m (ostream_put bs stream)"
  by (auto simp: ostream_fits_def)

lemma pb_write_put:
  assumes "ostream_fits n stream" "length bs = n"
  shows "pb_write wr bs n stream = (Some (), ostream_put bs stream)"
  using assms
  by (cases "os_sink stream") (auto simp: pb_write_def Let_def ostream_fits_def size_add_def stream_callback_def ostream_put_def is_obuffer_def)

lemma pb_write_full: "ostream_full n stream \<Longrightarrow> fst (pb_write wr bs n stream) = None"
  by (cases "os_sink stream") (auto simp: pb_write_def Let_def ostream_full_def size_add_def is_obuffer_def PB_RETURN_OERROR_def)

lemma wire_encoder_write: "wire_encoder (pb_write wr bs (length bs)) bs"
  by unfold_locales (simp_all add: pb_write_put pb_write_full)

lemma wire_encoder_seq:
  assumes "wire_encoder e1 b1" "wire_encoder e2 b2"
  shows "wire_encoder (st_bind e1 (\<lambda>_. e2)) (b1 @ b2)"
proof
  fix stream :: "'a pb_ostream"
  assume fits: "ostream_fits (length (b1 @ b2)) stream"
  then have "ostream_fits (length b1) stream" "ostream_fits (length b2) (ostream_put b1 stream)"
    by (auto simp: ostream_fits_def)
  then show "st_bind e1 (\<lambda>_. e2) stream = (Some (), ostream_put (b1 @ b2) stream)"
    using assms by (simp add: st_bind_def wire_encoder.writes ostream_put_put)
next
  fix stream :: "'a pb_ostream"
  assume full: "ostream_full (length (b1 @ b2)) stream"
  show "fst (st_bind e1 (\<lambda>_. e2) stream) = None"
  proof (cases "ostream_full (length b1) stream")
    case True
    then have "fst (e1 stream) = None" by (rule wire_encoder.refuses [OF assms(1)])
    then show ?thesis by (auto simp: st_bind_def split: prod.splits)
  next
    case False
    then have "ostream_fits (length b1) stream" "ostream_full (length b2) (ostream_put b1 stream)"
      using full by (auto simp: ostream_full_def ostream_fits_def)
    then show ?thesis using assms by (simp add: st_bind_def wire_encoder.writes wire_encoder.refuses)
  qed
qed

interpretation varint: wire_encoder "pb_encode_varint wr v" "varint_bytes v" for wr v
  unfolding pb_encode_varint_write by (rule wire_encoder_write)

lemma pb_write_pad: "length buf \<ge> n \<Longrightarrow> wire_encoder (pb_write wr buf n) (take n buf)"
proof -
  assume "length buf \<ge> n"
  moreover have "pb_write wr buf n = pb_write wr (take n buf) n"
    by (intro ext) (simp add: pb_write_def stream_callback_def Let_def split: osink.split)
  ultimately show ?thesis using wire_encoder_write [of wr "take n buf"] by simp
qed

definition string_bytes :: "byte list \<Rightarrow> byte list" where
  "string_bytes bs = varint_bytes (of_nat (length bs)) @ bs"

lemma wire_encoder_string:
  assumes "n \<le> length buf"
  shows "wire_encoder (pb_encode_string wr buf n) (string_bytes (take n buf))"
proof -
  have "wire_encoder (st_bind (pb_encode_varint wr (of_nat n)) (\<lambda>_. pb_write wr buf n)) (varint_bytes (of_nat n) @ take n buf)"
    by (rule wire_encoder_seq) (use assms in \<open>auto intro: pb_write_pad varint.wire_encoder_axioms\<close>)
  then show ?thesis using assms by (simp add: string_bytes_def pb_encode_string_def min_absorb2)
qed

context wire_encoder
begin

lemma sizing_pass: "length bs < 2 ^ 64 \<Longrightarrow> enc PB_OSTREAM_SIZING = (Some (), ostream_put bs PB_OSTREAM_SIZING)"
  by (rule writes) (simp add: ostream_fits_def PB_OSTREAM_SIZING_def)

lemma submessage_pass:
  assumes "ostream_fits (length bs) stream" "is_obuffer (os_sink stream)"
  shows "enc \<lparr>os_sink = os_sink stream, os_max_size = length bs, os_bytes_written = 0, os_errmsg = None\<rparr> =
           (Some (), \<lparr>os_sink = os_sink (ostream_put bs stream), os_max_size = length bs, os_bytes_written = length bs, os_errmsg = None\<rparr>)"
  using assms by (subst writes) (auto simp: ostream_fits_def ostream_put_def is_obuffer_def)

lemma submessage_writes:
  assumes fits: "ostream_fits (length (string_bytes bs)) stream"
  shows "pb_encode_submessage wr enc stream = (Some (), ostream_put (string_bytes bs) stream)"
proof -
  let ?p = "varint_bytes (of_nat (length bs))"
  let ?s = "ostream_put ?p stream"
  have small: "length bs < 2 ^ 64" and fit1: "ostream_fits (length ?p) stream" and fit2: "ostream_fits (length bs) ?s"
    using fits by (auto simp: ostream_fits_def string_bytes_def)
  have v: "pb_encode_varint wr (of_nat (length bs)) stream = (Some (), ?s)" using fit1 by (rule varint.writes)
  show ?thesis
  proof (cases "is_sizing (os_sink stream)")
    case True
    then show ?thesis
      using fit2 small v
      by (simp add: pb_encode_submessage_def sizing_pass Let_def pb_write_def size_add_def ostream_fits_def)
         (auto simp: ostream_put_def string_bytes_def split: osink.splits)
  next
    case False
    then have buf: "is_obuffer (os_sink ?s)" using fits by (auto simp: ostream_fits_def)
    have le: "\<not> os_max_size ?s < os_bytes_written ?s + length bs" "os_bytes_written ?s + length bs < 2 ^ 64" "os_errmsg ?s = None"
      using fit2 False by (auto simp: ostream_fits_def)
    have "pb_encode_submessage wr enc stream = (Some (), ostream_put bs ?s)"
      using False v le small submessage_pass [OF fit2 buf]
      by (simp add: pb_encode_submessage_def sizing_pass Let_def size_add_def)
    then show ?thesis by (simp add: ostream_put_put string_bytes_def)
  qed
qed

lemma submessage_refuses:
  assumes full: "ostream_full (length (string_bytes bs)) stream"
  shows "fst (pb_encode_submessage wr enc stream) = None"
proof -
  let ?p = "varint_bytes (of_nat (length bs))"
  let ?s = "ostream_put ?p stream"
  have small: "length bs < 2 ^ 64" using full by (auto simp: ostream_full_def string_bytes_def)
  show ?thesis
  proof (cases "ostream_full (length ?p) stream")
    case True
    then have "fst (pb_encode_varint wr (of_nat (length bs)) stream) = None" by (rule varint.refuses)
    then show ?thesis using small
      by (auto simp: pb_encode_submessage_def sizing_pass Let_def split: prod.splits)
  next
    case False
    then have fit: "ostream_fits (length ?p) stream" using full by (auto simp: ostream_full_def ostream_fits_def string_bytes_def)
    have "\<not> is_sizing (os_sink ?s)" "os_max_size ?s < os_bytes_written ?s + length bs" "os_bytes_written ?s + length bs < 2 ^ 64"
      using full by (auto simp: ostream_full_def string_bytes_def is_obuffer_def split: osink.splits)
    then show ?thesis using small varint.writes [OF fit]
      by (simp add: pb_encode_submessage_def sizing_pass Let_def size_add_def PB_RETURN_OERROR_def)
  qed
qed

lemma submessage_encoder: "wire_encoder (pb_encode_submessage wr enc) (string_bytes bs)"
  by unfold_locales (fact submessage_writes submessage_refuses)+

end

subsection \<open>The bytes of the other values\<close>

lemma ucast_and_FF: "(ucast (w AND 0xFF) :: byte) = ucast w" for w :: "'a::len word"
proof -
  have "w AND 0xFF = take_bit 8 w" by (simp add: take_bit_eq_mask mask_eq_exp_minus_1)
  then have "(ucast (w AND 0xFF) :: byte) = ucast (take_bit 8 w)" by (rule arg_cong)
  then show ?thesis by (auto intro!: bit_word_eqI simp: bit_simps)
qed

lemma le_bytes_length [simp]: "length (le_bytes n v) = n"
  by (simp add: le_bytes_def)

lemma upt_8: "[0..<8] = [0, 1, 2, 3, 4, 5, 6, 7]" "[0..<4] = [0, 1, 2, 3]"
  by (simp_all add: upt_rec)

lemma pb_encode_fixed32_write: "pb_encode_fixed32 wr v = pb_write wr (le_bytes 4 (ucast v)) 4"
proof -
  have eq: "(ucast (drop_bit k v) :: byte) = ucast (drop_bit k (ucast v :: u64))" for k
    by (rule bit_word_eqI) (auto simp: bit_simps dest: bit_imp_le_length)
  from eq [of 0] have "(ucast v :: byte) = ucast (ucast v :: u64)" by simp
  then show ?thesis by (simp add: pb_encode_fixed32_def ucast_and_FF le_bytes_def upt_8 eq)
qed

lemma pb_encode_fixed64_write: "pb_encode_fixed64 wr v = pb_write wr (le_bytes 8 v) 8"
  by (simp add: pb_encode_fixed64_def ucast_and_FF le_bytes_def upt_8)

interpretation fixed32: wire_encoder "pb_encode_fixed32 wr v" "le_bytes 4 (ucast v)" for wr v
  using wire_encoder_write [of wr "le_bytes 4 (ucast v)"] by (simp add: pb_encode_fixed32_write)

interpretation fixed64: wire_encoder "pb_encode_fixed64 wr v" "le_bytes 8 v" for wr v
  using wire_encoder_write [of wr "le_bytes 8 v"] by (simp add: pb_encode_fixed64_write)

interpretation svarint: wire_encoder "pb_encode_svarint wr v" "varint_bytes (zigzag v)" for wr v
  unfolding pb_encode_svarint_def by (rule varint.wire_encoder_axioms)

definition tag_word :: "pb_wire_type \<Rightarrow> u32 \<Rightarrow> u64" where
  "tag_word wiretype field_number = push_bit 3 (ucast field_number) OR ucast wiretype"

interpretation tag: wire_encoder "pb_encode_tag wr t f" "varint_bytes (tag_word t f)" for wr t f
  unfolding pb_encode_tag_def tag_word_def by (rule varint.wire_encoder_axioms)

end
