(* ===== verification/PbDecode.thy ===== *)
theory PbDecode
  imports PbEncode
begin

text \<open>
  The decoder of nanopb below the level of messages (nanopb/pb_decode.c): input streams over a buffer
  or a client's callback, varints, tags, skipping of unknown fields, substreams of a given length, and
  one decoder per type of field. Loops end because each round takes a byte of the stream's
  \<open>bytes_left\<close>.
\<close>

section \<open>Decoding protocol buffer values\<close>

subsection \<open>Input streams\<close>

text \<open>
  The state of a stream is the bytes at the buffer's read position, or what the client's callback
  keeps in the \<open>state\<close> member. A callback delivers bytes, fails, or fails after it has set
  \<open>bytes_left\<close> to zero to report the end of the input.
\<close>

datatype 's isource = is_buffer: IBuffer "byte list" | IClient 's

datatype iresult = IData "byte list" | IError | IEof

type_synonym 's icallback = "'s \<Rightarrow> nat \<Rightarrow> iresult \<times> 's"

record 's pb_istream =
  is_source :: "'s isource"
  is_bytes_left :: nat
  is_errmsg :: "string option"

definition PB_SET_IERROR :: "string \<Rightarrow> 's pb_istream \<Rightarrow> 's pb_istream" where
  "PB_SET_IERROR msg stream = stream\<lparr>is_errmsg := (case is_errmsg stream of None \<Rightarrow> Some msg | Some m \<Rightarrow> Some m)\<rparr>"

definition PB_RETURN_IERROR :: "string \<Rightarrow> ('s pb_istream, 'a) stm" where
  "PB_RETURN_IERROR msg stream = (None, PB_SET_IERROR msg stream)"

text \<open>
  \<open>stream->callback(stream, buf, count)\<close>; the first case is \<open>buf_read\<close>. Bytes that a client's callback
  leaves unwritten read as zero.
\<close>

definition istream_callback :: "'s icallback \<Rightarrow> nat \<Rightarrow> ('s pb_istream, byte list) stm" where
  "istream_callback rd count stream =
     (case is_source stream of
        IBuffer source \<Rightarrow> (Some (take count source), stream\<lparr>is_source := IBuffer (drop count source)\<rparr>)
      | IClient s \<Rightarrow>
          (case rd s count of
             (IData bs, s') \<Rightarrow> (Some (take count (bs @ replicate count 0)), stream\<lparr>is_source := IClient s'\<rparr>)
           | (IError, s') \<Rightarrow> (None, stream\<lparr>is_source := IClient s'\<rparr>)
           | (IEof, s') \<Rightarrow> (None, stream\<lparr>is_source := IClient s', is_bytes_left := 0\<rparr>)))"

definition istream_take :: "'s icallback \<Rightarrow> nat \<Rightarrow> ('s pb_istream, byte list) stm" where
  "istream_take rd count stream =
     (case istream_callback rd count stream of
        (None, stream1) \<Rightarrow> PB_RETURN_IERROR ''io error'' stream1
      | (Some bs, stream1) \<Rightarrow> (Some bs, stream1\<lparr>is_bytes_left := is_bytes_left stream1 - count\<rparr>))"

text \<open>\<open>pb_read\<close> into a buffer, and with \<open>buf == NULL\<close>.\<close>

definition pb_read :: "'s icallback \<Rightarrow> nat \<Rightarrow> ('s pb_istream, byte list) stm" where
  "pb_read rd count stream =
     (if count = 0 then (Some [], stream)
      else if is_bytes_left stream < count then PB_RETURN_IERROR ''end-of-stream'' stream
      else istream_take rd count stream)"

fun pb_read_tmp :: "'s icallback \<Rightarrow> nat \<Rightarrow> ('s pb_istream, unit) stm" where
  "pb_read_tmp rd count stream =
     (if count > 16 then st_bind (pb_read rd 16) (\<lambda>_. pb_read_tmp rd (count - 16)) stream
      else st_bind (pb_read rd count) (\<lambda>_. st_return ()) stream)"

declare pb_read_tmp.simps [simp del]

definition pb_read_null :: "'s icallback \<Rightarrow> nat \<Rightarrow> ('s pb_istream, unit) stm" where
  "pb_read_null rd count stream =
     (if count = 0 then (Some (), stream)
      else if \<not> is_buffer (is_source stream) then pb_read_tmp rd count stream
      else st_bind (pb_read rd count) (\<lambda>_. st_return ()) stream)"

definition pb_readbyte :: "'s icallback \<Rightarrow> ('s pb_istream, byte) stm" where
  "pb_readbyte rd stream =
     (if is_bytes_left stream = 0 then PB_RETURN_IERROR ''end-of-stream'' stream
      else st_bind (istream_take rd 1) (\<lambda>bs. st_return (hd bs)) stream)"

definition pb_istream_from_buffer :: "byte list \<Rightarrow> nat \<Rightarrow> 's pb_istream" where
  "pb_istream_from_buffer buf bufsize = \<lparr>is_source = IBuffer buf, is_bytes_left = bufsize, is_errmsg = None\<rparr>"

lemma istream_take_left:
  "istream_take rd count stream = (Some bs, stream') \<Longrightarrow> is_bytes_left stream' = is_bytes_left stream - count"
  by (auto simp: istream_take_def istream_callback_def PB_RETURN_IERROR_def split: isource.splits prod.splits iresult.splits)

lemma pb_readbyte_left:
  "pb_readbyte rd stream = (Some b, stream') \<Longrightarrow> is_bytes_left stream' < is_bytes_left stream"
  by (auto simp: pb_readbyte_def PB_RETURN_IERROR_def st_bind_def st_return_def dest!: istream_take_left split: if_splits prod.splits option.splits)

lemma pb_read_left:
  "pb_read rd count stream = (Some bs, stream') \<Longrightarrow> is_bytes_left stream' = is_bytes_left stream - count \<and> count \<le> is_bytes_left stream"
  by (auto simp: pb_read_def PB_RETURN_IERROR_def dest: istream_take_left split: if_splits)

subsection \<open>Varints, tags and fields to skip\<close>

text \<open>The loop of \<open>pb_decode_varint32_eof\<close>; \<open>bitpos\<close> is a \<open>uint_fast8_t\<close>, eight bits wide.\<close>

function varint32_loop :: "'s icallback \<Rightarrow> byte \<Rightarrow> u32 \<Rightarrow> ('s pb_istream, u32 \<times> byte \<times> byte) stm" where
  "varint32_loop rd bitpos result stream =
     (case pb_readbyte rd stream of
        (None, stream1) \<Rightarrow> (None, stream1)
      | (Some b, stream1) \<Rightarrow>
          if bitpos \<ge> 32 then
            (let sign_extension = (if bitpos < 63 then 0xFF else 0x01)
             in if b AND 0x7F \<noteq> 0 \<and> (drop_bit 31 result = 0 \<or> b \<noteq> sign_extension)
                then PB_RETURN_IERROR ''varint overflow'' stream1
                else if b AND 0x80 \<noteq> 0 then varint32_loop rd (bitpos + 7) result stream1
                else (Some (result, bitpos + 7, b), stream1))
          else
            (let result1 = result OR push_bit (unat bitpos) (ucast (b AND 0x7F))
             in if b AND 0x80 \<noteq> 0 then varint32_loop rd (bitpos + 7) result1 stream1
                else (Some (result1, bitpos + 7, b), stream1)))"
  by pat_completeness auto
termination
  by (relation "measure (\<lambda>(rd, bitpos, result, stream). is_bytes_left stream)") (auto dest!: pb_readbyte_left [OF sym])

declare varint32_loop.simps [simp del]

definition pb_decode_varint32_eof :: "'s icallback \<Rightarrow> 's pb_istream \<Rightarrow> u32 option \<times> bool \<times> 's pb_istream" where
  "pb_decode_varint32_eof rd stream =
     (case pb_readbyte rd stream of
        (None, stream1) \<Rightarrow> (None, is_bytes_left stream1 = 0, stream1)
      | (Some b, stream1) \<Rightarrow>
          if b AND 0x80 = 0 then (Some (ucast b), False, stream1)
          else (case varint32_loop rd 7 (ucast (b AND 0x7F)) stream1 of
                  (None, stream2) \<Rightarrow> (None, False, stream2)
                | (Some (result, bitpos, b'), stream2) \<Rightarrow>
                    if bitpos = 35 \<and> b' AND 0x70 \<noteq> 0 then (None, False, PB_SET_IERROR ''varint overflow'' stream2)
                    else (Some result, False, stream2)))"

definition pb_decode_varint32 :: "'s icallback \<Rightarrow> ('s pb_istream, u32) stm" where
  "pb_decode_varint32 rd stream = (case pb_decode_varint32_eof rd stream of (r, _, stream1) \<Rightarrow> (r, stream1))"

function decode_varint_loop :: "'s icallback \<Rightarrow> byte \<Rightarrow> u64 \<Rightarrow> ('s pb_istream, u64) stm" where
  "decode_varint_loop rd bitpos result stream =
     (if bitpos \<ge> 64 then PB_RETURN_IERROR ''varint overflow'' stream
      else case pb_readbyte rd stream of
             (None, stream1) \<Rightarrow> (None, stream1)
           | (Some b, stream1) \<Rightarrow>
               let result1 = result OR push_bit (unat bitpos) (ucast (b AND 0x7F))
               in if b AND 0x80 \<noteq> 0 then decode_varint_loop rd (bitpos + 7) result1 stream1
                  else (Some result1, stream1))"
  by pat_completeness auto
termination
  by (relation "measure (\<lambda>(rd, bitpos, result, stream). is_bytes_left stream)") (auto dest!: pb_readbyte_left [OF sym])

declare decode_varint_loop.simps [simp del]

definition pb_decode_varint :: "'s icallback \<Rightarrow> ('s pb_istream, u64) stm" where
  "pb_decode_varint rd = decode_varint_loop rd 0 0"

function pb_skip_varint :: "'s icallback \<Rightarrow> ('s pb_istream, unit) stm" where
  "pb_skip_varint rd stream =
     (case pb_read rd 1 stream of
        (None, stream1) \<Rightarrow> (None, stream1)
      | (Some bs, stream1) \<Rightarrow> if hd bs AND 0x80 \<noteq> 0 then pb_skip_varint rd stream1 else (Some (), stream1))"
  by pat_completeness auto
termination
  by (relation "measure (\<lambda>(rd, stream). is_bytes_left stream)") (auto dest!: pb_read_left [OF sym])

declare pb_skip_varint.simps [simp del]

definition pb_skip_string :: "'s icallback \<Rightarrow> ('s pb_istream, unit) stm" where
  "pb_skip_string rd = st_bind (pb_decode_varint32 rd) (\<lambda>len. pb_read_null rd (unat len))"

record decoded_tag =
  dt_wire_type :: pb_wire_type
  dt_tag :: u32
  dt_eof :: bool

definition pb_decode_tag :: "'s icallback \<Rightarrow> 's pb_istream \<Rightarrow> bool \<times> decoded_tag \<times> 's pb_istream" where
  "pb_decode_tag rd stream =
     (case pb_decode_varint32_eof rd stream of
        (None, eof, stream1) \<Rightarrow> (False, \<lparr>dt_wire_type = 0, dt_tag = 0, dt_eof = eof\<rparr>, stream1)
      | (Some temp, _, stream1) \<Rightarrow>
          if temp = 0 then (False, \<lparr>dt_wire_type = 0, dt_tag = 0, dt_eof = True\<rparr>, stream1)
          else (True, \<lparr>dt_wire_type = temp AND 7, dt_tag = drop_bit 3 temp, dt_eof = False\<rparr>, stream1))"

definition pb_skip_field :: "'s icallback \<Rightarrow> pb_wire_type \<Rightarrow> ('s pb_istream, unit) stm" where
  "pb_skip_field rd wire_type =
     (if wire_type = PB_WT_VARINT then pb_skip_varint rd
      else if wire_type = PB_WT_64BIT then pb_read_null rd 8
      else if wire_type = PB_WT_STRING then pb_skip_string rd
      else if wire_type = PB_WT_32BIT then pb_read_null rd 4
      else PB_RETURN_IERROR ''invalid wire_type'')"

fun raw_varint :: "'s icallback \<Rightarrow> nat \<Rightarrow> ('s pb_istream, byte list) stm" where
  "raw_varint rd 0 stream = (None, stream)"
| "raw_varint rd (Suc room) stream =
     (case pb_read rd 1 stream of
        (None, stream1) \<Rightarrow> (None, stream1)
      | (Some bs, stream1) \<Rightarrow>
          if hd bs AND 0x80 \<noteq> 0 then st_bind (raw_varint rd room) (\<lambda>rest. st_return (hd bs # rest)) stream1
          else (Some [hd bs], stream1))"

text \<open>The bytes stored in \<open>buf\<close>, \<open>*size\<close> of them; \<open>buf\<close> has room for \<open>max_size\<close> bytes.\<close>

definition read_raw_value :: "'s icallback \<Rightarrow> pb_wire_type \<Rightarrow> nat \<Rightarrow> ('s pb_istream, byte list) stm" where
  "read_raw_value rd wire_type max_size =
     (if wire_type = PB_WT_VARINT then raw_varint rd max_size
      else if wire_type = PB_WT_64BIT then pb_read rd 8
      else if wire_type = PB_WT_32BIT then pb_read rd 4
      else PB_RETURN_IERROR ''invalid wire_type'')"

definition pb_make_string_substream :: "'s icallback \<Rightarrow> ('s pb_istream, 's pb_istream) stm" where
  "pb_make_string_substream rd = st_bind (pb_decode_varint32 rd) (\<lambda>sz stream1.
     if is_bytes_left stream1 < unat sz then PB_RETURN_IERROR ''parent stream too short'' stream1
     else (Some (stream1\<lparr>is_bytes_left := unat sz\<rparr>), stream1\<lparr>is_bytes_left := is_bytes_left stream1 - unat sz\<rparr>))"

definition pb_close_string_substream :: "'s icallback \<Rightarrow> 's pb_istream \<Rightarrow> ('s pb_istream, unit) stm" where
  "pb_close_string_substream rd substream stream =
     (case (if is_bytes_left substream \<noteq> 0 then pb_read_null rd (is_bytes_left substream) substream else (Some (), substream)) of
        (None, _) \<Rightarrow> (None, stream)
      | (Some _, substream1) \<Rightarrow> (Some (), stream\<lparr>is_source := is_source substream1, is_errmsg := is_errmsg substream1\<rparr>))"

subsection \<open>Primitive values\<close>

definition pb_decode_svarint :: "'s icallback \<Rightarrow> ('s pb_istream, u64) stm" where
  "pb_decode_svarint rd = st_bind (pb_decode_varint rd) (\<lambda>v.
     st_return (if v AND 1 \<noteq> 0 then NOT (drop_bit 1 v) else drop_bit 1 v))"

definition pb_decode_fixed32 :: "'s icallback \<Rightarrow> ('s pb_istream, u32) stm" where
  "pb_decode_fixed32 rd = st_bind (pb_read rd 4) (\<lambda>bytes.
     st_return (ucast (bytes ! 0) OR push_bit 8 (ucast (bytes ! 1)) OR push_bit 16 (ucast (bytes ! 2)) OR push_bit 24 (ucast (bytes ! 3))))"

definition pb_decode_fixed64 :: "'s icallback \<Rightarrow> ('s pb_istream, u64) stm" where
  "pb_decode_fixed64 rd = st_bind (pb_read rd 8) (\<lambda>bytes.
     st_return (ucast (bytes ! 0) OR push_bit 8 (ucast (bytes ! 1)) OR push_bit 16 (ucast (bytes ! 2)) OR push_bit 24 (ucast (bytes ! 3)) OR
                push_bit 32 (ucast (bytes ! 4)) OR push_bit 40 (ucast (bytes ! 5)) OR push_bit 48 (ucast (bytes ! 6)) OR push_bit 56 (ucast (bytes ! 7))))"

subsection \<open>Field decoders\<close>

text \<open>
  A field decoder returns its verdict, the memory of the field, and the stream. \<open>store_int n v dest\<close> is
  the assignment of the low \<open>n\<close> bytes of \<open>v\<close> to the memory at \<open>dest\<close>.
\<close>

definition mem_write :: "byte list \<Rightarrow> byte list \<Rightarrow> byte list" where
  "mem_write bs dest = bs @ drop (length bs) dest"

definition store_int :: "nat \<Rightarrow> u64 \<Rightarrow> byte list \<Rightarrow> byte list" where
  "store_int n v dest = mem_write (le_bytes n v) dest"

definition pb_dec_bool :: "'s icallback \<Rightarrow> byte list \<Rightarrow> 's pb_istream \<Rightarrow> bool \<times> byte list \<times> 's pb_istream" where
  "pb_dec_bool rd dest stream =
     (case pb_decode_varint32 rd stream of
        (None, stream1) \<Rightarrow> (False, dest, stream1)
      | (Some v, stream1) \<Rightarrow> (True, mem_write [if v \<noteq> 0 then 1 else 0] dest, stream1))"

definition pb_decode_bool :: "'s icallback \<Rightarrow> byte list \<Rightarrow> 's pb_istream \<Rightarrow> bool \<times> byte list \<times> 's pb_istream" where
  "pb_decode_bool rd dest = pb_dec_bool rd dest"

definition dec_clamped :: "(nat \<Rightarrow> u64 \<Rightarrow> u64) \<Rightarrow> pb_field \<Rightarrow> u64 \<Rightarrow> byte list \<Rightarrow> 's pb_istream \<Rightarrow> bool \<times> byte list \<times> 's pb_istream" where
  "dec_clamped cast field v dest stream =
     (if pf_data_size field \<in> {1, 2, 4, 8} then
        (let dest1 = store_int (pf_data_size field) v dest
         in if cast (8 * pf_data_size field) v \<noteq> v then (False, dest1, PB_SET_IERROR ''integer too large'' stream)
            else (True, dest1, stream))
      else (False, dest, PB_SET_IERROR ''invalid data_size'' stream))"

definition cast_signed :: "nat \<Rightarrow> u64 \<Rightarrow> u64" where
  "cast_signed w v = signed_take_bit (w - 1) v"

definition cast_unsigned :: "nat \<Rightarrow> u64 \<Rightarrow> u64" where
  "cast_unsigned w v = take_bit w v"

definition pb_dec_varint :: "'s icallback \<Rightarrow> pb_field \<Rightarrow> byte list \<Rightarrow> 's pb_istream \<Rightarrow> bool \<times> byte list \<times> 's pb_istream" where
  "pb_dec_varint rd field dest stream =
     (case pb_decode_varint rd stream of
        (None, stream1) \<Rightarrow> (False, dest, stream1)
      | (Some v, stream1) \<Rightarrow>
          let svalue = (if pf_data_size field = 8 then v else cast_signed 32 v)
          in dec_clamped cast_signed field svalue dest stream1)"

definition pb_dec_uvarint :: "'s icallback \<Rightarrow> pb_field \<Rightarrow> byte list \<Rightarrow> 's pb_istream \<Rightarrow> bool \<times> byte list \<times> 's pb_istream" where
  "pb_dec_uvarint rd field dest stream =
     (case pb_decode_varint rd stream of
        (None, stream1) \<Rightarrow> (False, dest, stream1)
      | (Some v, stream1) \<Rightarrow> dec_clamped cast_unsigned field v dest stream1)"

definition pb_dec_svarint :: "'s icallback \<Rightarrow> pb_field \<Rightarrow> byte list \<Rightarrow> 's pb_istream \<Rightarrow> bool \<times> byte list \<times> 's pb_istream" where
  "pb_dec_svarint rd field dest stream =
     (case pb_decode_svarint rd stream of
        (None, stream1) \<Rightarrow> (False, dest, stream1)
      | (Some v, stream1) \<Rightarrow> dec_clamped cast_signed field v dest stream1)"

definition pb_dec_fixed32 :: "'s icallback \<Rightarrow> byte list \<Rightarrow> 's pb_istream \<Rightarrow> bool \<times> byte list \<times> 's pb_istream" where
  "pb_dec_fixed32 rd dest stream =
     (case pb_decode_fixed32 rd stream of
        (None, stream1) \<Rightarrow> (False, dest, stream1)
      | (Some v, stream1) \<Rightarrow> (True, store_int 4 (ucast v) dest, stream1))"

definition pb_dec_fixed64 :: "'s icallback \<Rightarrow> byte list \<Rightarrow> 's pb_istream \<Rightarrow> bool \<times> byte list \<times> 's pb_istream" where
  "pb_dec_fixed64 rd dest stream =
     (case pb_decode_fixed64 rd stream of
        (None, stream1) \<Rightarrow> (False, dest, stream1)
      | (Some v, stream1) \<Rightarrow> (True, store_int 8 v dest, stream1))"

text \<open>\<open>realloc ptr n\<close> is a block of \<open>n\<close> bytes with what was at \<open>ptr\<close>, or None.\<close>

definition allocate_field :: "('b option \<Rightarrow> nat \<Rightarrow> 'b option) \<Rightarrow> nat \<Rightarrow> nat \<Rightarrow> 'b option \<Rightarrow> ('s pb_istream, 'b) stm" where
  "allocate_field realloc data_size array_size ptr =
     (if data_size = 0 \<or> array_size = 0 then PB_RETURN_IERROR ''invalid size''
      else if (data_size \<ge> 2 ^ 32 \<or> array_size \<ge> 2 ^ 32) \<and> SIZE_MAX div array_size < data_size
      then PB_RETURN_IERROR ''size too large''
      else case realloc ptr (size_mul array_size data_size) of
             None \<Rightarrow> PB_RETURN_IERROR ''realloc failed''
           | Some p \<Rightarrow> st_return p)"

definition PB_BYTES_ARRAY_T_ALLOCSIZE :: "nat \<Rightarrow> nat" where
  "PB_BYTES_ARRAY_T_ALLOCSIZE n = size_add n offsetof_bytes"

definition read_bytes_array :: "'s icallback \<Rightarrow> u32 \<Rightarrow> pb_bytes_array \<Rightarrow> 's pb_istream \<Rightarrow> bool \<times> pb_bytes_array \<times> 's pb_istream" where
  "read_bytes_array rd sz bdest stream =
     (case pb_read rd (unat sz) stream of
        (None, stream1) \<Rightarrow> (False, bdest\<lparr>ba_size := sz\<rparr>, stream1)
      | (Some bs, stream1) \<Rightarrow> (True, bdest\<lparr>ba_size := sz, ba_bytes := mem_write bs (ba_bytes bdest)\<rparr>, stream1))"

definition pb_dec_bytes :: "'s icallback \<Rightarrow> (pb_bytes_array option \<Rightarrow> nat \<Rightarrow> pb_bytes_array option) \<Rightarrow> pb_field \<Rightarrow>
    pb_bytes_array option \<Rightarrow> 's pb_istream \<Rightarrow> bool \<times> pb_bytes_array option \<times> 's pb_istream" where
  "pb_dec_bytes rd realloc field dest stream =
     (case pb_decode_varint32 rd stream of
        (None, stream1) \<Rightarrow> (False, dest, stream1)
      | (Some sz, stream1) \<Rightarrow>
          let alloc_size = PB_BYTES_ARRAY_T_ALLOCSIZE (unat sz)
          in if unat sz > alloc_size then (False, dest, PB_SET_IERROR ''size too large'' stream1)
             else if PB_ATYPE (pf_type field) = PB_ATYPE_POINTER then
               (if is_bytes_left stream1 < unat sz then (False, dest, PB_SET_IERROR ''end-of-stream'' stream1)
                else case allocate_field realloc alloc_size 1 dest stream1 of
                       (None, stream2) \<Rightarrow> (False, dest, stream2)
                     | (Some bdest, stream2) \<Rightarrow>
                         (case read_bytes_array rd sz bdest stream2 of (ok, b, stream3) \<Rightarrow> (ok, Some b, stream3)))
             else if alloc_size > pf_data_size field then (False, dest, PB_SET_IERROR ''bytes overflow'' stream1)
             else (case dest of
                     None \<Rightarrow> (False, dest, stream1)
                   | Some bdest \<Rightarrow> (case read_bytes_array rd sz bdest stream1 of (ok, b, stream3) \<Rightarrow> (ok, Some b, stream3))))"

definition read_string :: "'s icallback \<Rightarrow> u32 \<Rightarrow> byte list \<Rightarrow> 's pb_istream \<Rightarrow> bool \<times> byte list \<times> 's pb_istream" where
  "read_string rd sz dest stream =
     (case pb_read rd (unat sz) stream of
        (None, stream1) \<Rightarrow> (False, dest[unat sz := 0], stream1)
      | (Some bs, stream1) \<Rightarrow> (True, (mem_write bs dest)[unat sz := 0], stream1))"

definition pb_dec_string :: "'s icallback \<Rightarrow> (byte list option \<Rightarrow> nat \<Rightarrow> byte list option) \<Rightarrow> pb_field \<Rightarrow>
    byte list option \<Rightarrow> 's pb_istream \<Rightarrow> bool \<times> byte list option \<times> 's pb_istream" where
  "pb_dec_string rd realloc field dest stream =
     (case pb_decode_varint32 rd stream of
        (None, stream1) \<Rightarrow> (False, dest, stream1)
      | (Some sz, stream1) \<Rightarrow>
          let alloc_size = unat (sz + 1)
          in if alloc_size < unat sz then (False, dest, PB_SET_IERROR ''size too large'' stream1)
             else if PB_ATYPE (pf_type field) = PB_ATYPE_POINTER then
               (if is_bytes_left stream1 < unat sz then (False, dest, PB_SET_IERROR ''end-of-stream'' stream1)
                else case allocate_field realloc alloc_size 1 dest stream1 of
                       (None, stream2) \<Rightarrow> (False, dest, stream2)
                     | (Some p, stream2) \<Rightarrow> (case read_string rd sz p stream2 of (ok, p', stream3) \<Rightarrow> (ok, Some p', stream3)))
             else if alloc_size > pf_data_size field then (False, dest, PB_SET_IERROR ''string overflow'' stream1)
             else (case dest of
                     None \<Rightarrow> (False, dest, stream1)
                   | Some p \<Rightarrow> (case read_string rd sz p stream1 of (ok, p', stream3) \<Rightarrow> (ok, Some p', stream3))))"

text \<open>\<open>dec\<close> and \<open>dec_noinit\<close> stand for \<open>pb_decode\<close> and \<open>pb_decode_noinit\<close> with the fields of the message.\<close>

definition PB_HTYPE :: "byte \<Rightarrow> byte" where
  "PB_HTYPE x = x AND 0x30"

definition PB_HTYPE_REPEATED :: byte where
  "PB_HTYPE_REPEATED = 0x20"

definition pb_dec_submessage :: "'s icallback \<Rightarrow> pb_field \<Rightarrow> ('m \<Rightarrow> 's pb_istream \<Rightarrow> bool \<times> 'm \<times> 's pb_istream) \<Rightarrow>
    ('m \<Rightarrow> 's pb_istream \<Rightarrow> bool \<times> 'm \<times> 's pb_istream) \<Rightarrow> 'm \<Rightarrow> 's pb_istream \<Rightarrow> bool \<times> 'm \<times> 's pb_istream" where
  "pb_dec_submessage rd field dec dec_noinit dest stream =
     (case pb_make_string_substream rd stream of
        (None, stream1) \<Rightarrow> (False, dest, stream1)
      | (Some substream, stream1) \<Rightarrow>
          if pf_ptr field = None then (False, dest, PB_SET_IERROR ''invalid field descriptor'' stream1)
          else (case (if PB_HTYPE (pf_type field) = PB_HTYPE_REPEATED then dec dest substream else dec_noinit dest substream) of
                  (status, dest1, substream1) \<Rightarrow>
                    (case pb_close_string_substream rd substream1 stream1 of
                       (None, stream2) \<Rightarrow> (False, dest1, stream2)
                     | (Some _, stream2) \<Rightarrow> (status, dest1, stream2))))"

definition pb_dec_fixed_length_bytes :: "'s icallback \<Rightarrow> pb_field \<Rightarrow> byte list \<Rightarrow> 's pb_istream \<Rightarrow> bool \<times> byte list \<times> 's pb_istream" where
  "pb_dec_fixed_length_bytes rd field dest stream =
     (case pb_decode_varint32 rd stream of
        (None, stream1) \<Rightarrow> (False, dest, stream1)
      | (Some sz, stream1) \<Rightarrow>
          if sz = 0 then (True, mem_write (replicate (pf_data_size field) 0) dest, stream1)
          else if unat sz \<noteq> pf_data_size field
          then (False, dest, PB_SET_IERROR ''incorrect fixed length bytes size'' stream1)
          else (case pb_read rd (pf_data_size field) stream1 of
                  (None, stream2) \<Rightarrow> (False, dest, stream2)
                | (Some bs, stream2) \<Rightarrow> (True, mem_write bs dest, stream2)))"

end
