(* ===== verification/PbWire.thy ===== *)
theory PbWire
  imports PbDecode
begin

text \<open>
  What nanopb's decoder makes of what its encoder writes: varints of 64 and of 32 bits, the other
  values, whole fields, fields that are skipped, and messages inside messages. \<open>istream_at\<close> names a
  stream over a buffer by the bytes ahead of it; each lemma says how a decoder moves such a stream.
\<close>

section \<open>The wire format\<close>

subsection \<open>Streams over a buffer\<close>

definition istream_at :: "byte list \<Rightarrow> nat \<Rightarrow> string option \<Rightarrow> 's pb_istream" where
  "istream_at source n msg = \<lparr>is_source = IBuffer source, is_bytes_left = n, is_errmsg = msg\<rparr>"

lemma istream_at_simps [simp]:
  "is_source (istream_at source n msg) = IBuffer source"
  "is_bytes_left (istream_at source n msg) = n"
  "is_errmsg (istream_at source n msg) = msg"
  "istream_at source n msg\<lparr>is_bytes_left := m\<rparr> = istream_at source m msg"
  "istream_at source n msg\<lparr>is_source := IBuffer s\<rparr> = istream_at s n msg"
  "istream_at source n msg\<lparr>is_errmsg := e\<rparr> = istream_at source n e"
  by (simp_all add: istream_at_def)

lemma pb_istream_from_buffer_at: "pb_istream_from_buffer source n = istream_at source n None"
  by (simp add: pb_istream_from_buffer_def istream_at_def)

lemma pb_read_at:
  "length bs = n \<Longrightarrow> pb_read rd n (istream_at (bs @ rest) (n + k) msg) = (Some bs, istream_at rest k msg)"
  by (auto simp: pb_read_def istream_take_def istream_callback_def)

lemma pb_readbyte_at: "pb_readbyte rd (istream_at (b # rest) (Suc k) msg) = (Some b, istream_at rest k msg)"
  by (simp add: pb_readbyte_def istream_take_def istream_callback_def st_bind_def st_return_def)

lemma pb_readbyte_end: "pb_readbyte rd (istream_at source 0 msg) = (None, istream_at source 0 (Some (case msg of None \<Rightarrow> ''end-of-stream'' | Some m \<Rightarrow> m)))"
  by (simp add: pb_readbyte_def PB_RETURN_IERROR_def PB_SET_IERROR_def split: option.splits)

lemma pb_read_null_at:
  "length bs = n \<Longrightarrow> pb_read_null rd n (istream_at (bs @ rest) (n + k) msg) = (Some (), istream_at rest k msg)"
  by (auto simp: pb_read_null_def pb_read_at st_bind_def st_return_def)

subsection \<open>Varints\<close>

lemma or_digit: "m < 2 ^ p \<Longrightarrow> of_nat m OR push_bit p (of_nat d) = (of_nat (m + d * 2 ^ p) :: 'a::len word)"
proof -
  assume "m < 2 ^ p"
  then have "push_bit p (of_nat d) OR of_nat m = push_bit p (of_nat d) + (of_nat m :: 'a word)"
    by (intro or_push_bit_eq_add) (simp add: take_bit_of_nat take_bit_nat_eq_self)
  then show ?thesis by (simp add: or.commute add.commute push_bit_eq_mult)
qed

lemma byte_digit:
  assumes "n < 256"
  shows "(ucast (of_nat n AND 0x7F :: byte) :: 'a::len word) = of_nat (n mod 128)"
    and "of_nat n AND (0x80 :: byte) = 0 \<longleftrightarrow> n < 128"
  using assms by (simp_all add: ucast_of_nat_unat unat_and_7F unat_of_nat byte_high_bit_ge del: unsigned_of_nat)

lemma varint_ref_step:
  assumes "\<not> n < 128"
  obtains b where "varint_ref n = b # varint_ref (n div 128)" "b AND 0x80 \<noteq> 0"
    "(ucast (b AND 0x7F) :: u64) = of_nat (n mod 128)" "(ucast (b AND 0x7F) :: u32) = of_nat (n mod 128)"
proof
  show "varint_ref n = of_nat (n mod 128 + 128) # varint_ref (n div 128)" using assms by (simp add: varint_ref_large)
  have "n mod 128 + 128 < 256" by (metis add_less_cancel_right mod_less_divisor numeral_Bit0 zero_less_numeral)
  note digit = byte_digit [OF this]
  show "of_nat (n mod 128 + 128) AND (0x80 :: byte) \<noteq> 0" using digit(2) by linarith
  show "(ucast (of_nat (n mod 128 + 128) AND 0x7F :: byte) :: u64) = of_nat (n mod 128)"
    and "(ucast (of_nat (n mod 128 + 128) AND 0x7F :: byte) :: u32) = of_nat (n mod 128)"
    by (simp_all only: digit(1)) simp_all
qed

text \<open>The bookkeeping of one more digit, for the induction on a varint.\<close>

lemma digit_step:
  fixes n m p :: nat
  assumes "\<not> n < 128" "m < 2 ^ p"
  shows "m + n mod 128 * 2 ^ p < 2 ^ (p + 7)"
    and "m + n mod 128 * 2 ^ p + n div 128 * 2 ^ (p + 7) = m + n * 2 ^ p"
    and "n * 2 ^ p < 2 ^ b \<Longrightarrow> n div 128 * 2 ^ (p + 7) < 2 ^ b \<and> p + 7 < b"
proof -
  have "n mod 128 * 2 ^ p \<le> 127 * 2 ^ p" by simp
  moreover have "(2::nat) ^ (p + 7) = 127 * 2 ^ p + 2 ^ p" by (simp add: power_add)
  ultimately show "m + n mod 128 * 2 ^ p < 2 ^ (p + 7)" using assms(2) by linarith
  have "n * 2 ^ p = (n mod 128 + n div 128 * 128) * 2 ^ p" by simp
  then show "m + n mod 128 * 2 ^ p + n div 128 * 2 ^ (p + 7) = m + n * 2 ^ p"
    by (simp only: power_add add_mult_distrib) simp
next
  assume lt: "n * 2 ^ p < 2 ^ b"
  have "n div 128 * 2 ^ (p + 7) = n div 128 * 128 * 2 ^ p" by (simp add: power_add)
  also have "\<dots> \<le> n * 2 ^ p" by simp
  finally have 1: "n div 128 * 2 ^ (p + 7) < 2 ^ b" using lt by linarith
  have "(2::nat) ^ (p + 7) \<le> n div 128 * 2 ^ (p + 7)" using assms(1) by simp
  then have "(2::nat) ^ (p + 7) < 2 ^ b" using 1 by linarith
  then show "n div 128 * 2 ^ (p + 7) < 2 ^ b \<and> p + 7 < b" using 1 by simp
qed

lemma decode_varint_loop_at:
  assumes "n * 2 ^ p < 2 ^ 64" "p \<le> 63" "m < 2 ^ p"
  shows "decode_varint_loop rd (of_nat p) (of_nat m) (istream_at (varint_ref n @ rest) (length (varint_ref n) + k) msg) =
           (Some (of_nat (m + n * 2 ^ p)), istream_at rest k msg)"
  using assms
proof (induction n arbitrary: p m rule: varint_ref.induct)
  case (1 n)
  have p: "\<not> of_nat p \<ge> (64 :: byte)" "unat (of_nat p :: byte) = p"
    using 1(3) by (simp_all add: word_le_nat_alt unat_of_nat)
  show ?case
  proof (cases "n < 128")
    case True
    then show ?thesis using 1(4) p
      by (subst decode_varint_loop.simps) (simp add: varint_ref_small pb_readbyte_at byte_digit or_digit Let_def del: of_nat_add of_nat_mult)
  next
    case False
    note step = digit_step [OF False 1(4)]
    from False obtain b where b: "varint_ref n = b # varint_ref (n div 128)" "b AND 0x80 \<noteq> 0"
      "(ucast (b AND 0x7F) :: u64) = of_nat (n mod 128)" by (rule varint_ref_step)
    have "decode_varint_loop rd (of_nat (p + 7)) (of_nat (m + n mod 128 * 2 ^ p))
            (istream_at (varint_ref (n div 128) @ rest) (length (varint_ref (n div 128)) + k) msg) =
          (Some (of_nat (m + n * 2 ^ p)), istream_at rest k msg)"
      using 1(1) [OF False _ _ step(1)] step(3) [OF 1(2)] unfolding step(2) by simp
    then show ?thesis using p 1(4)
      by (subst decode_varint_loop.simps) (simp add: b pb_readbyte_at or_digit)
  qed
qed

lemma pb_decode_varint_at:
  "pb_decode_varint rd (istream_at (varint_bytes v @ rest) (length (varint_bytes v) + k) msg) = (Some v, istream_at rest k msg)"
proof -
  have "unat v < 2 ^ 64" using unsigned_less [of v] by simp
  then show ?thesis
    using decode_varint_loop_at [of "unat v" 0 0 rd rest k msg] by (simp add: pb_decode_varint_def varint_bytes_def)
qed

subsection \<open>Varints of 32 bits\<close>

text \<open>
  The digits from position \<open>p\<close>, at least 35, that \<open>pb_decode_varint32_eof\<close> lets pass when bit 31 is set:
  all ones or all zeros up to position 63, and a one there.
\<close>

function high_ok :: "nat \<Rightarrow> nat \<Rightarrow> bool" where
  "high_ok p n = (if n < 128 then p = 63 \<and> n = 1 else (n mod 128 = 0 \<or> n mod 128 = 127) \<and> high_ok (p + 7) (n div 128))"
  by pat_completeness auto
termination
  by (relation "measure snd") auto

declare high_ok.simps [simp del]

lemma drop_bit_31_eq_0: "drop_bit 31 r = 0 \<longleftrightarrow> \<not> bit r 31" for r :: u32
proof -
  have "drop_bit 31 r = of_bool (bit r 31)"
  proof (rule bit_word_eqI)
    fix n
    show "bit (drop_bit 31 r) n \<longleftrightarrow> bit (of_bool (bit r 31) :: u32) n"
      by (cases n) (auto simp: bit_simps dest: bit_imp_le_length)
  qed
  then show ?thesis by simp
qed

lemma varint_last_byte:
  assumes "n < 128" "0 < n"
  shows "of_nat n AND (0x80 :: byte) = 0" "of_nat n AND (0x7F :: byte) \<noteq> 0" "of_nat n \<noteq> (0xFF :: byte)"
    "of_nat n = (1 :: byte) \<longleftrightarrow> n = 1"
  using assms by (simp add: byte_digit) (use assms in \<open>simp_all add: word_unat_eq_iff unat_and_7F unat_of_nat del: word_of_nat_eq_0_iff\<close>)

lemma varint_lead_byte:
  fixes n :: nat
  defines "b \<equiv> of_nat (n mod 128 + 128) :: byte"
  shows "b AND 0x80 \<noteq> 0" "b AND 0x7F = 0 \<longleftrightarrow> n mod 128 = 0" "b = 0xFF \<longleftrightarrow> n mod 128 = 127" "unat (b AND 0x7F) = n mod 128"
proof -
  have "n mod 128 + 128 < 256" by (metis add_less_cancel_right mod_less_divisor numeral_Bit0 zero_less_numeral)
  moreover from this have "unat b = n mod 128 + 128" unfolding b_def by (simp add: unat_of_nat del: of_nat_add)
  ultimately show "b AND 0x80 \<noteq> 0" "b AND 0x7F = 0 \<longleftrightarrow> n mod 128 = 0" "b = 0xFF \<longleftrightarrow> n mod 128 = 127" "unat (b AND 0x7F) = n mod 128"
    by (simp_all add: byte_high_bit_ge) (simp_all add: word_unat_eq_iff unat_and_7F ucast_of_nat_unat)
qed

lemma varint32_loop_high_step:
  assumes "35 \<le> p" "p \<le> 63"
  shows "varint32_loop rd (of_nat p) r (istream_at (b # src) (Suc k) None) =
           (if b AND 0x7F \<noteq> 0 \<and> (\<not> bit r 31 \<or> b \<noteq> (if p < 63 then 0xFF else 1))
            then (None, istream_at src k (Some ''varint overflow''))
            else if b AND 0x80 \<noteq> 0 then varint32_loop rd (of_nat (p + 7)) r (istream_at src k None)
            else (Some (r, of_nat (p + 7), b), istream_at src k None))"
proof -
  have "of_nat p \<ge> (32 :: byte)" "of_nat p < (63 :: byte) \<longleftrightarrow> p < 63"
    using assms by (simp_all add: word_le_nat_alt word_less_nat_alt unat_of_nat)
  then show ?thesis
    by (subst varint32_loop.simps) (simp add: pb_readbyte_at PB_RETURN_IERROR_def PB_SET_IERROR_def drop_bit_31_eq_0)
qed

lemma varint32_high:
  assumes "n * 2 ^ p < 2 ^ 64" "35 \<le> p" "p \<le> 63" "0 < n"
  shows "(bit r 31 \<and> high_ok p n \<longrightarrow>
            varint32_loop rd (of_nat p) r (istream_at (varint_ref n @ rest) (length (varint_ref n) + k) None) =
              (Some (r, 70, 1), istream_at rest k None)) \<and>
         (\<not> (bit r 31 \<and> high_ok p n) \<longrightarrow>
            (\<exists>s. varint32_loop rd (of_nat p) r (istream_at (varint_ref n @ rest) (length (varint_ref n) + k) None) = (None, s) \<and>
                 is_errmsg s = Some ''varint overflow''))"
  using assms
proof (induction n arbitrary: p rule: varint_ref.induct)
  case (1 n)
  note step1 = varint32_loop_high_step [OF 1(3,4)]
  show ?case
  proof (cases "n < 128")
    case True
    note last = varint_last_byte [OF True 1(5)]
    have ok: "high_ok p n \<longleftrightarrow> p = 63 \<and> n = 1" using True by (simp add: high_ok.simps)
    show ?thesis
    proof (cases "p = 63")
      case True
      then have "n = 1" using 1(2,5) by simp
      moreover have "high_ok 63 1" by (subst high_ok.simps) simp
      ultimately show ?thesis using True varint32_loop_high_step [of 63 rd r 1 rest k] by (simp add: varint_ref_small)
    qed (use True 1(3,4) last in \<open>simp add: varint_ref_small step1 ok\<close>)
  next
    case False
    note step = digit_step(3) [of n 0 p 64, OF False _ 1(2)]
    let ?S = "\<lambda>n. istream_at (varint_ref n @ rest) (length (varint_ref n) + k) None"
    have p: "p < 63" using step by simp
    have ok: "high_ok p n \<longleftrightarrow> (n mod 128 = 0 \<or> n mod 128 = 127) \<and> high_ok (p + 7) (n div 128)"
      using False by (subst high_ok.simps) simp
    obtain b where b: "varint_ref n = b # varint_ref (n div 128)" "b = of_nat (n mod 128 + 128)"
      using False by (simp add: varint_ref_large)
    have "varint32_loop rd (of_nat p) r (?S n) =
            (if n mod 128 \<noteq> 0 \<and> (\<not> bit r 31 \<or> n mod 128 \<noteq> 127)
             then (None, istream_at (varint_ref (n div 128) @ rest) (length (varint_ref (n div 128)) + k) (Some ''varint overflow''))
             else varint32_loop rd (of_nat (p + 7)) r (?S (n div 128)))"
      using p varint_lead_byte [of n, folded b(2)] by (simp add: b(1) step1 del: of_nat_add)
    moreover note 1(1) [OF False, of "p + 7"]
    ultimately show ?thesis using p step False 1(3) unfolding ok by (cases "n mod 128 = 0 \<or> n mod 128 = 127") auto
  qed
qed

lemma varint32_loop_low_step:
  assumes "p \<le> 28" "m < 2 ^ p"
  shows "varint32_loop rd (of_nat p) (of_nat m) (istream_at (b # src) (Suc k) None) =
           (let r = of_nat (m + unat (b AND 0x7F) * 2 ^ p)
            in if b AND 0x80 \<noteq> 0 then varint32_loop rd (of_nat (p + 7)) r (istream_at src k None)
               else (Some (r, of_nat (p + 7), b), istream_at src k None))"
proof -
  have "\<not> of_nat p \<ge> (32 :: byte)" "unat (of_nat p :: byte) = p"
    using assms by (simp_all add: word_le_nat_alt word_less_nat_alt unat_of_nat)
  moreover have "of_nat (p + 7) = (of_nat p + 7 :: byte)" by simp
  ultimately show ?thesis using assms(2)
    by (subst varint32_loop.simps) (simp add: pb_readbyte_at or_digit [symmetric] Let_def del: of_nat_add of_nat_mult)
qed

definition varint32_ok :: "nat \<Rightarrow> bool" where
  "varint32_ok n \<longleftrightarrow> n < 2 ^ 32 \<or> 2 ^ 35 \<le> n \<and> bit (of_nat n :: u32) 31 \<and> high_ok 35 (n div 2 ^ 35)"

text \<open>The test after the loop, and its outcome on the number \<open>n\<close>.\<close>

definition varint32_finish :: "(u32 \<times> byte \<times> byte) option \<times> 's pb_istream \<Rightarrow> u32 option \<times> 's pb_istream" where
  "varint32_finish res =
     (case res of
        (None, s) \<Rightarrow> (None, s)
      | (Some (r, bitpos, b), s) \<Rightarrow>
          if bitpos = 35 \<and> b AND 0x70 \<noteq> 0 then (None, PB_SET_IERROR ''varint overflow'' s) else (Some r, s))"

definition varint32_outcome :: "nat \<Rightarrow> byte list \<Rightarrow> nat \<Rightarrow> u32 option \<times> 's pb_istream \<Rightarrow> bool" where
  "varint32_outcome n rest k res \<longleftrightarrow>
     (if varint32_ok n then res = (Some (of_nat n), istream_at rest k None)
      else fst res = None \<and> is_errmsg (snd res) = Some ''varint overflow'')"

lemma and_70_of_nat: "n < 128 \<Longrightarrow> of_nat n AND (0x70 :: byte) = 0 \<longleftrightarrow> n < 16"
proof -
  have "list_all (\<lambda>n. (of_nat n AND (0x70 :: byte) = 0) = (n < 16)) [0..<128]" by code_simp
  then show "n < 128 \<Longrightarrow> ?thesis" by (simp add: list_all_iff)
qed

lemma digit_bound: "n < 128 \<Longrightarrow> m < 2 ^ p \<Longrightarrow> m + n * 2 ^ p < 2 ^ (p + 7)" for n m p :: nat
proof -
  assume "n < 128" "m < 2 ^ p"
  then have "n * 2 ^ p \<le> 127 * 2 ^ p" by simp
  moreover have "(2::nat) ^ (p + 7) = 127 * 2 ^ p + 2 ^ p" by (simp add: power_add)
  ultimately show ?thesis using \<open>m < 2 ^ p\<close> by linarith
qed

lemma word_of_nat_shift: "N = m + d * 2 ^ 35 \<Longrightarrow> of_nat N = (of_nat m :: u32)"
proof -
  have "(2 :: u32) ^ 35 = 0" by (simp add: exp_eq_zero_iff)
  then show "N = m + d * 2 ^ 35 \<Longrightarrow> ?thesis" by (simp only: of_nat_add of_nat_mult of_nat_power of_nat_numeral) simp
qed

lemma varint32_loop_low:
  assumes "n * 2 ^ (7 * j) < 2 ^ 64" "1 \<le> j" "j \<le> 4" "m < 2 ^ (7 * j)"
  shows "varint32_outcome (m + n * 2 ^ (7 * j)) rest k
           (varint32_finish (varint32_loop rd (of_nat (7 * j)) (of_nat m) (istream_at (varint_ref n @ rest) (length (varint_ref n) + k) None)))"
  using assms
proof (induction n arbitrary: j m rule: varint_ref.induct)
  case (1 n)
  let ?N = "m + n * 2 ^ (7 * j)"
  have j: "7 * j \<le> 28" using 1(4) by simp
  note low = varint32_loop_low_step [OF j 1(5)]
  show ?case
  proof (cases "n < 128")
    case True
    have "unat (of_nat n AND (0x7F :: byte)) = n" "of_nat n AND (0x80 :: byte) = 0"
      using True by (simp_all add: unat_and_7F unat_of_nat byte_digit)
    then have "varint32_finish (varint32_loop rd (of_nat (7 * j)) (of_nat m) (istream_at (varint_ref n @ rest) (length (varint_ref n) + k) None)) =
       (if of_nat (7 * j + 7) = (35 :: byte) \<and> of_nat n AND (0x70 :: byte) \<noteq> 0 then (None, istream_at rest k (Some ''varint overflow''))
        else (Some (of_nat ?N), istream_at rest k None))"
      using True by (simp add: varint_ref_small low varint32_finish_def PB_SET_IERROR_def Let_def del: of_nat_add of_nat_mult)
    moreover have "of_nat (7 * j + 7) = (35 :: byte) \<longleftrightarrow> j = 4"
      using 1(4) by (simp add: word_unat_eq_iff unat_of_nat del: of_nat_add of_nat_mult)
    moreover have "varint32_ok ?N \<longleftrightarrow> (j = 4 \<longrightarrow> n < 16)"
    proof (cases "j = 4")
      case True
      then have "?N < 2 ^ 35" "m < 2 ^ 28" using digit_bound [OF \<open>n < 128\<close> 1(5)] 1(5) by simp_all
      then show ?thesis using True by (auto simp: varint32_ok_def)
    next
      case False
      then have "7 * j + 7 \<le> 28" using 1(4) by simp
      then have "(2::nat) ^ (7 * j + 7) \<le> 2 ^ 28" by (rule power_increasing) simp
      then have "?N < 2 ^ 32" using digit_bound [OF \<open>n < 128\<close> 1(5)] by simp
      then show ?thesis using False by (simp add: varint32_ok_def)
    qed
    ultimately show ?thesis using True by (simp add: varint32_outcome_def and_70_of_nat del: of_nat_add of_nat_mult)
  next
    case False
    then have b: "varint_ref n = of_nat (n mod 128 + 128) # varint_ref (n div 128)" by (simp add: varint_ref_large)
    note step = digit_step [OF False 1(5)]
    let ?m = "m + n mod 128 * 2 ^ (7 * j)"
    have next1: "varint32_loop rd (of_nat (7 * j)) (of_nat m) (istream_at (varint_ref n @ rest) (length (varint_ref n) + k) None) =
            varint32_loop rd (of_nat (7 * j + 7)) (of_nat ?m) (istream_at (varint_ref (n div 128) @ rest) (length (varint_ref (n div 128)) + k) None)"
      using varint_lead_byte(1,4) [of n] by (simp add: b low Let_def del: of_nat_add of_nat_mult)
    show ?thesis
    proof (cases "j = 4")
      case True
      let ?n = "n div 128"
      have n: "?n * 2 ^ 35 < 2 ^ 64" "0 < ?n" and m: "?m < 2 ^ 35" and N: "?m + ?n * 2 ^ 35 = ?N"
        using step True 1(2) False by (simp_all add: True)
      have "of_nat ?N = (of_nat ?m :: u32)"
        by (rule word_of_nat_shift [OF N [symmetric]])
      moreover have "varint32_ok ?N \<longleftrightarrow> bit (of_nat ?N :: u32) 31 \<and> high_ok 35 ?n"
        using n(2) m by (simp add: varint32_ok_def N [symmetric])
      ultimately show ?thesis using varint32_high [OF n(1) _ _ n(2), where r = "of_nat ?m" and rest = rest and k = k and rd = rd]
        unfolding next1 by (auto simp: True varint32_outcome_def varint32_finish_def simp del: of_nat_add of_nat_mult)
    next
      case False
      have "varint32_outcome (?m + n div 128 * 2 ^ (7 * Suc j)) rest k
           (varint32_finish (varint32_loop rd (of_nat (7 * Suc j)) (of_nat ?m) (istream_at (varint_ref (n div 128) @ rest) (length (varint_ref (n div 128)) + k) None)))"
        by (rule 1(1)) (use \<open>\<not> n < 128\<close> step 1(2-4) False in \<open>simp_all add: add.commute\<close>)
      moreover have "7 * Suc j = 7 * j + 7" by simp
      ultimately show ?thesis by (simp only: next1 step(2))
    qed
  qed
qed

lemma pb_decode_varint32_split:
  assumes "b AND 0x80 \<noteq> 0"
  shows "pb_decode_varint32 rd (istream_at (b # src) (Suc k) msg) =
           varint32_finish (varint32_loop rd 7 (ucast (b AND 0x7F)) (istream_at src k msg))"
  using assms
  by (auto simp: pb_decode_varint32_def pb_decode_varint32_eof_def pb_readbyte_at varint32_finish_def split: prod.splits option.splits)

lemma pb_decode_varint32_ref:
  assumes "n < 2 ^ 64"
  shows "varint32_outcome n rest k
           (pb_decode_varint32 rd (istream_at (varint_ref n @ rest) (length (varint_ref n) + k) None))"
proof (cases "n < 128")
  case True
  then have "(ucast (of_nat n :: byte) :: u32) = of_nat n" by (simp add: ucast_of_nat_unat unat_of_nat del: unsigned_of_nat)
  then show ?thesis using True
    by (simp add: varint32_outcome_def varint32_ok_def varint_ref_small pb_decode_varint32_def pb_decode_varint32_eof_def pb_readbyte_at byte_digit)
next
  case False
  note lead = varint_lead_byte(1,4) [of n]
  have "varint32_outcome (n mod 128 + n div 128 * 2 ^ (7 * 1)) rest k
          (varint32_finish (varint32_loop rd (of_nat (7 * 1)) (of_nat (n mod 128))
             (istream_at (varint_ref (n div 128) @ rest) (length (varint_ref (n div 128)) + k) None)))"
    by (rule varint32_loop_low) (use assms in auto)
  moreover have "pb_decode_varint32 rd (istream_at (varint_ref n @ rest) (length (varint_ref n) + k) None) =
      varint32_finish (varint32_loop rd (of_nat (7 * 1)) (of_nat (n mod 128))
             (istream_at (varint_ref (n div 128) @ rest) (length (varint_ref (n div 128)) + k) None))"
    using False lead by (simp add: varint_ref_large pb_decode_varint32_split ucast_of_nat_unat del: of_nat_add)
  ultimately show ?thesis by simp
qed

lemma pb_decode_varint32_small:
  assumes "n < 2 ^ 32"
  shows "pb_decode_varint32 rd (istream_at (varint_ref n @ rest) (length (varint_ref n) + k) None) =
           (Some (of_nat n), istream_at rest k None)"
  using assms pb_decode_varint32_ref [of n rest k rd] by (simp add: varint32_outcome_def varint32_ok_def)

definition varint32_accepts :: "u64 \<Rightarrow> bool" where
  "varint32_accepts v \<longleftrightarrow>
     unat v < 2 ^ 32 \<or>
     2 ^ 63 \<le> unat v \<and> bit v 31 \<and> list_all (\<lambda>i. unat v div 128 ^ i mod 128 \<in> {0, 127}) [5, 6, 7, 8]"

lemma high_ok_ge: "high_ok p n \<Longrightarrow> p \<le> 63 \<and> 2 ^ (63 - p) \<le> n"
proof (induction p n rule: high_ok.induct)
  case (1 p n)
  show ?case
  proof (cases "n < 128")
    case True
    have "p = 63 \<and> n = 1" using 1(2) True by (subst (asm) high_ok.simps) simp
    then show ?thesis by simp
  next
    case False
    have "high_ok (p + 7) (n div 128)" using 1(2) False by (subst (asm) high_ok.simps) simp
    then have p: "p + 7 \<le> 63" "2 ^ (63 - (p + 7)) \<le> n div 128" using 1(1) [OF False] by auto
    have "63 - p = 63 - (p + 7) + 7" using p(1) by simp
    then have "(2::nat) ^ (63 - p) = 2 ^ (63 - (p + 7)) * 2 ^ 7" by (metis power_add)
    also have "\<dots> = 2 ^ (63 - (p + 7)) * 128" by simp
    also have "\<dots> \<le> n div 128 * 128" using p(2) by (intro mult_right_mono) auto
    also have "\<dots> \<le> n" by simp
    finally show ?thesis using p(1) by simp
  qed
qed

lemma high_ok_step: "128 \<le> n \<Longrightarrow> high_ok p n \<longleftrightarrow> n mod 128 \<in> {0, 127} \<and> high_ok (p + 7) (n div 128)"
  by (subst high_ok.simps) auto

lemma high_ok_last: "high_ok 63 1"
  by (subst high_ok.simps) simp

lemma high_ok_digits:
  assumes "n < 2 ^ 29"
  shows "high_ok 35 n \<longleftrightarrow> 2 ^ 28 \<le> n \<and> n mod 128 \<in> {0, 127} \<and> n div 128 mod 128 \<in> {0, 127} \<and>
           n div 128 ^ 2 mod 128 \<in> {0, 127} \<and> n div 128 ^ 3 mod 128 \<in> {0, 127}"
proof (cases "2 ^ 28 \<le> n")
  case True
  have ge: "128 \<le> n" "128 \<le> n div 128" "128 \<le> n div 16384" "128 \<le> n div 2097152"
    using True by (simp_all add: less_eq_div_iff_mult_less_eq)
  have one: "n div 268435456 = 1" using True assms by (simp add: div_nat_eqI)
  show ?thesis using True ge one high_ok_last by (simp add: high_ok_step div_mult2_eq [symmetric])
qed (use high_ok_ge [of 35 n] in auto)

lemma varint32_ok_accepts: "varint32_ok (unat v) \<longleftrightarrow> varint32_accepts v"
proof -
  define n where "n = unat v div 2 ^ 35"
  have lt: "unat v < 2 ^ 64" using unsigned_less [of v] by simp
  then have "n < 2 ^ 29" by (simp add: n_def div_less_iff_less_mult)
  note ok = high_ok_digits [OF this]
  have digits: "n = unat v div 128 ^ 5" "n div 128 = unat v div 128 ^ 6" "n div 128 ^ 2 = unat v div 128 ^ 7"
    "n div 128 ^ 3 = unat v div 128 ^ 8"
    by (simp_all add: n_def div_mult2_eq [symmetric])
  have ge: "2 ^ 28 \<le> n \<longleftrightarrow> 2 ^ 63 \<le> unat v" "(2::nat) ^ 63 \<le> unat v \<Longrightarrow> 2 ^ 35 \<le> unat v"
    by (simp_all add: n_def less_eq_div_iff_mult_less_eq)
  have all: "list_all (\<lambda>i. unat v div 128 ^ i mod 128 \<in> {0, 127}) [5, 6, 7, 8] \<longleftrightarrow>
          n mod 128 \<in> {0, 127} \<and> n div 128 mod 128 \<in> {0, 127} \<and> n div 128 ^ 2 mod 128 \<in> {0, 127} \<and> n div 128 ^ 3 mod 128 \<in> {0, 127}"
    by (simp only: list.pred_inject digits [symmetric] simp_thms)
  have "high_ok 35 n \<longleftrightarrow> 2 ^ 63 \<le> unat v \<and> list_all (\<lambda>i. unat v div 128 ^ i mod 128 \<in> {0, 127}) [5, 6, 7, 8]"
    by (simp only: ok ge(1) all)
  moreover have "bit (of_nat (unat v) :: u32) 31 = bit v 31" by (simp add: bit_simps)
  ultimately show ?thesis using ge(2) unfolding varint32_ok_def varint32_accepts_def n_def by argo
qed

subsection \<open>Encoder and decoder together\<close>

text \<open>
  What is encoded into a fresh buffer of \<open>n\<close> bytes is decoded from a stream that starts with it,
  whatever follows, and the decoder stops behind it.
\<close>

definition carries :: "nat \<Rightarrow> ('s pb_ostream, unit) stm \<Rightarrow> ('t pb_istream \<Rightarrow> 'r) \<Rightarrow> ('t pb_istream \<Rightarrow> 'r) \<Rightarrow> bool" where
  "carries n enc dec res \<longleftrightarrow>
     (\<exists>out. enc (pb_ostream_from_buffer n) =
              (Some (), \<lparr>os_sink = OBuffer out, os_max_size = n, os_bytes_written = length out, os_errmsg = None\<rparr>) \<and>
            (\<forall>rest k. dec (pb_istream_from_buffer (out @ rest) (length out + k)) = res (pb_istream_from_buffer rest k)))"

text \<open>Callbacks of a client that never delivers anything, for streams over buffers.\<close>

definition null_write :: "unit ocallback" where
  "null_write s bs = (True, s)"

definition null_read :: "unit icallback" where
  "null_read s count = (IError, s)"

locale wire_codec = wire_encoder enc bs
  for enc :: "('s pb_ostream, unit) stm" and bs :: "byte list" +
  fixes dec :: "'t pb_istream \<Rightarrow> 'r" and res :: "'t pb_istream \<Rightarrow> 'r"
  assumes reads: "dec (istream_at (bs @ rest) (length bs + k) None) = res (istream_at rest k None)"
begin

lemma roundtrip: "length bs \<le> n \<Longrightarrow> n < 2 ^ 64 \<Longrightarrow> carries n enc dec res"
  unfolding carries_def pb_istream_from_buffer_at by (rule exI [of _ bs]) (simp add: to_buffer reads)

end

interpretation varint_codec: wire_codec "pb_encode_varint wr v" "varint_bytes v" "pb_decode_varint rd" "\<lambda>s. (Some v, s)" for wr v rd
  by unfold_locales (rule pb_decode_varint_at)

lemma sint_neg_iff: "sint v < 0 \<longleftrightarrow> bit v 63" for v :: u64
  using bit_last_iff [of v] by simp

lemma unzigzag: "(if zigzag v AND 1 \<noteq> 0 then NOT (drop_bit 1 (zigzag v)) else drop_bit 1 (zigzag v)) = v"
proof (cases "bit v 63")
  case True
  then have z: "zigzag v = NOT (push_bit 1 v)" by (simp add: zigzag_def sint_neg_iff)
  have "zigzag v AND 1 \<noteq> 0" using and_exp_eq_0_iff [of "zigzag v" 0] by (simp add: z bit_simps bit_0)
  moreover have "NOT (drop_bit 1 (NOT (push_bit 1 v))) = v"
  proof (rule bit_word_eqI)
    fix n assume "n < LENGTH(64)"
    then show "bit (NOT (drop_bit 1 (NOT (push_bit 1 v)))) n = bit v n" using True by (cases "n = 63") (auto simp: bit_simps mult.commute [of v 2])
  qed
  ultimately show ?thesis by (simp add: z)
next
  case False
  then have z: "zigzag v = push_bit 1 v" by (simp add: zigzag_def sint_neg_iff)
  have "zigzag v AND 1 = 0" using and_exp_eq_0_iff [of "zigzag v" 0] by (simp add: z bit_simps bit_0)
  moreover have "drop_bit 1 (push_bit 1 v) = v"
  proof (rule bit_word_eqI)
    fix n assume "n < LENGTH(64)"
    then show "bit (drop_bit 1 (push_bit 1 v)) n = bit v n" using False by (cases "n = 63") (auto simp: bit_simps mult.commute [of v 2] dest: bit_imp_le_length)
  qed
  ultimately show ?thesis by (simp add: z)
qed

lemma pb_decode_svarint_at:
  "pb_decode_svarint rd (istream_at (varint_bytes (zigzag v) @ rest) (length (varint_bytes (zigzag v)) + k) None) = (Some v, istream_at rest k None)"
  by (simp only: pb_decode_svarint_def st_bind_def pb_decode_varint_at prod.case option.case st_return_def unzigzag)

interpretation svarint_codec: wire_codec "pb_encode_svarint wr v" "varint_bytes (zigzag v)" "pb_decode_svarint rd" "\<lambda>s. (Some v, s)" for wr v rd
  by unfold_locales (rule pb_decode_svarint_at)

lemma le_bytes_Suc: "le_bytes (Suc n) v = ucast v # le_bytes n (drop_bit 8 v)"
  by (simp add: le_bytes_def upt_conv_Cons map_Suc_upt [symmetric] add.commute del: upt_Suc)

lemma le_word_Cons [simp]: "le_word (b # bs) = push_bit 8 (le_word bs) OR ucast b" "le_word [] = 0"
  by (simp_all add: le_word_def)

lemma le_word_le_bytes: "le_word (le_bytes n v) = take_bit (8 * n) v"
proof (induction n arbitrary: v)
  case (Suc n)
  have "push_bit 8 (take_bit (8 * n) (drop_bit 8 v)) OR ucast (ucast v :: byte) = take_bit (8 * Suc n) v"
    by (rule bit_word_eqI) (auto simp: bit_simps)
  then show ?case by (simp add: le_bytes_Suc Suc)
qed (simp add: le_bytes_def)

lemma le_word_bit: "bit (le_word src) i \<Longrightarrow> i < 8 * length src"
proof (induction src arbitrary: i)
  case (Cons b src)
  then consider "8 \<le> i" "bit (le_word src) (i - 8)" | "bit b i" by (auto simp: bit_simps)
  then show ?case
  proof cases
    case 1
    then show ?thesis using Cons.IH [of "i - 8"] by simp
  qed (auto dest: bit_imp_le_length)
qed simp

lemma le_bytes_le_word: "length src \<le> 8 \<Longrightarrow> le_bytes (length src) (le_word src) = src"
proof (induction src)
  case (Cons b src)
  have lt: "bit (le_word src) i \<Longrightarrow> i < 56" for i using le_word_bit [of src i] Cons.prems by simp
  have "(ucast (push_bit 8 (le_word src) OR ucast b) :: byte) = b"
    by (rule bit_word_eqI) (auto simp: bit_simps)
  moreover have "drop_bit 8 (push_bit 8 (le_word src) OR ucast b) = le_word src"
    by (rule bit_word_eqI) (use lt in \<open>auto simp: bit_simps dest: bit_imp_le_length\<close>)
  ultimately show ?case using Cons by (simp add: le_bytes_Suc)
qed (simp add: le_bytes_def)

lemma le_word_take_bit: "length src \<le> n \<Longrightarrow> take_bit (8 * n) (le_word src) = le_word src"
  by (rule bit_word_eqI) (use le_word_bit [of src] in \<open>fastforce simp: bit_simps\<close>)

lemma le_bytes_take_bit: "n \<le> 8 \<Longrightarrow> le_bytes n (take_bit (8 * n) v) = le_bytes n v"
  using le_bytes_le_word [of "le_bytes n v"] by (simp add: le_word_le_bytes)

lemma fixed64_word:
  assumes "length bs = 8"
  shows "ucast (bs ! 0) OR push_bit 8 (ucast (bs ! 1)) OR push_bit 16 (ucast (bs ! 2)) OR push_bit 24 (ucast (bs ! 3)) OR
         push_bit 32 (ucast (bs ! 4)) OR push_bit 40 (ucast (bs ! 5)) OR push_bit 48 (ucast (bs ! 6)) OR push_bit 56 (ucast (bs ! 7)) = le_word bs"
proof -
  obtain a0 a1 a2 a3 a4 a5 a6 a7 where "bs = [a0, a1, a2, a3, a4, a5, a6, a7]"
    using assms by (auto simp: eval_nat_numeral length_Suc_conv)
  then show ?thesis by (simp add: push_bit_or push_bit_push_bit or.assoc or.commute or.left_commute)
qed

lemma fixed32_word:
  assumes "length bs = 4"
  shows "ucast (bs ! 0) OR push_bit 8 (ucast (bs ! 1)) OR push_bit 16 (ucast (bs ! 2)) OR push_bit 24 (ucast (bs ! 3)) = (ucast (le_word bs) :: u32)"
proof -
  obtain a0 a1 a2 a3 where bs: "bs = [a0, a1, a2, a3]"
    using assms by (auto simp: eval_nat_numeral length_Suc_conv)
  have "ucast (push_bit k (ucast a) :: u64) = push_bit k (ucast a :: u32)" for k and a :: byte
    by (rule bit_word_eqI) (auto simp: bit_simps)
  moreover have "(ucast (ucast a :: u64) :: u32) = ucast a" for a :: byte
    by (rule bit_word_eqI) (auto simp: bit_simps)
  ultimately show ?thesis by (simp add: bs push_bit_or push_bit_push_bit unsigned_or_eq or.assoc or.commute or.left_commute)
qed

lemma pb_decode_fixed64_at:
  "pb_decode_fixed64 rd (istream_at (le_bytes 8 v @ rest) (8 + k) None) = (Some v, istream_at rest k None)"
  using fixed64_word [of "le_bytes 8 v"]
  by (simp add: pb_decode_fixed64_def st_bind_def st_return_def pb_read_at le_word_le_bytes take_bit_word_eq_self)

lemma pb_decode_fixed32_at:
  "pb_decode_fixed32 rd (istream_at (le_bytes 4 (ucast v) @ rest) (4 + k) None) = (Some v, istream_at rest k None)"
proof -
  have "(ucast (take_bit 32 (ucast v :: u64)) :: u32) = v" by (rule bit_word_eqI) (auto simp: bit_simps)
  then show ?thesis using fixed32_word [of "le_bytes 4 (ucast v)"]
    by (simp add: pb_decode_fixed32_def st_bind_def st_return_def pb_read_at le_word_le_bytes)
qed

interpretation fixed32_codec: wire_codec "pb_encode_fixed32 wr v" "le_bytes 4 (ucast v)" "pb_decode_fixed32 rd" "\<lambda>s. (Some v, s)" for wr v rd
  by unfold_locales (simp add: pb_decode_fixed32_at)

interpretation fixed64_codec: wire_codec "pb_encode_fixed64 wr v" "le_bytes 8 v" "pb_decode_fixed64 rd" "\<lambda>s. (Some v, s)" for wr v rd
  by unfold_locales (simp add: pb_decode_fixed64_at)

text \<open>Every 64-bit varint, zigzag integer and fixed-width integer that nanopb writes into a buffer with
  room for ten bytes is written without error, and reading the bytes back gives the same value and
  leaves the stream at the byte behind it, whatever follows.
\<close>

theorem pb_value_roundtrip:
  assumes "10 \<le> n" "n < 2 ^ 64"
  shows "carries n (pb_encode_varint wr v) (pb_decode_varint rd) (\<lambda>s. (Some v, s)) \<and>
         carries n (pb_encode_svarint wr v) (pb_decode_svarint rd) (\<lambda>s. (Some v, s)) \<and>
         carries n (pb_encode_fixed64 wr v) (pb_decode_fixed64 rd) (\<lambda>s. (Some v, s)) \<and>
         carries n (pb_encode_fixed32 wr w) (pb_decode_fixed32 rd) (\<lambda>s. (Some w, s))"
  using assms varint_bytes_length(2) [of v] varint_bytes_length(2) [of "zigzag v"]
  by (intro conjI varint_codec.roundtrip svarint_codec.roundtrip fixed64_codec.roundtrip fixed32_codec.roundtrip) simp_all

lemma pb_value_roundtrip_witness:
  "carries 10 (pb_encode_varint null_write 300) (pb_decode_varint null_read) (\<lambda>s. (Some 300, s)) \<and>
   carries 10 (pb_encode_svarint null_write 300) (pb_decode_svarint null_read) (\<lambda>s. (Some 300, s)) \<and>
   carries 10 (pb_encode_fixed64 null_write 300) (pb_decode_fixed64 null_read) (\<lambda>s. (Some 300, s)) \<and>
   carries 10 (pb_encode_fixed32 null_write 7) (pb_decode_fixed32 null_read) (\<lambda>s. (Some 7, s))"
  by (rule pb_value_roundtrip) simp_all

subsection \<open>Whole fields\<close>

lemma read_int_cast: "n \<le> m \<Longrightarrow> 0 < n \<Longrightarrow> cast_signed (8 * m) (read_int n src) = read_int n src"
  by (simp add: cast_signed_def read_int_def signed_take_bit_signed_take_bit min_absorb2)

lemma le_bytes_read_int:
  assumes "n \<in> {1, 2, 4, 8}" "length src = n"
  shows "le_bytes n (read_int n src) = src"
proof -
  have n: "n \<le> 8" "0 < n" using assms(1) by auto
  have "le_bytes n (read_int n src) = le_bytes n (take_bit (8 * n) (read_int n src))" using n by (simp add: le_bytes_take_bit)
  also have "take_bit (8 * n) (read_int n src) = take_bit (8 * n) (le_word src)"
    using n assms(2) by (simp add: read_int_def take_bit_signed_take_bit)
  also have "le_bytes n (take_bit (8 * n) (le_word src)) = src" using n assms(2) le_bytes_le_word [of src] by (simp add: le_bytes_take_bit)
  finally show ?thesis .
qed

lemma dec_clamped_signed:
  assumes "pf_data_size field \<in> {1, 2, 4, 8}" "length src = pf_data_size field"
  shows "dec_clamped cast_signed field (read_int (pf_data_size field) src) dest s = (True, mem_write src dest, s)"
  using assms read_int_cast [of "pf_data_size field" "pf_data_size field" src]
  by (auto simp: dec_clamped_def store_int_def le_bytes_read_int Let_def simp del: le_bytes_length)

lemma dec_clamped_unsigned:
  assumes "pf_data_size field \<in> {1, 2, 4, 8}" "length src = pf_data_size field"
  shows "dec_clamped cast_unsigned field (le_word src) dest s = (True, mem_write src dest, s)"
proof -
  have "cast_unsigned (8 * pf_data_size field) (le_word src) = le_word src" "le_bytes (pf_data_size field) (le_word src) = src"
    using assms le_bytes_le_word [of src] by (auto simp: cast_unsigned_def le_word_take_bit)
  then show ?thesis using assms by (simp add: dec_clamped_def store_int_def Let_def)
qed

lemma varint_field_codec:
  assumes "pf_data_size field \<in> {1, 2, 4, 8}" "length src = pf_data_size field"
  shows "wire_codec (pb_enc_varint wr field src) (varint_bytes (read_int (pf_data_size field) src))
           (pb_dec_varint rd field dest) (\<lambda>s. (True, mem_write src dest, s))"
proof -
  let ?v = "read_int (pf_data_size field) src"
  have "(if pf_data_size field = 8 then ?v else cast_signed 32 ?v) = ?v"
    using assms(1) read_int_cast [of "pf_data_size field" 4 src] by auto
  then have "wire_codec_axioms (varint_bytes ?v) (pb_dec_varint rd field dest) (\<lambda>s. (True, mem_write src dest, s))"
    by unfold_locales (simp add: pb_dec_varint_def pb_decode_varint_at dec_clamped_signed [OF assms])
  then show ?thesis using assms(1) varint.wire_encoder_axioms by (simp add: wire_codec_def pb_enc_varint_def)
qed

lemma uvarint_field_codec:
  assumes "pf_data_size field \<in> {1, 2, 4, 8}" "length src = pf_data_size field"
  shows "wire_codec (pb_enc_uvarint wr field src) (varint_bytes (le_word src))
           (pb_dec_uvarint rd field dest) (\<lambda>s. (True, mem_write src dest, s))"
proof -
  have "wire_codec_axioms (varint_bytes (le_word src)) (pb_dec_uvarint rd field dest) (\<lambda>s. (True, mem_write src dest, s))"
    by unfold_locales (simp add: pb_dec_uvarint_def pb_decode_varint_at dec_clamped_unsigned [OF assms])
  then show ?thesis using assms varint.wire_encoder_axioms by (simp add: wire_codec_def pb_enc_uvarint_def)
qed

lemma svarint_field_codec:
  assumes "pf_data_size field \<in> {1, 2, 4, 8}" "length src = pf_data_size field"
  shows "wire_codec (pb_enc_svarint wr field src) (varint_bytes (zigzag (read_int (pf_data_size field) src)))
           (pb_dec_svarint rd field dest) (\<lambda>s. (True, mem_write src dest, s))"
proof -
  have "wire_codec_axioms (varint_bytes (zigzag (read_int (pf_data_size field) src))) (pb_dec_svarint rd field dest) (\<lambda>s. (True, mem_write src dest, s))"
    by unfold_locales (simp add: pb_dec_svarint_def pb_decode_svarint_at dec_clamped_signed [OF assms])
  then show ?thesis using assms(1) svarint.wire_encoder_axioms by (simp add: wire_codec_def pb_enc_svarint_def)
qed

lemma mem_write_length: "length bs \<le> length dest \<Longrightarrow> length (mem_write bs dest) = length dest"
  by (simp add: mem_write_def)

lemma bool_field_codec:
  "wire_codec (pb_enc_bool wr src) (varint_bytes (if safe_read_bool src then 1 else 0))
     (pb_dec_bool rd dest) (\<lambda>s. (True, mem_write [if safe_read_bool src then 1 else 0] dest, s))"
proof -
  let ?v = "if safe_read_bool src then 1 else 0 :: u64"
  have v: "varint_bytes ?v = varint_ref (if safe_read_bool src then 1 else 0)" by (simp add: varint_bytes_def)
  have "wire_codec_axioms (varint_bytes ?v) (pb_dec_bool rd dest) (\<lambda>s. (True, mem_write [if safe_read_bool src then 1 else 0] dest, s))"
    by unfold_locales (simp add: pb_dec_bool_def v pb_decode_varint32_small)
  then show ?thesis using varint.wire_encoder_axioms unfolding pb_enc_bool_def wire_codec_def by blast
qed

lemma fixed_field_codec:
  "length src = 4 \<Longrightarrow> wire_codec (pb_enc_fixed32 wr src) src (pb_dec_fixed32 rd dest) (\<lambda>s. (True, mem_write src dest, s))"
  "length src = 8 \<Longrightarrow> wire_codec (pb_enc_fixed64 wr src) src (pb_dec_fixed64 rd dest) (\<lambda>s. (True, mem_write src dest, s))"
proof -
  assume len: "length src = 4"
  have "ucast (ucast (le_word src) :: u32) = le_word src"
    by (rule bit_word_eqI) (use le_word_bit [of src] len in \<open>auto simp: bit_simps\<close>)
  then have src: "le_bytes 4 (ucast (ucast (le_word src) :: u32)) = src" using le_bytes_le_word [of src] len by simp
  have "wire_codec_axioms src (pb_dec_fixed32 rd dest) (\<lambda>s. (True, mem_write src dest, s))"
    using pb_decode_fixed32_at [of rd "ucast (le_word src)"] len
    by unfold_locales (simp add: pb_dec_fixed32_def src store_int_def)
  then show "wire_codec (pb_enc_fixed32 wr src) src (pb_dec_fixed32 rd dest) (\<lambda>s. (True, mem_write src dest, s))"
    using fixed32.wire_encoder_axioms [of wr "ucast (le_word src)"] len by (simp add: wire_codec_def pb_enc_fixed32_def src)
next
  assume len: "length src = 8"
  then have src: "le_bytes 8 (le_word src) = src" using le_bytes_le_word [of src] by simp
  have "wire_codec_axioms src (pb_dec_fixed64 rd dest) (\<lambda>s. (True, mem_write src dest, s))"
    using pb_decode_fixed64_at [of rd "le_word src"] len
    by unfold_locales (simp add: pb_dec_fixed64_def src store_int_def)
  then show "wire_codec (pb_enc_fixed64 wr src) src (pb_dec_fixed64 rd dest) (\<lambda>s. (True, mem_write src dest, s))"
    using fixed64.wire_encoder_axioms [of wr "le_word src"] len by (simp add: wire_codec_def pb_enc_fixed64_def src)
qed

lemma string_prefix_at:
  assumes "length bs < 2 ^ 32"
  shows "pb_decode_varint32 rd (istream_at (string_bytes bs @ rest) (length (string_bytes bs) + k) None) =
           (Some (of_nat (length bs)), istream_at (bs @ rest) (length bs + k) None)"
proof -
  have "unat (of_nat (length bs) :: u64) = length bs" using assms by (simp add: unat_of_nat)
  then show ?thesis using pb_decode_varint32_small [OF assms, of rd "bs @ rest" "length bs + k"]
    by (simp add: string_bytes_def varint_bytes_def add.assoc)
qed

lemma unat_of_nat_u32: "n < 2 ^ 32 \<Longrightarrow> unat (of_nat n :: u32) = n"
  by (simp add: unat_of_nat)

lemma fixed_length_field_codec:
  assumes "length src = pf_data_size field" "pf_data_size field < 2 ^ 32"
  shows "wire_codec (pb_enc_fixed_length_bytes wr field src) (string_bytes src)
           (pb_dec_fixed_length_bytes rd field dest) (\<lambda>s. (True, mem_write src dest, s))"
proof -
  have "src = []" if "of_nat (length src) = (0 :: u32)" using that assms unat_of_nat_u32 [of "length src"] by simp
  then have "wire_codec_axioms (string_bytes src) (pb_dec_fixed_length_bytes rd field dest) (\<lambda>s. (True, mem_write src dest, s))"
    using assms unat_of_nat_u32 [of "length src"]
    by unfold_locales (auto simp: pb_dec_fixed_length_bytes_def string_prefix_at pb_read_at)
  then show ?thesis using assms wire_encoder_string [of "length src" src wr]
    by (simp add: wire_codec_def pb_enc_fixed_length_bytes_def)
qed

lemma string_size_le: "string_size m src \<le> length src" "string_size m src \<le> m"
  by (induction m src rule: string_size.induct) auto

lemma string_size_nul: "0 \<notin> set str \<Longrightarrow> length str < m \<Longrightarrow> string_size m (str @ 0 # junk) = length str"
  by (induction str arbitrary: m) auto

text \<open>The string at \<open>src\<close>, as \<open>pb_enc_string\<close> sees it.\<close>

definition field_string :: "pb_field \<Rightarrow> byte list \<Rightarrow> byte list" where
  "field_string field src =
     take (string_size (if PB_ATYPE (pf_type field) = PB_ATYPE_POINTER then SIZE_MAX else pf_data_size field) src) src"

lemma wire_encoder_field_string: "wire_encoder (pb_enc_string wr field (Some src)) (string_bytes (field_string field src))"
  unfolding pb_enc_string_def field_string_def Let_def option.case
  by (rule wire_encoder_string) (rule string_size_le)

lemma read_string_at:
  "length bs < 2 ^ 32 \<Longrightarrow> read_string rd (of_nat (length bs)) dest (istream_at (bs @ rest) (length bs + k) None) =
     (True, (mem_write bs dest)[length bs := 0], istream_at rest k None)"
  by (simp add: read_string_def pb_read_at unat_of_nat_u32 del: unsigned_of_nat)

lemma alloc_size_string: "n < 2 ^ 32 - 1 \<Longrightarrow> unat (of_nat n + 1 :: u32) = Suc n"
  using unat_of_nat_u32 [of "Suc n"] by (simp add: add.commute)

lemma static_string_codec:
  assumes "PB_ATYPE (pf_type field) \<noteq> PB_ATYPE_POINTER" "length (field_string field src) < pf_data_size field"
    "length (field_string field src) < 2 ^ 32 - 1"
  shows "wire_codec (pb_enc_string wr field (Some src)) (string_bytes (field_string field src))
           (pb_dec_string rd realloc field (Some dest))
           (\<lambda>s. (True, Some ((mem_write (field_string field src) dest)[length (field_string field src) := 0]), s))"
proof -
  let ?t = "field_string field src"
  note u = unat_of_nat_u32 [of "length ?t"] alloc_size_string [OF assms(3)]
  have "wire_codec_axioms (string_bytes ?t) (pb_dec_string rd realloc field (Some dest)) (\<lambda>s. (True, Some ((mem_write ?t dest)[length ?t := 0]), s))"
    using assms u by unfold_locales (simp add: pb_dec_string_def string_prefix_at read_string_at Let_def del: unsigned_of_nat)
  then show ?thesis using wire_encoder_field_string by (simp add: wire_codec_def)
qed

lemma allocate_field_ok:
  assumes "0 < n" "n < 2 ^ 64" "realloc ptr n = Some p"
  shows "allocate_field realloc n (Suc 0) ptr s = (Some p, s)"
  using assms by (simp add: allocate_field_def st_return_def SIZE_MAX_def size_mul_def)

lemma pointer_string_codec:
  assumes "PB_ATYPE (pf_type field) = PB_ATYPE_POINTER" "length (field_string field src) < 2 ^ 32 - 1"
    "realloc ptr (Suc (length (field_string field src))) = Some p" "length p = Suc (length (field_string field src))"
  shows "wire_codec (pb_enc_string wr field (Some src)) (string_bytes (field_string field src))
           (pb_dec_string rd realloc field ptr) (\<lambda>s. (True, Some (field_string field src @ [0]), s))"
proof -
  let ?t = "field_string field src"
  note u = unat_of_nat_u32 [of "length ?t"] alloc_size_string [OF assms(2)]
  have "(mem_write ?t p)[length ?t := 0] = ?t @ [0]"
    using assms(4) by (cases p rule: rev_cases) (simp_all add: mem_write_def)
  then have "wire_codec_axioms (string_bytes ?t) (pb_dec_string rd realloc field ptr) (\<lambda>s. (True, Some (?t @ [0]), s))"
    using assms u
    by unfold_locales (simp add: pb_dec_string_def string_prefix_at read_string_at allocate_field_ok Let_def del: unsigned_of_nat)
  then show ?thesis using wire_encoder_field_string by (simp add: wire_codec_def)
qed

definition array_bytes :: "pb_bytes_array \<Rightarrow> byte list" where
  "array_bytes b = take (unat (ba_size b)) (ba_bytes b)"

lemma wire_encoder_bytes:
  assumes "unat (ba_size b) \<le> length (ba_bytes b)" "offsetof_bytes + unat (ba_size b) \<le> pf_data_size field" "pf_data_size field < 2 ^ 64"
  shows "wire_encoder (pb_enc_bytes wr field (Some b)) (string_bytes (array_bytes b))"
proof -
  obtain d where "pf_data_size field = 4 + d" using assms(2) by (auto simp: offsetof_bytes_def le_iff_add)
  then have "size_add (pf_data_size field) (2 ^ 64 - offsetof_bytes) = pf_data_size field - offsetof_bytes"
    using assms(3) by (simp add: size_add_def offsetof_bytes_def)
  then have "pb_enc_bytes wr field (Some b) = pb_encode_string wr (ba_bytes b) (unat (ba_size b))"
    using assms(2) by (auto simp: pb_enc_bytes_def)
  then show ?thesis using wire_encoder_string [OF assms(1)] by (simp add: array_bytes_def)
qed

lemma array_bytes_size:
  assumes "unat (ba_size b) \<le> length (ba_bytes b)"
  shows "length (array_bytes b) = unat (ba_size b)" "of_nat (length (array_bytes b)) = ba_size b" "length (array_bytes b) < 2 ^ 32"
  using assms unsigned_less [of "ba_size b"] by (simp_all add: array_bytes_def)

lemma static_bytes_codec:
  assumes "unat (ba_size b) \<le> length (ba_bytes b)" "offsetof_bytes + unat (ba_size b) \<le> pf_data_size field" "pf_data_size field < 2 ^ 64"
    "PB_ATYPE (pf_type field) \<noteq> PB_ATYPE_POINTER"
  shows "wire_codec (pb_enc_bytes wr field (Some b)) (string_bytes (array_bytes b))
           (pb_dec_bytes rd realloc field (Some d))
           (\<lambda>s. (True, Some (d\<lparr>ba_size := ba_size b, ba_bytes := mem_write (array_bytes b) (ba_bytes d)\<rparr>), s))"
proof -
  note sz = array_bytes_size [OF assms(1)]
  have alloc: "PB_BYTES_ARRAY_T_ALLOCSIZE (unat (ba_size b)) = 4 + unat (ba_size b)"
    using sz by (simp add: PB_BYTES_ARRAY_T_ALLOCSIZE_def size_add_def offsetof_bytes_def)
  have "wire_codec_axioms (string_bytes (array_bytes b)) (pb_dec_bytes rd realloc field (Some d))
     (\<lambda>s. (True, Some (d\<lparr>ba_size := ba_size b, ba_bytes := mem_write (array_bytes b) (ba_bytes d)\<rparr>), s))"
    using assms(2,4) sz
    by unfold_locales
       (simp add: pb_dec_bytes_def string_prefix_at alloc read_bytes_array_def pb_read_at offsetof_bytes_def Let_def)
  then show ?thesis using wire_encoder_bytes [OF assms(1-3)] by (simp add: wire_codec_def)
qed

lemma string_bytes_length: "length (string_bytes bs) \<le> length bs + 10"
  using varint_bytes_length(2) [of "of_nat (length bs)"] by (simp add: string_bytes_def)

text \<open>C35. Number fields of every type keep their memory through the wire: the field encoder writes the source memory
  into a buffer that is large enough, and the field decoder for the same descriptor puts the same bytes into the
  destination, without a clamping error, and stops behind them. This covers plain, unsigned and zigzag varints
  of 1, 2, 4 and 8 bytes, fixed32 and fixed64 fields, booleans (a byte other than 0 arrives as 1) and
  fixed-length byte fields of every size below \<open>2 ^ 32\<close>.
\<close>

theorem pb_int_field_roundtrip:
  assumes "n < 2 ^ 64"
  shows "(pf_data_size field \<in> {1, 2, 4, 8} \<and> length src = pf_data_size field \<and> 10 \<le> n \<longrightarrow>
            carries n (pb_enc_varint wr field src) (pb_dec_varint rd field dest) (\<lambda>s. (True, mem_write src dest, s)) \<and>
            carries n (pb_enc_uvarint wr field src) (pb_dec_uvarint rd field dest) (\<lambda>s. (True, mem_write src dest, s)) \<and>
            carries n (pb_enc_svarint wr field src) (pb_dec_svarint rd field dest) (\<lambda>s. (True, mem_write src dest, s))) \<and>
         (length src = 4 \<and> 4 \<le> n \<longrightarrow> carries n (pb_enc_fixed32 wr src) (pb_dec_fixed32 rd dest) (\<lambda>s. (True, mem_write src dest, s))) \<and>
         (length src = 8 \<and> 8 \<le> n \<longrightarrow> carries n (pb_enc_fixed64 wr src) (pb_dec_fixed64 rd dest) (\<lambda>s. (True, mem_write src dest, s))) \<and>
         (length src = 1 \<and> 1 \<le> n \<longrightarrow> carries n (pb_enc_bool wr src) (pb_dec_bool rd dest) (\<lambda>s. (True, mem_write [if src = [0] then 0 else 1] dest, s))) \<and>
         (length src = pf_data_size field \<and> pf_data_size field < 2 ^ 32 \<and> length src + 10 \<le> n \<longrightarrow>
            carries n (pb_enc_fixed_length_bytes wr field src) (pb_dec_fixed_length_bytes rd field dest) (\<lambda>s. (True, mem_write src dest, s)))"
proof (intro conjI impI; (elim conjE)?)
  note rt = wire_codec.roundtrip [OF _ _ assms]
  have v: "length (varint_bytes w) \<le> n" if "10 \<le> n" for w using varint_bytes_length(2) [of w] that by simp
  show "carries n (pb_enc_varint wr field src) (pb_dec_varint rd field dest) (\<lambda>s. (True, mem_write src dest, s))"
    and "carries n (pb_enc_uvarint wr field src) (pb_dec_uvarint rd field dest) (\<lambda>s. (True, mem_write src dest, s))"
    and "carries n (pb_enc_svarint wr field src) (pb_dec_svarint rd field dest) (\<lambda>s. (True, mem_write src dest, s))"
    if "pf_data_size field \<in> {1, 2, 4, 8}" "length src = pf_data_size field" "10 \<le> n"
    by (rule rt [OF varint_field_codec [OF that(1,2)] v [OF that(3)]] rt [OF uvarint_field_codec [OF that(1,2)] v [OF that(3)]]
          rt [OF svarint_field_codec [OF that(1,2)] v [OF that(3)]])+
  show "carries n (pb_enc_fixed32 wr src) (pb_dec_fixed32 rd dest) (\<lambda>s. (True, mem_write src dest, s))" if "length src = 4" "4 \<le> n"
    by (rule rt [OF fixed_field_codec(1) [OF that(1)]]) (use that in simp)
  show "carries n (pb_enc_fixed64 wr src) (pb_dec_fixed64 rd dest) (\<lambda>s. (True, mem_write src dest, s))" if "length src = 8" "8 \<le> n"
    by (rule rt [OF fixed_field_codec(2) [OF that(1)]]) (use that in simp)
  show "carries n (pb_enc_bool wr src) (pb_dec_bool rd dest) (\<lambda>s. (True, mem_write [if src = [0] then 0 else 1] dest, s))"
    if "length src = 1" "1 \<le> n"
  proof -
    have "safe_read_bool src \<longleftrightarrow> src \<noteq> [0]" using that(1) by (cases src) (auto simp: safe_read_bool_def)
    moreover have "varint_bytes (if b then 1 else 0) = [if b then 1 else 0]" for b
      by (simp add: varint_bytes_def varint_ref.simps)
    ultimately show ?thesis using rt [OF bool_field_codec [of wr src rd dest]] that(2) by (simp split: if_splits)
  qed
  show "carries n (pb_enc_fixed_length_bytes wr field src) (pb_dec_fixed_length_bytes rd field dest) (\<lambda>s. (True, mem_write src dest, s))"
    if "length src = pf_data_size field" "pf_data_size field < 2 ^ 32" "length src + 10 \<le> n"
    by (rule rt [OF fixed_length_field_codec [OF that(1,2)]]) (use string_bytes_length [of src] that in simp)
qed

text \<open>A signed number of two bytes, \<open>- 200\<close>, and a byte field of 20 bytes.\<close>

lemma pb_int_field_roundtrip_witness:
  "let num = \<lparr>pf_tag = 1, pf_type = 0, pf_data_offset = 0, pf_size_offset = 0, pf_data_size = 2, pf_array_size = 0, pf_ptr = None\<rparr>;
       blob = \<lparr>pf_tag = 2, pf_type = 0x0A, pf_data_offset = 0, pf_size_offset = 0, pf_data_size = 20, pf_array_size = 0, pf_ptr = None\<rparr>
   in carries 10 (pb_enc_svarint null_write num [0x38, 0xFF]) (pb_dec_svarint null_read num [0, 0]) (\<lambda>s. (True, mem_write [0x38, 0xFF] [0, 0], s)) \<and>
      carries 30 (pb_enc_fixed_length_bytes null_write blob (replicate 20 5)) (pb_dec_fixed_length_bytes null_read blob (replicate 20 0))
        (\<lambda>s. (True, mem_write (replicate 20 5) (replicate 20 0), s))"
  unfolding Let_def
  by (rule conjI, rule pb_int_field_roundtrip [THEN conjunct1, THEN mp, THEN conjunct2, THEN conjunct2])
     (simp_all add: pb_int_field_roundtrip [THEN conjunct2, THEN conjunct2, THEN conjunct2, THEN conjunct2, THEN mp])

text \<open>C36. Strings and byte arrays of static fields survive the wire. A string that ends before its array does
  arrives with its terminating NUL in an array of the same descriptor, and the bytes of the
  destination behind it are untouched; a byte array that fits its descriptor arrives with its size.
\<close>

theorem pb_string_field_roundtrip:
  assumes "PB_ATYPE (pf_type field) \<noteq> PB_ATYPE_POINTER" "pf_data_size field < 2 ^ 32"
    "length str < pf_data_size field" "0 \<notin> set str" "length dest = pf_data_size field"
    "unat (ba_size b) \<le> length (ba_bytes b)" "offsetof_bytes + unat (ba_size b) \<le> pf_data_size field"
    "pf_data_size field + 10 \<le> n" "n < 2 ^ 64"
  shows "carries n (pb_enc_string wr field (Some (str @ 0 # junk))) (pb_dec_string rd realloc field (Some dest))
           (\<lambda>s. (True, Some (str @ 0 # drop (Suc (length str)) dest), s)) \<and>
         carries n (pb_enc_bytes wr field (Some b)) (pb_dec_bytes rd realloc' field (Some d))
           (\<lambda>s. (True, Some (d\<lparr>ba_size := ba_size b, ba_bytes := mem_write (take (unat (ba_size b)) (ba_bytes b)) (ba_bytes d)\<rparr>), s))"
proof -
  have str: "field_string field (str @ 0 # junk) = str"
    using assms(1,3,4) string_size_nul [of str "pf_data_size field" junk] by (simp add: field_string_def)
  have dest: "(mem_write str dest)[length str := 0] = str @ 0 # drop (Suc (length str)) dest"
    using assms(3,5) by (simp add: mem_write_def list_update_append Cons_nth_drop_Suc [symmetric])
  note c = static_string_codec [where src = "str @ 0 # junk" and dest = dest, OF assms(1), unfolded str dest]
    static_bytes_codec [OF assms(6,7) _ assms(1), unfolded array_bytes_def]
  show ?thesis
    by (intro conjI wire_codec.roundtrip [OF c(1) _ assms(9)] wire_codec.roundtrip [OF c(2) _ assms(9)])
       (use assms string_bytes_length [of str] string_bytes_length [of "take (unat (ba_size b)) (ba_bytes b)"] in \<open>auto simp: offsetof_bytes_def\<close>)
qed

lemma pb_string_field_roundtrip_witness:
  "let field = \<lparr>pf_tag = 2, pf_type = 0x16, pf_data_offset = 0, pf_size_offset = 0, pf_data_size = 8, pf_array_size = 0, pf_ptr = None\<rparr>
   in carries 18 (pb_enc_string null_write field (Some ([0x68, 0x69] @ 0 # [0x7A])))
        (pb_dec_string null_read (\<lambda>_ _. None) field (Some (replicate 8 1)))
        (\<lambda>s. (True, Some ([0x68, 0x69] @ 0 # drop (Suc (length [0x68, 0x69 :: byte])) (replicate 8 1)), s)) \<and>
      carries 18 (pb_enc_bytes null_write field (Some \<lparr>ba_size = 2, ba_bytes = [7, 8, 9]\<rparr>))
        (pb_dec_bytes null_read (\<lambda>_ _. None) field (Some \<lparr>ba_size = 0, ba_bytes = [0, 0, 0, 0]\<rparr>))
        (\<lambda>s. (True, Some (\<lparr>ba_size = 0, ba_bytes = [0, 0, 0, 0]\<rparr>
                 \<lparr>ba_size := ba_size \<lparr>ba_size = 2, ba_bytes = [7, 8, 9]\<rparr>,
                  ba_bytes := mem_write (take (unat (ba_size \<lparr>ba_size = 2, ba_bytes = [7, 8, 9]\<rparr>)) (ba_bytes \<lparr>ba_size = 2, ba_bytes = [7, 8, 9]\<rparr>))
                                (ba_bytes \<lparr>ba_size = 0, ba_bytes = [0, 0, 0, 0]\<rparr>)\<rparr>), s))"
  unfolding Let_def
  by (rule pb_string_field_roundtrip) (simp_all add: PB_ATYPE_def PB_ATYPE_POINTER_def offsetof_bytes_def)

subsection \<open>Submessages and sizes\<close>

text \<open>A message inside a message, written with two passes of the message's own encoder, is one length
  prefix and the bytes of the message. For every encoder that writes the bytes \<open>bs\<close>, the size pass gives
  their number; a buffer with room takes the prefix and the bytes and counts them, a stream that only
  counts counts as many, and a buffer without room is refused.
\<close>

theorem pb_submessage_correct:
  assumes enc: "wire_encoder enc bs" and fit: "length bs + 10 < 2 ^ 64"
    and out: "out = varint_bytes (of_nat (length bs)) @ bs" and n: "n < 2 ^ 64"
  shows "pb_get_encoded_size enc = Some (length bs) \<and>
         pb_get_encoded_size (pb_encode_submessage wr enc) = Some (length out) \<and>
         (if length out \<le> n
          then pb_encode_submessage wr enc (pb_ostream_from_buffer n) =
                 (Some (), \<lparr>os_sink = OBuffer out, os_max_size = n, os_bytes_written = length out, os_errmsg = None\<rparr>)
          else fst (pb_encode_submessage wr enc (pb_ostream_from_buffer n)) = None)"
proof (intro conjI)
  note sub = wire_encoder.submessage_encoder [OF enc, of wr]
  have o: "string_bytes bs = out" by (simp add: string_bytes_def out)
  then have len: "length out < 2 ^ 64" using string_bytes_length [of bs] fit by simp
  show "pb_get_encoded_size enc = Some (length bs)" using fit by (intro wire_encoder.encoded_size [OF enc]) simp
  show "pb_get_encoded_size (pb_encode_submessage wr enc) = Some (length out)"
    using wire_encoder.encoded_size [OF sub] len by (simp add: o)
  show "if length out \<le> n
        then pb_encode_submessage wr enc (pb_ostream_from_buffer n) =
                (Some (), \<lparr>os_sink = OBuffer out, os_max_size = n, os_bytes_written = length out, os_errmsg = None\<rparr>)
         else fst (pb_encode_submessage wr enc (pb_ostream_from_buffer n)) = None"
    using wire_encoder.to_buffer [OF sub, of n] wire_encoder.to_small_buffer [OF sub, of n] n len by (simp add: o)
qed

lemma pb_submessage_correct_witness:
  "pb_get_encoded_size (pb_encode_varint null_write 300) = Some (length (varint_bytes 300)) \<and>
   (if length (varint_bytes (of_nat (length (varint_bytes 300))) @ varint_bytes 300) \<le> 20
    then pb_encode_submessage null_write (pb_encode_varint null_write 300) (pb_ostream_from_buffer 20) =
           (Some (), \<lparr>os_sink = OBuffer (varint_bytes (of_nat (length (varint_bytes 300))) @ varint_bytes 300), os_max_size = 20,
                      os_bytes_written = length (varint_bytes (of_nat (length (varint_bytes 300))) @ varint_bytes 300), os_errmsg = None\<rparr>)
    else fst (pb_encode_submessage null_write (pb_encode_varint null_write 300) (pb_ostream_from_buffer 20)) = None)"
  using pb_submessage_correct [OF varint.wire_encoder_axioms _ refl, of 300 20 null_write null_write] varint_bytes_length(2) [of 300]
  by simp

lemma pb_dec_submessage_at:
  assumes size: "length bs < 2 ^ 32" and field: "pf_ptr field \<noteq> None"
    and dec: "(if PB_HTYPE (pf_type field) = PB_HTYPE_REPEATED then dec else dec_noinit) dest (istream_at (bs @ rest) (length bs) None) =
              (status, dest', istream_at (drop j (bs @ rest)) (length bs - j) msg)"
    and j: "j \<le> length bs"
  shows "pb_dec_submessage rd field dec dec_noinit dest (istream_at (string_bytes bs @ rest) (length (string_bytes bs) + k) None) =
           (status, dest', istream_at rest k msg)"
proof -
  have pre: "pb_make_string_substream rd (istream_at (string_bytes bs @ rest) (length (string_bytes bs) + k) None) =
     (Some (istream_at (bs @ rest) (length bs) None), istream_at (bs @ rest) k None)"
    using size by (simp add: pb_make_string_substream_def st_bind_def string_prefix_at unat_of_nat_u32 del: unsigned_of_nat)
  have post: "pb_close_string_substream rd (istream_at (drop j (bs @ rest)) (length bs - j) msg) (istream_at (bs @ rest) k None) =
     (Some (), istream_at rest k msg)"
    using j pb_read_null_at [of "drop j bs" "length bs - j" rd rest 0 msg]
    by (cases "j = length bs") (simp_all add: pb_close_string_substream_def)
  show ?thesis using dec post field by (simp add: pb_dec_submessage_def pre split: if_splits)
qed

text \<open>Reading a submessage consumes its length prefix and exactly the bytes it announces, whatever the
  decoder of the message leaves of them: it is given a stream limited to those bytes, and when it
  returns, what it left unread is skipped, so that the next field starts behind the submessage; its
  verdict and its result are passed on.
\<close>

theorem pb_dec_submessage_correct:
  assumes size: "length bs < 2 ^ 32" and field: "pf_ptr field \<noteq> None"
    and dec: "(if PB_HTYPE (pf_type field) = PB_HTYPE_REPEATED then dec else dec_noinit) dest
                (pb_istream_from_buffer (bs @ rest) (length bs)) =
              (status, dest', \<lparr>is_source = IBuffer (drop j (bs @ rest)), is_bytes_left = length bs - j, is_errmsg = msg\<rparr>)"
    and j: "j \<le> length bs"
  shows "pb_dec_submessage rd field dec dec_noinit dest
           (pb_istream_from_buffer (varint_bytes (of_nat (length bs)) @ bs @ rest) (length (varint_bytes (of_nat (length bs))) + length bs + k)) =
         (status, dest', \<lparr>is_source = IBuffer rest, is_bytes_left = k, is_errmsg = msg\<rparr>)"
  using pb_dec_submessage_at [OF size field, of dec dec_noinit dest rest status dest' j msg rd k] dec j
  by (simp add: string_bytes_def pb_istream_from_buffer_at istream_at_def [symmetric])

lemma pb_dec_submessage_correct_witness:
  "pb_dec_submessage null_read \<lparr>pf_tag = 1, pf_type = 0x07, pf_data_offset = 0, pf_size_offset = 0, pf_data_size = 1, pf_array_size = 0, pf_ptr = Some 1\<rparr>
     (\<lambda>d s. (False, d, s)) (\<lambda>d s. (True, d + 1, s)) (0 :: nat)
     (pb_istream_from_buffer (varint_bytes (of_nat (length [7, 8, 9 :: byte])) @ [7, 8, 9] @ [1, 2])
        (length (varint_bytes (of_nat (length [7, 8, 9 :: byte]))) + length [7, 8, 9 :: byte] + 2)) =
   (True, 1, \<lparr>is_source = IBuffer [1, 2], is_bytes_left = 2, is_errmsg = None\<rparr>)"
  by (rule pb_dec_submessage_correct [where j = 0])
     (simp_all add: PB_HTYPE_def PB_HTYPE_REPEATED_def pb_istream_from_buffer_def)

subsection \<open>Tags and skipped fields\<close>

lemma unat_of_nat_len: "n < 2 ^ LENGTH('a) \<Longrightarrow> unat (of_nat n :: 'a::len word) = n"
  by (simp only: unat_of_nat mod_less)

lemma unat_tag_word:
  assumes "unat f < 2 ^ 29" "unat t < 8"
  shows "unat (tag_word t f) = unat f * 8 + unat t" "unat (tag_word t f) < 2 ^ 32"
proof -
  have "take_bit 3 (ucast t :: u64) = ucast t"
    using assms(2) by (simp add: take_bit_eq_self_iff_drop_bit_eq_0 drop_bit_eq_0_unat unat_ucast_up)
  then have "tag_word t f = push_bit 3 (ucast f) + ucast t" by (simp add: tag_word_def or_push_bit_eq_add)
  also have "\<dots> = of_nat (unat f * 8 + unat t)" by (simp add: push_bit_eq_mult mult.commute)
  finally have w: "tag_word t f = of_nat (unat f * 8 + unat t)" .
  have "unat f * 8 + unat t < 2 ^ LENGTH(64)" using assms by simp
  then show "unat (tag_word t f) = unat f * 8 + unat t" unfolding w by (rule unat_of_nat_len)
  then show "unat (tag_word t f) < 2 ^ 32" using assms by simp
qed

lemma pb_decode_varint32_eof_fst: "pb_decode_varint32 rd s = (Some v, s') \<Longrightarrow> pb_decode_varint32_eof rd s = (Some v, False, s')"
  by (auto simp: pb_decode_varint32_def pb_decode_varint32_eof_def split: prod.splits option.splits if_splits)

lemma unat_and_7: "unat (w AND 7) = unat w mod 8" for w :: "'a::len word"
proof -
  have "w AND 7 = take_bit 3 w" by (simp add: take_bit_eq_mask mask_eq_exp_minus_1)
  then have "unat (w AND 7) = take_bit 3 (unat w)" by (simp only: unsigned_take_bit_eq)
  then show ?thesis by (simp add: take_bit_eq_mod)
qed

lemma tag_codec:
  assumes f: "0 < unat f" "unat f < 2 ^ 29" and t: "unat t < 8"
  shows "wire_codec (pb_encode_tag wr t f) (varint_bytes (tag_word t f)) (pb_decode_tag rd)
           (\<lambda>s. (True, \<lparr>dt_wire_type = t, dt_tag = f, dt_eof = False\<rparr>, s))"
proof -
  note w = unat_tag_word [OF f(2) t]
  let ?u = "of_nat (unat (tag_word t f)) :: u32"
  have u: "unat ?u = unat f * 8 + unat t" using unat_of_nat_u32 [OF w(2)] w(1) by simp
  then have pos: "?u \<noteq> 0" using f(1) by auto
  have tag: "drop_bit 3 ?u = f" using u t by (simp only: word_unat_eq_iff unat_drop) simp
  have wt: "?u AND 7 = t" using u t by (simp only: word_unat_eq_iff unat_and_7) simp
  have "wire_codec_axioms (varint_bytes (tag_word t f)) (pb_decode_tag rd) (\<lambda>s. (True, \<lparr>dt_wire_type = t, dt_tag = f, dt_eof = False\<rparr>, s))"
    using pos by unfold_locales
      (simp only: pb_decode_tag_def varint_bytes_def prod.case option.case if_False tag wt
         pb_decode_varint32_eof_fst [OF pb_decode_varint32_small [OF w(2)]])
  then show ?thesis using tag.wire_encoder_axioms by (simp add: wire_codec_def)
qed

text \<open>The bytes of one value on the wire, by its wire type.\<close>

inductive wire_value :: "pb_wire_type \<Rightarrow> byte list \<Rightarrow> bool" where
  varint: "wire_value PB_WT_VARINT (varint_bytes v)"
| fixed64: "length bs = 8 \<Longrightarrow> wire_value PB_WT_64BIT bs"
| string: "length bs < 2 ^ 32 \<Longrightarrow> wire_value PB_WT_STRING (string_bytes bs)"
| fixed32: "length bs = 4 \<Longrightarrow> wire_value PB_WT_32BIT bs"

lemmas PB_WT_defs = PB_WT_VARINT_def PB_WT_64BIT_def PB_WT_STRING_def PB_WT_32BIT_def

lemma pb_skip_varint_ref:
  "pb_skip_varint rd (istream_at (varint_ref n @ rest) (length (varint_ref n) + k) msg) = (Some (), istream_at rest k msg)"
proof (induction n rule: varint_ref.induct)
  case (1 n)
  have rd1: "pb_read rd 1 (istream_at (b # src) (Suc m) msg) = (Some [b], istream_at src m msg)" for b src m
    using pb_read_at [of "[b]" 1 rd src m msg] by simp
  show ?case
  proof (cases "n < 128")
    case True
    then show ?thesis by (subst pb_skip_varint.simps) (simp add: varint_ref_small rd1 byte_digit del: One_nat_def)
  next
    case False
    note b = varint_lead_byte(1) [of n]
    show ?thesis using 1 [OF False] False b
      by (subst pb_skip_varint.simps) (simp add: varint_ref_large rd1 del: One_nat_def of_nat_add)
  qed
qed

lemma pb_skip_field_at:
  assumes "wire_value t bs"
  shows "pb_skip_field rd t (istream_at (bs @ rest) (length bs + k) None) = (Some (), istream_at rest k None)"
  using assms
proof cases
  case (varint v)
  then show ?thesis by (simp add: pb_skip_field_def varint_bytes_def pb_skip_varint_ref)
next
  case (string cs)
  then show ?thesis using pb_read_null_at [of cs "length cs" rd rest k None]
    by (simp add: pb_skip_field_def PB_WT_defs pb_skip_string_def st_bind_def string_prefix_at unat_of_nat_u32 del: unsigned_of_nat)
qed (simp_all add: pb_skip_field_def PB_WT_defs pb_read_null_at)

text \<open>C37. An unknown field is skipped as a whole. The tag that nanopb writes for a field number below
  2^29 and a wire type is read back as that pair; skipping a value of that wire type consumes
  exactly the bytes of the value, whatever follows; a wire type outside the four that nanopb knows
  is an error that moves nothing.
\<close>

theorem pb_skip_field_exact:
  assumes "0 < unat f" "unat f < 2 ^ 29" "unat t < 8" "10 \<le> n" "n < 2 ^ 64"
  shows "carries n (pb_encode_tag wr t f) (pb_decode_tag rd) (\<lambda>s. (True, \<lparr>dt_wire_type = t, dt_tag = f, dt_eof = False\<rparr>, s)) \<and>
         (wire_value t bs \<longrightarrow>
            pb_skip_field rd t (pb_istream_from_buffer (bs @ rest) (length bs + k)) = (Some (), pb_istream_from_buffer rest k)) \<and>
         (t \<notin> {PB_WT_VARINT, PB_WT_64BIT, PB_WT_STRING, PB_WT_32BIT} \<longrightarrow>
            pb_skip_field rd t (pb_istream_from_buffer src k) =
              (None, (pb_istream_from_buffer src k)\<lparr>is_errmsg := Some ''invalid wire_type''\<rparr>))"
proof (intro conjI impI)
  show "carries n (pb_encode_tag wr t f) (pb_decode_tag rd) (\<lambda>s. (True, \<lparr>dt_wire_type = t, dt_tag = f, dt_eof = False\<rparr>, s))"
    by (rule wire_codec.roundtrip [OF tag_codec [OF assms(1-3)] _ assms(5)])
       (use varint_bytes_length(2) [of "tag_word t f"] assms(4) in simp)
qed (simp add: pb_istream_from_buffer_at pb_skip_field_at, simp add: pb_skip_field_def pb_istream_from_buffer_at PB_RETURN_IERROR_def PB_SET_IERROR_def)

lemma pb_skip_field_exact_witness:
  "carries 10 (pb_encode_tag null_write 0 1) (pb_decode_tag null_read) (\<lambda>s. (True, \<lparr>dt_wire_type = 0, dt_tag = 1, dt_eof = False\<rparr>, s)) \<and>
   pb_skip_field null_read 0 (pb_istream_from_buffer (varint_bytes 300 @ [9]) (length (varint_bytes 300) + 1)) =
     (Some (), pb_istream_from_buffer [9] 1)"
  using pb_skip_field_exact [of 1 0 10 null_write null_read "varint_bytes 300" "[9]" 1 "[]"] wire_value.varint [of 300]
  by (simp add: PB_WT_VARINT_def)

subsection \<open>Varints of 32 bits, on every input\<close>

text \<open>C38. \<open>pb_decode_varint32\<close>, on the varint of any 64-bit value: a value below 2^32 is returned and the
  stream stands behind it; of the larger ones it takes exactly those with bits 63 and 31 set
  whose 7-bit digits from bit 35 up are each all ones or all zeros (the sign extensions of negative
  32-bit integers among them), with the low 32 bits as the result; the rest is a varint overflow.
\<close>

theorem pb_decode_varint32_exact:
  "let res = pb_decode_varint32 rd (pb_istream_from_buffer (varint_bytes v @ rest) (length (varint_bytes v) + k))
   in if varint32_accepts v then res = (Some (ucast v), pb_istream_from_buffer rest k)
      else fst res = None \<and> is_errmsg (snd res) = Some ''varint overflow''"
proof -
  have "unat v < 2 ^ 64" using unsigned_less [of v] by simp
  from pb_decode_varint32_ref [OF this, of rest k rd] show ?thesis
    by (simp add: varint32_outcome_def varint32_ok_accepts varint_bytes_def pb_istream_from_buffer_at Let_def)
qed

lemma varint32_accepts_negative: "2 ^ 64 - 2 ^ 31 \<le> unat v \<Longrightarrow> varint32_accepts v"
proof -
  assume ge: "2 ^ 64 - 2 ^ 31 \<le> unat v"
  have lt: "unat v < 2 ^ 64" using unsigned_less [of v] by simp
  have "unat v div 2 ^ 31 = 2 ^ 33 - 1" using ge lt by (simp add: div_nat_eqI)
  then have "bit (unat v) 31" by (simp add: bit_iff_odd)
  then have "bit v 31" by (simp add: bit_unsigned_iff)
  moreover have "unat v div 128 ^ 5 = 2 ^ 29 - 1" "unat v div 128 ^ 6 = 2 ^ 22 - 1" "unat v div 128 ^ 7 = 2 ^ 15 - 1" "unat v div 128 ^ 8 = 2 ^ 8 - 1"
    using ge lt by (simp_all add: div_nat_eqI)
  ultimately show ?thesis using ge by (simp add: varint32_accepts_def)
qed

lemma varint32_loop_zeros:
  "varint32_loop rd bp 0 (istream_at (replicate n 0x80 @ src) (n + k) msg) = varint32_loop rd (bp + of_nat (7 * n)) 0 (istream_at src k msg)"
proof (induction n arbitrary: bp)
  case (Suc n)
  have "varint32_loop rd bp 0 (istream_at (0x80 # replicate n 0x80 @ src) (Suc (n + k)) msg) =
          varint32_loop rd (bp + 7) 0 (istream_at (replicate n 0x80 @ src) (n + k) msg)"
    by (subst varint32_loop.simps) (simp add: pb_readbyte_at)
  then show ?case using Suc [of "bp + 7"] by (simp add: algebra_simps)
qed simp

lemma decode_varint_loop_zeros:
  "p + 7 * n \<le> 70 \<Longrightarrow> decode_varint_loop rd (of_nat p) 0 (istream_at (replicate n 0x80 @ src) (n + k) msg) =
     decode_varint_loop rd (of_nat (p + 7 * n)) 0 (istream_at src k msg)"
proof (induction n arbitrary: p)
  case (Suc n)
  then have "\<not> (64 :: byte) \<le> of_nat p" by (simp add: word_le_nat_alt unat_of_nat)
  then have "decode_varint_loop rd (of_nat p) 0 (istream_at (0x80 # replicate n 0x80 @ src) (Suc (n + k)) msg) =
          decode_varint_loop rd (of_nat (p + 7)) 0 (istream_at (replicate n 0x80 @ src) (n + k) msg)"
    by (subst decode_varint_loop.simps) (simp add: pb_readbyte_at)
  then show ?case using Suc.IH [of "p + 7"] Suc.prems by (simp add: algebra_simps)
qed simp

lemma decode_varint_too_long:
  "fst (decode_varint_loop rd 0 0 (istream_at (replicate 10 0x80 @ src) (10 + k) msg)) = None"
  using decode_varint_loop_zeros [of 0 10 rd src k msg] by (simp add: decode_varint_loop.simps PB_RETURN_IERROR_def)

text \<open>C39. \<open>pb_decode_varint32\<close> has no bound on the length of a varint, and its bit position is a \<open>uint_fast8_t\<close>,
  which wraps at 256. A varint of 37 bytes 0x80 and a byte 0x01, a one at bit 259, is read as
  the number 8, while \<open>pb_decode_varint\<close> refuses the same bytes as a varint overflow.
\<close>

theorem pb_decode_varint32_wraps:
  "pb_decode_varint32 rd (pb_istream_from_buffer (replicate 37 0x80 @ [0x01]) 38) = (Some 8, pb_istream_from_buffer [] 0) \<and>
   fst (pb_decode_varint rd (pb_istream_from_buffer (replicate 37 0x80 @ [0x01]) 38)) = None"
proof
  let ?S = "istream_at (replicate 36 0x80 @ [0x01]) (36 + 1) None"
  have "varint32_loop rd 7 0 ?S = varint32_loop rd (7 + of_nat (7 * 36)) 0 (istream_at [0x01] 1 None)"
    by (rule varint32_loop_zeros)
  also have "\<dots> = (Some (8, 10, 1), istream_at [] 0 None)"
    using pb_readbyte_at [of rd 1 "[]" 0 None] by (subst varint32_loop.simps) (simp add: push_bit_eq_mult)
  finally have loop: "varint32_loop rd 7 0 ?S = (Some (8, 10, 1), istream_at [] 0 None)" .
  have 1: "pb_istream_from_buffer (replicate 37 0x80 @ [0x01]) 38 = istream_at (0x80 # replicate 36 0x80 @ [0x01]) (Suc (36 + 1)) None"
    by (simp add: pb_istream_from_buffer_at eval_nat_numeral)
  have 2: "pb_decode_varint32 rd (istream_at (0x80 # replicate 36 0x80 @ [0x01]) (Suc (36 + 1)) None) =
      varint32_finish (varint32_loop rd 7 (ucast (0x80 AND 0x7F :: byte)) ?S)"
    by (rule pb_decode_varint32_split) simp
  have 3: "ucast (0x80 AND 0x7F :: byte) = (0 :: u32)" by simp
  show "pb_decode_varint32 rd (pb_istream_from_buffer (replicate 37 0x80 @ [0x01]) 38) = (Some 8, pb_istream_from_buffer [] 0)"
    unfolding 1 2 3 loop by (simp add: varint32_finish_def pb_istream_from_buffer_at)
next
  have 4: "pb_istream_from_buffer (replicate 37 0x80 @ [0x01]) 38 = istream_at (replicate 10 0x80 @ replicate 27 0x80 @ [0x01]) (10 + 28) None"
    by (simp add: pb_istream_from_buffer_at replicate_add [symmetric])
  show "fst (pb_decode_varint rd (pb_istream_from_buffer (replicate 37 0x80 @ [0x01]) 38)) = None"
    unfolding pb_decode_varint_def 4 by (rule decode_varint_too_long)
qed

subsection \<open>Decoders stay inside the buffer\<close>

text \<open>A stream over a buffer has moved on by some of the bytes it had left, and keeps its first error.\<close>

definition istream_moved :: "'s pb_istream \<Rightarrow> 's pb_istream \<Rightarrow> bool" where
  "istream_moved s s' \<longleftrightarrow>
     (\<exists>xs n. is_source s = IBuffer xs \<and> n \<le> is_bytes_left s \<and> is_source s' = IBuffer (drop n xs) \<and>
             is_bytes_left s' = is_bytes_left s - n \<and> (\<forall>m. is_errmsg s = Some m \<longrightarrow> is_errmsg s' = Some m))"

lemma istream_moved_refl [simp]: "is_buffer (is_source s) \<Longrightarrow> istream_moved s s"
  by (cases "is_source s") (auto simp: istream_moved_def intro!: exI [of _ 0])

lemma istream_moved_trans [trans]: "istream_moved s t \<Longrightarrow> istream_moved t u \<Longrightarrow> istream_moved s u"
proof -
  assume "istream_moved s t" "istream_moved t u"
  then obtain xs n m where st: "is_source s = IBuffer xs" "n \<le> is_bytes_left s" "is_source t = IBuffer (drop n xs)" "is_bytes_left t = is_bytes_left s - n"
    and tu: "m \<le> is_bytes_left t" "is_source u = IBuffer (drop m (drop n xs))" "is_bytes_left u = is_bytes_left t - m"
    and "\<forall>e. is_errmsg s = Some e \<longrightarrow> is_errmsg u = Some e"
    unfolding istream_moved_def by auto
  then show ?thesis unfolding istream_moved_def by (intro exI [of _ xs] exI [of _ "m + n"]) auto
qed

lemma istream_moved_buffer: "istream_moved s t \<Longrightarrow> is_buffer (is_source s) \<and> is_buffer (is_source t)"
  by (auto simp: istream_moved_def)

lemma istream_moved_error: "istream_moved s t \<Longrightarrow> istream_moved s (PB_SET_IERROR msg t)"
  by (auto simp: istream_moved_def PB_SET_IERROR_def split: option.splits)

definition stays_inside :: "('s pb_istream, 'a) stm \<Rightarrow> bool" where
  "stays_inside dec \<longleftrightarrow> (\<forall>s. is_buffer (is_source s) \<longrightarrow> istream_moved s (snd (dec s)))"

lemma stays_insideI: "(\<And>s. is_buffer (is_source s) \<Longrightarrow> istream_moved s (snd (dec s))) \<Longrightarrow> stays_inside dec"
  by (simp add: stays_inside_def)

lemma stays_insideD: "stays_inside dec \<Longrightarrow> is_buffer (is_source s) \<Longrightarrow> dec s = (r, t) \<Longrightarrow> istream_moved s t"
  unfolding stays_inside_def by (metis snd_conv)

lemma inside_moved: "stays_inside dec \<Longrightarrow> is_buffer (is_source s) \<Longrightarrow> istream_moved s (snd (dec s))"
  by (simp add: stays_inside_def)

lemma stays_inside_return: "stays_inside (st_return a)" "stays_inside (PB_RETURN_IERROR msg)"
  by (simp_all add: stays_inside_def st_return_def PB_RETURN_IERROR_def istream_moved_error)

lemma stays_inside_bind:
  assumes f: "stays_inside f" and g: "\<And>a. stays_inside (g a)"
  shows "stays_inside (st_bind f g)"
proof (rule stays_insideI)
  fix s :: "'a pb_istream"
  assume s: "is_buffer (is_source s)"
  obtain r t where ft: "f s = (r, t)" by (cases "f s")
  with f s have st: "istream_moved s t" by (rule stays_insideD)
  then have "istream_moved t (snd (g a t))" for a
    using g [of a] istream_moved_buffer [OF st] by (simp add: stays_inside_def)
  then show "istream_moved s (snd (st_bind f g s))"
    using st by (auto simp: st_bind_def ft split: option.splits intro: istream_moved_trans)
qed

lemma istream_take_moved:
  assumes "is_buffer (is_source s)" "n \<le> is_bytes_left s"
  shows "istream_moved s (snd (istream_take rd n s))"
proof (cases "is_source s")
  case (IBuffer xs)
  then show ?thesis using assms
    by (auto simp: istream_take_def istream_callback_def istream_moved_def intro!: exI [of _ n])
qed (use assms in simp)

lemma stays_inside_read: "stays_inside (pb_read rd n)"
  by (rule stays_insideI) (simp add: pb_read_def PB_RETURN_IERROR_def istream_moved_error istream_take_moved)

lemma stays_inside_readbyte: "stays_inside (pb_readbyte rd)"
proof (rule stays_insideI)
  fix s :: "'a pb_istream"
  assume s: "is_buffer (is_source s)"
  show "istream_moved s (snd (pb_readbyte rd s))"
    using istream_take_moved [OF s, of 1 rd] s
    by (auto simp: pb_readbyte_def PB_RETURN_IERROR_def istream_moved_error st_bind_def st_return_def split: prod.splits option.splits)
qed

lemma stays_inside_read_null: "stays_inside (pb_read_null rd n)"
proof (rule stays_insideI)
  fix s :: "'a pb_istream"
  assume s: "is_buffer (is_source s)"
  have "stays_inside (st_bind (pb_read rd n) (\<lambda>_. st_return ()))"
    by (intro stays_inside_bind stays_inside_read stays_inside_return)
  then show "istream_moved s (snd (pb_read_null rd n s))" using s by (simp add: pb_read_null_def stays_inside_def)
qed

lemma varint32_loop_moved: "is_buffer (is_source s) \<Longrightarrow> istream_moved s (snd (varint32_loop rd bp r s))"
proof (induction "is_bytes_left s" arbitrary: bp r s rule: less_induct)
  case less
  obtain b t where bt: "pb_readbyte rd s = (b, t)" by (cases "pb_readbyte rd s")
  with stays_inside_readbyte less(2) have st: "istream_moved s t" by (rule stays_insideD)
  have "istream_moved s (snd (varint32_loop rd bp' r' t))" if "b = Some x" for bp' r' x
    using less(1) [of t bp' r'] bt that st pb_readbyte_left [of rd s x t] istream_moved_buffer [OF st]
    by (auto intro: istream_moved_trans)
  then show ?case using st
    by (subst varint32_loop.simps) (simp add: bt Let_def PB_RETURN_IERROR_def istream_moved_error split: option.split)
qed

lemma decode_varint_loop_moved: "is_buffer (is_source s) \<Longrightarrow> istream_moved s (snd (decode_varint_loop rd bp r s))"
proof (induction "is_bytes_left s" arbitrary: bp r s rule: less_induct)
  case less
  obtain b t where bt: "pb_readbyte rd s = (b, t)" by (cases "pb_readbyte rd s")
  with stays_inside_readbyte less(2) have st: "istream_moved s t" by (rule stays_insideD)
  have "istream_moved s (snd (decode_varint_loop rd bp' r' t))" if "b = Some x" for bp' r' x
    using less(1) [of t bp' r'] bt that st pb_readbyte_left [of rd s x t] istream_moved_buffer [OF st]
    by (auto intro: istream_moved_trans)
  then show ?case using st less(2)
    by (subst decode_varint_loop.simps) (simp add: bt Let_def PB_RETURN_IERROR_def istream_moved_error split: option.split)
qed

lemma skip_varint_moved: "is_buffer (is_source s) \<Longrightarrow> istream_moved s (snd (pb_skip_varint rd s))"
proof (induction "is_bytes_left s" arbitrary: s rule: less_induct)
  case less
  obtain b t where bt: "pb_read rd 1 s = (b, t)" by (cases "pb_read rd 1 s")
  with stays_inside_read less(2) have st: "istream_moved s t" by (rule stays_insideD)
  have "istream_moved s (snd (pb_skip_varint rd t))" if "b = Some x" for x
    using less(1) [of t] bt that st pb_read_left [of rd 1 s x t] istream_moved_buffer [OF st]
    by (auto intro: istream_moved_trans)
  then show ?case using st
    by (subst pb_skip_varint.simps) (simp add: bt del: One_nat_def split: option.split)
qed

lemma raw_varint_moved: "is_buffer (is_source s) \<Longrightarrow> istream_moved s (snd (raw_varint rd n s))"
proof (induction n arbitrary: s)
  case (Suc n)
  obtain b t where bt: "pb_read rd 1 s = (b, t)" by (cases "pb_read rd 1 s")
  with stays_inside_read Suc(2) have st: "istream_moved s t" by (rule stays_insideD)
  then have "istream_moved s (snd (raw_varint rd n t))"
    using Suc(1) [of t] istream_moved_buffer [OF st] by (auto intro: istream_moved_trans)
  then show ?case using st
    by (auto simp: bt st_bind_def st_return_def simp del: One_nat_def split: option.split prod.split)
qed simp

lemma stays_inside_varint32: "stays_inside (pb_decode_varint32 rd)"
proof (rule stays_insideI)
  fix s :: "'a pb_istream"
  assume s: "is_buffer (is_source s)"
  obtain b t where bt: "pb_readbyte rd s = (b, t)" by (cases "pb_readbyte rd s")
  with stays_inside_readbyte s have st: "istream_moved s t" by (rule stays_insideD)
  have loop: "istream_moved s u" if "varint32_loop rd bp r t = (x, u)" for bp r x u
    using varint32_loop_moved [of t rd bp r] istream_moved_buffer [OF st] st that by (auto intro: istream_moved_trans)
  show "istream_moved s (snd (pb_decode_varint32 rd s))"
    using st loop
    by (auto simp: pb_decode_varint32_def pb_decode_varint32_eof_def bt istream_moved_error split: option.split prod.split)
qed

lemma stays_inside_varint: "stays_inside (pb_decode_varint rd)"
  by (rule stays_insideI) (simp add: pb_decode_varint_def decode_varint_loop_moved)

lemmas stays_inside_intros = stays_inside_bind stays_inside_return stays_inside_read stays_inside_read_null
  stays_inside_varint32 stays_inside_varint

lemma stays_inside_values:
  "stays_inside (pb_decode_svarint rd)" "stays_inside (pb_decode_fixed32 rd)" "stays_inside (pb_decode_fixed64 rd)"
  "stays_inside (pb_skip_string rd)"
  unfolding pb_decode_svarint_def pb_decode_fixed32_def pb_decode_fixed64_def pb_skip_string_def
  by (intro stays_inside_intros)+

lemma stays_inside_skip_field: "stays_inside (pb_skip_field rd t)"
proof -
  have "stays_inside (pb_skip_varint rd)" by (rule stays_insideI) (rule skip_varint_moved)
  then show ?thesis by (simp add: pb_skip_field_def stays_inside_values stays_inside_intros)
qed

lemma stays_inside_raw_value: "stays_inside (read_raw_value rd t n)"
proof -
  have "stays_inside (raw_varint rd n)" by (rule stays_insideI) (rule raw_varint_moved)
  then show ?thesis by (simp add: read_raw_value_def stays_inside_intros)
qed

lemma stays_inside_allocate: "stays_inside (allocate_field realloc n m ptr)"
  by (simp add: allocate_field_def stays_inside_return split: option.split)

lemma pb_decode_tag_moved: "is_buffer (is_source s) \<Longrightarrow> istream_moved s (snd (snd (pb_decode_tag rd s)))"
  using stays_inside_varint32 [of rd]
  by (auto simp: stays_inside_def pb_decode_varint32_def pb_decode_tag_def split: prod.splits option.splits)

text \<open>What a field decoder does after the value, or the length, has been read.\<close>

lemma after_moved:
  assumes "stays_inside f" "is_buffer (is_source s)"
    and "\<And>t. istream_moved s t \<Longrightarrow> istream_moved s (snd (snd (fail t)))"
    and "\<And>a t. istream_moved s t \<Longrightarrow> istream_moved s (snd (snd (ok a t)))"
  shows "istream_moved s (snd (snd (case f s of (None, t) \<Rightarrow> fail t | (Some a, t) \<Rightarrow> ok a t)))"
  using assms stays_insideD [OF assms(1,2)] by (auto split: prod.split option.split)

lemma dec_clamped_moved: "istream_moved s t \<Longrightarrow> istream_moved s (snd (snd (dec_clamped cast field v dest t)))"
  by (simp add: dec_clamped_def Let_def istream_moved_error)

lemma read_bytes_moved:
  assumes st: "istream_moved s t"
  shows "istream_moved s (snd (snd (read_bytes_array rd sz b t)))" "istream_moved s (snd (snd (read_string rd sz p t)))"
proof -
  note buf = istream_moved_buffer [OF st]
  note rd = stays_insideD [OF stays_inside_read, of t]
  show "istream_moved s (snd (snd (read_bytes_array rd sz b t)))" "istream_moved s (snd (snd (read_string rd sz p t)))"
    using buf rd st by (auto simp: read_bytes_array_def read_string_def split: prod.split option.split intro: istream_moved_trans)
qed

lemma pb_dec_moved:
  assumes s: "is_buffer (is_source s)"
  shows "istream_moved s (snd (snd (pb_dec_bool rd dest s)))"
    and "istream_moved s (snd (snd (pb_dec_varint rd field dest s)))"
    and "istream_moved s (snd (snd (pb_dec_uvarint rd field dest s)))"
    and "istream_moved s (snd (snd (pb_dec_svarint rd field dest s)))"
    and "istream_moved s (snd (snd (pb_dec_fixed32 rd dest s)))"
    and "istream_moved s (snd (snd (pb_dec_fixed64 rd dest s)))"
  unfolding pb_dec_bool_def pb_dec_varint_def pb_dec_uvarint_def pb_dec_svarint_def pb_dec_fixed32_def pb_dec_fixed64_def
  by (rule after_moved [OF stays_inside_varint32 s] after_moved [OF stays_inside_varint s]
           after_moved [OF stays_inside_values(1) s] after_moved [OF stays_inside_values(2) s] after_moved [OF stays_inside_values(3) s];
      simp add: dec_clamped_moved Let_def)+

lemma pb_dec_block_moved:
  assumes s: "is_buffer (is_source s)"
  shows "istream_moved s (snd (snd (pb_dec_bytes rd realloc field bdest s)))"
    and "istream_moved s (snd (snd (pb_dec_string rd realloc' field sdest s)))"
    and "istream_moved s (snd (snd (pb_dec_fixed_length_bytes rd field dest s)))"
proof -
  have alloc: "istream_moved s u" if "istream_moved s t" "allocate_field r n m p t = (x, u)" for t u r n m x and p :: "'c option"
    using stays_insideD [OF stays_inside_allocate _ that(2)] istream_moved_buffer [OF that(1)] that(1) by (auto intro: istream_moved_trans)
  have bytes: "istream_moved s u" if "istream_moved s t" "read_bytes_array rd sz b t = (ok, b', u)" for t sz b ok b' u
    using read_bytes_moved(1) [OF that(1), of rd sz b] that(2) by simp
  have str: "istream_moved s u" if "istream_moved s t" "read_string rd sz b t = (ok, b', u)" for t sz b ok b' u
    using read_bytes_moved(2) [OF that(1), of rd sz b] that(2) by simp
  have rest: "istream_moved s u" if "istream_moved s t" "pb_read rd n t = (x, u)" for t n x u
    using stays_insideD [OF stays_inside_read _ that(2)] istream_moved_buffer [OF that(1)] that(1) by (auto intro: istream_moved_trans)
  show "istream_moved s (snd (snd (pb_dec_bytes rd realloc field bdest s)))"
    unfolding pb_dec_bytes_def Let_def
    by (rule after_moved [OF stays_inside_varint32 s]) (auto simp: istream_moved_error split: prod.split option.split dest: alloc bytes)
  show "istream_moved s (snd (snd (pb_dec_string rd realloc' field sdest s)))"
    unfolding pb_dec_string_def Let_def
    by (rule after_moved [OF stays_inside_varint32 s]) (auto simp: istream_moved_error split: prod.split option.split dest: alloc str)
  show "istream_moved s (snd (snd (pb_dec_fixed_length_bytes rd field dest s)))"
    unfolding pb_dec_fixed_length_bytes_def
    by (rule after_moved [OF stays_inside_varint32 s]) (auto simp: istream_moved_error split: prod.split option.split dest: rest)
qed

text \<open>C40. No decoder of a value reads past the bytes its stream has left. On a stream over a buffer, whatever
  the bytes are and whether the decoder succeeds or fails, it advances the read position by some
  number of bytes that is at most \<open>bytes_left\<close>, lowers \<open>bytes_left\<close> by the same number, and does not replace
  an error message that is already set.
\<close>

theorem pb_decoders_stay_inside:
  assumes "is_buffer (is_source s)"
  shows "istream_moved s (snd (pb_decode_varint rd s)) \<and> istream_moved s (snd (pb_decode_varint32 rd s)) \<and>
         istream_moved s (snd (pb_decode_svarint rd s)) \<and> istream_moved s (snd (pb_decode_fixed32 rd s)) \<and>
         istream_moved s (snd (pb_decode_fixed64 rd s)) \<and> istream_moved s (snd (pb_skip_field rd t s)) \<and>
         istream_moved s (snd (read_raw_value rd t n s)) \<and> istream_moved s (snd (snd (pb_decode_tag rd s))) \<and>
         istream_moved s (snd (snd (pb_dec_varint rd field dest s))) \<and> istream_moved s (snd (snd (pb_dec_uvarint rd field dest s))) \<and>
         istream_moved s (snd (snd (pb_dec_svarint rd field dest s))) \<and> istream_moved s (snd (snd (pb_dec_bool rd dest s))) \<and>
         istream_moved s (snd (snd (pb_dec_bytes rd realloc field bdest s))) \<and>
         istream_moved s (snd (snd (pb_dec_string rd realloc' field sdest s))) \<and>
         istream_moved s (snd (snd (pb_dec_fixed_length_bytes rd field dest s)))"
  by (intro conjI pb_decode_tag_moved pb_dec_moved pb_dec_block_moved inside_moved [OF stays_inside_varint] inside_moved [OF stays_inside_varint32]
        inside_moved [OF stays_inside_values(1)] inside_moved [OF stays_inside_values(2)] inside_moved [OF stays_inside_values(3)]
        inside_moved [OF stays_inside_skip_field] inside_moved [OF stays_inside_raw_value] assms)

lemma pb_decoders_stay_inside_witness:
  "istream_moved (pb_istream_from_buffer [0xFF, 0xFF] 2) (snd (pb_decode_varint32 null_read (pb_istream_from_buffer [0xFF, 0xFF] 2))) \<and>
   istream_moved (pb_istream_from_buffer [0xFF, 0xFF] 2)
     (snd (snd (pb_dec_string null_read (\<lambda>_ _. None) \<lparr>pf_tag = 2, pf_type = 0x16, pf_data_offset = 0, pf_size_offset = 0, pf_data_size = 8, pf_array_size = 0, pf_ptr = None\<rparr>
                  (Some (replicate 8 0)) (pb_istream_from_buffer [0xFF, 0xFF] 2))))"
  using pb_decoders_stay_inside [of "pb_istream_from_buffer [0xFF, 0xFF] 2" null_read 0 0
      "\<lparr>pf_tag = 2, pf_type = 0x16, pf_data_offset = 0, pf_size_offset = 0, pf_data_size = 8, pf_array_size = 0, pf_ptr = None\<rparr>" "[]" "\<lambda>_ _. None" None "\<lambda>_ _. None" "Some (replicate 8 0)"]
  by (simp add: pb_istream_from_buffer_def)

text \<open>The bytes that \<open>pb_encode_varint\<close> hands to the stream are the base-128 digits of the value, low digit
  first, every digit but the last marked by its top bit, and as few of them as possible; its loop
  never stores more than the ten bytes that its local buffer holds.
\<close>

theorem pb_encode_varint_digits:
  "pb_encode_varint wr v = pb_write wr (varint_ref (unat v)) (length (varint_ref (unat v))) \<and>
   length (varint_loop v) \<le> 10"
proof -
  have len: "length (unset_top (varint_loop v)) = length (varint_loop v)" if "v \<noteq> 0"
    using varint_loop_nonempty [OF that] by (simp add: unset_top_def)
  have "length (varint_loop v) \<le> 10"
    using len unset_top_varint_loop [of v] varint_bytes_length(2) [of v] by (cases "v = 0") (auto simp: varint_loop.simps)
  then show ?thesis by (simp add: pb_encode_varint_write varint_bytes_def)
qed

end
