(* ===== verification/PbCommon.thy ===== *)
theory PbCommon
  imports PbWire
begin

text \<open>
  Memory and field iterators, shared by the encoder and the decoder of messages (nanopb/pb_common.c).
  Memory is a function from addresses to bytes, little-endian, with pointers of eight bytes.
\<close>

section \<open>Memory and field iterators\<close>

subsection \<open>Iterators over the fields of a structure\<close>

type_synonym memory = "nat \<Rightarrow> byte"

definition addr_add :: "nat \<Rightarrow> int \<Rightarrow> nat" where
  "addr_add a k = nat ((int a + k) mod 2 ^ 64)"

primrec mem_read :: "memory \<Rightarrow> nat \<Rightarrow> nat \<Rightarrow> byte list" where
  "mem_read mem a 0 = []"
| "mem_read mem a (Suc n) = mem a # mem_read mem (size_add a 1) n"

definition read_pointer :: "memory \<Rightarrow> nat \<Rightarrow> nat" where
  "read_pointer mem a = unat (le_word (mem_read mem a 8))"

definition read_size :: "memory \<Rightarrow> nat \<Rightarrow> nat" where
  "read_size mem a = unat (le_word (mem_read mem a 4))"

record pb_field_iter =
  it_start :: "pb_field list"
  it_pos :: nat
  it_required_field_index :: nat
  it_dest_struct :: nat
  it_pData :: nat
  it_pSize :: nat

text \<open>
  A descriptor array is the list of the fields in front of its terminator, the entry with tag 0. The
  flag is what the function returns.
\<close>

definition pb_field_iter_begin :: "pb_field list \<Rightarrow> nat \<Rightarrow> bool \<times> pb_field_iter" where
  "pb_field_iter_begin flds dest_struct =
     (let first_offset = (case flds of [] \<Rightarrow> 0 | f # _ \<Rightarrow> pf_data_offset f);
          first_size_offset = (case flds of [] \<Rightarrow> 0 | f # _ \<Rightarrow> pf_size_offset f);
          pData = (if dest_struct = 0 then 0 else size_add dest_struct first_offset);
          pSize = (if dest_struct = 0 then 0 else addr_add pData first_size_offset)
      in (flds \<noteq> [], \<lparr>it_start = flds, it_pos = 0, it_required_field_index = 0, it_dest_struct = dest_struct,
                        it_pData = pData, it_pSize = pSize\<rparr>))"

definition PB_HTYPE_REQUIRED :: byte where
  "PB_HTYPE_REQUIRED = 0x00"

definition PB_HTYPE_OPTIONAL :: byte where
  "PB_HTYPE_OPTIONAL = 0x10"

definition PB_HTYPE_ONEOF :: byte where
  "PB_HTYPE_ONEOF = 0x30"

definition PB_ATYPE_CALLBACK :: byte where
  "PB_ATYPE_CALLBACK = 0x40"

definition PB_SIZE_MAX :: nat where
  "PB_SIZE_MAX = 2 ^ 32 - 1"

definition field_extent :: "pb_field \<Rightarrow> nat" where
  "field_extent prev_field =
     (if PB_ATYPE (pf_type prev_field) = PB_ATYPE_STATIC \<and> PB_HTYPE (pf_type prev_field) = PB_HTYPE_REPEATED
      then size_mul (pf_data_size prev_field) (pf_array_size prev_field)
      else if PB_ATYPE (pf_type prev_field) = PB_ATYPE_POINTER then 8
      else pf_data_size prev_field)"

definition pb_field_iter_next :: "pb_field_iter \<Rightarrow> bool \<times> pb_field_iter" where
  "pb_field_iter_next iter =
     (if length (it_start iter) \<le> it_pos iter then (False, iter)
      else if length (it_start iter) \<le> it_pos iter + 1
      then (False, snd (pb_field_iter_begin (it_start iter) (it_dest_struct iter)))
      else
        let prev_field = it_start iter ! it_pos iter;
            pos = it_start iter ! (it_pos iter + 1);
            iter1 = iter\<lparr>it_pos := it_pos iter + 1\<rparr>
        in if PB_HTYPE (pf_type prev_field) = PB_HTYPE_ONEOF \<and> PB_HTYPE (pf_type pos) = PB_HTYPE_ONEOF \<and>
              pf_data_offset pos = PB_SIZE_MAX
           then (True, iter1)
           else
             let iter2 = (if PB_HTYPE (pf_type prev_field) = PB_HTYPE_REQUIRED
                          then iter1\<lparr>it_required_field_index := it_required_field_index iter + 1\<rparr> else iter1);
                 pData = size_add (size_add (it_pData iter) (field_extent prev_field)) (pf_data_offset pos)
             in (True, iter2\<lparr>it_pData := pData, it_pSize := addr_add pData (pf_size_offset pos)\<rparr>))"

lemma pb_field_iter_next_pos:
  "pb_field_iter_next iter = (True, iter') \<Longrightarrow>
     it_start iter' = it_start iter \<and> it_pos iter' = Suc (it_pos iter) \<and> it_pos iter' < length (it_start iter)"
  by (auto simp: pb_field_iter_next_def Let_def split: if_splits)

text \<open>The states of an iterator in the loop \<open>do ... while (pb_field_iter_next(&iter))\<close>.\<close>

function iterations :: "pb_field_iter \<Rightarrow> pb_field_iter list" where
  "iterations iter = iter # (case pb_field_iter_next iter of (True, iter') \<Rightarrow> iterations iter' | (False, _) \<Rightarrow> [])"
  by pat_completeness auto
termination
  by (relation "measure (\<lambda>iter. length (it_start iter) - it_pos iter)") (auto dest!: pb_field_iter_next_pos [OF sym])

declare iterations.simps [simp del]

text \<open>The descriptor \<open>iter->pos\<close>, which is the terminator in an empty message type only.\<close>

definition PB_LAST_FIELD :: pb_field where
  "PB_LAST_FIELD = \<lparr>pf_tag = 0, pf_type = 0, pf_data_offset = 0, pf_size_offset = 0, pf_data_size = 0, pf_array_size = 0, pf_ptr = None\<rparr>"

definition it_field :: "pb_field_iter \<Rightarrow> pb_field" where
  "it_field iter = (if it_pos iter < length (it_start iter) then it_start iter ! it_pos iter else PB_LAST_FIELD)"

definition message_iters :: "pb_field list \<Rightarrow> nat \<Rightarrow> pb_field_iter list" where
  "message_iters flds dest_struct =
     (case pb_field_iter_begin flds dest_struct of (False, _) \<Rightarrow> [] | (True, iter) \<Rightarrow> iterations iter)"

definition message_fields :: "pb_field list \<Rightarrow> nat \<Rightarrow> (pb_field \<times> nat) list" where
  "message_fields flds src_struct = map (\<lambda>it. (it_field it, it_pData it)) (message_iters flds src_struct)"

text \<open>
  The loops of \<open>pb_field_iter_find\<close> and \<open>find_extension_field\<close>: go round the array, from the current field back to
  it, until a field passes the test.
\<close>

definition iter_search :: "(pb_field \<Rightarrow> bool) \<Rightarrow> pb_field_iter \<Rightarrow> (bool \<times> pb_field_iter) option" where
  "iter_search found iter = c_loop (\<lambda>it.
     if found (it_field it) then Some (Inr (True, it))
     else let it' = snd (pb_field_iter_next it)
          in Some (if it_pos it' \<noteq> it_pos iter then Inl it' else Inr (False, it'))) iter"

definition pb_field_iter_find :: "pb_field_iter \<Rightarrow> u32 \<Rightarrow> (bool \<times> pb_field_iter) option" where
  "pb_field_iter_find iter tag = iter_search (\<lambda>f. pf_tag f = tag \<and> PB_LTYPE (pf_type f) \<noteq> 0x09) iter"

definition find_extension_field :: "pb_field_iter \<Rightarrow> (bool \<times> pb_field_iter) option" where
  "find_extension_field iter = iter_search (\<lambda>f. PB_LTYPE (pf_type f) = 0x09) iter"

lemmas field_type_simps = PB_LTYPE_def PB_ATYPE_def PB_HTYPE_def PB_ATYPE_STATIC_def PB_ATYPE_POINTER_def PB_ATYPE_CALLBACK_def
  PB_HTYPE_REQUIRED_def PB_HTYPE_OPTIONAL_def PB_HTYPE_REPEATED_def PB_HTYPE_ONEOF_def

subsection \<open>The walk of an iterator\<close>

primrec iter_at :: "pb_field list \<Rightarrow> nat \<Rightarrow> nat \<Rightarrow> pb_field_iter" where
  "iter_at flds dest 0 = snd (pb_field_iter_begin flds dest)"
| "iter_at flds dest (Suc i) = snd (pb_field_iter_next (iter_at flds dest i))"

lemma pb_field_iter_begin_simps [simp]:
  "it_start (snd (pb_field_iter_begin flds dest)) = flds" "it_dest_struct (snd (pb_field_iter_begin flds dest)) = dest"
  "it_pos (snd (pb_field_iter_begin flds dest)) = 0" "fst (pb_field_iter_begin flds dest) \<longleftrightarrow> flds \<noteq> []"
  by (simp_all add: pb_field_iter_begin_def Let_def)

lemma pb_field_iter_next_simps [simp]:
  "it_start (snd (pb_field_iter_next it)) = it_start it" "it_dest_struct (snd (pb_field_iter_next it)) = it_dest_struct it"
  by (simp_all add: pb_field_iter_next_def Let_def)

lemma pb_field_iter_next_steps:
  "it_pos it < length (it_start it) \<Longrightarrow>
     fst (pb_field_iter_next it) = (Suc (it_pos it) < length (it_start it)) \<and>
     it_pos (snd (pb_field_iter_next it)) = (if Suc (it_pos it) < length (it_start it) then Suc (it_pos it) else 0)"
  by (simp add: pb_field_iter_next_def Let_def)

lemma iter_at_pos [simp]:
  "it_start (iter_at flds dest i) = flds" "it_dest_struct (iter_at flds dest i) = dest"
  "i < length flds \<Longrightarrow> it_pos (iter_at flds dest i) = i"
proof -
  show start: "it_start (iter_at flds dest i) = flds" "it_dest_struct (iter_at flds dest i) = dest" for i
    by (induction i) simp_all
  show "i < length flds \<Longrightarrow> it_pos (iter_at flds dest i) = i"
    by (induction i) (simp_all add: pb_field_iter_next_steps start)
qed

lemma it_field_at [simp]: "i < length flds \<Longrightarrow> it_field (iter_at flds dest i) = flds ! i"
  by (simp add: it_field_def)

lemma pb_field_iter_next_at:
  "i < length flds \<Longrightarrow>
     pb_field_iter_next (iter_at flds dest i) =
       (if Suc i < length flds then (True, iter_at flds dest (Suc i)) else (False, iter_at flds dest 0))"
  using pb_field_iter_next_steps [of "iter_at flds dest i"]
  by (auto simp: prod_eq_iff) (simp add: pb_field_iter_next_def)

lemma iterations_at: "i < length flds \<Longrightarrow> iterations (iter_at flds dest i) = map (iter_at flds dest) [i..<length flds]"
proof (induction "length flds - i" arbitrary: i)
  case (Suc k)
  then show ?case
  proof (cases "Suc i < length flds")
    case True
    then have "iterations (iter_at flds dest i) = iter_at flds dest i # iterations (iter_at flds dest (Suc i))"
      using Suc(3) by (subst iterations.simps) (simp add: pb_field_iter_next_at del: iter_at.simps)
    then show ?thesis using Suc True by (simp add: upt_conv_Cons del: iter_at.simps)
  next
    case False
    then show ?thesis using Suc(3) by (subst iterations.simps) (simp add: pb_field_iter_next_at upt_conv_Cons del: iter_at.simps)
  qed
qed simp

lemma message_iters_at: "message_iters flds dest = map (iter_at flds dest) [0..<length flds]"
  using iterations_at [of 0 flds dest]
  by (cases "flds = []") (auto simp: message_iters_def pb_field_iter_begin_def Let_def)

lemma message_fields_at: "message_fields flds src = map (\<lambda>i. (flds ! i, it_pData (iter_at flds src i))) [0..<length flds]"
  by (simp add: message_fields_def message_iters_at)

lemma message_fields_in: "fp \<in> set (message_fields flds src) \<Longrightarrow> fst fp \<in> set flds"
  by (auto simp: message_fields_at)

lemma message_fields_Nil [simp]: "message_fields [] src = []"
  by (simp add: message_fields_at)

text \<open>
  A search from position \<open>i\<close> of an array of \<open>n\<close> fields visits the positions \<open>(i + k) mod n\<close>. Only the iterator it
  starts with may differ from the walk, as long as the next one does not.
\<close>

definition search_offset :: "(pb_field \<Rightarrow> bool) \<Rightarrow> pb_field list \<Rightarrow> nat \<Rightarrow> nat option" where
  "search_offset found flds i = List.find (\<lambda>k. found (flds ! ((i + k) mod length flds))) [0..<length flds]"

lemma next_mod: "i < n \<Longrightarrow> k < n \<Longrightarrow> (if Suc ((i + k) mod n) < n then Suc ((i + k) mod n) else 0) = (i + Suc k) mod n"
  for i k n :: nat
  by (cases "i + k < n") (auto simp: mod_if)

lemma next_mod_start: "i < n \<Longrightarrow> k < n \<Longrightarrow> (i + Suc k) mod n = i \<longleftrightarrow> Suc k = n" for i k n :: nat
  by (auto simp: mod_if split: if_splits)

lemma iter_search_from:
  fixes flds dest i n
  defines "n \<equiv> length flds"
  assumes i: "i < n" "k < n"
    and it: "it_start it = flds" "it_pos it = (i + k) mod n" "pb_field_iter_next it = pb_field_iter_next (iter_at flds dest ((i + k) mod n))"
  shows "c_loop (\<lambda>it. if found (it_field it) then Some (Inr (True, it))
            else let it' = snd (pb_field_iter_next it)
                 in Some (if it_pos it' \<noteq> i then Inl it' else Inr (False, it'))) it =
         Some (if found (flds ! ((i + k) mod n)) then (True, it)
               else case List.find (\<lambda>k. found (flds ! ((i + k) mod n))) [Suc k..<n] of
                      None \<Rightarrow> (False, iter_at flds dest i) | Some k' \<Rightarrow> (True, iter_at flds dest ((i + k') mod n)))"
  using i(2) it
proof (induction "n - k" arbitrary: k it)
  case (Suc m)
  have pos: "(i + k) mod n < n" using i(1) by simp
  have field: "it_field it = flds ! ((i + k) mod n)" using Suc(4,5) pos by (simp add: it_field_def n_def)
  have nxt: "snd (pb_field_iter_next it) = iter_at flds dest ((i + Suc k) mod n)"
    using pb_field_iter_next_at [of "(i + k) mod n" flds dest] pos Suc(6) next_mod [OF i(1) Suc(3)]
    by (auto simp: n_def split: if_splits simp del: iter_at.simps)
  have pos': "it_pos (iter_at flds dest ((i + Suc k) mod n)) = (i + Suc k) mod n"
    by (rule iter_at_pos(3)) (use i(1) in \<open>auto simp: n_def intro!: mod_less_divisor\<close>)
  show ?case
  proof (cases "found (flds ! ((i + k) mod n))")
    case False
    show ?thesis
    proof (cases "Suc k = n")
      case True
      then show ?thesis using False i(1) by (subst c_loop.simps) (simp add: field nxt Let_def iter_at_pos(3) [OF i(1) [unfolded n_def]] next_mod_start [OF i(1) Suc(3)] del: iter_at.simps)
    next
      case False': False
      then have k: "Suc k < n" using Suc(3) by simp
      have "m = n - Suc k" using Suc(2) by simp
      from Suc(1) [OF this k _ pos' refl] False show ?thesis
        by (subst c_loop.simps)
           (simp add: field nxt pos' next_mod_start [OF i(1) Suc(3)] False' upt_conv_Cons [OF k] Let_def del: iter_at.simps add_Suc_right)
    qed
  qed (subst c_loop.simps, simp add: field)
qed simp

lemma iter_search_at:
  assumes "i < length flds" "it_start it = flds" "it_pos it = i" "pb_field_iter_next it = pb_field_iter_next (iter_at flds dest i)"
  shows "iter_search found it =
           Some (case search_offset found flds i of
                   None \<Rightarrow> (False, iter_at flds dest i)
                 | Some k \<Rightarrow> (True, if k = 0 then it else iter_at flds dest ((i + k) mod length flds)))"
proof -
  have "[0..<length flds] = 0 # [Suc 0..<length flds]" by (rule upt_conv_Cons) (use assms(1) in auto)
  moreover have "List.find (\<lambda>k. found (flds ! ((i + k) mod length flds))) [Suc 0..<length flds] \<noteq> Some 0"
    by (simp add: find_Some_iff)
  moreover have "flds \<noteq> []" using assms(1) by auto
  ultimately show ?thesis
    using iter_search_from [OF assms(1), of 0 it dest found] assms
    by (auto simp: iter_search_def search_offset_def split: option.split simp del: iter_at.simps)
qed

lemma pb_field_iter_find_at:
  assumes "i < length flds"
  shows "pb_field_iter_find (iter_at flds dest i) tag =
           Some (case search_offset (\<lambda>f. pf_tag f = tag \<and> PB_LTYPE (pf_type f) \<noteq> 0x09) flds i of
                   None \<Rightarrow> (False, iter_at flds dest i)
                 | Some k \<Rightarrow> (True, iter_at flds dest ((i + k) mod length flds)))"
  using iter_search_at [OF assms, of "iter_at flds dest i" dest] assms
  by (auto simp: pb_field_iter_find_def split: option.split simp del: iter_at.simps)

lemma mod_offset: "i < n \<Longrightarrow> j < n \<Longrightarrow> \<exists>k<n. (i + k) mod n = j" for i j n :: nat
  by (rule exI [of _ "if i \<le> j then j - i else n + j - i"]) (auto simp: mod_if)

lemma search_offset_None: "i < length flds \<Longrightarrow> search_offset found flds i = None \<longleftrightarrow> (\<forall>f \<in> set flds. \<not> found f)"
  unfolding search_offset_def find_None_iff set_upt
  by (auto simp: in_set_conv_nth) (metis mod_offset, metis mod_less_divisor length_pos_if_in_set nth_mem less_zeroE not_gr_zero)

lemma search_offset_unique:
  assumes "i < length flds" "j < length flds" "found (flds ! j)" "\<And>j'. j' < length flds \<Longrightarrow> found (flds ! j') \<Longrightarrow> j' = j"
  shows "\<exists>k. search_offset found flds i = Some k \<and> (i + k) mod length flds = j"
proof -
  have "search_offset found flds i \<noteq> None" using assms(2,3) by (auto simp: search_offset_None [OF assms(1)])
  then obtain k where k: "search_offset found flds i = Some k" by blast
  then have "found (flds ! ((i + k) mod length flds))" by (auto simp: search_offset_def find_Some_iff)
  moreover have "(i + k) mod length flds < length flds" using assms(1) by (auto intro!: mod_less_divisor)
  ultimately show ?thesis using k assms(4) by blast
qed

lemma pb_field_iter_find_unique:
  assumes "i < length flds" "j < length flds" "PB_LTYPE (pf_type (flds ! j)) \<noteq> 0x09" "distinct (map pf_tag flds)"
  shows "pb_field_iter_find (iter_at flds dest i) (pf_tag (flds ! j)) = Some (True, iter_at flds dest j)"
proof -
  have "j' = j" if "j' < length flds" "pf_tag (flds ! j') = pf_tag (flds ! j)" for j'
    using assms(2,4) that by (simp add: distinct_conv_nth) (metis length_map nth_map)
  then have "\<exists>k. search_offset (\<lambda>f. pf_tag f = pf_tag (flds ! j) \<and> PB_LTYPE (pf_type f) \<noteq> 0x09) flds i = Some k \<and> (i + k) mod length flds = j"
    using assms(1-3) by (intro search_offset_unique) auto
  then show ?thesis by (auto simp: pb_field_iter_find_at [OF assms(1)] simp del: iter_at.simps)
qed

text \<open>C32. The search for a field number is exact. From any field of a message type, \<open>pb_field_iter_find\<close> returns; when it succeeds, the
  iterator is at the first field with the wanted number that is not an extension range, in the order that goes round
  the array from the current field, and it points to that field's storage; when it fails, there is no such field and
  the iterator is where it was, so that the next search starts there.
\<close>

theorem pb_field_iter_find_exact:
  assumes "i < length flds"
  shows "case pb_field_iter_find (iter_at flds dest i) tag of
           None \<Rightarrow> False
         | Some (False, it) \<Rightarrow> it = iter_at flds dest i \<and> (\<forall>f \<in> set flds. pf_tag f = tag \<longrightarrow> PB_LTYPE (pf_type f) = 0x09)
         | Some (True, it) \<Rightarrow>
             \<exists>k<length flds. it = iter_at flds dest ((i + k) mod length flds) \<and>
               pf_tag (it_field it) = tag \<and> PB_LTYPE (pf_type (it_field it)) \<noteq> 0x09 \<and>
               (\<forall>k'<k. pf_tag (flds ! ((i + k') mod length flds)) = tag \<longrightarrow> PB_LTYPE (pf_type (flds ! ((i + k') mod length flds))) = 0x09)"
proof -
  have "(i + k) mod length flds < length flds" for k using assms by (auto intro!: mod_less_divisor)
  then show ?thesis
    using search_offset_None [OF assms, of "\<lambda>f. pf_tag f = tag \<and> PB_LTYPE (pf_type f) \<noteq> 0x09"]
    by (auto simp: pb_field_iter_find_at [OF assms] search_offset_def find_Some_iff split: option.split simp del: iter_at.simps)
qed

text \<open>Two required integers.\<close>

definition pair_fields :: "pb_field list" where
  "pair_fields =
     [\<lparr>pf_tag = 1, pf_type = 0x02, pf_data_offset = 0, pf_size_offset = 0, pf_data_size = 4, pf_array_size = 0, pf_ptr = None\<rparr>,
      \<lparr>pf_tag = 2, pf_type = 0x02, pf_data_offset = 0, pf_size_offset = 0, pf_data_size = 4, pf_array_size = 0, pf_ptr = None\<rparr>]"

lemma pb_field_iter_find_exact_witness:
  "\<exists>it. pb_field_iter_find (iter_at pair_fields 16 1) 1 = Some (True, it) \<and> it_pos it = 0 \<and> it_pData it = 16"
proof -
  have fs: "length pair_fields = 2" "pf_tag (pair_fields ! 0) = 1" "pf_tag (pair_fields ! 1) = 2" "PB_LTYPE (pf_type (pair_fields ! 0)) = 2" "pair_fields ! 0 \<in> set pair_fields"
    by (simp_all add: pair_fields_def field_type_simps)
  have start: "it_pos (iter_at pair_fields 16 0) = 0" "it_pData (iter_at pair_fields 16 0) = 16"
    by (simp_all add: pair_fields_def pb_field_iter_begin_def)
  have "1 < length pair_fields" by (simp add: fs)
  note find = pb_field_iter_find_exact [OF this, of 16 1]
  have "iter_at pair_fields 16 ((1 + k) mod 2) = iter_at pair_fields 16 0" if "k < 2" "pf_tag (pair_fields ! ((1 + k) mod 2)) = 1" for k
    using that fs by (auto simp: less_2_cases_iff simp del: iter_at.simps One_nat_def)
  with find fs start show ?thesis
    by (auto split: option.splits bool.splits simp del: iter_at.simps)
qed

end
