(* ===== verification/PbMessage.thy ===== *)
theory PbMessage
  imports PbCommon
begin

text \<open>
  The encoder of whole messages (nanopb/pb_encode.c): field descriptors walked over a structure in
  memory, required, optional, repeated, oneof, callback and extension fields, packed arrays, the
  proto3 test for default values, and submessages. The reference is
  \<open>msg_wire\<close>, the bytes of a message; \<open>encodes\<close> relates an encoder to them, and one lemma per operation shows
  that the code keeps this relation.
\<close>

section \<open>Encoding protocol buffer messages\<close>

subsection \<open>Encoding of messages\<close>

text \<open>
  What the encoder of messages reaches besides its stream: the callback of the stream, the memory, the
  descriptor arrays by their address, the functions of the callback fields (with the address of the
  field; None for NULL) and the extensions registered at an extension field.
\<close>

record 's pb_extension =
  ex_encode :: "('s pb_ostream, unit) stm option"
  ex_field :: pb_field
  ex_dest :: nat
  ex_dest_addr :: nat

record 's pb_env =
  env_write :: "'s ocallback"
  env_mem :: memory
  env_descs :: "nat \<Rightarrow> pb_field list"
  env_callback :: "pb_field \<Rightarrow> nat \<Rightarrow> ('s pb_ostream, unit) stm option"
  env_extensions :: "nat \<Rightarrow> 's pb_extension list"

fun st_all :: "('a \<Rightarrow> ('t, unit) stm) \<Rightarrow> 'a list \<Rightarrow> ('t, unit) stm" where
  "st_all f [] = st_return ()"
| "st_all f (x # xs) = st_bind (f x) (\<lambda>_. st_all f xs)"

function c_strnlen :: "memory \<Rightarrow> nat \<Rightarrow> nat \<Rightarrow> nat" where
  "c_strnlen mem max_size a = (if 0 < max_size \<and> mem a \<noteq> 0 then Suc (c_strnlen mem (max_size - 1) (size_add a 1)) else 0)"
  by pat_completeness auto
termination
  by (relation "measure (\<lambda>(mem, max_size, a). max_size)") auto

declare c_strnlen.simps [simp del]

definition string_at :: "memory \<Rightarrow> pb_field \<Rightarrow> nat \<Rightarrow> byte list" where
  "string_at mem field a =
     mem_read mem a (c_strnlen mem (if PB_ATYPE (pf_type field) = PB_ATYPE_POINTER then SIZE_MAX else pf_data_size field) a)"

definition bytes_at :: "memory \<Rightarrow> nat \<Rightarrow> pb_bytes_array" where
  "bytes_at mem a = \<lparr>ba_size = of_nat (read_size mem a), ba_bytes = mem_read mem (size_add a offsetof_bytes) (read_size mem a)\<rparr>"

text \<open>
  \<open>PB_ENCODERS[PB_LTYPE(field->type)](stream, field, p)\<close>. The entry of extensions is NULL and the table ends
  with fixed-length bytes; \<open>pb_encode_tag_for_field\<close> has refused the other types before.
\<close>

definition pb_encoder :: "'s pb_env \<Rightarrow> (pb_field list \<Rightarrow> nat \<Rightarrow> ('s pb_ostream, unit) stm) \<Rightarrow> pb_field \<Rightarrow> nat \<Rightarrow> ('s pb_ostream, unit) stm" where
  "pb_encoder E enc field p =
     (let t = PB_LTYPE (pf_type field); wr = env_write E; mem = env_mem E
      in if t = 0x00 then pb_enc_bool wr (mem_read mem p 1)
         else if t = 0x01 then pb_enc_varint wr field (mem_read mem p (pf_data_size field))
         else if t = 0x02 then pb_enc_uvarint wr field (mem_read mem p (pf_data_size field))
         else if t = 0x03 then pb_enc_svarint wr field (mem_read mem p (pf_data_size field))
         else if t = 0x04 then pb_enc_fixed32 wr (mem_read mem p 4)
         else if t = 0x05 then pb_enc_fixed64 wr (mem_read mem p 8)
         else if t = 0x06 then pb_enc_bytes wr field (if p = 0 then None else Some (bytes_at mem p))
         else if t = 0x07 then pb_enc_string wr field (if p = 0 then None else Some (string_at mem field p))
         else if t = 0x08 then pb_enc_submessage wr field (enc (case pf_ptr field of None \<Rightarrow> [] | Some d \<Rightarrow> env_descs E d) p)
         else if t = 0x0A then pb_enc_fixed_length_bytes wr field (mem_read mem p (pf_data_size field))
         else st_fail)"

definition elements :: "pb_field \<Rightarrow> nat \<Rightarrow> nat \<Rightarrow> nat list" where
  "elements field pData count = map (\<lambda>i. size_add pData (size_mul i (pf_data_size field))) [0..<count]"

text \<open>The total size of a packed array; the element is always four or eight bytes for the fixed-width types.\<close>

definition packed_size :: "(pb_field \<Rightarrow> nat \<Rightarrow> ('s pb_ostream, unit) stm) \<Rightarrow> pb_field \<Rightarrow> nat \<Rightarrow> nat \<Rightarrow> nat option" where
  "packed_size func field pData count =
     (let t = PB_LTYPE (pf_type field)
      in if t = 0x04 then Some (size_mul 4 count)
         else if t = 0x05 then Some (size_mul 8 count)
         else case st_all (func field) (elements field pData count) PB_OSTREAM_SIZING of
                (None, _) \<Rightarrow> None
              | (Some _, sizestream) \<Rightarrow> Some (os_bytes_written sizestream))"

text \<open>The size, and then the elements or, on a stream that only counts, the size added to the count.\<close>

definition write_packed :: "'s ocallback \<Rightarrow> nat \<Rightarrow> ('s pb_ostream, unit) stm \<Rightarrow> ('s pb_ostream, unit) stm" where
  "write_packed wr sz body stream =
     (case pb_encode_varint wr (of_nat sz) stream of
        (None, stream2) \<Rightarrow> (None, stream2)
      | (Some _, stream2) \<Rightarrow> if is_sizing (os_sink stream2) then pb_write wr [] sz stream2 else body stream2)"

definition encode_array :: "'s pb_env \<Rightarrow> (pb_field \<Rightarrow> nat \<Rightarrow> ('s pb_ostream, unit) stm) \<Rightarrow> pb_field \<Rightarrow> nat \<Rightarrow> nat \<Rightarrow> ('s pb_ostream, unit) stm" where
  "encode_array E func field pData count =
     (let t = PB_LTYPE (pf_type field); wr = env_write E; ptr = (PB_ATYPE (pf_type field) = PB_ATYPE_POINTER);
          ps = elements field pData count
      in if count = 0 then st_return ()
         else if \<not> ptr \<and> count > pf_array_size field then PB_RETURN_OERROR ''array max size exceeded''
         else if t \<le> 0x05 then
           st_bind (pb_encode_tag wr PB_WT_STRING (pf_tag field)) (\<lambda>_.
             case packed_size func field pData count of
               None \<Rightarrow> st_fail
             | Some sz \<Rightarrow> write_packed wr sz (st_all (func field) ps))
         else
           st_all (\<lambda>p. st_bind (pb_encode_tag_for_field wr field) (\<lambda>_.
               func field (if ptr \<and> t \<in> {0x06, 0x07} then read_pointer (env_mem E) p else p))) ps)"

text \<open>
  \<open>pb_check_proto3_default_value\<close>; the first argument bounds the nesting of submessages, None when it is
  exceeded.
\<close>

fun all_opt :: "('a \<Rightarrow> bool option) \<Rightarrow> 'a list \<Rightarrow> bool option" where
  "all_opt p [] = Some True"
| "all_opt p (x # xs) = (case p x of None \<Rightarrow> None | Some False \<Rightarrow> Some False | Some True \<Rightarrow> all_opt p xs)"

definition check_default :: "(pb_field \<times> nat \<Rightarrow> bool option) \<Rightarrow> 's pb_env \<Rightarrow> pb_field \<Rightarrow> nat \<Rightarrow> bool option" where
  "check_default rec E field pData =
     (let h = PB_HTYPE (pf_type field); a = PB_ATYPE (pf_type field); t = PB_LTYPE (pf_type field);
          mem = env_mem E; pSize = addr_add pData (pf_size_offset field);
          zero_bytes = Some (\<forall>b \<in> set (mem_read mem pData (pf_data_size field)). b = 0);
          singular =
            (if a = PB_ATYPE_STATIC \<and> t = 0x06 then Some (read_size mem pData = 0)
             else if a = PB_ATYPE_STATIC \<and> t = 0x07 then Some (mem pData = 0)
             else if a = PB_ATYPE_STATIC \<and> t = 0x0A then Some (pf_data_size field = 0)
             else if a = PB_ATYPE_STATIC \<and> t = 0x08
             then all_opt rec (message_fields (case pf_ptr field of None \<Rightarrow> [] | Some d \<Rightarrow> env_descs E d) pData)
             else if a = PB_ATYPE_POINTER \<and> t > 0x05 then Some (read_pointer mem pData = 0)
             else zero_bytes)
      in if h = PB_HTYPE_REQUIRED then Some False
         else if h = PB_HTYPE_REPEATED then
           (if pf_size_offset field \<noteq> 0 then Some (read_size mem pSize = 0)
            else if a = PB_ATYPE_STATIC then Some False else singular)
         else if h = PB_HTYPE_ONEOF then Some (read_size mem pSize = 0)
         else if h = PB_HTYPE_OPTIONAL \<and> pf_size_offset field \<noteq> 0 then Some (\<not> safe_read_bool (mem_read mem pSize 1))
         else singular)"

primrec pb_check_proto3_default_value :: "nat \<Rightarrow> 's pb_env \<Rightarrow> pb_field \<times> nat \<Rightarrow> bool option" where
  "pb_check_proto3_default_value 0 E fp = None"
| "pb_check_proto3_default_value (Suc n) E fp = check_default (pb_check_proto3_default_value n E) E (fst fp) (snd fp)"

definition encode_basic_field ::
  "nat \<Rightarrow> 's pb_env \<Rightarrow> (pb_field list \<Rightarrow> nat \<Rightarrow> ('s pb_ostream, unit) stm) \<Rightarrow> pb_field \<Rightarrow> nat \<Rightarrow> ('s pb_ostream, unit) stm" where
  "encode_basic_field n E enc field pData =
     (let func = pb_encoder E enc; h = PB_HTYPE (pf_type field); mem = env_mem E; wr = env_write E;
          ptr = (PB_ATYPE (pf_type field) = PB_ATYPE_POINTER);
          pSize = addr_add pData (pf_size_offset field);
          data = (if ptr then read_pointer mem pData else pData);
          value = st_bind (pb_encode_tag_for_field wr field) (\<lambda>_. func field data);
          implicit_has =
            (if pf_size_offset field = 0 \<and> h = PB_HTYPE_OPTIONAL
             then map_option Not (pb_check_proto3_default_value n E (field, pData)) else Some True)
      in case implicit_has of
           None \<Rightarrow> st_fail
         | Some has \<Rightarrow>
             let has1 = (if ptr then data \<noteq> 0 else has)
             in if h = PB_HTYPE_REQUIRED then
                  (if data = 0 then PB_RETURN_OERROR ''missing required field'' else value)
                else if h = PB_HTYPE_OPTIONAL then
                  (if (if pf_size_offset field \<noteq> 0 then safe_read_bool (mem_read mem pSize 1) else has1) then value
                   else st_return ())
                else if h = PB_HTYPE_REPEATED then
                  encode_array E func field data
                    (if pf_size_offset field \<noteq> 0 then read_size mem pSize else pf_array_size field)
                else (if read_size mem pSize = unat (pf_tag field) then value else st_return ()))"

definition encode_callback_field :: "'s pb_env \<Rightarrow> pb_field \<Rightarrow> nat \<Rightarrow> ('s pb_ostream, unit) stm" where
  "encode_callback_field E field pData stream =
     (case env_callback E field pData of
        None \<Rightarrow> (Some (), stream)
      | Some f \<Rightarrow> (case f stream of (None, stream1) \<Rightarrow> PB_RETURN_OERROR ''callback error'' stream1 | (Some _, stream1) \<Rightarrow> (Some (), stream1)))"

definition encode_field ::
  "nat \<Rightarrow> 's pb_env \<Rightarrow> (pb_field list \<Rightarrow> nat \<Rightarrow> ('s pb_ostream, unit) stm) \<Rightarrow> pb_field \<Rightarrow> nat \<Rightarrow> ('s pb_ostream, unit) stm" where
  "encode_field n E enc field pData =
     (let a = PB_ATYPE (pf_type field)
      in if a = PB_ATYPE_STATIC \<or> a = PB_ATYPE_POINTER then encode_basic_field n E enc field pData
         else if a = PB_ATYPE_CALLBACK then encode_callback_field E field pData
         else PB_RETURN_OERROR ''invalid field type'')"

definition default_extension_encoder ::
  "nat \<Rightarrow> 's pb_env \<Rightarrow> (pb_field list \<Rightarrow> nat \<Rightarrow> ('s pb_ostream, unit) stm) \<Rightarrow> 's pb_extension \<Rightarrow> ('s pb_ostream, unit) stm" where
  "default_extension_encoder n E enc ext =
     (if PB_ATYPE (pf_type (ex_field ext)) = PB_ATYPE_POINTER then encode_field n E enc (ex_field ext) (ex_dest_addr ext)
      else encode_field n E enc (ex_field ext) (ex_dest ext))"

definition encode_extension_field ::
  "nat \<Rightarrow> 's pb_env \<Rightarrow> (pb_field list \<Rightarrow> nat \<Rightarrow> ('s pb_ostream, unit) stm) \<Rightarrow> nat \<Rightarrow> ('s pb_ostream, unit) stm" where
  "encode_extension_field n E enc pData =
     st_all (\<lambda>ext. case ex_encode ext of Some f \<Rightarrow> f | None \<Rightarrow> default_extension_encoder n E enc ext) (env_extensions E pData)"

text \<open>
  \<open>pb_encode\<close>. The first argument bounds the nesting of messages, which C bounds by its stack only:
  recursive message types nest as deep as the data does.
\<close>

primrec pb_encode :: "nat \<Rightarrow> 's pb_env \<Rightarrow> pb_field list \<Rightarrow> nat \<Rightarrow> ('s pb_ostream, unit) stm" where
  "pb_encode 0 E flds src_struct = st_fail"
| "pb_encode (Suc n) E flds src_struct =
     st_all (\<lambda>(field, pData).
         if PB_LTYPE (pf_type field) = 0x09 then encode_extension_field (Suc n) E (pb_encode n E) pData
         else encode_field (Suc n) E (pb_encode n E) field pData)
       (message_fields flds src_struct)"

subsection \<open>The bytes of a message\<close>

definition app_opt :: "byte list option \<Rightarrow> byte list option \<Rightarrow> byte list option" where
  "app_opt a b = (case a of None \<Rightarrow> None | Some x \<Rightarrow> (case b of None \<Rightarrow> None | Some y \<Rightarrow> Some (x @ y)))"

definition concat_opt :: "byte list option list \<Rightarrow> byte list option" where
  "concat_opt ws = foldr app_opt ws (Some [])"

definition value_wire :: "'s pb_env \<Rightarrow> (pb_field list \<Rightarrow> nat \<Rightarrow> byte list option) \<Rightarrow> pb_field \<Rightarrow> nat \<Rightarrow> byte list option" where
  "value_wire E msg field p =
     (let t = PB_LTYPE (pf_type field); mem = env_mem E; n = pf_data_size field; src = mem_read mem p n
      in if t = 0x00 then Some (varint_bytes (if safe_read_bool (mem_read mem p 1) then 1 else 0))
         else if t = 0x01 then (if n \<in> {1, 2, 4, 8} then Some (varint_bytes (read_int n src)) else None)
         else if t = 0x02 then (if n \<in> {1, 2, 4, 8} then Some (varint_bytes (le_word src)) else None)
         else if t = 0x03 then (if n \<in> {1, 2, 4, 8} then Some (varint_bytes (zigzag (read_int n src))) else None)
         else if t = 0x04 then Some (mem_read mem p 4)
         else if t = 0x05 then Some (mem_read mem p 8)
         else if t = 0x06 then
           (if p = 0 then Some (string_bytes [])
            else if PB_ATYPE (pf_type field) = PB_ATYPE_STATIC \<and> read_size mem p > size_add n (2 ^ 64 - offsetof_bytes) then None
            else Some (string_bytes (mem_read mem (size_add p offsetof_bytes) (read_size mem p))))
         else if t = 0x07 then Some (string_bytes (if p = 0 then [] else string_at mem field p))
         else if t = 0x08 then (case pf_ptr field of None \<Rightarrow> None | Some d \<Rightarrow> map_option string_bytes (msg (env_descs E d) p))
         else if t = 0x0A then Some (string_bytes src)
         else None)"

definition tag_wire :: "pb_field \<Rightarrow> byte list option" where
  "tag_wire field =
     (let t = PB_LTYPE (pf_type field)
      in if t \<le> 0x03 then Some (varint_bytes (tag_word PB_WT_VARINT (pf_tag field)))
         else if t = 0x04 then Some (varint_bytes (tag_word PB_WT_32BIT (pf_tag field)))
         else if t = 0x05 then Some (varint_bytes (tag_word PB_WT_64BIT (pf_tag field)))
         else if t \<in> {0x06, 0x07, 0x08, 0x0A} then Some (varint_bytes (tag_word PB_WT_STRING (pf_tag field)))
         else None)"

definition array_wire :: "'s pb_env \<Rightarrow> (pb_field \<Rightarrow> nat \<Rightarrow> byte list option) \<Rightarrow> pb_field \<Rightarrow> nat \<Rightarrow> nat \<Rightarrow> byte list option" where
  "array_wire E val field pData count =
     (let t = PB_LTYPE (pf_type field); ps = elements field pData count; ptr = (PB_ATYPE (pf_type field) = PB_ATYPE_POINTER)
      in if count = 0 then Some []
         else if \<not> ptr \<and> count > pf_array_size field then None
         else if t \<le> 0x05 then
           app_opt (Some (varint_bytes (tag_word PB_WT_STRING (pf_tag field)))) (map_option string_bytes (concat_opt (map (val field) ps)))
         else concat_opt (map (\<lambda>p. app_opt (tag_wire field)
                                     (val field (if ptr \<and> t \<in> {0x06, 0x07} then read_pointer (env_mem E) p else p))) ps))"

definition field_wire ::
  "nat \<Rightarrow> 's pb_env \<Rightarrow> (pb_field list \<Rightarrow> nat \<Rightarrow> byte list option) \<Rightarrow> (pb_field \<Rightarrow> nat \<Rightarrow> byte list option) \<Rightarrow> pb_field \<Rightarrow> nat \<Rightarrow> byte list option" where
  "field_wire n E msg cb field pData =
     (let a = PB_ATYPE (pf_type field); h = PB_HTYPE (pf_type field); mem = env_mem E; ptr = (a = PB_ATYPE_POINTER);
          pSize = addr_add pData (pf_size_offset field);
          data = (if ptr then read_pointer mem pData else pData);
          value = app_opt (tag_wire field) (value_wire E msg field data);
          present =
            (if pf_size_offset field \<noteq> 0 then Some (safe_read_bool (mem_read mem pSize 1))
             else if ptr then map_option (\<lambda>_. data \<noteq> 0) (pb_check_proto3_default_value n E (field, pData))
             else map_option Not (pb_check_proto3_default_value n E (field, pData)))
      in if a = PB_ATYPE_CALLBACK then cb field pData
         else if \<not> (a = PB_ATYPE_STATIC \<or> ptr) then None
         else if h = PB_HTYPE_REQUIRED then (if data = 0 then None else value)
         else if h = PB_HTYPE_OPTIONAL then
           (case present of None \<Rightarrow> None | Some False \<Rightarrow> Some [] | Some True \<Rightarrow> value)
         else if h = PB_HTYPE_REPEATED then
           array_wire E (value_wire E msg) field data (if pf_size_offset field \<noteq> 0 then read_size mem pSize else pf_array_size field)
         else if read_size mem pSize = unat (pf_tag field) then value else Some [])"

text \<open>\<open>cb\<close> and \<open>exw\<close> give the bytes of callback fields and of extensions with an encoder of their own.\<close>

definition extension_wire ::
  "nat \<Rightarrow> 's pb_env \<Rightarrow> (pb_field list \<Rightarrow> nat \<Rightarrow> byte list option) \<Rightarrow> (pb_field \<Rightarrow> nat \<Rightarrow> byte list option) \<Rightarrow> ('s pb_extension \<Rightarrow> byte list option) \<Rightarrow>
     's pb_extension \<Rightarrow> byte list option" where
  "extension_wire n E msg cb exw ext =
     (case ex_encode ext of
        Some _ \<Rightarrow> exw ext
      | None \<Rightarrow> field_wire n E msg cb (ex_field ext)
                  (if PB_ATYPE (pf_type (ex_field ext)) = PB_ATYPE_POINTER then ex_dest_addr ext else ex_dest ext))"

primrec msg_wire ::
  "nat \<Rightarrow> 's pb_env \<Rightarrow> (pb_field \<Rightarrow> nat \<Rightarrow> byte list option) \<Rightarrow> ('s pb_extension \<Rightarrow> byte list option) \<Rightarrow> pb_field list \<Rightarrow> nat \<Rightarrow> byte list option" where
  "msg_wire 0 E cb exw flds src_struct = None"
| "msg_wire (Suc n) E cb exw flds src_struct =
     concat_opt (map (\<lambda>(field, pData).
         if PB_LTYPE (pf_type field) = 0x09
         then concat_opt (map (extension_wire (Suc n) E (msg_wire n E cb exw) cb exw) (env_extensions E pData))
         else field_wire (Suc n) E (msg_wire n E cb exw) cb field pData)
       (message_fields flds src_struct))"

subsection \<open>The encoder writes the bytes of the message\<close>

definition encodes :: "('s pb_ostream, unit) stm \<Rightarrow> byte list option \<Rightarrow> bool" where
  "encodes enc w \<longleftrightarrow> (case w of None \<Rightarrow> (\<forall>s. fst (enc s) = None) | Some bs \<Rightarrow> wire_encoder enc bs)"

lemma encodes_fail: "encodes st_fail None" "encodes (PB_RETURN_OERROR msg) None"
  by (simp_all add: encodes_def st_fail_def PB_RETURN_OERROR_def)

lemma encodes_return: "encodes (st_return ()) (Some [])"
  by (simp add: encodes_def) (unfold_locales, auto simp: st_return_def ostream_put_def ostream_full_def split: osink.splits)

lemma encodes_bind:
  assumes "encodes e1 w1" "encodes e2 w2"
  shows "encodes (st_bind e1 (\<lambda>_. e2)) (app_opt w1 w2)"
proof (cases w1)
  case None
  then have "fst (e1 s) = None" for s using assms(1) by (simp add: encodes_def)
  then show ?thesis unfolding None by (auto simp: encodes_def app_opt_def st_bind_def split: prod.splits option.splits) (metis fst_conv option.distinct(1))
next
  case (Some x)
  show ?thesis
  proof (cases w2)
    case None
    then show ?thesis using assms(2) by (auto simp: encodes_def app_opt_def st_bind_def Some split: prod.splits option.splits)
  next
    case (Some y)
    then show ?thesis using assms \<open>w1 = Some x\<close> wire_encoder_seq by (auto simp: encodes_def app_opt_def)
  qed
qed

lemma encodes_all: "(\<And>x. x \<in> set xs \<Longrightarrow> encodes (f x) (w x)) \<Longrightarrow> encodes (st_all f xs) (concat_opt (map w xs))"
  by (induction xs) (auto simp: concat_opt_def encodes_return encodes_bind)

lemma encodes_varint: "encodes (pb_encode_varint wr v) (Some (varint_bytes v))"
  by (simp add: encodes_def varint.wire_encoder_axioms)

lemma encodes_tag: "encodes (pb_encode_tag wr t f) (Some (varint_bytes (tag_word t f)))"
  by (simp add: encodes_def tag.wire_encoder_axioms)

lemma encodes_string: "n \<le> length buf \<Longrightarrow> encodes (pb_encode_string wr buf n) (Some (string_bytes (take n buf)))"
  by (simp add: encodes_def wire_encoder_string)

lemma encodes_submessage:
  assumes "encodes enc w"
  shows "encodes (pb_encode_submessage wr enc) (map_option string_bytes w)"
proof (cases w)
  case None
  then show ?thesis using assms by (auto simp: encodes_def pb_encode_submessage_def split: prod.splits option.splits) (metis fst_conv option.distinct(1))
next
  case (Some bs)
  then show ?thesis using assms by (simp add: encodes_def wire_encoder.submessage_encoder)
qed

lemma encodes_tag_for_field: "encodes (pb_encode_tag_for_field wr field) (tag_wire field)"
proof -
  have "t \<le> 0x03 \<longleftrightarrow> t \<in> {0x00, 0x01, 0x02, 0x03}" for t :: byte
    by (auto simp: word_le_nat_alt word_unat_eq_iff)
  then show ?thesis by (simp add: pb_encode_tag_for_field_def tag_wire_def Let_def encodes_tag encodes_fail)
qed

lemma mem_read_length [simp]: "length (mem_read mem a n) = n"
  by (induction n arbitrary: a) simp_all

lemma read_size_less: "read_size mem a < 2 ^ 32"
proof -
  have "le_word (mem_read mem a 4) = take_bit 32 (le_word (mem_read mem a 4))"
    using le_word_take_bit [of "mem_read mem a 4" 4] by simp
  then have "unat (le_word (mem_read mem a 4)) = unat (le_word (mem_read mem a 4)) mod 2 ^ 32"
    by (metis take_bit_eq_mod unsigned_take_bit_eq)
  moreover have "unat (le_word (mem_read mem a 4)) mod 2 ^ 32 < 2 ^ 32" by simp
  ultimately show ?thesis unfolding read_size_def by linarith
qed

lemma bytes_at_size: "unat (ba_size (bytes_at mem a)) = read_size mem a" "ba_bytes (bytes_at mem a) = mem_read mem (size_add a offsetof_bytes) (read_size mem a)"
  using unat_of_nat_u32 [OF read_size_less [of mem a]] by (simp_all add: bytes_at_def del: unsigned_of_nat)

lemma string_size_strnlen: "string_size m (mem_read mem a (c_strnlen mem m a)) = c_strnlen mem m a"
proof (induction mem m a rule: c_strnlen.induct)
  case (1 mem m a)
  show ?case
  proof (cases "0 < m \<and> mem a \<noteq> 0")
    case True
    then have "c_strnlen mem m a = Suc (c_strnlen mem (m - 1) (size_add a 1))" by (subst c_strnlen.simps) simp
    then show ?thesis using True 1 by simp
  next
    case False
    then have "c_strnlen mem m a = 0" by (subst c_strnlen.simps) simp
    then show ?thesis by simp
  qed
qed

lemma encodes_pb_enc_string:
  "encodes (pb_enc_string wr field (if p = 0 then None else Some (string_at mem field p)))
     (Some (string_bytes (if p = 0 then [] else string_at mem field p)))"
  using encodes_string [of 0 "[]" wr] encodes_string [of "length (string_at mem field p)" "string_at mem field p" wr]
  by (simp add: pb_enc_string_def string_at_def string_size_strnlen)

lemma encodes_pb_enc_bytes:
  "encodes (pb_enc_bytes wr field (if p = 0 then None else Some (bytes_at mem p)))
     (if p = 0 then Some (string_bytes [])
      else if PB_ATYPE (pf_type field) = PB_ATYPE_STATIC \<and> read_size mem p > size_add (pf_data_size field) (2 ^ 64 - offsetof_bytes) then None
      else Some (string_bytes (mem_read mem (size_add p offsetof_bytes) (read_size mem p))))"
  using encodes_string [of 0 "[]" wr] encodes_string [of "read_size mem p" "mem_read mem (size_add p offsetof_bytes) (read_size mem p)" wr]
  by (simp add: pb_enc_bytes_def bytes_at_size encodes_fail)

lemma encodes_int_fields:
  assumes "length src = pf_data_size field"
  shows "encodes (pb_enc_varint wr field src) (if pf_data_size field \<in> {1, 2, 4, 8} then Some (varint_bytes (read_int (pf_data_size field) src)) else None)"
    and "encodes (pb_enc_uvarint wr field src) (if pf_data_size field \<in> {1, 2, 4, 8} then Some (varint_bytes (le_word src)) else None)"
    and "encodes (pb_enc_svarint wr field src) (if pf_data_size field \<in> {1, 2, 4, 8} then Some (varint_bytes (zigzag (read_int (pf_data_size field) src))) else None)"
    and "encodes (pb_enc_fixed_length_bytes wr field src) (Some (string_bytes src))"
  using assms encodes_string [of "length src" src wr]
  by (simp_all add: pb_enc_varint_def pb_enc_uvarint_def pb_enc_svarint_def pb_encode_svarint_def pb_enc_fixed_length_bytes_def encodes_varint encodes_fail)

lemma encodes_fixed_fields:
  "encodes (pb_enc_bool wr src) (Some (varint_bytes (if safe_read_bool src then 1 else 0)))"
  "encodes (pb_enc_fixed32 wr (mem_read mem p 4)) (Some (mem_read mem p 4))"
  "encodes (pb_enc_fixed64 wr (mem_read mem p 8)) (Some (mem_read mem p 8))"
  using wire_codec.axioms(1) [OF fixed_field_codec(1) [of "mem_read mem p 4" wr null_read "[]"]]
    wire_codec.axioms(1) [OF fixed_field_codec(2) [of "mem_read mem p 8" wr null_read "[]"]]
  by (simp_all only: pb_enc_bool_def encodes_varint encodes_def mem_read_length option.case varint.wire_encoder_axioms simp_thms)

lemma encodes_if: "encodes a x \<Longrightarrow> encodes b y \<Longrightarrow> encodes (if c then a else b) (if c then x else y)"
  by simp

lemma encodes_pb_encoder:
  assumes "\<And>flds a. encodes (enc flds a) (msg flds a)"
  shows "encodes (pb_encoder E enc field p) (value_wire E msg field p)"
proof -
  have m: "encodes (pb_enc_submessage wr field (enc (case pf_ptr field of None \<Rightarrow> [] | Some d \<Rightarrow> descs d) p))
     (case pf_ptr field of None \<Rightarrow> None | Some d \<Rightarrow> map_option string_bytes (msg (descs d) p))" for wr descs
    using assms by (simp add: pb_enc_submessage_def encodes_fail encodes_submessage split: option.split)
  show ?thesis
    unfolding pb_encoder_def value_wire_def Let_def
    by (intro encodes_if encodes_int_fields encodes_fixed_fields encodes_pb_enc_string encodes_pb_enc_bytes encodes_fail m mem_read_length)
qed

lemma wire_encoder_write_packed:
  assumes body: "wire_encoder body bs" and sz: "length bs < 2 ^ 64 \<Longrightarrow> sz = length bs"
  shows "wire_encoder (write_packed wr sz body) (string_bytes bs)"
proof
  fix stream :: "'a pb_ostream"
  let ?p = "varint_bytes (of_nat (length bs))"
  assume fits: "ostream_fits (length (string_bytes bs)) stream"
  then have small: "length bs < 2 ^ 64" and fit1: "ostream_fits (length ?p) stream" and fit2: "ostream_fits (length bs) (ostream_put ?p stream)"
    by (auto simp: ostream_fits_def string_bytes_def)
  have sb: "ostream_put (string_bytes bs) stream = ostream_put bs (ostream_put ?p stream)" by (simp add: ostream_put_put string_bytes_def)
  show "write_packed wr sz body stream = (Some (), ostream_put (string_bytes bs) stream)"
  proof (cases "is_sizing (os_sink stream)")
    case True
    then show ?thesis unfolding sb using fit2 varint.writes [OF fit1] sz [OF small]
      by (cases "os_sink stream") (simp_all add: write_packed_def pb_write_def size_add_def ostream_fits_def ostream_put_def)
  next
    case False
    then show ?thesis unfolding sb using varint.writes [OF fit1] sz [OF small] wire_encoder.writes [OF body fit2]
      by (simp add: write_packed_def)
  qed
next
  fix stream :: "'a pb_ostream"
  let ?p = "varint_bytes (of_nat (length bs))"
  assume full: "ostream_full (length (string_bytes bs)) stream"
  then have small: "length bs < 2 ^ 64" by (auto simp: ostream_full_def string_bytes_def)
  show "fst (write_packed wr sz body stream) = None"
  proof (cases "ostream_full (length ?p) stream")
    case True
    then show ?thesis using varint.refuses [OF True, of wr] sz [OF small] by (auto simp: write_packed_def split: prod.splits)
  next
    case False
    then have "ostream_fits (length ?p) stream" "ostream_full (length bs) (ostream_put ?p stream)"
      using full by (auto simp: ostream_full_def ostream_fits_def string_bytes_def)
    moreover have "\<not> is_sizing (os_sink stream)" using full by (auto simp: ostream_full_def is_obuffer_def split: osink.splits)
    ultimately show ?thesis using sz [OF small] by (simp add: write_packed_def varint.writes wire_encoder.refuses [OF body])
  qed
qed

lemma concat_opt_Cons: "concat_opt (w # ws) = app_opt w (concat_opt ws)" "concat_opt [] = Some []"
  by (simp_all add: concat_opt_def)

lemma concat_opt_length:
  assumes "concat_opt (map (\<lambda>x. Some (v x)) xs) = Some bs" "\<And>x. length (v x) = k"
  shows "length bs = k * length xs"
  using assms(1) by (induction xs arbitrary: bs) (auto simp: concat_opt_Cons app_opt_def assms(2) split: option.splits)

lemma packed_size_correct:
  fixes field :: pb_field
  assumes val: "\<And>p. encodes (func field p) (val p)"
    and fixed: "PB_LTYPE (pf_type field) = 0x04 \<Longrightarrow> val = (\<lambda>p. Some (va p))" "PB_LTYPE (pf_type field) = 0x05 \<Longrightarrow> val = (\<lambda>p. Some (vb p))"
      "\<And>p. length (va p) = 4" "\<And>p. length (vb p) = 8"
  shows "concat_opt (map val (elements field pData count)) = None \<Longrightarrow> PB_LTYPE (pf_type field) \<noteq> 0x04 \<Longrightarrow> PB_LTYPE (pf_type field) \<noteq> 0x05 \<Longrightarrow>
           packed_size func field pData count = None"
    and "concat_opt (map val (elements field pData count)) = Some bs \<Longrightarrow>
           (case packed_size func field pData count of None \<Rightarrow> length bs \<ge> 2 ^ 64 | Some sz \<Rightarrow> length bs < 2 ^ 64 \<longrightarrow> sz = length bs)"
proof -
  let ?ps = "elements field pData count"
  have all: "encodes (st_all (func field) ?ps) (concat_opt (map val ?ps))" using val by (rule encodes_all)
  have len: "length ?ps = count" by (simp add: elements_def)
  show "packed_size func field pData count = None" if "concat_opt (map val ?ps) = None" "PB_LTYPE (pf_type field) \<noteq> 0x04" "PB_LTYPE (pf_type field) \<noteq> 0x05"
    using all that by (auto simp: encodes_def packed_size_def split: prod.split option.split) (metis fst_conv option.distinct(1))
  show "case packed_size func field pData count of None \<Rightarrow> length bs \<ge> 2 ^ 64 | Some sz \<Rightarrow> length bs < 2 ^ 64 \<longrightarrow> sz = length bs"
    if bs: "concat_opt (map val ?ps) = Some bs"
  proof -
    have enc: "wire_encoder (st_all (func field) ?ps) bs" using all bs by (simp add: encodes_def)
    have "length bs = 4 * count" if "PB_LTYPE (pf_type field) = 0x04"
      using concat_opt_length [of va ?ps bs 4] bs fixed that len by simp
    moreover have "length bs = 8 * count" if "PB_LTYPE (pf_type field) = 0x05"
      using concat_opt_length [of vb ?ps bs 8] bs fixed that len by simp
    moreover have "st_all (func field) ?ps PB_OSTREAM_SIZING = (Some (), ostream_put bs PB_OSTREAM_SIZING)" if "length bs < 2 ^ 64"
      using wire_encoder.sizing_pass [OF enc that] .
    ultimately show ?thesis
      by (cases "length bs < 2 ^ 64") (auto simp: packed_size_def size_mul_def Let_def split: option.split prod.split)
  qed
qed

lemma concat_opt_all_Some: "concat_opt (map (\<lambda>x. Some (v x)) xs) \<noteq> None"
  by (induction xs) (auto simp: concat_opt_Cons app_opt_def)

lemma wire_encoder_unfit: "2 ^ 64 \<le> length bs \<Longrightarrow> wire_encoder enc bs"
  by unfold_locales (auto simp: ostream_fits_def ostream_full_def)

lemma encodes_packed:
  fixes field :: pb_field
  assumes val: "\<And>p. encodes (func field p) (val p)"
    and fixed: "PB_LTYPE (pf_type field) = 0x04 \<Longrightarrow> val = (\<lambda>p. Some (va p))" "PB_LTYPE (pf_type field) = 0x05 \<Longrightarrow> val = (\<lambda>p. Some (vb p))"
      "\<And>p. length (va p) = 4" "\<And>p. length (vb p) = 8"
  shows "encodes (case packed_size func field pData count of
                    None \<Rightarrow> st_fail
                  | Some sz \<Rightarrow> write_packed wr sz (st_all (func field) (elements field pData count)))
           (map_option string_bytes (concat_opt (map val (elements field pData count))))"
proof -
  let ?ps = "elements field pData count"
  have all: "encodes (st_all (func field) ?ps) (concat_opt (map val ?ps))" using val by (rule encodes_all)
  note sz = packed_size_correct [where func = func and field = field and val = val and va = va and vb = vb and pData = pData and count = count, OF assms]
  show ?thesis
  proof (cases "concat_opt (map val ?ps)")
    case None
    then have "PB_LTYPE (pf_type field) \<noteq> 0x04" "PB_LTYPE (pf_type field) \<noteq> 0x05"
      using fixed(1,2) concat_opt_all_Some [of va ?ps] concat_opt_all_Some [of vb ?ps] by auto
    then show ?thesis using sz(1) None by (simp add: encodes_fail)
  next
    case (Some bs)
    show ?thesis
    proof (cases "length bs < 2 ^ 64")
      case True
      then obtain z where z: "packed_size func field pData count = Some z" "z = length bs"
        using sz(2) [OF _ _ Some] by (cases "packed_size func field pData count") auto
      then show ?thesis using all Some by (simp add: encodes_def wire_encoder_write_packed)
    next
      case False
      then have "2 ^ 64 \<le> length (string_bytes bs)" by (simp add: string_bytes_def)
      then show ?thesis using Some by (simp add: encodes_def wire_encoder_unfit del: power_numeral)
    qed
  qed
qed

lemma encodes_array:
  fixes E :: "'s pb_env"
  assumes "\<And>flds a. encodes (enc flds a) (msg flds a)"
  shows "encodes (encode_array E (pb_encoder E enc) field pData count) (array_wire E (value_wire E msg) field pData count)"
proof -
  have val: "encodes (pb_encoder E enc field p) (value_wire E msg field p)" for p using assms by (rule encodes_pb_encoder)
  have v4: "value_wire E msg field = (\<lambda>p. Some (mem_read (env_mem E) p 4))" if "PB_LTYPE (pf_type field) = 0x04"
    using that by (intro ext) (simp add: value_wire_def Let_def)
  have v8: "value_wire E msg field = (\<lambda>p. Some (mem_read (env_mem E) p 8))" if "PB_LTYPE (pf_type field) = 0x05"
    using that by (intro ext) (simp add: value_wire_def Let_def)
  note packed = encodes_packed [where func = "pb_encoder E enc" and val = "value_wire E msg field", OF val v4 v8]
  show ?thesis
    unfolding encode_array_def array_wire_def Let_def
    by (intro encodes_if encodes_return encodes_fail encodes_bind encodes_tag packed encodes_all encodes_tag_for_field val) simp_all
qed

lemma encodes_case_opt:
  "(\<And>b. encodes (f b) (g b)) \<Longrightarrow> encodes (case x of None \<Rightarrow> st_fail | Some b \<Rightarrow> f b) (case x of None \<Rightarrow> None | Some b \<Rightarrow> g b)"
  by (simp add: encodes_fail split: option.split)

lemma encodes_basic_field:
  assumes enc: "\<And>flds a. encodes (enc flds a) (msg flds a)"
    and a: "PB_ATYPE (pf_type field) = PB_ATYPE_STATIC \<or> PB_ATYPE (pf_type field) = PB_ATYPE_POINTER"
  shows "encodes (encode_basic_field n E enc field pData) (field_wire n E msg cb field pData)"
proof -
  have "encodes (st_bind (pb_encode_tag_for_field wr field) (\<lambda>_. pb_encoder E enc field p)) (app_opt (tag_wire field) (value_wire E msg field p))" for wr p
    using enc by (intro encodes_bind encodes_tag_for_field encodes_pb_encoder)
  note tagged = this
  have nc: "PB_ATYPE (pf_type field) \<noteq> PB_ATYPE_CALLBACK" using a by (auto simp: PB_ATYPE_STATIC_def PB_ATYPE_POINTER_def PB_ATYPE_CALLBACK_def)
  have ne: "PB_HTYPE_REQUIRED \<noteq> PB_HTYPE_OPTIONAL" "PB_HTYPE_REPEATED \<noteq> PB_HTYPE_OPTIONAL" "PB_HTYPE_REPEATED \<noteq> PB_HTYPE_REQUIRED"
    by (simp_all add: PB_HTYPE_REQUIRED_def PB_HTYPE_OPTIONAL_def PB_HTYPE_REPEATED_def)
  show ?thesis
  proof (cases "PB_HTYPE (pf_type field) = PB_HTYPE_OPTIONAL")
    case True
    then show ?thesis using a nc ne tagged
      by (auto simp: encode_basic_field_def field_wire_def Let_def encodes_fail encodes_return split: option.split)
  next
    case False
    then show ?thesis using a nc ne tagged encodes_array [OF enc]
      by (simp add: encode_basic_field_def field_wire_def Let_def encodes_fail encodes_return)
  qed
qed

definition callbacks_encode :: "'s pb_env \<Rightarrow> (pb_field \<Rightarrow> nat \<Rightarrow> byte list option) \<Rightarrow> ('s pb_extension \<Rightarrow> byte list option) \<Rightarrow> bool" where
  "callbacks_encode E cb exw \<longleftrightarrow>
     (\<forall>field a. case env_callback E field a of None \<Rightarrow> cb field a = Some [] | Some e \<Rightarrow> encodes e (cb field a)) \<and>
     (\<forall>a ext e. ext \<in> set (env_extensions E a) \<longrightarrow> ex_encode ext = Some e \<longrightarrow> encodes e (exw ext))"

lemma callbacks_encodeD:
  "callbacks_encode E cb exw \<Longrightarrow> case env_callback E field a of None \<Rightarrow> cb field a = Some [] | Some e \<Rightarrow> encodes e (cb field a)"
  by (simp add: callbacks_encode_def)

lemma encodes_callback_field:
  assumes "callbacks_encode E cb exw"
  shows "encodes (encode_callback_field E field p) (cb field p)"
proof (cases "env_callback E field p")
  case None
  then have "cb field p = Some []" using callbacks_encodeD [OF assms, of field p] by simp
  moreover have "encode_callback_field E field p = st_return ()" using None by (intro ext) (simp add: encode_callback_field_def st_return_def)
  ultimately show ?thesis by (simp add: encodes_return)
next
  case (Some e)
  then have e: "encodes e (cb field p)" using callbacks_encodeD [OF assms, of field p] by simp
  have "fst (encode_callback_field E field p s) = fst (e s)" "e s = (Some (), t) \<Longrightarrow> encode_callback_field E field p s = (Some (), t)" for s t
    by (auto simp: encode_callback_field_def Some PB_RETURN_OERROR_def split: prod.split option.split)
  then show ?thesis using e by (auto simp: encodes_def wire_encoder_def split: option.splits)
qed

lemma encodes_field:
  assumes enc: "\<And>flds a. encodes (enc flds a) (msg flds a)" and cb: "callbacks_encode E cb exw"
  shows "encodes (encode_field n E enc field pData) (field_wire n E msg cb field pData)"
proof -
  consider "PB_ATYPE (pf_type field) = PB_ATYPE_STATIC \<or> PB_ATYPE (pf_type field) = PB_ATYPE_POINTER"
    | "PB_ATYPE (pf_type field) = PB_ATYPE_CALLBACK" "\<not> (PB_ATYPE (pf_type field) = PB_ATYPE_STATIC \<or> PB_ATYPE (pf_type field) = PB_ATYPE_POINTER)"
    | "PB_ATYPE (pf_type field) \<notin> {PB_ATYPE_STATIC, PB_ATYPE_POINTER, PB_ATYPE_CALLBACK}" by blast
  then show ?thesis
  proof cases
    case 1
    then show ?thesis using encodes_basic_field [OF enc 1] by (simp add: encode_field_def Let_def)
  next
    case 2
    then show ?thesis using encodes_callback_field [OF cb] by (simp add: encode_field_def field_wire_def Let_def)
  next
    case 3
    then show ?thesis by (simp add: encode_field_def field_wire_def Let_def encodes_fail)
  qed
qed

lemma encodes_message:
  assumes cb: "callbacks_encode E cb exw"
  shows "encodes (pb_encode n E flds src) (msg_wire n E cb exw flds src)"
proof (induction n arbitrary: flds src)
  case (Suc n)
  have ext: "encodes (case ex_encode ext of Some f \<Rightarrow> f | None \<Rightarrow> default_extension_encoder (Suc n) E (pb_encode n E) ext)
               (extension_wire (Suc n) E (msg_wire n E cb exw) cb exw ext)" if "ext \<in> set (env_extensions E a)" for ext a
    using encodes_field [OF Suc cb] cb that
    by (auto simp: extension_wire_def default_extension_encoder_def callbacks_encode_def split: option.split)
  show ?case
    unfolding pb_encode.simps msg_wire.simps
    by (intro encodes_all)
       (auto simp: encode_extension_field_def split: prod.split intro!: encodes_all ext encodes_field [OF Suc cb])
qed (simp add: encodes_fail)

subsection \<open>Levels of nesting\<close>

text \<open>
  \<open>rk\<close> ranks the descriptor arrays so that the submessages of a message, also those of its extensions,
  have a lower rank: there are no recursive message types.
\<close>

definition ranked :: "'s pb_env \<Rightarrow> (nat \<Rightarrow> nat) \<Rightarrow> bool" where
  "ranked E rk \<longleftrightarrow>
     (\<forall>d f. f \<in> set (env_descs E d) \<longrightarrow>
        (\<forall>d'. pf_ptr f = Some d' \<longrightarrow> rk d' < rk d) \<and>
        (PB_LTYPE (pf_type f) = 0x09 \<longrightarrow>
           (\<forall>a ext d'. ext \<in> set (env_extensions E a) \<longrightarrow> pf_ptr (ex_field ext) = Some d' \<longrightarrow> rk d' < rk d)))"

lemma all_opt_cong: "(\<And>x. x \<in> set xs \<Longrightarrow> p x = q x) \<Longrightarrow> all_opt p xs = all_opt q xs"
  by (induction xs) (auto split: option.split bool.split)

lemma check_default_cong:
  assumes "\<And>d fp. pf_ptr f = Some d \<Longrightarrow> fp \<in> set (message_fields (env_descs E d) a) \<Longrightarrow> p fp = q fp"
  shows "check_default p E f a = check_default q E f a"
proof -
  have "all_opt p (message_fields (case pf_ptr f of None \<Rightarrow> [] | Some d \<Rightarrow> env_descs E d) a) =
        all_opt q (message_fields (case pf_ptr f of None \<Rightarrow> [] | Some d \<Rightarrow> env_descs E d) a)"
    using assms by (intro all_opt_cong) (auto split: option.splits)
  then show ?thesis by (simp add: check_default_def Let_def)
qed

lemma check_levels:
  assumes "ranked E rk" "\<And>d. pf_ptr f = Some d \<Longrightarrow> rk d < n \<and> rk d < m"
  shows "pb_check_proto3_default_value (Suc n) E (f, a) = pb_check_proto3_default_value (Suc m) E (f, a)"
  using assms(2)
proof (induction n arbitrary: m f a)
  case 0
  then have "pf_ptr f = None" by (cases "pf_ptr f") auto
  then show ?case by (simp only: pb_check_proto3_default_value.simps(2) fst_conv snd_conv) (rule check_default_cong, simp)
next
  case (Suc n)
  have "check_default (pb_check_proto3_default_value (Suc n) E) E f a = check_default (pb_check_proto3_default_value m E) E f a"
  proof (rule check_default_cong)
    fix d fp
    assume d: "pf_ptr f = Some d" and fp: "fp \<in> set (message_fields (env_descs E d) a)"
    then obtain k where m: "m = Suc k" "rk d \<le> k" "rk d \<le> n" using Suc(2) [of d] by (cases m) auto
    have "fst fp \<in> set (env_descs E d)" using fp by (rule message_fields_in)
    then have "rk d' < n \<and> rk d' < k" if "pf_ptr (fst fp) = Some d'" for d'
      using assms(1) that m(2,3) unfolding ranked_def by (meson order_less_le_trans)
    from Suc(1) [of "fst fp" k "snd fp", OF this]
    show "pb_check_proto3_default_value (Suc n) E fp = pb_check_proto3_default_value m E fp" unfolding m(1) by (simp only: prod.collapse)
  qed
  then show ?case by (simp only: pb_check_proto3_default_value.simps(2) fst_conv snd_conv)
qed

lemma pb_encoder_cong:
  "(\<And>d a. pf_ptr f = Some d \<Longrightarrow> e (env_descs E d) a = e' (env_descs E d) a) \<Longrightarrow> pb_encoder E e f = pb_encoder E e' f"
  by (intro ext) (simp add: pb_encoder_def Let_def pb_enc_submessage_def split: option.split)

lemma encode_array_cong: "func f = func' f \<Longrightarrow> encode_array E func f a c = encode_array E func' f a c"
proof -
  have "encode_array E g f a c = encode_array E (\<lambda>_. g f) f a c" for g
    unfolding encode_array_def packed_size_def ..
  then show "func f = func' f \<Longrightarrow> ?thesis" by metis
qed

lemma encode_field_cong:
  assumes "\<And>d a. pf_ptr f = Some d \<Longrightarrow> e (env_descs E d) a = e' (env_descs E d) a"
    and "\<And>a. pb_check_proto3_default_value n E (f, a) = pb_check_proto3_default_value m E (f, a)"
  shows "encode_field n E e f = encode_field m E e' f"
proof -
  have func: "pb_encoder E e f = pb_encoder E e' f" using assms(1) by (rule pb_encoder_cong)
  have arr: "encode_array E (pb_encoder E e) f a c = encode_array E (pb_encoder E e') f a c" for a c
    using func by (rule encode_array_cong)
  have "encode_basic_field n E e f a = encode_basic_field m E e' f a" for a
    unfolding encode_basic_field_def Let_def assms(2) arr func ..
  then show ?thesis by (intro ext) (simp add: encode_field_def Let_def)
qed

lemma st_all_cong: "(\<And>x. x \<in> set xs \<Longrightarrow> f x = g x) \<Longrightarrow> st_all f xs = st_all g xs"
  by (induction xs) auto

lemma encode_levels:
  assumes rk: "ranked E rk" "rk d < n" "rk d < m"
  shows "pb_encode n E (env_descs E d) a = pb_encode m E (env_descs E d) a"
  using assms(2,3)
proof (induction n arbitrary: d a m)
  case (Suc n)
  then obtain k where m: "m = Suc k" "rk d \<le> k" "rk d \<le> n" by (cases m) auto
  have field: "encode_field (Suc n) E (pb_encode n E) f = encode_field (Suc k) E (pb_encode k E) f" if "\<And>d'. pf_ptr f = Some d' \<Longrightarrow> rk d' < rk d" for f
  proof (rule encode_field_cong)
    show "pb_encode n E (env_descs E d') b = pb_encode k E (env_descs E d') b" if "pf_ptr f = Some d'" for d' b
      using \<open>\<And>d'. pf_ptr f = Some d' \<Longrightarrow> rk d' < rk d\<close> [OF that] m by (intro Suc.IH) auto
    show "pb_check_proto3_default_value (Suc n) E (f, b) = pb_check_proto3_default_value (Suc k) E (f, b)" for b
      using that m(2,3) by (intro check_levels [OF rk(1)]) fastforce
  qed
  show ?case unfolding m(1) pb_encode.simps
  proof (rule st_all_cong)
    fix fp
    assume "fp \<in> set (message_fields (env_descs E d) a)"
    then have f: "fst fp \<in> set (env_descs E d)" by (rule message_fields_in)
    have "encode_field (Suc n) E (pb_encode n E) (fst fp) = encode_field (Suc k) E (pb_encode k E) (fst fp)"
      using rk(1) f unfolding ranked_def by (intro field) blast
    moreover have "encode_extension_field (Suc n) E (pb_encode n E) (snd fp) = encode_extension_field (Suc k) E (pb_encode k E) (snd fp)"
      if "PB_LTYPE (pf_type (fst fp)) = 0x09"
      unfolding encode_extension_field_def
    proof (rule st_all_cong)
      fix ext
      assume "ext \<in> set (env_extensions E (snd fp))"
      then have "encode_field (Suc n) E (pb_encode n E) (ex_field ext) = encode_field (Suc k) E (pb_encode k E) (ex_field ext)"
        using rk(1) f that unfolding ranked_def by (intro field) blast
      then show "(case ex_encode ext of None \<Rightarrow> default_extension_encoder (Suc n) E (pb_encode n E) ext | Some f \<Rightarrow> f) =
                 (case ex_encode ext of None \<Rightarrow> default_extension_encoder (Suc k) E (pb_encode k E) ext | Some f \<Rightarrow> f)"
        by (simp add: default_extension_encoder_def split: option.split)
    qed
    ultimately show "(case fp of (field, pData) \<Rightarrow> if PB_LTYPE (pf_type field) = 0x09 then encode_extension_field (Suc n) E (pb_encode n E) pData
            else encode_field (Suc n) E (pb_encode n E) field pData) =
          (case fp of (field, pData) \<Rightarrow> if PB_LTYPE (pf_type field) = 0x09 then encode_extension_field (Suc k) E (pb_encode k E) pData
            else encode_field (Suc k) E (pb_encode k E) field pData)"
      by (cases fp) simp
  qed
qed simp

lemma encodes_framed:
  "encodes enc w \<Longrightarrow> encodes (pb_encode_delimited wr enc) (map_option string_bytes w)"
  "encodes enc w \<Longrightarrow> encodes (pb_encode_nullterminated wr enc) (app_opt w (Some [0]))"
proof -
  assume w: "encodes enc w"
  then show "encodes (pb_encode_delimited wr enc) (map_option string_bytes w)"
    by (simp add: pb_encode_delimited_def encodes_submessage)
  have "encodes (pb_write wr [0] 1) (Some [0])" using wire_encoder_write [of wr "[0]"] by (simp add: encodes_def)
  then show "encodes (pb_encode_nullterminated wr enc) (app_opt w (Some [0]))"
    unfolding pb_encode_nullterminated_def by (rule encodes_bind [OF w])
qed

text \<open>C33. \<open>pb_encode\<close> writes the bytes of the message that its descriptors give to the structure in memory, and
  nothing else: required, optional, repeated and oneof fields of every type, packed arrays, pointer
  fields, extensions and nested messages, in the order of the descriptors. The size pass gives their
  number, a buffer with room takes exactly them, a smaller one is refused; and a structure that has
  no encoding (a missing required field, an array beyond its maximum, an invalid descriptor) is refused on
  every stream. Callbacks of the client are assumed to write bytes that do not depend on the stream.
\<close>

theorem pb_encode_correct:
  assumes "callbacks_encode E cb exw"
  shows "case msg_wire n E cb exw flds src of
           None \<Rightarrow> pb_get_encoded_size (pb_encode n E flds src) = None \<and> fst (pb_encode n E flds src stream) = None
         | Some bs \<Rightarrow> length bs < 2 ^ 64 \<longrightarrow> sz < 2 ^ 64 \<longrightarrow>
             pb_get_encoded_size (pb_encode n E flds src) = Some (length bs) \<and>
             (if length bs \<le> sz
              then pb_encode n E flds src (pb_ostream_from_buffer sz) =
                     (Some (), \<lparr>os_sink = OBuffer bs, os_max_size = sz, os_bytes_written = length bs, os_errmsg = None\<rparr>)
              else fst (pb_encode n E flds src (pb_ostream_from_buffer sz)) = None)"
proof -
  note enc = encodes_message [OF assms, of n flds src]
  show ?thesis
  proof (cases "msg_wire n E cb exw flds src")
    case None
    then have "fst (pb_encode n E flds src s) = None" for s using enc by (simp add: encodes_def)
    then show ?thesis using None by (auto simp: pb_get_encoded_size_def split: prod.split option.split) (metis fst_conv option.distinct(1))
  next
    case (Some bs)
    then have "wire_encoder (pb_encode n E flds src) bs" using enc by (simp add: encodes_def)
    then show ?thesis using Some by (simp add: wire_encoder.encoded_size wire_encoder.to_buffer wire_encoder.to_small_buffer)
  qed
qed

text \<open>A structure of a 32-bit number 150 and, behind it, a message of one true boolean.\<close>

definition example_fields :: "nat \<Rightarrow> pb_field list" where
  "example_fields d =
     (if d = 3
      then [\<lparr>pf_tag = 1, pf_type = 0x00, pf_data_offset = 0, pf_size_offset = 0, pf_data_size = 1, pf_array_size = 0, pf_ptr = None\<rparr>]
      else [\<lparr>pf_tag = 1, pf_type = 0x02, pf_data_offset = 0, pf_size_offset = 0, pf_data_size = 4, pf_array_size = 0, pf_ptr = None\<rparr>,
            \<lparr>pf_tag = 2, pf_type = 0x08, pf_data_offset = 0, pf_size_offset = 0, pf_data_size = 1, pf_array_size = 0, pf_ptr = Some 3\<rparr>])"

definition example_env :: "unit pb_env" where
  "example_env =
     \<lparr>env_write = null_write, env_mem = (\<lambda>a. if a = 16 then 150 else if a = 20 then 1 else 0), env_descs = example_fields,
      env_callback = (\<lambda>_ _. None), env_extensions = (\<lambda>_. [])\<rparr>"

lemma example_iterations:
  "message_fields (example_fields 3) 20 = [(example_fields 3 ! 0, 20)]"
  "message_fields (example_fields 2) 16 = [(example_fields 2 ! 0, 16), (example_fields 2 ! 1, 20)]"
  unfolding example_fields_def message_fields_at pb_field_iter_begin_def
  by (simp_all add: upt_conv_Cons Let_def pb_field_iter_next_def pb_field_iter_begin_def field_type_simps size_add_def field_extent_def)

lemma mem_read_4: "mem_read mem a 4 = [mem a, mem (size_add a 1), mem (size_add (size_add a 1) 1), mem (size_add (size_add (size_add a 1) 1) 1)]"
proof -
  have "(4 :: nat) = Suc (Suc (Suc (Suc 0)))" by simp
  then show ?thesis by (simp only: mem_read.simps)
qed

lemma example_values:
  "field_wire n example_env msg cb (example_fields 3 ! 0) 20 = Some [0x08, 0x01]"
  "field_wire n example_env msg cb (example_fields 2 ! 0) 16 = Some [0x08, 0x96, 0x01]"
  "msg (example_fields 3) 20 = Some [0x08, 0x01] \<Longrightarrow> field_wire n example_env msg cb (example_fields 2 ! 1) 20 = Some [0x12, 0x02, 0x08, 0x01]"
proof -
  have v: "varint_bytes 8 = [8]" "varint_bytes 18 = [18]" "varint_bytes 1 = [1]" "varint_bytes 2 = [2]" "varint_bytes 150 = [0x96, 0x01]"
    by (simp_all add: varint_bytes_def varint_ref_small varint_ref_large)
  show "field_wire n example_env msg cb (example_fields 3 ! 0) 20 = Some [0x08, 0x01]"
    by (simp add: field_wire_def value_wire_def tag_wire_def Let_def example_fields_def example_env_def field_type_simps app_opt_def tag_word_def
          PB_WT_defs safe_read_bool_def v)
  show "field_wire n example_env msg cb (example_fields 2 ! 0) 16 = Some [0x08, 0x96, 0x01]"
    by (simp add: field_wire_def value_wire_def tag_wire_def Let_def example_fields_def example_env_def field_type_simps app_opt_def tag_word_def
          PB_WT_defs mem_read_4 size_add_def v)
  show "field_wire n example_env msg cb (example_fields 2 ! 1) 20 = Some [0x12, 0x02, 0x08, 0x01]" if "msg (example_fields 3) 20 = Some [0x08, 0x01]"
    using that
    by (simp add: field_wire_def value_wire_def tag_wire_def Let_def example_fields_def example_env_def field_type_simps app_opt_def tag_word_def
          PB_WT_defs string_bytes_def v)
qed

lemma example_not_extension: "PB_LTYPE (pf_type (example_fields 3 ! 0)) \<noteq> 0x09" "PB_LTYPE (pf_type (example_fields 2 ! 0)) \<noteq> 0x09"
  "PB_LTYPE (pf_type (example_fields 2 ! 1)) \<noteq> 0x09"
  by (simp_all add: example_fields_def PB_LTYPE_def)

lemma example_wire: "msg_wire (Suc (Suc n)) example_env cb exw (example_fields 2) 16 = Some [0x08, 0x96, 0x01, 0x12, 0x02, 0x08, 0x01]"
proof -
  note eqs = example_iterations example_not_extension concat_opt_Cons list.map prod.case if_False app_opt_def option.case append_Nil2
  have sub: "msg_wire (Suc n) example_env cb exw (example_fields 3) 20 = Some [0x08, 0x01]"
    unfolding msg_wire.simps by (simp only: eqs example_values(1))
  note example_values(3) [where msg = "msg_wire (Suc n) example_env cb exw", OF sub]
  then show ?thesis
    unfolding msg_wire.simps(2) [of "Suc n"] by (simp only: eqs example_values(2)) simp
qed

lemma pb_encode_correct_witness:
  "callbacks_encode example_env (\<lambda>_ _. Some []) (\<lambda>_. None) \<and>
   pb_get_encoded_size (pb_encode 2 example_env (example_fields 2) 16) = Some 7 \<and>
   pb_encode 2 example_env (example_fields 2) 16 (pb_ostream_from_buffer 8) =
     (Some (), \<lparr>os_sink = OBuffer [0x08, 0x96, 0x01, 0x12, 0x02, 0x08, 0x01], os_max_size = 8, os_bytes_written = 7, os_errmsg = None\<rparr>)"
proof -
  have cb: "callbacks_encode example_env (\<lambda>_ _. Some []) (\<lambda>_. None)" by (simp add: callbacks_encode_def example_env_def)
  have "msg_wire 2 example_env (\<lambda>_ _. Some []) (\<lambda>_. None) (example_fields 2) 16 = Some [0x08, 0x96, 0x01, 0x12, 0x02, 0x08, 0x01]"
    using example_wire [of 0] by (simp only: numeral_2_eq_2)
  then show ?thesis using cb pb_encode_correct [OF cb, of 2 "example_fields 2" 16 undefined 8] by simp
qed

text \<open>C34. The nesting of calls that \<open>pb_encode\<close> makes is bounded by the nesting of the message types. When the
  descriptors are ranked, so that a submessage has a lower rank than the message around it, any bound
  above the rank of a message gives the same encoder: the recursion has ended before the bound.
\<close>

theorem pb_encode_levels:
  assumes "ranked E rk" "rk d < n" "rk d < m"
  shows "pb_encode n E (env_descs E d) src stream = pb_encode m E (env_descs E d) src stream"
  using encode_levels [OF assms] by simp

lemma pb_encode_levels_witness:
  "pb_encode 2 example_env (example_fields 2) 16 (pb_ostream_from_buffer 8) = pb_encode 100 example_env (example_fields 2) 16 (pb_ostream_from_buffer 8)"
proof -
  have "ranked example_env (\<lambda>d. if d = 3 then 0 else 1)"
    by (auto simp: ranked_def example_env_def example_fields_def PB_LTYPE_def split: if_splits)
  from pb_encode_levels [OF this, of 2 2 100 16 "pb_ostream_from_buffer 8"] show ?thesis by (simp add: example_env_def)
qed

end
