(* ===== verification/PbHeap.thy ===== *)
theory PbHeap
  imports PbMessage
begin

text \<open>
  The part of nanopb/pb_decode.c that works on structures in memory without a stream: the allocator, default
  values (\<open>pb_message_set_to_defaults\<close>) and the release of what a message owns (\<open>pb_release\<close>). The recursion over
  submessages and extensions is bounded by an argument, None when the bound is exceeded.
\<close>

section \<open>Structures in memory\<close>

subsection \<open>Memory and the allocator\<close>

primrec mem_put :: "memory \<Rightarrow> nat \<Rightarrow> byte list \<Rightarrow> memory" where
  "mem_put mem a [] = mem"
| "mem_put mem a (b # bs) = mem_put (mem(a := b)) (size_add a 1) bs"

text \<open>The memory, and the sizes of the blocks that \<open>realloc\<close> has handed out.\<close>

record heap =
  hp_mem :: memory
  hp_blocks :: "nat \<Rightarrow> nat option"

definition heap_store :: "nat \<Rightarrow> byte list \<Rightarrow> heap \<Rightarrow> heap" where
  "heap_store a bs hp = hp\<lparr>hp_mem := mem_put (hp_mem hp) a bs\<rparr>"

definition store_pointer :: "nat \<Rightarrow> nat \<Rightarrow> heap \<Rightarrow> heap" where
  "store_pointer a p = heap_store a (le_bytes 8 (of_nat p))"

definition store_size :: "nat \<Rightarrow> nat \<Rightarrow> heap \<Rightarrow> heap" where
  "store_size a n = heap_store a (le_bytes 4 (of_nat n))"

definition store_bool :: "nat \<Rightarrow> bool \<Rightarrow> heap \<Rightarrow> heap" where
  "store_bool a b = heap_store a [if b then 1 else 0]"

text \<open>
  \<open>realloc\<close> and \<open>free\<close> of the C library. \<open>place\<close> chooses the address of a block of \<open>n\<close> bytes, 0 when there is no
  room; the address may be that of the old block. The bytes of the old block go with it.
\<close>

type_synonym placement = "(nat \<Rightarrow> nat option) \<Rightarrow> nat \<Rightarrow> nat"

definition heap_realloc :: "placement \<Rightarrow> nat \<Rightarrow> nat \<Rightarrow> heap \<Rightarrow> (nat \<times> heap) option" where
  "heap_realloc place p n hp =
     (let q = place (hp_blocks hp) n;
          kept = (case hp_blocks hp p of None \<Rightarrow> [] | Some old \<Rightarrow> mem_read (hp_mem hp) p (min old n))
      in if q = 0 then None
         else Some (q, (heap_store q kept hp)\<lparr>hp_blocks := (hp_blocks hp)(p := None, q := Some n)\<rparr>))"

definition heap_free :: "nat \<Rightarrow> heap \<Rightarrow> heap" where
  "heap_free p hp = hp\<lparr>hp_blocks := (hp_blocks hp)(p := None)\<rparr>"

subsection \<open>The environment of the decoder\<close>

text \<open>
  What the decoder of messages reaches besides its stream and its memory: the callback of the stream, the
  descriptor arrays and the extension types by their addresses, the functions that the client has stored in
  callback fields by theirs, the placement of the allocator, and the address of the local variable
  \<open>fixed_count_size\<close> of \<open>pb_decode_noinit\<close> at each level of nesting. A function that is given a stream returns its
  verdict, the memory and the stream; None when it does not return.
\<close>

type_synonym 's decoder = "heap \<Rightarrow> 's pb_istream \<Rightarrow> (bool \<times> heap \<times> 's pb_istream) option"

record 's pb_extension_type =
  et_decode :: "(nat \<Rightarrow> u32 \<Rightarrow> pb_wire_type \<Rightarrow> 's decoder) option"
  et_arg :: pb_field

record 's pb_denv =
  de_read :: "'s icallback"
  de_descs :: "nat \<Rightarrow> pb_field list"
  de_extension_types :: "nat \<Rightarrow> 's pb_extension_type"
  de_callbacks :: "nat \<Rightarrow> pb_field \<Rightarrow> nat \<Rightarrow> 's decoder"
  de_place :: placement
  de_frame :: "nat \<Rightarrow> nat"

definition sub_fields :: "'s pb_denv \<Rightarrow> pb_field \<Rightarrow> pb_field list" where
  "sub_fields E field = (case pf_ptr field of None \<Rightarrow> [] | Some d \<Rightarrow> de_descs E d)"

text \<open>The members of \<open>pb_extension_t\<close> by the address of the structure.\<close>

definition ext_type :: "'s pb_denv \<Rightarrow> heap \<Rightarrow> nat \<Rightarrow> 's pb_extension_type" where
  "ext_type E hp ext = de_extension_types E (read_pointer (hp_mem hp) ext)"

definition ext_dest :: "nat \<Rightarrow> nat" where
  "ext_dest ext = size_add ext 8"

definition ext_next :: "heap \<Rightarrow> nat \<Rightarrow> nat" where
  "ext_next hp ext = read_pointer (hp_mem hp) (size_add ext 16)"

definition ext_found :: "nat \<Rightarrow> nat" where
  "ext_found ext = size_add ext 24"

definition iter_from_extension :: "'s pb_denv \<Rightarrow> heap \<Rightarrow> nat \<Rightarrow> pb_field_iter" where
  "iter_from_extension E hp ext =
     (let field = et_arg (ext_type E hp ext);
          dest = read_pointer (hp_mem hp) (ext_dest ext);
          iter = snd (pb_field_iter_begin [field] dest)
      in iter\<lparr>it_pData := (if PB_ATYPE (pf_type field) = PB_ATYPE_POINTER then ext_dest ext else dest),
              it_pSize := ext_found ext\<rparr>)"

text \<open>The loop \<open>while (ext != NULL) { ...; ext = ext->next; }\<close> over the extensions at \<open>ext\<close>.\<close>

definition for_extensions :: "(nat \<Rightarrow> heap \<Rightarrow> heap option) \<Rightarrow> nat \<Rightarrow> heap \<Rightarrow> heap option" where
  "for_extensions f ext0 hp0 = c_loop (\<lambda>(ext, hp).
     if ext = 0 then Some (Inr hp)
     else map_option (\<lambda>hp1. Inl (ext_next hp1 ext, hp1)) (f ext hp)) (ext0, hp0)"

fun heap_all :: "('a \<Rightarrow> heap \<Rightarrow> heap option) \<Rightarrow> 'a list \<Rightarrow> heap \<Rightarrow> heap option" where
  "heap_all f [] hp = Some hp"
| "heap_all f (x # xs) hp = Option.bind (f x hp) (heap_all f xs)"

subsection \<open>Default values\<close>

definition set_field_to_default :: "(pb_field_iter \<Rightarrow> heap \<Rightarrow> heap option) \<Rightarrow> 's pb_denv \<Rightarrow> pb_field_iter \<Rightarrow> heap \<Rightarrow> heap option" where
  "set_field_to_default rec E iter hp =
     (let field = it_field iter; t = PB_LTYPE (pf_type field); a = PB_ATYPE (pf_type field); h = PB_HTYPE (pf_type field);
          pData = it_pData iter; pSize = it_pSize iter
      in if t = 0x09 then
           for_extensions (\<lambda>ext hp1.
             let hp2 = store_bool (ext_found ext) False hp1
             in rec (iter_from_extension E hp2 ext) hp2) (read_pointer (hp_mem hp) pData) hp
         else if a = PB_ATYPE_STATIC then
           (if h = PB_HTYPE_REPEATED \<or> h = PB_HTYPE_ONEOF then Some (store_size pSize 0 hp)
            else
              let hp1 = (if h = PB_HTYPE_OPTIONAL \<and> pSize \<noteq> pData then store_bool pSize False hp else hp)
              in if t = 0x08 then heap_all rec (message_iters (sub_fields E field) pData) hp1
                 else case pf_ptr field of
                        Some dflt \<Rightarrow> Some (heap_store pData (mem_read (hp_mem hp1) dflt (pf_data_size field)) hp1)
                      | None \<Rightarrow> Some (heap_store pData (replicate (pf_data_size field) 0) hp1))
         else if a = PB_ATYPE_POINTER then
           (let hp1 = store_pointer pData 0 hp
            in Some (if h = PB_HTYPE_REPEATED \<or> h = PB_HTYPE_ONEOF then store_size pSize 0 hp1 else hp1))
         else Some hp)"

primrec pb_field_set_to_default :: "nat \<Rightarrow> 's pb_denv \<Rightarrow> pb_field_iter \<Rightarrow> heap \<Rightarrow> heap option" where
  "pb_field_set_to_default 0 E iter hp = None"
| "pb_field_set_to_default (Suc n) E iter hp = set_field_to_default (pb_field_set_to_default n E) E iter hp"

definition pb_message_set_to_defaults :: "nat \<Rightarrow> 's pb_denv \<Rightarrow> pb_field list \<Rightarrow> nat \<Rightarrow> heap \<Rightarrow> heap option" where
  "pb_message_set_to_defaults n E flds dest_struct = heap_all (pb_field_set_to_default n E) (message_iters flds dest_struct)"

subsection \<open>Release\<close>

primrec release_items :: "(nat \<Rightarrow> heap \<Rightarrow> heap option) \<Rightarrow> nat \<Rightarrow> nat \<Rightarrow> nat \<Rightarrow> heap \<Rightarrow> heap option" where
  "release_items rel data_size 0 pItem hp = Some hp"
| "release_items rel data_size (Suc count) pItem hp =
     Option.bind (rel pItem hp) (release_items rel data_size count (size_add pItem data_size))"

primrec free_items :: "nat \<Rightarrow> nat \<Rightarrow> heap \<Rightarrow> heap" where
  "free_items 0 pItem hp = hp"
| "free_items (Suc count) pItem hp =
     free_items count (size_add pItem 8) (store_pointer pItem 0 (heap_free (read_pointer (hp_mem hp) pItem) hp))"

text \<open>The number of submessages in a field.\<close>

definition release_count :: "pb_field_iter \<Rightarrow> heap \<Rightarrow> nat" where
  "release_count iter hp =
     (let field = it_field iter; static = (PB_ATYPE (pf_type field) = PB_ATYPE_STATIC);
          count = (if static \<and> it_pSize iter = it_pData iter then pf_array_size field else read_size (hp_mem hp) (it_pSize iter))
      in if PB_HTYPE (pf_type field) \<noteq> PB_HTYPE_REPEATED then 1
         else if static \<and> count > pf_array_size field then pf_array_size field
         else count)"

definition release_pointer :: "pb_field_iter \<Rightarrow> heap \<Rightarrow> heap" where
  "release_pointer iter hp =
     (let field = it_field iter; t = PB_LTYPE (pf_type field); rep = (PB_HTYPE (pf_type field) = PB_HTYPE_REPEATED);
          pData = it_pData iter; pSize = it_pSize iter;
          hp1 = (if rep \<and> (t = 0x07 \<or> t = 0x06)
                 then free_items (read_size (hp_mem hp) pSize) (read_pointer (hp_mem hp) pData) hp else hp);
          hp2 = (if rep then store_size pSize 0 hp1 else hp1)
      in store_pointer pData 0 (heap_free (read_pointer (hp_mem hp2) pData) hp2))"

definition release_message :: "(pb_field_iter \<Rightarrow> heap \<Rightarrow> heap option) \<Rightarrow> pb_field list \<Rightarrow> nat \<Rightarrow> heap \<Rightarrow> heap option" where
  "release_message rec flds dest_struct hp =
     (if dest_struct = 0 then Some hp else heap_all rec (message_iters flds dest_struct) hp)"

definition release_field :: "(pb_field_iter \<Rightarrow> heap \<Rightarrow> heap option) \<Rightarrow> 's pb_denv \<Rightarrow> pb_field_iter \<Rightarrow> heap \<Rightarrow> heap option" where
  "release_field rec E iter hp =
     (let field = it_field iter; t = PB_LTYPE (pf_type field); a = PB_ATYPE (pf_type field);
          pData = it_pData iter;
          pItem = (if a = PB_ATYPE_POINTER then read_pointer (hp_mem hp) pData else pData);
          inside =
            (if t = 0x09 then
               for_extensions (\<lambda>ext hp1. rec (iter_from_extension E hp1 ext) hp1) (read_pointer (hp_mem hp) pData) hp
             else if t = 0x08 \<and> a \<noteq> PB_ATYPE_CALLBACK \<and> pItem \<noteq> 0 then
               release_items (release_message rec (sub_fields E field)) (pf_data_size field) (release_count iter hp) pItem hp
             else Some hp)
      in if PB_HTYPE (pf_type field) = PB_HTYPE_ONEOF \<and> of_nat (read_size (hp_mem hp) (it_pSize iter)) \<noteq> pf_tag field then Some hp
         else map_option (\<lambda>hp1. if a = PB_ATYPE_POINTER then release_pointer iter hp1 else hp1) inside)"

primrec pb_release_single_field :: "nat \<Rightarrow> 's pb_denv \<Rightarrow> pb_field_iter \<Rightarrow> heap \<Rightarrow> heap option" where
  "pb_release_single_field 0 E iter hp = None"
| "pb_release_single_field (Suc n) E iter hp = release_field (pb_release_single_field n E) E iter hp"

definition pb_release :: "nat \<Rightarrow> 's pb_denv \<Rightarrow> pb_field list \<Rightarrow> nat \<Rightarrow> heap \<Rightarrow> heap option" where
  "pb_release n E = release_message (pb_release_single_field n E)"

end
