(* ===== verification/PbDecodeMessage.thy ===== *)
theory PbDecodeMessage
  imports PbHeap
begin

text \<open>
  The decoder of whole messages (nanopb/pb_decode.c): fields in static storage, behind pointers and
  through callbacks, packed arrays, oneofs, extensions, arrays of a fixed count, the check for missing
  required fields, and submessages. The first argument bounds the nesting of messages.
\<close>

section \<open>Decoding protocol buffer messages\<close>

subsection \<open>Values in memory\<close>

definition dec_fail :: "string \<Rightarrow> 's decoder" where
  "dec_fail msg hp stream = Some (False, hp, PB_SET_IERROR msg stream)"

text \<open>\<open>if (!f) return false; g\<close>\<close>

definition dec_bind :: "'s decoder \<Rightarrow> 's decoder \<Rightarrow> 's decoder" where
  "dec_bind f g hp stream =
     Option.bind (f hp stream) (\<lambda>(ok, hp1, stream1). if ok then g hp1 stream1 else Some (False, hp1, stream1))"

definition dec_read :: "('s pb_istream, 'a) stm \<Rightarrow> ('a \<Rightarrow> 's decoder) \<Rightarrow> 's decoder" where
  "dec_read rd g hp stream = (case rd stream of (None, stream1) \<Rightarrow> Some (False, hp, stream1) | (Some v, stream1) \<Rightarrow> g v hp stream1)"

text \<open>A decoder of \<open>n\<close> bytes of memory at \<open>p\<close>.\<close>

definition dec_bytes_of :: "nat \<Rightarrow> (byte list \<Rightarrow> 's pb_istream \<Rightarrow> bool \<times> byte list \<times> 's pb_istream) \<Rightarrow> nat \<Rightarrow> 's decoder" where
  "dec_bytes_of n dec p hp stream =
     (case dec (mem_read (hp_mem hp) p n) stream of (ok, bs, stream1) \<Rightarrow> Some (ok, heap_store p bs hp, stream1))"

definition allocate_field_at :: "'s pb_denv \<Rightarrow> nat \<Rightarrow> nat \<Rightarrow> nat \<Rightarrow> 's decoder" where
  "allocate_field_at E pData data_size array_size hp stream =
     (case allocate_field (\<lambda>_ n. map_option (\<lambda>(q, hp1). store_pointer pData q hp1)
                                   (heap_realloc (de_place E) (read_pointer (hp_mem hp) pData) n hp))
             data_size array_size None stream of
        (None, stream1) \<Rightarrow> Some (False, hp, stream1)
      | (Some hp1, stream1) \<Rightarrow> Some (True, hp1, stream1))"

text \<open>\<open>pb_read\<close> into the memory at \<open>p\<close>, \<open>n\<close> bytes.\<close>

definition read_to :: "'s pb_denv \<Rightarrow> nat \<Rightarrow> nat \<Rightarrow> 's decoder" where
  "read_to E p n = dec_read (pb_read (de_read E) n) (\<lambda>bs hp stream. Some (True, heap_store p bs hp, stream))"

definition dec_bytes_at :: "'s pb_denv \<Rightarrow> pb_field \<Rightarrow> nat \<Rightarrow> 's decoder" where
  "dec_bytes_at E field p = dec_read (pb_decode_varint32 (de_read E)) (\<lambda>sz hp stream.
     let alloc_size = PB_BYTES_ARRAY_T_ALLOCSIZE (unat sz);
         fill = (\<lambda>bdest hp stream. read_to E (size_add bdest offsetof_bytes) (unat sz) (store_size bdest (unat sz) hp) stream)
     in if unat sz > alloc_size then dec_fail ''size too large'' hp stream
        else if PB_ATYPE (pf_type field) = PB_ATYPE_POINTER then
          (if is_bytes_left stream < unat sz then dec_fail ''end-of-stream'' hp stream
           else dec_bind (allocate_field_at E p alloc_size 1) (\<lambda>hp1. fill (read_pointer (hp_mem hp1) p) hp1) hp stream)
        else if alloc_size > pf_data_size field then dec_fail ''bytes overflow'' hp stream
        else fill p hp stream)"

definition dec_string_at :: "'s pb_denv \<Rightarrow> pb_field \<Rightarrow> nat \<Rightarrow> 's decoder" where
  "dec_string_at E field p = dec_read (pb_decode_varint32 (de_read E)) (\<lambda>sz hp stream.
     let alloc_size = unat (sz + 1);
         fill = (\<lambda>dest hp stream.
           map_option (\<lambda>(status, hp1, stream1). (status, heap_store (size_add dest (unat sz)) [0] hp1, stream1)) (read_to E dest (unat sz) hp stream))
     in if alloc_size < unat sz then dec_fail ''size too large'' hp stream
        else if PB_ATYPE (pf_type field) = PB_ATYPE_POINTER then
          (if is_bytes_left stream < unat sz then dec_fail ''end-of-stream'' hp stream
           else dec_bind (allocate_field_at E p alloc_size 1) (\<lambda>hp1. fill (read_pointer (hp_mem hp1) p) hp1) hp stream)
        else if alloc_size > pf_data_size field then dec_fail ''string overflow'' hp stream
        else fill p hp stream)"

text \<open>\<open>pb_dec_submessage\<close> with a decoder that may not return.\<close>

definition dec_total :: "'s decoder \<Rightarrow> heap option \<Rightarrow> 's pb_istream \<Rightarrow> bool \<times> heap option \<times> 's pb_istream" where
  "dec_total dec dest stream =
     (case Option.bind dest (\<lambda>hp. dec hp stream) of
        None \<Rightarrow> (False, None, stream)
      | Some (ok, hp1, stream1) \<Rightarrow> (ok, Some hp1, stream1))"

definition dec_submessage_at :: "'s pb_denv \<Rightarrow> (pb_field list \<Rightarrow> nat \<Rightarrow> 's decoder) \<Rightarrow> (pb_field list \<Rightarrow> nat \<Rightarrow> 's decoder) \<Rightarrow>
    pb_field \<Rightarrow> nat \<Rightarrow> 's decoder" where
  "dec_submessage_at E dec dec_noinit field p hp stream =
     (case pb_dec_submessage (de_read E) field (dec_total (dec (sub_fields E field) p)) (dec_total (dec_noinit (sub_fields E field) p))
             (Some hp) stream of
        (_, None, _) \<Rightarrow> None
      | (ok, Some hp1, stream1) \<Rightarrow> Some (ok, hp1, stream1))"

text \<open>\<open>PB_DECODERS[PB_LTYPE(field->type)](stream, field, p)\<close>; the entry of extensions is NULL and the table ends
  with fixed-length bytes, a call there has no result.\<close>

definition pb_decoder :: "'s pb_denv \<Rightarrow> (pb_field list \<Rightarrow> nat \<Rightarrow> 's decoder) \<Rightarrow> (pb_field list \<Rightarrow> nat \<Rightarrow> 's decoder) \<Rightarrow>
    pb_field \<Rightarrow> nat \<Rightarrow> 's decoder" where
  "pb_decoder E dec dec_noinit field =
     (let t = PB_LTYPE (pf_type field); rd = de_read E; n = pf_data_size field
      in if t = 0x00 then dec_bytes_of 1 (pb_dec_bool rd)
         else if t = 0x01 then dec_bytes_of n (pb_dec_varint rd field)
         else if t = 0x02 then dec_bytes_of n (pb_dec_uvarint rd field)
         else if t = 0x03 then dec_bytes_of n (pb_dec_svarint rd field)
         else if t = 0x04 then dec_bytes_of 4 (pb_dec_fixed32 rd)
         else if t = 0x05 then dec_bytes_of 8 (pb_dec_fixed64 rd)
         else if t = 0x06 then dec_bytes_at E field
         else if t = 0x07 then dec_string_at E field
         else if t = 0x08 then dec_submessage_at E dec dec_noinit field
         else if t = 0x0A then dec_bytes_of n (pb_dec_fixed_length_bytes rd field)
         else (\<lambda>_ _ _. None))"

subsection \<open>Fields\<close>

text \<open>
  The functions that decode a field get the decoders of submessages, the function that sets a submessage to
  its defaults, and the one that releases a field, each for the level of nesting below.
\<close>

record 's pb_level =
  lv_decode :: "pb_field list \<Rightarrow> nat \<Rightarrow> 's decoder"
  lv_decode_noinit :: "pb_field list \<Rightarrow> nat \<Rightarrow> 's decoder"
  lv_set_to_defaults :: "pb_field list \<Rightarrow> nat \<Rightarrow> heap \<Rightarrow> heap option"
  lv_release_single_field :: "pb_field_iter \<Rightarrow> heap \<Rightarrow> heap option"

definition lv_func :: "'s pb_denv \<Rightarrow> 's pb_level \<Rightarrow> pb_field \<Rightarrow> nat \<Rightarrow> 's decoder" where
  "lv_func E L = pb_decoder E (lv_decode L) (lv_decode_noinit L)"

text \<open>The loop over a packed array in static storage. The flag it returns is \<open>status\<close>.\<close>

definition packed_loop :: "(nat \<Rightarrow> 's decoder) \<Rightarrow> pb_field_iter \<Rightarrow> 's decoder" where
  "packed_loop func iter hp0 sub0 = c_loop (\<lambda>(hp, sub).
     let count = read_size (hp_mem hp) (it_pSize iter); field = it_field iter
     in if is_bytes_left sub > 0 \<and> count < pf_array_size field then
          map_option (\<lambda>(ok, hp1, sub1).
              if ok then Inl (store_size (it_pSize iter) (read_size (hp_mem hp1) (it_pSize iter) + 1) hp1, sub1)
              else Inr (False, hp1, sub1))
            (func (size_add (it_pData iter) (size_mul (pf_data_size field) count)) hp sub)
        else Some (Inr (True, hp, sub))) (hp0, sub0)"

definition decode_static_field :: "'s pb_denv \<Rightarrow> 's pb_level \<Rightarrow> pb_wire_type \<Rightarrow> pb_field_iter \<Rightarrow> 's decoder" where
  "decode_static_field E L wire_type iter hp stream =
     (let field = it_field iter; t = PB_LTYPE (pf_type field); h = PB_HTYPE (pf_type field);
          func = lv_func E L field; pData = it_pData iter; pSize = it_pSize iter; count = read_size (hp_mem hp) pSize
      in if h = PB_HTYPE_REQUIRED then func pData hp stream
         else if h = PB_HTYPE_OPTIONAL then
           func pData (if pSize \<noteq> pData then store_bool pSize True hp else hp) stream
         else if h = PB_HTYPE_REPEATED then
           (if wire_type = PB_WT_STRING \<and> t \<le> 0x05 then
              dec_read (pb_make_string_substream (de_read E)) (\<lambda>sub hp stream.
                Option.bind (packed_loop func iter hp sub) (\<lambda>(status, hp1, sub1).
                  if is_bytes_left sub1 \<noteq> 0 then dec_fail ''array overflow'' hp1 stream
                  else dec_read (pb_close_string_substream (de_read E) sub1) (\<lambda>_ hp stream. Some (status, hp, stream)) hp1 stream)) hp stream
            else
              let hp1 = store_size pSize (count + 1) hp
              in if count \<ge> pf_array_size field then dec_fail ''array overflow'' hp1 stream
                 else func (size_add pData (size_mul (pf_data_size field) count)) hp1 stream)
         else if h = PB_HTYPE_ONEOF then
           Option.bind (if t = 0x08 \<and> of_nat count \<noteq> pf_tag field
                        then lv_set_to_defaults L (sub_fields E field) pData (heap_store pData (replicate (pf_data_size field) 0) hp)
                        else Some hp)
             (\<lambda>hp1. func pData (store_size pSize (unat (pf_tag field)) hp1) stream)
         else dec_fail ''invalid field type'' hp stream)"

definition initialize_pointer_field :: "'s pb_denv \<Rightarrow> 's pb_level \<Rightarrow> nat \<Rightarrow> pb_field_iter \<Rightarrow> heap \<Rightarrow> heap option" where
  "initialize_pointer_field E L pItem iter hp =
     (let field = it_field iter; t = PB_LTYPE (pf_type field)
      in if t = 0x07 \<or> t = 0x06 then Some (store_pointer pItem 0 hp)
         else if t = 0x08 then lv_set_to_defaults L (sub_fields E field) pItem (heap_store pItem (replicate (pf_data_size field) 0) hp)
         else Some hp)"

text \<open>\<open>initialize_pointer_field(item, iter)\<close> and then \<open>func(stream, iter->pos, item)\<close>, for an item that may be read from memory.\<close>

definition init_then_decode :: "'s pb_denv \<Rightarrow> 's pb_level \<Rightarrow> pb_field_iter \<Rightarrow> (heap \<Rightarrow> nat) \<Rightarrow> 's decoder" where
  "init_then_decode E L iter item hp stream =
     Option.bind (initialize_pointer_field E L (item hp) iter hp) (\<lambda>hp1. lv_func E L (it_field iter) (item hp1) hp1 stream)"

text \<open>
  Room for one more entry of a packed array behind a pointer, with the new \<open>allocated_size\<close>; the division by an
  element size of 0 has no result.
\<close>

definition packed_alloc :: "'s pb_denv \<Rightarrow> pb_field_iter \<Rightarrow> nat \<Rightarrow> heap \<Rightarrow> 's pb_istream \<Rightarrow> (nat \<times> bool \<times> heap \<times> 's pb_istream) option" where
  "packed_alloc E iter allocated_size hp sub =
     (let data_size = pf_data_size (it_field iter);
          remain = (is_bytes_left sub - 1) div data_size + 1;
          allocated_size1 =
            (if remain < addr_add PB_SIZE_MAX (- int allocated_size) then size_add allocated_size remain
             else size_add allocated_size 1)
      in if read_size (hp_mem hp) (it_pSize iter) + 1 \<le> allocated_size then Some (allocated_size, True, hp, sub)
         else if data_size = 0 then None
         else map_option (Pair allocated_size1) (allocate_field_at E (it_pData iter) data_size allocated_size1 hp sub))"

text \<open>
  The loop over such an array: the state is \<open>allocated_size\<close>, the memory, the substream and the stream, whose error
  message the loop may set.
\<close>

definition packed_pointer_step :: "'s pb_denv \<Rightarrow> 's pb_level \<Rightarrow> pb_field_iter \<Rightarrow> nat \<times> heap \<times> 's pb_istream \<times> 's pb_istream \<Rightarrow>
    ((nat \<times> heap \<times> 's pb_istream \<times> 's pb_istream) + (bool \<times> heap \<times> 's pb_istream \<times> 's pb_istream)) option" where
  "packed_pointer_step E L iter =
     (\<lambda>(allocated_size, hp, sub, stream).
       let field = it_field iter; pSize = it_pSize iter
       in if is_bytes_left sub = 0 then Some (Inr (True, hp, sub, stream))
          else if read_size (hp_mem hp) pSize = PB_SIZE_MAX
          then Some (Inr (False, hp, sub, stream\<lparr>is_errmsg := Some ''too many array entries''\<rparr>))
          else Option.bind (packed_alloc E iter allocated_size hp sub) (\<lambda>(allocated_size1, ok, hp1, sub1).
            let pItem = size_add (read_pointer (hp_mem hp1) (it_pData iter)) (size_mul (pf_data_size field) (read_size (hp_mem hp1) pSize))
            in if \<not> ok \<or> pItem = 0 then Some (Inr (False, hp1, sub1, stream))
               else map_option (\<lambda>(ok, hp2, sub2).
                      if ok then Inl (allocated_size1, store_size pSize (read_size (hp_mem hp2) pSize + 1) hp2, sub2, stream)
                      else Inr (False, hp2, sub2, stream))
                    (init_then_decode E L iter (\<lambda>_. pItem) hp1 sub1)))"

definition decode_pointer_field :: "'s pb_denv \<Rightarrow> 's pb_level \<Rightarrow> pb_wire_type \<Rightarrow> pb_field_iter \<Rightarrow> 's decoder" where
  "decode_pointer_field E L wire_type iter hp stream =
     (let field = it_field iter; t = PB_LTYPE (pf_type field); h = PB_HTYPE (pf_type field);
          func = lv_func E L field; pData = it_pData iter; pSize = it_pSize iter
      in if h = PB_HTYPE_REQUIRED \<or> h = PB_HTYPE_OPTIONAL \<or> h = PB_HTYPE_ONEOF then
           Option.bind (if t = 0x08 \<and> read_pointer (hp_mem hp) pData \<noteq> 0 then lv_release_single_field L iter hp else Some hp) (\<lambda>hp1.
             let hp2 = (if h = PB_HTYPE_ONEOF then store_size pSize (unat (pf_tag field)) hp1 else hp1)
             in if t = 0x07 \<or> t = 0x06 then func pData hp2 stream
                else dec_bind (allocate_field_at E pData (pf_data_size field) 1)
                       (init_then_decode E L iter (\<lambda>hp3. read_pointer (hp_mem hp3) pData)) hp2 stream)
         else if h = PB_HTYPE_REPEATED then
           (if wire_type = PB_WT_STRING \<and> t \<le> 0x05 then
              dec_read (pb_make_string_substream (de_read E)) (\<lambda>sub hp stream.
                Option.bind (c_loop (packed_pointer_step E L iter) (read_size (hp_mem hp) pSize, hp, sub, stream)) (\<lambda>(status, hp1, sub1, stream1).
                  dec_read (pb_close_string_substream (de_read E) sub1) (\<lambda>_ hp stream. Some (status, hp, stream)) hp1 stream1)) hp stream
            else
              let count = read_size (hp_mem hp) pSize
              in if count = PB_SIZE_MAX then dec_fail ''too many array entries'' hp stream
                 else dec_bind (allocate_field_at E pData (pf_data_size field) (count + 1)) (\<lambda>hp1.
                        let count1 = read_size (hp_mem hp1) pSize
                        in init_then_decode E L iter (\<lambda>_. size_add (read_pointer (hp_mem hp1) pData) (size_mul (pf_data_size field) count1))
                             (store_size pSize (count1 + 1) hp1)) hp stream)
         else dec_fail ''invalid field type'' hp stream)"

definition callback_loop :: "'s decoder \<Rightarrow> 's decoder" where
  "callback_loop cb hp0 sub0 = c_loop (\<lambda>(hp, sub).
     map_option (\<lambda>(ok, hp1, sub1). if ok \<and> is_bytes_left sub1 \<noteq> 0 then Inl (hp1, sub1) else Inr (ok, hp1, sub1)) (cb hp sub)) (hp0, sub0)"

definition decode_callback_field :: "'s pb_denv \<Rightarrow> pb_wire_type \<Rightarrow> pb_field_iter \<Rightarrow> 's decoder" where
  "decode_callback_field E wire_type iter hp stream =
     (let pCallback = it_pData iter; decode = read_pointer (hp_mem hp) pCallback;
          cb = de_callbacks E decode (it_field iter) (size_add pCallback 8)
      in if pCallback = 0 \<or> decode = 0
         then dec_read (pb_skip_field (de_read E) wire_type) (\<lambda>_ hp stream. Some (True, hp, stream)) hp stream
         else if wire_type = PB_WT_STRING then
           dec_read (pb_make_string_substream (de_read E)) (\<lambda>sub hp stream.
             Option.bind (callback_loop cb hp sub) (\<lambda>(ok, hp1, sub1).
               if \<not> ok then dec_fail ''callback failed'' hp1 stream
               else dec_read (pb_close_string_substream (de_read E) sub1) (\<lambda>_ hp stream. Some (True, hp, stream)) hp1 stream)) hp stream
         else
           dec_read (read_raw_value (de_read E) wire_type 10) (\<lambda>buffer hp stream.
             map_option (\<lambda>(ok, hp1, _). (ok, hp1, stream)) (cb hp (pb_istream_from_buffer buffer (length buffer)))) hp stream)"

text \<open>Functions that move the iterator return it as well.\<close>

definition pb_release_union_field :: "'s pb_level \<Rightarrow> pb_field_iter \<Rightarrow> heap \<Rightarrow> 's pb_istream \<Rightarrow> (bool \<times> pb_field_iter \<times> heap \<times> 's pb_istream) option" where
  "pb_release_union_field L iter hp stream =
     (let old_tag = of_nat (read_size (hp_mem hp) (it_pSize iter)); new_tag = pf_tag (it_field iter)
      in if old_tag = 0 \<or> old_tag = new_tag then Some (True, iter, hp, stream)
         else Option.bind (pb_field_iter_find iter old_tag) (\<lambda>(found, iter1).
           if \<not> found then Some (False, iter1, hp, PB_SET_IERROR ''invalid union tag'' stream)
           else Option.bind (lv_release_single_field L iter1 hp) (\<lambda>hp1.
             Option.bind (pb_field_iter_find iter1 new_tag) (\<lambda>(found, iter2).
               if \<not> found then Some (False, iter2, hp1, PB_SET_IERROR ''iterator error'' stream)
               else Some (True, iter2,
                      if PB_ATYPE (pf_type (it_field iter2)) = PB_ATYPE_POINTER then store_pointer (it_pData iter2) 0 hp1 else hp1,
                      stream)))))"

definition decode_field :: "'s pb_denv \<Rightarrow> 's pb_level \<Rightarrow> pb_wire_type \<Rightarrow> pb_field_iter \<Rightarrow> heap \<Rightarrow> 's pb_istream \<Rightarrow>
    (bool \<times> pb_field_iter \<times> heap \<times> 's pb_istream) option" where
  "decode_field E L wire_type iter hp stream =
     Option.bind (if PB_HTYPE (pf_type (it_field iter)) = PB_HTYPE_ONEOF then pb_release_union_field L iter hp stream
                  else Some (True, iter, hp, stream)) (\<lambda>(ok, iter1, hp1, stream1).
       let a = PB_ATYPE (pf_type (it_field iter1))
       in if \<not> ok then Some (False, iter1, hp1, stream1)
          else map_option (\<lambda>(ok, hp2, stream2). (ok, iter1, hp2, stream2))
            (if a = PB_ATYPE_STATIC then decode_static_field E L wire_type iter1 hp1 stream1
             else if a = PB_ATYPE_POINTER then decode_pointer_field E L wire_type iter1 hp1 stream1
             else if a = PB_ATYPE_CALLBACK then decode_callback_field E wire_type iter1 hp1 stream1
             else dec_fail ''invalid field type'' hp1 stream1))"

subsection \<open>Extensions\<close>

definition default_extension_decoder :: "'s pb_denv \<Rightarrow> 's pb_level \<Rightarrow> nat \<Rightarrow> u32 \<Rightarrow> pb_wire_type \<Rightarrow> 's decoder" where
  "default_extension_decoder E L ext tag wire_type hp stream =
     (if pf_tag (et_arg (ext_type E hp ext)) \<noteq> tag then Some (True, hp, stream)
      else map_option (\<lambda>(ok, _, hp1, stream1). (ok, hp1, stream1))
             (decode_field E L wire_type (iter_from_extension E hp ext) (store_bool (ext_found ext) True hp) stream))"

definition decode_extension :: "'s pb_denv \<Rightarrow> 's pb_level \<Rightarrow> u32 \<Rightarrow> pb_wire_type \<Rightarrow> pb_field_iter \<Rightarrow> 's decoder" where
  "decode_extension E L tag wire_type iter hp0 stream0 = c_loop (\<lambda>(ext, hp, stream).
     if ext \<noteq> 0 \<and> is_bytes_left stream = is_bytes_left stream0 then
       map_option (\<lambda>(status, hp1, stream1).
           if status then Inl (ext_next hp1 ext, hp1, stream1) else Inr (False, hp1, stream1))
         ((case et_decode (ext_type E hp ext) of
             Some dec \<Rightarrow> dec ext tag wire_type
           | None \<Rightarrow> default_extension_decoder E L ext tag wire_type) hp stream)
     else Some (Inr (True, hp, stream))) (read_pointer (hp_mem hp0) (it_pData iter), hp0, stream0)"

subsection \<open>Messages\<close>

text \<open>
  The local variables of \<open>pb_decode_noinit\<close>, with the memory and the stream. \<open>fixed_count_field\<close> is the position of
  the field; \<open>fixed_count_size\<close> is in memory, since the iterator points to it.
\<close>

record 's decode_state =
  ds_iter :: pb_field_iter
  ds_fields_seen :: "u32 list"
  ds_extension_range_start :: u32
  ds_fixed_count_field :: "nat option"
  ds_heap :: heap
  ds_stream :: "'s pb_istream"

definition PB_MAX_REQUIRED_FIELDS :: nat where
  "PB_MAX_REQUIRED_FIELDS = 64"

definition see_field :: "nat \<Rightarrow> u32 list \<Rightarrow> u32 list" where
  "see_field index seen = seen[index div 32 := seen ! (index div 32) OR push_bit (index mod 32) 1]"

definition unknown_field :: "'s pb_denv \<Rightarrow> 's pb_level \<Rightarrow> decoded_tag \<Rightarrow> 's decode_state \<Rightarrow> (bool \<times> 's decode_state) option" where
  "unknown_field E L dt ds =
     (let skip = (\<lambda>ds. case pb_skip_field (de_read E) (dt_wire_type dt) (ds_stream ds) of
                         (r, stream) \<Rightarrow> Some (r \<noteq> None, ds\<lparr>ds_stream := stream\<rparr>))
      in if dt_tag dt \<ge> ds_extension_range_start ds then
           Option.bind (find_extension_field (ds_iter ds)) (\<lambda>(found, iter).
             let start = (if found then pf_tag (it_field iter) else - 1);
                 ds1 = ds\<lparr>ds_iter := iter, ds_extension_range_start := start\<rparr>
             in if dt_tag dt \<ge> start then
                  Option.bind (decode_extension E L (dt_tag dt) (dt_wire_type dt) iter (ds_heap ds) (ds_stream ds)) (\<lambda>(ok, hp, stream).
                    let ds2 = ds1\<lparr>ds_heap := hp, ds_stream := stream\<rparr>
                    in if \<not> ok then Some (False, ds2)
                       else if is_bytes_left stream \<noteq> is_bytes_left (ds_stream ds) then Some (True, ds2)
                       else skip ds2)
                else skip ds1)
         else skip ds)"

text \<open>A field with a fixed count has its counter in the local variable at \<open>frame\<close>.\<close>

definition fixed_count_unfinished :: "nat \<Rightarrow> 's decode_state \<Rightarrow> bool" where
  "fixed_count_unfinished frame ds \<longleftrightarrow>
     (case ds_fixed_count_field ds of
        None \<Rightarrow> False
      | Some f \<Rightarrow> read_size (hp_mem (ds_heap ds)) frame \<noteq> pf_array_size (it_start (ds_iter ds) ! f))"

definition enter_fixed_count :: "nat \<Rightarrow> 's decode_state \<Rightarrow> bool \<times> 's decode_state" where
  "enter_fixed_count frame ds =
     (let iter = ds_iter ds; hp = ds_heap ds
      in if PB_HTYPE (pf_type (it_field iter)) = PB_HTYPE_REPEATED \<and> it_pSize iter = it_pData iter then
           (let other = (ds_fixed_count_field ds \<noteq> Some (it_pos iter))
            in if other \<and> fixed_count_unfinished frame ds
               then (False, ds\<lparr>ds_stream := PB_SET_IERROR ''wrong size for fixed count field'' (ds_stream ds)\<rparr>)
               else (True, ds\<lparr>ds_iter := iter\<lparr>it_pSize := frame\<rparr>,
                              ds_fixed_count_field := Some (it_pos iter),
                              ds_heap := (if other then store_size frame 0 hp else hp)\<rparr>))
         else (True, ds))"

definition known_field :: "nat \<Rightarrow> 's pb_denv \<Rightarrow> 's pb_level \<Rightarrow> pb_wire_type \<Rightarrow> 's decode_state \<Rightarrow> (bool \<times> 's decode_state) option" where
  "known_field frame E L wire_type ds0 =
     (case enter_fixed_count frame ds0 of
        (False, ds) \<Rightarrow> Some (False, ds)
      | (True, ds) \<Rightarrow>
          let iter = ds_iter ds;
              seen = (if PB_HTYPE (pf_type (it_field iter)) = PB_HTYPE_REQUIRED \<and> it_required_field_index iter < PB_MAX_REQUIRED_FIELDS
                      then see_field (it_required_field_index iter) (ds_fields_seen ds) else ds_fields_seen ds)
          in map_option (\<lambda>(ok, iter1, hp, stream).
                 (ok, ds\<lparr>ds_iter := iter1, ds_fields_seen := seen, ds_heap := hp, ds_stream := stream\<rparr>))
               (decode_field E L wire_type iter (ds_heap ds) (ds_stream ds)))"

text \<open>The body of the loop over the stream; False with the state is \<open>return false\<close>, True the end of the loop.\<close>

definition decode_step :: "nat \<Rightarrow> 's pb_denv \<Rightarrow> 's pb_level \<Rightarrow> 's decode_state \<Rightarrow> ('s decode_state + (bool \<times> 's decode_state)) option" where
  "decode_step frame E L ds =
     (if is_bytes_left (ds_stream ds) = 0 then Some (Inr (True, ds))
      else case pb_decode_tag (de_read E) (ds_stream ds) of
             (False, dt, stream) \<Rightarrow> Some (Inr (dt_eof dt, ds\<lparr>ds_stream := stream\<rparr>))
           | (True, dt, stream) \<Rightarrow>
               Option.bind (pb_field_iter_find (ds_iter ds) (dt_tag dt)) (\<lambda>(found, iter).
                 let ds1 = ds\<lparr>ds_iter := iter, ds_stream := stream\<rparr>
                 in map_option (\<lambda>(ok, ds2). if ok then Inl ds2 else Inr (False, ds2))
                      (if found then known_field frame E L (dt_wire_type dt) ds1 else unknown_field E L dt ds1)))"

text \<open>
  The number of required fields: the last value of \<open>required_field_index\<close> on the way to the end of the array,
  and one more when the last field is required itself.
\<close>

definition req_field_count :: "pb_field_iter \<Rightarrow> nat" where
  "req_field_count iter =
     (let lst = last (iterations iter);
          count = it_required_field_index lst +
                    (if PB_HTYPE (pf_type (it_field lst)) = PB_HTYPE_REQUIRED \<and> it_start iter \<noteq> [] then 1 else 0)
      in min count PB_MAX_REQUIRED_FIELDS)"

definition required_present :: "u32 list \<Rightarrow> nat \<Rightarrow> bool" where
  "required_present seen count \<longleftrightarrow>
     (\<forall>i \<in> {0..<count div 32}. seen ! i = - 1) \<and>
     (count mod 32 \<noteq> 0 \<longrightarrow> seen ! (count div 32) = drop_bit (32 - count mod 32) (- 1))"

definition decode_end :: "nat \<Rightarrow> 's decode_state \<Rightarrow> bool \<times> heap \<times> 's pb_istream" where
  "decode_end frame ds =
     (let hp = ds_heap ds; stream = ds_stream ds
      in if fixed_count_unfinished frame ds then (False, hp, PB_SET_IERROR ''wrong size for fixed count field'' stream)
         else if \<not> required_present (ds_fields_seen ds) (req_field_count (ds_iter ds))
         then (False, hp, PB_SET_IERROR ''missing required field'' stream)
         else (True, hp, stream))"

definition decode_message :: "nat \<Rightarrow> 's pb_denv \<Rightarrow> 's pb_level \<Rightarrow> pb_field list \<Rightarrow> nat \<Rightarrow> 's decoder" where
  "decode_message frame E L flds dest_struct hp stream =
     map_option (\<lambda>(ok, ds). if ok then decode_end frame ds else (False, ds_heap ds, ds_stream ds))
       (c_loop (decode_step frame E L)
          \<lparr>ds_iter = snd (pb_field_iter_begin flds dest_struct), ds_fields_seen = [0, 0], ds_extension_range_start = 0,
           ds_fixed_count_field = None, ds_heap = store_size frame 0 hp, ds_stream = stream\<rparr>)"

definition decode_init :: "nat \<Rightarrow> 's pb_denv \<Rightarrow> (pb_field list \<Rightarrow> nat \<Rightarrow> 's decoder) \<Rightarrow> pb_field list \<Rightarrow> nat \<Rightarrow> 's decoder" where
  "decode_init n E noinit flds dest_struct hp stream =
     Option.bind (pb_message_set_to_defaults n E flds dest_struct hp) (\<lambda>hp1.
       Option.bind (noinit flds dest_struct hp1 stream) (\<lambda>(status, hp2, stream2).
         if status then Some (True, hp2, stream2)
         else map_option (\<lambda>hp3. (False, hp3, stream2)) (pb_release n E flds dest_struct hp2)))"

definition level_below :: "nat \<Rightarrow> 's pb_denv \<Rightarrow> (pb_field list \<Rightarrow> nat \<Rightarrow> 's decoder) \<Rightarrow> 's pb_level" where
  "level_below n E noinit =
     \<lparr>lv_decode = decode_init n E noinit, lv_decode_noinit = noinit,
      lv_set_to_defaults = pb_message_set_to_defaults n E, lv_release_single_field = pb_release_single_field (Suc n) E\<rparr>"

primrec pb_decode_noinit :: "nat \<Rightarrow> 's pb_denv \<Rightarrow> pb_field list \<Rightarrow> nat \<Rightarrow> 's decoder" where
  "pb_decode_noinit 0 E flds dest_struct hp stream = None"
| "pb_decode_noinit (Suc n) E flds dest_struct hp stream =
     decode_message (de_frame E (Suc n)) E (level_below n E (pb_decode_noinit n E)) flds dest_struct hp stream"

definition pb_decode :: "nat \<Rightarrow> 's pb_denv \<Rightarrow> pb_field list \<Rightarrow> nat \<Rightarrow> 's decoder" where
  "pb_decode n E = decode_init n E (pb_decode_noinit n E)"

definition decode_delimited :: "'s pb_denv \<Rightarrow> 's decoder \<Rightarrow> 's decoder" where
  "decode_delimited E dec = dec_read (pb_make_string_substream (de_read E)) (\<lambda>sub hp stream.
     Option.bind (dec hp sub) (\<lambda>(status, hp1, sub1).
       dec_read (pb_close_string_substream (de_read E) sub1) (\<lambda>_ hp stream. Some (status, hp, stream)) hp1 stream))"

definition pb_decode_delimited_noinit :: "nat \<Rightarrow> 's pb_denv \<Rightarrow> pb_field list \<Rightarrow> nat \<Rightarrow> 's decoder" where
  "pb_decode_delimited_noinit n E flds dest_struct = decode_delimited E (pb_decode_noinit n E flds dest_struct)"

definition pb_decode_delimited :: "nat \<Rightarrow> 's pb_denv \<Rightarrow> pb_field list \<Rightarrow> nat \<Rightarrow> 's decoder" where
  "pb_decode_delimited n E flds dest_struct = decode_delimited E (pb_decode n E flds dest_struct)"

definition pb_decode_nullterminated :: "nat \<Rightarrow> 's pb_denv \<Rightarrow> pb_field list \<Rightarrow> nat \<Rightarrow> 's decoder" where
  "pb_decode_nullterminated n E flds dest_struct = pb_decode n E flds dest_struct"

end
