(* ===== verification/PbSafety.thy ===== *)
theory PbSafety
  imports PbDecodeMessage
begin

text \<open>
  What the decoder of messages does with hostile input. A region \<open>R\<close> of memory contains what the descriptors of a
  message give to its fields (\<open>fits\<close>). For every sequence of bytes the decoder returns, reads only what its
  stream has left, and writes only to \<open>R\<close>. The contract between one level of nesting and the next is the locale
  \<open>safe_level\<close>: what the field decoders rely on, and, by induction on the nesting, what the decoder of messages
  provides. Two kinds of message types fit a region. For those of static fields and callbacks (\<open>safe_field\<close>) it is
  the \<open>storage\<close> of the message, and the decoder is memory-safe. For those with fields behind pointers
  (\<open>decodable\<close>) it is all of memory, as the blocks of the allocator are not tracked, and what
  remains is that the decoder returns and reads only its stream.
\<close>

section \<open>Safety of the decoder of messages\<close>

subsection \<open>Writes to a region of memory\<close>

primrec within :: "nat set \<Rightarrow> nat \<Rightarrow> nat \<Rightarrow> bool" where
  "within R p 0 \<longleftrightarrow> True"
| "within R p (Suc n) \<longleftrightarrow> p \<in> R \<and> within R (size_add p 1) n"

lemma within_UNIV [simp]: "within UNIV p n"
  by (induction n arbitrary: p) simp_all

lemma within_mono: "within R p n \<Longrightarrow> m \<le> n \<Longrightarrow> within R p m"
proof (induction n arbitrary: p m)
  case (Suc n)
  then show ?case by (cases m) simp_all
qed simp

lemma size_add_assoc: "size_add (size_add a b) c = size_add a (b + c)"
  by (simp add: size_add_def mod_simps add.assoc)

lemma within_add: "within R p (n + m) \<Longrightarrow> 0 < n \<Longrightarrow> within R (size_add p n) m"
proof (induction n arbitrary: p)
  case (Suc n)
  then show ?case using Suc(1) [of "size_add p 1"] by (cases n) (simp_all add: size_add_assoc)
qed simp

definition same_outside :: "nat set \<Rightarrow> heap \<Rightarrow> heap \<Rightarrow> bool" where
  "same_outside R hp hp' \<longleftrightarrow> (\<forall>a. a \<notin> R \<longrightarrow> hp_mem hp' a = hp_mem hp a)"

lemma same_outside_refl [simp]: "same_outside R hp hp"
  by (simp add: same_outside_def)

lemma same_outside_trans [trans]: "same_outside R hp hp' \<Longrightarrow> same_outside R hp' hp'' \<Longrightarrow> same_outside R hp hp''"
  by (simp add: same_outside_def)

lemma same_outside_UNIV [simp]: "same_outside UNIV hp hp'"
  by (simp add: same_outside_def)

lemma mem_put_outside: "within R p (length bs) \<Longrightarrow> a \<notin> R \<Longrightarrow> mem_put mem p bs a = mem a"
  by (induction bs arbitrary: mem p) auto

lemma same_outside_store: "within R p n \<Longrightarrow> length bs \<le> n \<Longrightarrow> same_outside R hp (heap_store p bs hp)"
  by (auto simp: same_outside_def heap_store_def intro: mem_put_outside within_mono)

lemma same_outside_stores [simp]:
  "within R p 8 \<Longrightarrow> same_outside R hp (store_pointer p v hp)"
  "within R p 4 \<Longrightarrow> same_outside R hp (store_size p n hp)"
  "within R p (Suc 0) \<Longrightarrow> same_outside R hp (store_bool p b hp)"
  unfolding store_pointer_def store_size_def store_bool_def by (erule same_outside_store, simp)+

lemma same_outside_bool: "p \<in> R \<Longrightarrow> same_outside R hp (store_bool p b hp)"
  by simp

definition heap_keeps :: "nat set \<Rightarrow> (heap \<Rightarrow> heap option) \<Rightarrow> bool" where
  "heap_keeps R f \<longleftrightarrow> (\<forall>hp. \<exists>hp'. f hp = Some hp' \<and> same_outside R hp hp')"

lemma heap_keeps_bind:
  "heap_keeps R f \<Longrightarrow> (\<And>hp. heap_keeps R (g hp)) \<Longrightarrow> heap_keeps R (\<lambda>hp. Option.bind (f hp) (\<lambda>hp'. g hp hp'))"
  unfolding heap_keeps_def by (metis bind.bind_lunit same_outside_trans)

lemma heap_keepsD: "heap_keeps R f \<Longrightarrow> \<exists>hp'. f hp = Some hp' \<and> same_outside R hp hp'"
  by (simp add: heap_keeps_def)

lemma heap_keeps_all: "(\<And>x. x \<in> set xs \<Longrightarrow> heap_keeps R (f x)) \<Longrightarrow> heap_keeps R (heap_all f xs)"
proof (induction xs)
  case (Cons x xs)
  then have "heap_keeps R (f x)" "heap_keeps R (heap_all f xs)" by simp_all
  then show ?case unfolding heap_keeps_def heap_all.simps by (metis bind.bind_lunit same_outside_trans)
qed (simp add: heap_keeps_def)

subsection \<open>Reads from a buffer\<close>

text \<open>A stream over a buffer has read some of the bytes it had left and has not more than the others left.\<close>

definition istream_inside :: "'s pb_istream \<Rightarrow> 's pb_istream \<Rightarrow> bool" where
  "istream_inside s t \<longleftrightarrow>
     (\<exists>xs n. is_source s = IBuffer xs \<and> is_source t = IBuffer (drop n xs) \<and> n + is_bytes_left t \<le> is_bytes_left s)"

lemma istream_inside_refl: "is_buffer (is_source s) \<Longrightarrow> istream_inside s s"
  by (cases "is_source s") (auto simp: istream_inside_def intro!: exI [of _ 0])

lemma istream_inside_trans [trans]: "istream_inside s t \<Longrightarrow> istream_inside t u \<Longrightarrow> istream_inside s u"
  unfolding istream_inside_def by (force intro: add.assoc)

lemma istream_inside_moved: "istream_moved s t \<Longrightarrow> istream_inside s t"
  unfolding istream_moved_def istream_inside_def by fastforce

lemma istream_inside_buffer: "istream_inside s t \<Longrightarrow> is_buffer (is_source s) \<and> is_buffer (is_source t) \<and> is_bytes_left t \<le> is_bytes_left s"
  by (auto simp: istream_inside_def)

lemma istream_inside_error [simp]: "istream_inside s (PB_SET_IERROR msg t) \<longleftrightarrow> istream_inside s t"
  by (simp add: istream_inside_def PB_SET_IERROR_def)

lemma stays_insideD': "stays_inside f \<Longrightarrow> is_buffer (is_source s) \<Longrightarrow> f s = (r, t) \<Longrightarrow> istream_inside s t"
  by (rule istream_inside_moved) (rule stays_insideD)

text \<open>
  A result for the memory \<open>hp\<close> and the stream \<open>s\<close> is safe: there is one, the stream has stayed inside its buffer and
  the memory outside of \<open>R\<close> is as before. A decoder is safe when all its results are.
\<close>

definition safe_result :: "nat set \<Rightarrow> heap \<Rightarrow> 's pb_istream \<Rightarrow> (bool \<times> heap \<times> 's pb_istream) option \<Rightarrow> bool" where
  "safe_result R hp s r \<longleftrightarrow> (\<exists>ok hp' s'. r = Some (ok, hp', s') \<and> istream_inside s s' \<and> same_outside R hp hp')"

definition keeps :: "nat set \<Rightarrow> 's decoder \<Rightarrow> bool" where
  "keeps R dec \<longleftrightarrow> (\<forall>hp s. is_buffer (is_source s) \<longrightarrow> safe_result R hp s (dec hp s))"

lemma keepsI: "(\<And>hp s. is_buffer (is_source s) \<Longrightarrow> safe_result R hp s (dec hp s)) \<Longrightarrow> keeps R dec"
  by (simp add: keeps_def)

lemma keepsD: "keeps R dec \<Longrightarrow> is_buffer (is_source s) \<Longrightarrow> safe_result R hp s (dec hp s)"
  by (simp add: keeps_def)

lemma safe_result_Some [simp]: "safe_result R hp s (Some (ok, hp', s')) \<longleftrightarrow> istream_inside s s' \<and> same_outside R hp hp'"
  by (simp add: safe_result_def)

lemma safe_resultE:
  assumes "safe_result R hp s r"
  obtains ok hp' s' where "r = Some (ok, hp', s')" "istream_inside s s'" "same_outside R hp hp'" "is_buffer (is_source s')"
  using assms istream_inside_buffer unfolding safe_result_def by blast

lemma safe_result_after:
  "istream_inside s s1 \<Longrightarrow> same_outside R hp hp1 \<Longrightarrow> safe_result R hp1 s1 r \<Longrightarrow> safe_result R hp s r"
  unfolding safe_result_def by (blast intro: istream_inside_trans same_outside_trans)

lemma safe_result_store: "same_outside R hp hp1 \<Longrightarrow> is_buffer (is_source s) \<Longrightarrow> safe_result R hp1 s r \<Longrightarrow> safe_result R hp s r"
  by (rule safe_result_after [OF istream_inside_refl])

lemma safe_result_fail: "is_buffer (is_source s) \<Longrightarrow> safe_result R hp s (dec_fail msg hp s)"
  by (simp add: dec_fail_def istream_inside_refl)

lemma safe_result_bind:
  assumes "safe_result R hp s (f hp s)" "\<And>hp1 s1. is_buffer (is_source s1) \<Longrightarrow> safe_result R hp1 s1 (g hp1 s1)"
  shows "safe_result R hp s (dec_bind f g hp s)"
  using assms(1)
proof (rule safe_resultE)
  fix ok hp1 s1
  assume f: "f hp s = Some (ok, hp1, s1)" "istream_inside s s1" "same_outside R hp hp1" "is_buffer (is_source s1)"
  from f(1-3) assms(2) [OF f(4)] show ?thesis by (cases ok) (auto simp: dec_bind_def intro: safe_result_after)
qed

lemma safe_result_read:
  assumes "stays_inside rd" "is_buffer (is_source s)" "\<And>v s1. is_buffer (is_source s1) \<Longrightarrow> safe_result R hp s1 (g v hp s1)"
  shows "safe_result R hp s (dec_read rd g hp s)"
proof -
  obtain r s1 where r: "rd s = (r, s1)" by (cases "rd s")
  from stays_insideD' [OF assms(1,2) r] have i: "istream_inside s s1" .
  then show ?thesis using assms(3) istream_inside_buffer [OF i]
    by (cases r) (auto simp: dec_read_def r intro: safe_result_after [OF i same_outside_refl])
qed

lemma safe_result_heap:
  assumes "heap_keeps R f" "is_buffer (is_source s)" "\<And>hp1. safe_result R hp1 s (g hp1)"
  shows "safe_result R hp s (Option.bind (f hp) g)"
  using heap_keepsD [OF assms(1), of hp] assms(2,3) by (auto intro: safe_result_store)

subsection \<open>Decoders of values\<close>

lemma length_mem_read [simp]: "length (mem_read mem p n) = n"
  by (induction n arbitrary: p) simp_all

lemma dec_bytes_of_keeps:
  assumes "within R p n" "\<And>dest s. is_buffer (is_source s) \<Longrightarrow> istream_moved s (snd (snd (dec dest s)))"
    and "\<And>dest s. length dest = n \<Longrightarrow> length (fst (snd (dec dest s))) \<le> n"
  shows "keeps R (dec_bytes_of n dec p)"
proof (rule keepsI)
  fix hp :: heap and s :: "'a pb_istream"
  assume s: "is_buffer (is_source s)"
  obtain ok bs s1 where d: "dec (mem_read (hp_mem hp) p n) s = (ok, bs, s1)" by (cases "dec (mem_read (hp_mem hp) p n) s")
  then have "length bs \<le> n" using assms(3) [of "mem_read (hp_mem hp) p n" s] by simp
  then show "safe_result R hp s (dec_bytes_of n dec p hp s)"
    using assms(2) [OF s, of "mem_read (hp_mem hp) p n"] assms(1) by (auto simp: dec_bytes_of_def d istream_inside_moved same_outside_store)
qed

lemma length_mem_write: "length (mem_write bs dest) = max (length bs) (length dest)"
  by (simp add: mem_write_def)

lemma length_le_bytes [simp]: "length (le_bytes n v) = n"
  by (induction n arbitrary: v) (simp_all add: le_bytes_Suc le_bytes_def)

lemma dec_lengths:
  "length dest = Suc 0 \<Longrightarrow> length (fst (snd (pb_dec_bool rd dest s))) \<le> Suc 0"
  "length dest = pf_data_size f \<Longrightarrow> length (fst (snd (pb_dec_varint rd f dest s))) \<le> pf_data_size f"
  "length dest = pf_data_size f \<Longrightarrow> length (fst (snd (pb_dec_uvarint rd f dest s))) \<le> pf_data_size f"
  "length dest = pf_data_size f \<Longrightarrow> length (fst (snd (pb_dec_svarint rd f dest s))) \<le> pf_data_size f"
  "length dest = 4 \<Longrightarrow> length (fst (snd (pb_dec_fixed32 rd dest s))) \<le> 4"
  "length dest = 8 \<Longrightarrow> length (fst (snd (pb_dec_fixed64 rd dest s))) \<le> 8"
  unfolding pb_dec_bool_def pb_dec_varint_def pb_dec_uvarint_def pb_dec_svarint_def pb_dec_fixed32_def pb_dec_fixed64_def dec_clamped_def store_int_def Let_def
  by (auto simp: length_mem_write split: prod.split option.split)

lemma pb_read_length: "pb_read rd n s = (Some bs, s') \<Longrightarrow> length bs \<le> n"
  by (auto simp: pb_read_def PB_RETURN_IERROR_def istream_take_def istream_callback_def split: if_splits option.splits prod.splits isource.splits iresult.splits)

lemma fixed_length_length: "length dest = pf_data_size f \<Longrightarrow> length (fst (snd (pb_dec_fixed_length_bytes rd f dest s))) \<le> pf_data_size f"
  unfolding pb_dec_fixed_length_bytes_def
  by (auto simp: length_mem_write split: prod.split option.split dest: pb_read_length)

lemma read_to_safe:
  assumes "within R p n" "is_buffer (is_source s)"
  shows "safe_result R hp s (read_to E p n hp s)"
proof -
  obtain r s1 where r: "pb_read (de_read E) n s = (r, s1)" by (cases "pb_read (de_read E) n s")
  show ?thesis
    using stays_insideD' [OF stays_inside_read assms(2) r] r assms(1)
    by (cases r) (auto simp: read_to_def dec_read_def same_outside_store dest: pb_read_length)
qed

lemma allocate_field_at_safe: "is_buffer (is_source s) \<Longrightarrow> safe_result UNIV hp s (allocate_field_at E p n m hp s)"
  using stays_insideD' [OF stays_inside_allocate]
  by (auto simp: allocate_field_at_def split: prod.split option.split)

lemma alloc_size_bytes [simp]: "PB_BYTES_ARRAY_T_ALLOCSIZE (unat sz) = unat sz + 4" for sz :: u32
proof -
  have "unat sz < 2 ^ 32" using unsigned_less [of sz] by simp
  then show ?thesis by (simp add: PB_BYTES_ARRAY_T_ALLOCSIZE_def offsetof_bytes_def)
qed

text \<open>Blocks that the allocator has placed are not tracked: a field behind a pointer may write anywhere.\<close>

definition field_bytes :: "pb_field \<Rightarrow> nat" where
  "field_bytes f =
     (let t = PB_LTYPE (pf_type f) in max (pf_data_size f) (if t = 0x00 then 1 else if t = 0x04 then 4 else if t = 0x05 then 8 else 0))"

definition block_fits :: "nat set \<Rightarrow> pb_field \<Rightarrow> nat \<Rightarrow> bool" where
  "block_fits R f p \<longleftrightarrow> R = UNIV \<or> PB_ATYPE (pf_type f) \<noteq> PB_ATYPE_POINTER \<and> p < 2 ^ 64 \<and> within R p (field_bytes f)"

lemma block_fits_within: "block_fits R f p \<Longrightarrow> n \<le> field_bytes f \<Longrightarrow> within R p n"
  by (auto simp: block_fits_def intro: within_mono)

lemma field_bytes_simps [simp]:
  "pf_data_size f \<le> field_bytes f" "PB_LTYPE (pf_type f) = 0x00 \<Longrightarrow> Suc 0 \<le> field_bytes f"
  "PB_LTYPE (pf_type f) = 0x04 \<Longrightarrow> 4 \<le> field_bytes f" "PB_LTYPE (pf_type f) = 0x05 \<Longrightarrow> 8 \<le> field_bytes f"
  by (simp_all add: field_bytes_def Let_def)

lemma field_bytes_block: "PB_LTYPE (pf_type f) \<in> {0x06, 0x07} \<Longrightarrow> field_bytes f = pf_data_size f"
  by (auto simp: field_bytes_def Let_def)

lemma dec_bytes_at_keeps:
  assumes "block_fits R f p" "PB_LTYPE (pf_type f) \<in> {0x06, 0x07}"
  shows "keeps R (dec_bytes_at E f p)"
proof -
  have fill: "safe_result R hp s (read_to E (size_add b offsetof_bytes) (unat sz) (store_size b (unat sz) hp) s)"
    if "within R b (4 + unat sz)" "is_buffer (is_source s)" for R b hp s and sz :: u32
  proof (rule safe_result_store [OF _ that(2)], rule same_outside_stores(2))
    show "within R b 4" using that(1) by (rule within_mono) simp
    show "safe_result R (store_size b (unat sz) hp) s (read_to E (size_add b offsetof_bytes) (unat sz) (store_size b (unat sz) hp) s)"
      using within_add [OF that(1)] that(2) by (intro read_to_safe) (simp_all add: offsetof_bytes_def)
  qed
  show ?thesis
  proof (rule keepsI)
    fix hp :: heap and s :: "'a pb_istream"
    assume s: "is_buffer (is_source s)"
    show "safe_result R hp s (dec_bytes_at E f p hp s)"
      unfolding dec_bytes_at_def Let_def using assms(1) field_bytes_block [OF assms(2)]
      by (intro safe_result_read [OF stays_inside_varint32 s])
         (auto simp: block_fits_def allocate_field_at_safe split: if_splits
            intro!: safe_result_fail safe_result_bind fill intro: within_mono)
  qed
qed

lemma alloc_size_string_le: "\<not> unat (sz + 1) < unat sz \<Longrightarrow> unat (sz + 1) = unat sz + 1" for sz :: u32
proof (cases "unat sz + 1 < 2 ^ 32")
  case False
  assume sz: "\<not> unat (sz + 1) < unat sz"
  have "unat sz < 2 ^ LENGTH(32)" by (rule unsigned_less)
  with False have "unat sz = 2 ^ 32 - 1" by simp
  then show ?thesis using sz by (simp add: unat_word_ariths)
qed (simp add: unat_word_ariths)

lemma dec_string_at_keeps:
  assumes "block_fits R f p" "PB_LTYPE (pf_type f) \<in> {0x06, 0x07}"
  shows "keeps R (dec_string_at E f p)"
proof -
  have fill: "safe_result R hp s (map_option (\<lambda>(status, hp1, stream1). (status, heap_store (size_add b (unat sz)) [0] hp1, stream1)) (read_to E b (unat sz) hp s))"
    if "within R b (unat sz + 1)" "is_buffer (is_source s)" "R = UNIV \<or> b < 2 ^ 64" for R b hp s and sz :: u32
  proof -
    have "within R b (unat sz)" using that(1) by (rule within_mono) simp
    from read_to_safe [OF this that(2)] obtain ok hp1 s1 where
      r: "read_to E b (unat sz) hp s = Some (ok, hp1, s1)" "istream_inside s s1" "same_outside R hp hp1" by (rule safe_resultE)
    have "within R (size_add b (unat sz)) 1" using within_add [OF that(1)] that(1,3) by (cases "unat sz = 0") auto
    then have "same_outside R hp1 (heap_store (size_add b (unat sz)) [0] hp1)" by (rule same_outside_store) simp
    then show ?thesis using r by (auto intro: same_outside_trans)
  qed
  show ?thesis
  proof (rule keepsI)
    fix hp :: heap and s :: "'a pb_istream"
    assume s: "is_buffer (is_source s)"
    show "safe_result R hp s (dec_string_at E f p hp s)"
      unfolding dec_string_at_def Let_def using assms(1) field_bytes_block [OF assms(2)]
      by (intro safe_result_read [OF stays_inside_varint32 s])
         (auto simp: block_fits_def allocate_field_at_safe split: if_splits dest!: alloc_size_string_le
            intro!: safe_result_fail safe_result_bind fill intro: within_mono)
  qed
qed

subsection \<open>Substreams\<close>

text \<open>A stream after \<open>pb_make_string_substream\<close>, with its substream: both are at the same place, and share what was left.\<close>

definition forked :: "'s pb_istream \<Rightarrow> 's pb_istream \<Rightarrow> 's pb_istream \<Rightarrow> bool" where
  "forked s sub s1 \<longleftrightarrow>
     (\<exists>xs n. is_source s = IBuffer xs \<and> is_source sub = IBuffer (drop n xs) \<and> is_source s1 = IBuffer (drop n xs) \<and>
             n + is_bytes_left sub + is_bytes_left s1 \<le> is_bytes_left s)"

lemma forked_inside: "forked s sub s1 \<Longrightarrow> istream_inside s s1 \<and> is_buffer (is_source sub) \<and> is_buffer (is_source s1)"
  unfolding forked_def istream_inside_def by fastforce

lemma forked_errmsg: "forked s sub s1 \<Longrightarrow> forked s sub (s1\<lparr>is_errmsg := m\<rparr>)"
  by (simp add: forked_def)

lemma forked_sub: "forked s sub s1 \<Longrightarrow> istream_inside sub sub1 \<Longrightarrow> is_source s2 = is_source sub1 \<Longrightarrow> is_bytes_left s2 = is_bytes_left s1 \<Longrightarrow> istream_inside s s2"
  unfolding forked_def istream_inside_def by (fastforce simp: add.assoc)

lemma make_substream_forked:
  assumes s: "is_buffer (is_source s)" and mk: "pb_make_string_substream rd s = (r, s1)"
  shows "istream_inside s s1 \<and> (\<forall>sub. r = Some sub \<longrightarrow> forked s sub s1)"
proof -
  obtain v s0 where v: "pb_decode_varint32 rd s = (v, s0)" by (cases "pb_decode_varint32 rd s")
  from stays_insideD' [OF stays_inside_varint32 s v] have i: "istream_inside s s0" .
  show ?thesis
  proof (cases "v \<noteq> None \<and> unat (the v) \<le> is_bytes_left s0")
    case True
    then have "r = Some (s0\<lparr>is_bytes_left := unat (the v)\<rparr>)" "s1 = s0\<lparr>is_bytes_left := is_bytes_left s0 - unat (the v)\<rparr>"
      using mk by (auto simp: pb_make_string_substream_def st_bind_def v)
    then have "forked s (the r) s1" using i True by (auto simp: forked_def istream_inside_def)
    then show ?thesis using forked_inside by auto
  next
    case False
    then have "r = None" "istream_inside s s1"
      using mk i by (auto simp: pb_make_string_substream_def st_bind_def v PB_RETURN_IERROR_def split: option.splits)
    then show ?thesis by simp
  qed
qed

lemma close_substream_inside:
  assumes f: "forked s sub s1" and sub: "istream_inside sub sub1" and cl: "pb_close_string_substream rd sub1 s1 = (r, s2)"
  shows "istream_inside s s2"
proof -
  define rest where "rest = (if is_bytes_left sub1 \<noteq> 0 then pb_read_null rd (is_bytes_left sub1) sub1 else (Some (), sub1))"
  obtain r' sub2 where r': "rest = (r', sub2)" by (cases rest)
  have "is_buffer (is_source sub1)" using istream_inside_buffer [OF sub] by simp
  then have "istream_inside sub1 sub2"
    using r' stays_insideD' [OF stays_inside_read_null, of sub1 rd "is_bytes_left sub1"] istream_inside_refl
    by (auto simp: rest_def split: if_splits)
  with sub have "istream_inside sub sub2" by (rule istream_inside_trans)
  moreover have "s2 = (if r' = None then s1 else s1\<lparr>is_source := is_source sub2, is_errmsg := is_errmsg sub2\<rparr>)"
    using cl unfolding pb_close_string_substream_def rest_def [symmetric] r' by (auto split: option.splits)
  ultimately show ?thesis using forked_sub [OF f, of sub2 s2] forked_inside [OF f] by (cases r') auto
qed

lemma safe_result_close:
  assumes "forked s sub s1" "istream_inside sub sub1" "same_outside R hp hp1"
  shows "safe_result R hp s (dec_read (pb_close_string_substream rd sub1) (\<lambda>_ hp stream. Some (status, hp, stream)) hp1 s1)"
  using close_substream_inside [OF assms(1,2)] assms(3)
  by (cases "pb_close_string_substream rd sub1 s1") (auto simp: dec_read_def split: option.split)

lemma safe_result_fork:
  assumes s: "is_buffer (is_source s)" and g: "\<And>sub s1. forked s sub s1 \<Longrightarrow> safe_result R hp s (g sub hp s1)"
  shows "safe_result R hp s (dec_read (pb_make_string_substream rd) g hp s)"
proof -
  obtain r s1 where r: "pb_make_string_substream rd s = (r, s1)" by (cases "pb_make_string_substream rd s")
  show ?thesis using make_substream_forked [OF s r] g by (cases r) (auto simp: dec_read_def r)
qed

lemma safe_result_fail_fork: "forked s sub s1 \<Longrightarrow> same_outside R hp hp1 \<Longrightarrow> safe_result R hp s (dec_fail msg hp1 s1)"
  using forked_inside [of s sub s1] by (simp add: dec_fail_def)

lemma dec_submessage_at_keeps:
  assumes "keeps R (dec (sub_fields E f) p)" "keeps R (noinit (sub_fields E f) p)"
  shows "keeps R (dec_submessage_at E dec noinit f p)"
proof (rule keepsI)
  fix hp :: heap and s :: "'a pb_istream"
  assume s: "is_buffer (is_source s)"
  obtain r s1 where r: "pb_make_string_substream (de_read E) s = (r, s1)" by (cases "pb_make_string_substream (de_read E) s")
  note mk = make_substream_forked [OF s r]
  define d where "d = (if PB_HTYPE (pf_type f) = PB_HTYPE_REPEATED then dec (sub_fields E f) p else noinit (sub_fields E f) p)"
  show "safe_result R hp s (dec_submessage_at E dec noinit f p hp s)"
  proof (cases "r = None \<or> pf_ptr f = None")
    case True
    then show ?thesis using mk by (auto simp: dec_submessage_at_def pb_dec_submessage_def r split: option.split)
  next
    case False
    then obtain sub where sub: "r = Some sub" "forked s sub s1" using mk by auto
    then have "is_buffer (is_source sub)" using forked_inside by blast
    then have "safe_result R hp sub (d hp sub)" using assms by (simp add: d_def keepsD)
    then obtain ok hp1 sub1 where d: "d hp sub = Some (ok, hp1, sub1)" "istream_inside sub sub1" "same_outside R hp hp1" by (rule safe_resultE)
    have "(if PB_HTYPE (pf_type f) = PB_HTYPE_REPEATED then dec_total (dec (sub_fields E f) p) (Some hp) sub
           else dec_total (noinit (sub_fields E f) p) (Some hp) sub) = (ok, Some hp1, sub1)"
      using d(1) by (auto simp: d_def dec_total_def)
    then show ?thesis using sub(1) False close_substream_inside [OF sub(2) d(2)] d(3)
      by (auto simp: dec_submessage_at_def pb_dec_submessage_def r split: prod.split option.split)
  qed
qed

subsection \<open>What a level of nesting promises\<close>

definition item_fits :: "(pb_field list \<Rightarrow> nat \<Rightarrow> bool) \<Rightarrow> 's pb_denv \<Rightarrow> nat set \<Rightarrow> pb_field \<Rightarrow> nat \<Rightarrow> bool" where
  "item_fits sub E R f p \<longleftrightarrow> block_fits R f p \<and> (PB_LTYPE (pf_type f) = 0x08 \<longrightarrow> sub (sub_fields E f) p)"

text \<open>
  A callback returns, stays inside its stream, writes to \<open>R\<close> only, and takes a byte when it leaves some.
\<close>

definition callback_ok :: "nat set \<Rightarrow> 's decoder \<Rightarrow> bool" where
  "callback_ok R cb \<longleftrightarrow> keeps R cb \<and>
     (\<forall>hp s hp' s'. is_buffer (is_source s) \<longrightarrow> cb hp s = Some (True, hp', s') \<longrightarrow> is_bytes_left s' \<noteq> 0 \<longrightarrow> is_bytes_left s' < is_bytes_left s)"

text \<open>
  A field of a structure fits the region \<open>R\<close>: its type is one of those the decoder has, none of them an extension; the
  storage that its descriptor gives to its items and to its counter, flag or tag is in \<open>R\<close>; and so are the
  submessages in its items. \<open>frame\<close> is the counter of arrays with a fixed count.
\<close>

definition static_fits :: "(pb_field list \<Rightarrow> nat \<Rightarrow> bool) \<Rightarrow> 's pb_denv \<Rightarrow> nat set \<Rightarrow> pb_field_iter \<Rightarrow> bool" where
  "static_fits sub E R it \<longleftrightarrow>
     (let f = it_field it; h = PB_HTYPE (pf_type f)
      in if h = PB_HTYPE_REPEATED then
           it_pData it < 2 ^ 64 \<and> within R (it_pSize it) 4 \<and> (\<forall>i \<in> {0..<pf_array_size f}. item_fits sub E R f (size_add (it_pData it) (size_mul (pf_data_size f) i)))
         else item_fits sub E R f (it_pData it) \<and>
              (h = PB_HTYPE_OPTIONAL \<and> it_pSize it \<noteq> it_pData it \<longrightarrow> within R (it_pSize it) 1) \<and>
              (h = PB_HTYPE_ONEOF \<longrightarrow> within R (it_pSize it) 4))"

definition field_fits :: "(pb_field list \<Rightarrow> nat \<Rightarrow> bool) \<Rightarrow> 's pb_denv \<Rightarrow> nat set \<Rightarrow> pb_field_iter \<Rightarrow> bool" where
  "field_fits sub E R it \<longleftrightarrow>
     (let f = it_field it; t = PB_LTYPE (pf_type f); a = PB_ATYPE (pf_type f)
      in t \<in> {0x00, 0x01, 0x02, 0x03, 0x04, 0x05, 0x06, 0x07, 0x08, 0x0A} \<and>
         a \<in> {PB_ATYPE_STATIC, PB_ATYPE_POINTER, PB_ATYPE_CALLBACK} \<and>
         (a = PB_ATYPE_STATIC \<longrightarrow> static_fits sub E R it) \<and>
         (a = PB_ATYPE_POINTER \<longrightarrow> R = UNIV \<and> 0 < pf_data_size f \<and> (t = 0x08 \<longrightarrow> (\<forall>p. sub (sub_fields E f) p))) \<and>
         (a = PB_ATYPE_CALLBACK \<longrightarrow> (\<forall>decode. callback_ok R (de_callbacks E decode f (size_add (it_pData it) 8)))))"

subsection \<open>Scalar values take at least a byte\<close>

lemma moved_left: "istream_moved s t \<Longrightarrow> is_bytes_left t \<le> is_bytes_left s"
  by (auto simp: istream_moved_def)

lemma readbyte_first:
  assumes "is_buffer (is_source s)" "pb_readbyte rd s = (Some b, s1)"
  shows "is_bytes_left s1 < is_bytes_left s" "is_buffer (is_source s1)"
  using pb_readbyte_left [OF assms(2)] stays_insideD [OF stays_inside_readbyte assms] istream_moved_buffer by auto

lemma pb_decode_varint_consumes:
  assumes s: "is_buffer (is_source s)" and v: "pb_decode_varint rd s = (Some v, s')"
  shows "is_bytes_left s' < is_bytes_left s"
proof -
  obtain b s1 where b: "pb_readbyte rd s = (b, s1)" by (cases "pb_readbyte rd s")
  show ?thesis
  proof (cases b)
    case (Some x)
    note first = readbyte_first [OF s b [unfolded Some]]
    have "s' = s1 \<or> (\<exists>r. decode_varint_loop rd 7 r s1 = (Some v, s'))"
      using v b Some by (auto simp: pb_decode_varint_def decode_varint_loop.simps [of rd 0] Let_def split: if_splits)
    then show ?thesis using first moved_left [OF decode_varint_loop_moved [OF first(2)]] by (metis order.strict_trans1 snd_conv)
  qed (use v b in \<open>simp add: pb_decode_varint_def decode_varint_loop.simps [of rd 0]\<close>)
qed

lemma pb_decode_varint32_consumes:
  assumes s: "is_buffer (is_source s)" and v: "pb_decode_varint32_eof rd s = (Some v, eof, s')"
  shows "is_bytes_left s' < is_bytes_left s"
proof -
  obtain b s1 where b: "pb_readbyte rd s = (b, s1)" by (cases "pb_readbyte rd s")
  show ?thesis
  proof (cases b)
    case (Some x)
    note first = readbyte_first [OF s b [unfolded Some]]
    have "s' = s1 \<or> (\<exists>r q. varint32_loop rd 7 r s1 = (q, s'))"
      using v b Some by (auto simp: pb_decode_varint32_eof_def split: if_splits prod.splits option.splits)
    then show ?thesis using first moved_left [OF varint32_loop_moved [OF first(2)]] by (metis order.strict_trans1 snd_conv)
  qed (use v b in \<open>simp add: pb_decode_varint32_eof_def\<close>)
qed

lemma tag_bound: "unat (drop_bit 3 temp) < 2 ^ 29" for temp :: u32
proof -
  have "unat temp < 2 ^ LENGTH(32)" by (rule unsigned_less)
  then have "unat temp div 8 < 2 ^ 29" by (simp add: div_less_iff_less_mult)
  then show ?thesis by (simp add: unat_drop_bit_eq drop_bit_eq_div [of 3 "unat temp"])
qed

lemma pb_decode_tag_consumes:
  "is_buffer (is_source s) \<Longrightarrow> pb_decode_tag rd s = (True, dt, s') \<Longrightarrow> is_bytes_left s' < is_bytes_left s \<and> unat (dt_tag dt) < 2 ^ 29"
  using tag_bound pb_decode_varint32_consumes [of s rd]
  by (auto simp: pb_decode_tag_def simp del: power_numeral split: prod.splits option.splits if_splits)

lemma fixed_consumes:
  "pb_decode_fixed32 rd s = (Some w, s') \<Longrightarrow> is_bytes_left s' < is_bytes_left s"
  "pb_decode_fixed64 rd s = (Some v, s') \<Longrightarrow> is_bytes_left s' < is_bytes_left s"
  by (auto simp: pb_decode_fixed32_def pb_decode_fixed64_def st_bind_def st_return_def split: prod.splits option.splits dest!: pb_read_left)

lemma scalar_consumes:
  assumes "is_buffer (is_source s)" "PB_LTYPE (pf_type f) \<le> 0x05" "pb_decoder E dec noinit f p hp s = Some (True, hp', s')"
  shows "is_bytes_left s' < is_bytes_left s"
proof -
  have clamp: "dec_clamped cast f v d t = (True, d', u) \<Longrightarrow> u = t" for cast v d d' and t u :: "'a pb_istream"
    by (auto simp: dec_clamped_def Let_def split: if_splits)
  have v: "pb_decode_varint rd s = (Some v, t) \<Longrightarrow> is_bytes_left t < is_bytes_left s" for rd v t
    using pb_decode_varint_consumes [OF assms(1)] by blast
  have w: "pb_decode_varint32 rd s = (Some v, t) \<Longrightarrow> is_bytes_left t < is_bytes_left s" for rd v t
    using pb_decode_varint32_consumes [OF assms(1)] pb_decode_varint32_eof_fst by blast
  have z: "pb_decode_svarint rd s = (Some v, t) \<Longrightarrow> is_bytes_left t < is_bytes_left s" for rd v t
    using v by (auto simp: pb_decode_svarint_def st_bind_def st_return_def split: prod.splits option.splits)
  have "PB_LTYPE (pf_type f) \<in> {0x00, 0x01, 0x02, 0x03, 0x04, 0x05}"
  proof -
    have "unat (PB_LTYPE (pf_type f)) \<le> 5" using assms(2) by (simp add: word_le_nat_alt)
    then have "unat (PB_LTYPE (pf_type f)) \<in> {0, 1, 2, 3, 4, 5}" by auto
    then show ?thesis by (auto simp: word_unat_eq_iff)
  qed
  then show ?thesis using assms(3)
    by (auto simp: pb_decoder_def Let_def dec_bytes_of_def pb_dec_bool_def pb_dec_varint_def pb_dec_uvarint_def pb_dec_svarint_def
          pb_dec_fixed32_def pb_dec_fixed64_def split: prod.splits option.splits if_splits dest!: clamp v w z fixed_consumes)
qed

subsection \<open>Iterators of the decoder\<close>

text \<open>
  The iterators that \<open>pb_decode_noinit\<close> works with: those of the walk, and for an array those that count in the
  local variable at \<open>frame\<close>.
\<close>

definition on_walk :: "pb_field list \<Rightarrow> nat \<Rightarrow> nat \<Rightarrow> pb_field_iter \<Rightarrow> bool" where
  "on_walk flds dest frame it \<longleftrightarrow>
     (\<exists>i < max 1 (length flds). it = iter_at flds dest i \<or>
        PB_HTYPE (pf_type (it_field (iter_at flds dest i))) = PB_HTYPE_REPEATED \<and> it = (iter_at flds dest i)\<lparr>it_pSize := frame\<rparr>)"

lemma it_field_pSize [simp]: "it_field (it\<lparr>it_pSize := x\<rparr>) = it_field it"
  by (simp add: it_field_def)

lemma next_pSize:
  "PB_HTYPE (pf_type (it_field it)) = PB_HTYPE_REPEATED \<Longrightarrow> it_pos it < length (it_start it) \<Longrightarrow>
     pb_field_iter_next (it\<lparr>it_pSize := x\<rparr>) = pb_field_iter_next it"
  by (simp add: pb_field_iter_next_def it_field_def Let_def PB_HTYPE_REPEATED_def PB_HTYPE_ONEOF_def PB_HTYPE_REQUIRED_def)

lemma iter_search_walk:
  assumes "on_walk flds dest frame it"
  shows "\<exists>found it'. iter_search p it = Some (found, it') \<and> on_walk flds dest frame it' \<and> (found \<longrightarrow> p (it_field it')) \<and>
           (\<not> found \<longrightarrow> (\<forall>f \<in> set flds. \<not> p f))"
proof (cases "flds = []")
  case True
  then have it: "it = iter_at [] dest 0"
    using assms by (auto simp: on_walk_def it_field_def PB_LAST_FIELD_def PB_HTYPE_def PB_HTYPE_REPEATED_def pb_field_iter_begin_def Let_def)
  have "pb_field_iter_next it = (False, it)" unfolding it by (simp add: pb_field_iter_next_def)
  then have "iter_search p it = Some (p (it_field it), it)" by (simp add: iter_search_def, subst c_loop.simps, simp)
  then show ?thesis using True assms by auto
next
  case False
  then have "max 1 (length flds) = length flds" by (cases flds) auto
  then obtain i where i: "i < length flds" "it_start it = flds" "it_pos it = i" "pb_field_iter_next it = pb_field_iter_next (iter_at flds dest i)"
    using assms by (auto simp: on_walk_def next_pSize simp del: iter_at.simps)
  have search: "iter_search p it = Some (case search_offset p flds i of None \<Rightarrow> (False, iter_at flds dest i)
                 | Some k \<Rightarrow> (True, if k = 0 then it else iter_at flds dest ((i + k) mod length flds)))"
    by (rule iter_search_at [OF i])
  have at: "on_walk flds dest frame (iter_at flds dest j)" if "j < length flds" for j
    using that unfolding on_walk_def by (intro exI [of _ j]) simp
  show ?thesis
  proof (cases "search_offset p flds i")
    case None
    then show ?thesis using search at [OF i(1)] search_offset_None [OF i(1), of p] by auto
  next
    case (Some k)
    then have k: "p (flds ! ((i + k) mod length flds))" "(i + k) mod length flds < length flds"
      using i(1) by (auto simp: search_offset_def find_Some_iff intro!: mod_less_divisor)
    have "it_field it = flds ! i" using i by (simp add: it_field_def)
    then show ?thesis using search Some k at [OF k(2)] assms i(1) by (cases "k = 0") (auto simp del: iter_at.simps)
  qed
qed

subsection \<open>Decoders of fields\<close>

locale safe_level =
  fixes E :: "'s pb_denv" and R :: "nat set" and sub :: "pb_field list \<Rightarrow> nat \<Rightarrow> bool" and L :: "'s pb_level"
  assumes decode: "sub flds p \<Longrightarrow> keeps R (lv_decode L flds p)"
    and decode_noinit: "sub flds p \<Longrightarrow> keeps R (lv_decode_noinit L flds p)"
    and set_to_defaults: "sub flds p \<Longrightarrow> heap_keeps R (lv_set_to_defaults L flds p)"
    and release: "field_fits sub E R it \<Longrightarrow> heap_keeps R (lv_release_single_field L it)"
begin

lemma func_keeps:
  assumes "PB_LTYPE (pf_type f) \<in> {0x00, 0x01, 0x02, 0x03, 0x04, 0x05, 0x06, 0x07, 0x08, 0x0A}" "item_fits sub E R f p"
  shows "keeps R (lv_func E L f p)"
proof -
  have fits: "block_fits R f p" and msg: "PB_LTYPE (pf_type f) = 0x08 \<Longrightarrow> sub (sub_fields E f) p"
    using assms(2) by (simp_all add: item_fits_def)
  note w = block_fits_within [OF fits]
  note moved = dec_bytes_of_keeps [OF _ pb_dec_moved(1)] dec_bytes_of_keeps [OF _ pb_dec_moved(2)] dec_bytes_of_keeps [OF _ pb_dec_moved(3)]
    dec_bytes_of_keeps [OF _ pb_dec_moved(4)] dec_bytes_of_keeps [OF _ pb_dec_moved(5)] dec_bytes_of_keeps [OF _ pb_dec_moved(6)]
    dec_bytes_of_keeps [OF _ pb_dec_block_moved(3)]
  note rules = moved dec_bytes_at_keeps [OF fits] dec_string_at_keeps [OF fits] dec_submessage_at_keeps [OF decode decode_noinit]
  from assms(1) show ?thesis unfolding lv_func_def pb_decoder_def Let_def
    by (auto intro!: rules w dec_lengths fixed_length_length simp: msg)
qed

lemma packed_loop_safe:
  assumes t: "PB_LTYPE (pf_type (it_field it)) \<le> 0x05" and buf: "is_buffer (is_source sub0)"
    and sz: "within R (it_pSize it) 4"
    and item: "\<And>i. i < pf_array_size (it_field it) \<Longrightarrow> keeps R (lv_func E L (it_field it) (size_add (it_pData it) (size_mul (pf_data_size (it_field it)) i)))"
  shows "safe_result R hp0 sub0 (packed_loop (lv_func E L (it_field it)) it hp0 sub0)"
proof -
  define body where "body = (\<lambda>(hp, sub).
     let count = read_size (hp_mem hp) (it_pSize it); field = it_field it
     in if is_bytes_left sub > 0 \<and> count < pf_array_size field then
          map_option (\<lambda>(ok, hp1, sub1).
              if ok then Inl (store_size (it_pSize it) (read_size (hp_mem hp1) (it_pSize it) + 1) hp1, sub1)
              else Inr (False, hp1, sub1))
            (lv_func E L field (size_add (it_pData it) (size_mul (pf_data_size field) count)) hp sub)
        else Some (Inr (True, hp, sub)))"
  have "\<exists>b. c_loop body (hp0, sub0) = Some b \<and> safe_result R hp0 sub0 (Some b)"
  proof (rule c_loop_total [where R = "measure (\<lambda>(hp, sub). is_bytes_left sub)" and I = "\<lambda>(hp, sub). istream_inside sub0 sub \<and> same_outside R hp0 hp"])
    show "case (hp0, sub0) of (hp, sub) \<Rightarrow> istream_inside sub0 sub \<and> same_outside R hp0 hp" using buf by (simp add: istream_inside_refl)
    fix st
    assume "case st of (hp, sub) \<Rightarrow> istream_inside sub0 sub \<and> same_outside R hp0 hp"
    then obtain hp sub where st: "st = (hp, sub)" and I: "istream_inside sub0 sub" "same_outside R hp0 hp" by (cases st) auto
    define count where "count = read_size (hp_mem hp) (it_pSize it)"
    show "\<exists>r. body st = Some r \<and> (case r of Inl s' \<Rightarrow> (case s' of (hp, sub) \<Rightarrow> istream_inside sub0 sub \<and> same_outside R hp0 hp) \<and> (s', st) \<in> measure (\<lambda>(hp, sub). is_bytes_left sub)
              | Inr b \<Rightarrow> safe_result R hp0 sub0 (Some b))"
    proof (cases "is_bytes_left sub > 0 \<and> count < pf_array_size (it_field it)")
      case True
      have buf1: "is_buffer (is_source sub)" using istream_inside_buffer [OF I(1)] by simp
      let ?r = "lv_func E L (it_field it) (size_add (it_pData it) (size_mul (pf_data_size (it_field it)) count)) hp sub"
      have "safe_result R hp sub ?r" using True by (intro keepsD [OF item buf1]) simp
      then obtain ok hp1 sub1 where r: "?r = Some (ok, hp1, sub1)" "istream_inside sub sub1" "same_outside R hp hp1" by (rule safe_resultE)
      have "ok \<Longrightarrow> is_bytes_left sub1 < is_bytes_left sub" using scalar_consumes [OF buf1 t] r(1) by (simp add: lv_func_def)
      moreover have "same_outside R hp1 (store_size (it_pSize it) n hp1)" for n using sz by simp
      ultimately show ?thesis using True r I
        by (cases ok) (auto simp: body_def st count_def [symmetric] Let_def intro: istream_inside_trans same_outside_trans)
    next
      case False
      then show ?thesis using I by (auto simp: body_def st count_def Let_def)
    qed
  qed simp
  then show ?thesis unfolding packed_loop_def body_def by auto
qed

lemma decode_static_field_safe:
  assumes t: "PB_LTYPE (pf_type (it_field it)) \<in> {0x00, 0x01, 0x02, 0x03, 0x04, 0x05, 0x06, 0x07, 0x08, 0x0A}"
    and fits: "static_fits sub E R it" and s: "is_buffer (is_source s)"
  shows "safe_result R hp s (decode_static_field E L wt it hp s)"
proof (cases "PB_HTYPE (pf_type (it_field it)) = PB_HTYPE_REPEATED")
  case True
  let ?f = "it_field it"
  have sz: "within R (it_pSize it) 4"
    and item: "\<And>i. i < pf_array_size ?f \<Longrightarrow> keeps R (lv_func E L ?f (size_add (it_pData it) (size_mul (pf_data_size ?f) i)))"
    using fits True by (auto simp: static_fits_def Let_def intro!: func_keeps [OF t])
  have "safe_result R hp s (dec_read (pb_make_string_substream (de_read E)) (\<lambda>sub hp stream.
                Option.bind (packed_loop (lv_func E L ?f) it hp sub) (\<lambda>(status, hp1, sub1).
                  if is_bytes_left sub1 \<noteq> 0 then dec_fail ''array overflow'' hp1 stream
                  else dec_read (pb_close_string_substream (de_read E) sub1) (\<lambda>_ hp stream. Some (status, hp, stream)) hp1 stream)) hp s)"
    if "PB_LTYPE (pf_type ?f) \<le> 0x05"
  proof (rule safe_result_fork [OF s])
    fix sb s1
    assume f: "forked s sb s1"
    have "safe_result R hp sb (packed_loop (lv_func E L ?f) it hp sb)"
      using forked_inside [OF f] by (intro packed_loop_safe [OF that _ sz item]) simp_all
    then show "safe_result R hp s (Option.bind (packed_loop (lv_func E L ?f) it hp sb) (\<lambda>(status, hp1, sub1).
                  if is_bytes_left sub1 \<noteq> 0 then dec_fail ''array overflow'' hp1 s1
                  else dec_read (pb_close_string_substream (de_read E) sub1) (\<lambda>_ hp stream. Some (status, hp, stream)) hp1 s1))"
      by (rule safe_resultE) (auto intro!: safe_result_fail_fork [OF f] safe_result_close [OF f])
  qed
  moreover have "safe_result R hp s (lv_func E L ?f (size_add (it_pData it) (size_mul (pf_data_size ?f) i)) (store_size (it_pSize it) n hp) s)"
    if "i < pf_array_size ?f" for i n
    using sz item [OF that] by (intro safe_result_store [OF _ s keepsD [OF _ s]]) simp_all
  moreover have "safe_result R hp s (dec_fail msg (store_size (it_pSize it) n hp) s)" for msg n
    using sz by (intro safe_result_store [OF _ s safe_result_fail [OF s]]) simp
  ultimately show ?thesis
    using True by (auto simp: decode_static_field_def Let_def PB_HTYPE_REQUIRED_def PB_HTYPE_OPTIONAL_def PB_HTYPE_REPEATED_def)
next
  case False
  let ?f = "it_field it"
  have fits': "item_fits sub E R ?f (it_pData it)" using fits False by (simp add: static_fits_def Let_def)
  then have func: "keeps R (lv_func E L ?f (it_pData it))" by (rule func_keeps [OF t])
  have opt: "same_outside R hp (if it_pSize it \<noteq> it_pData it then store_bool (it_pSize it) True hp else hp)" if "PB_HTYPE (pf_type ?f) = PB_HTYPE_OPTIONAL"
    using fits False that by (simp add: static_fits_def Let_def)
  have tag: "within R (it_pSize it) 4" if "PB_HTYPE (pf_type ?f) = PB_HTYPE_ONEOF" using fits False that by (simp add: static_fits_def Let_def)
  have pre: "heap_keeps R (\<lambda>hp. if PB_LTYPE (pf_type ?f) = 0x08 \<and> c hp
         then lv_set_to_defaults L (sub_fields E ?f) (it_pData it) (heap_store (it_pData it) (replicate (pf_data_size ?f) 0) hp) else Some hp)" for c
  proof -
    have "same_outside R hp (heap_store (it_pData it) (replicate (pf_data_size ?f) 0) hp)" for hp
      using fits' block_fits_within [of R ?f "it_pData it" "pf_data_size ?f"] by (intro same_outside_store) (auto simp: item_fits_def)
    moreover have "heap_keeps R (lv_set_to_defaults L (sub_fields E ?f) (it_pData it))" if "PB_LTYPE (pf_type ?f) = 0x08"
      using fits' that by (intro set_to_defaults) (simp add: item_fits_def)
    ultimately show ?thesis unfolding heap_keeps_def by (metis same_outside_refl same_outside_trans)
  qed
  have "safe_result R hp s (Option.bind (if PB_LTYPE (pf_type ?f) = 0x08 \<and> of_nat (read_size (hp_mem hp) (it_pSize it)) \<noteq> pf_tag ?f
            then lv_set_to_defaults L (sub_fields E ?f) (it_pData it) (heap_store (it_pData it) (replicate (pf_data_size ?f) 0) hp) else Some hp)
       (\<lambda>hp1. lv_func E L ?f (it_pData it) (store_size (it_pSize it) (unat (pf_tag ?f)) hp1) s))"
    if "PB_HTYPE (pf_type ?f) = PB_HTYPE_ONEOF"
    by (rule safe_result_heap [OF pre [of "\<lambda>hp. of_nat (read_size (hp_mem hp) (it_pSize it)) \<noteq> pf_tag ?f"] s])
       (rule safe_result_store [OF same_outside_stores(2) [OF tag [OF that]] s keepsD [OF func s]])
  moreover note safe_result_store [OF opt s keepsD [OF func s]] keepsD [OF func s] safe_result_fail [OF s]
  ultimately show ?thesis
    using False by (simp add: decode_static_field_def Let_def PB_HTYPE_REPEATED_def)
qed

lemma func_UNIV_safe:
  assumes "R = UNIV" "PB_LTYPE (pf_type f) \<in> {0x00, 0x01, 0x02, 0x03, 0x04, 0x05, 0x06, 0x07, 0x08, 0x0A}"
    and "PB_LTYPE (pf_type f) = 0x08 \<Longrightarrow> sub (sub_fields E f) p" "is_buffer (is_source s)"
  shows "safe_result UNIV hp s (lv_func E L f p hp s)"
  using keepsD [OF func_keeps [OF assms(2)] assms(4)] assms(1,3) by (simp add: item_fits_def block_fits_def)

lemma init_then_decode_safe:
  assumes "R = UNIV" "PB_LTYPE (pf_type (it_field it)) \<in> {0x00, 0x01, 0x02, 0x03, 0x04, 0x05, 0x06, 0x07, 0x08, 0x0A}"
    and "\<And>p. PB_LTYPE (pf_type (it_field it)) = 0x08 \<Longrightarrow> sub (sub_fields E (it_field it)) p" "is_buffer (is_source s)"
  shows "safe_result UNIV hp s (init_then_decode E L it item hp s)"
proof -
  have "\<exists>hp1. initialize_pointer_field E L (item hp) it hp = Some hp1"
    using heap_keepsD [OF set_to_defaults [OF assms(3)]] by (auto simp: initialize_pointer_field_def Let_def)
  then obtain hp1 where "initialize_pointer_field E L (item hp) it hp = Some hp1" by blast
  moreover have "safe_result UNIV hp s (lv_func E L (it_field it) (item hp1) hp1 s)"
    by (rule safe_result_store [OF same_outside_UNIV assms(4) func_UNIV_safe [OF assms]])
  ultimately show ?thesis by (simp add: init_then_decode_def)
qed

lemma packed_pointer_step_safe:
  assumes U: "R = UNIV" "0 < pf_data_size (it_field it)" and t: "PB_LTYPE (pf_type (it_field it)) \<le> 0x05"
    "PB_LTYPE (pf_type (it_field it)) \<in> {0x00, 0x01, 0x02, 0x03, 0x04, 0x05, 0x06, 0x07, 0x08, 0x0A}"
    and buf: "is_buffer (is_source sb)"
  shows "\<exists>r. packed_pointer_step E L it (al, hp, sb, st) = Some r \<and>
           (case r of Inl (_, _, sb', st') \<Rightarrow> istream_inside sb sb' \<and> is_bytes_left sb' < is_bytes_left sb \<and> st' = st
            | Inr (_, _, sb', st') \<Rightarrow> istream_inside sb sb' \<and> (\<exists>m. st' = st\<lparr>is_errmsg := m\<rparr>))"
proof -
  let ?f = "it_field it"
  define count where "count = read_size (hp_mem hp) (it_pSize it)"
  have t8: "PB_LTYPE (pf_type ?f) \<noteq> 0x08" "PB_LTYPE (pf_type ?f) \<noteq> 0x07" "PB_LTYPE (pf_type ?f) \<noteq> 0x06" using t(1) by auto
  have st: "\<exists>m. st = st\<lparr>is_errmsg := m\<rparr>" by (rule exI [of _ "is_errmsg st"]) simp
  show ?thesis
  proof (cases "is_bytes_left sb = 0 \<or> count = PB_SIZE_MAX")
    case True
    then show ?thesis using istream_inside_refl [OF buf] st by (auto simp: packed_pointer_step_def count_def Let_def)
  next
    case False
    have "\<exists>al1 r. packed_alloc E it al hp sb = map_option (Pair al1) r \<and> safe_result UNIV hp sb r"
    proof (cases "count + 1 \<le> al")
      case True
      then show ?thesis using istream_inside_refl [OF buf] by (intro exI [of _ al] exI [of _ "Some (True, hp, sb)"]) (simp add: packed_alloc_def count_def)
    next
      case False
      then show ?thesis using U(2) allocate_field_at_safe [OF buf] by (auto simp: packed_alloc_def Let_def count_def) blast+
    qed
    then obtain al1 r where al0: "packed_alloc E it al hp sb = map_option (Pair al1) r" "safe_result UNIV hp sb r" by blast
    obtain ok hp1 sb1 where al: "r = Some (ok, hp1, sb1)" "istream_inside sb sb1" "is_buffer (is_source sb1)" using al0(2) by (rule safe_resultE)
    define item where "item = size_add (read_pointer (hp_mem hp1) (it_pData it)) (size_mul (pf_data_size ?f) (read_size (hp_mem hp1) (it_pSize it)))"
    have step: "packed_pointer_step E L it (al, hp, sb, st) =
      (if \<not> ok \<or> item = 0 then Some (Inr (False, hp1, sb1, st))
       else map_option (\<lambda>(ok, hp2, sub2). if ok then Inl (al1, store_size (it_pSize it) (read_size (hp_mem hp2) (it_pSize it) + 1) hp2, sub2, st)
              else Inr (False, hp2, sub2, st)) (init_then_decode E L it (\<lambda>_. item) hp1 sb1))"
      using False al(1) al0(1) by (simp add: packed_pointer_step_def count_def [symmetric] item_def [symmetric] Let_def)
    have "safe_result UNIV hp1 sb1 (init_then_decode E L it (\<lambda>_. item) hp1 sb1)" using t8 al(3) by (intro init_then_decode_safe [OF U(1) t(2)]) auto
    then obtain ok2 hp2 sb2 where d: "init_then_decode E L it (\<lambda>_. item) hp1 sb1 = Some (ok2, hp2, sb2)" "istream_inside sb1 sb2" by (rule safe_resultE)
    have "lv_func E L ?f item hp1 sb1 = Some (ok2, hp2, sb2)" using d(1) t8 by (simp add: init_then_decode_def initialize_pointer_field_def)
    then have "ok2 \<Longrightarrow> is_bytes_left sb2 < is_bytes_left sb1" using scalar_consumes [OF al(3) t(1)] by (simp add: lv_func_def)
    then show ?thesis using step d istream_inside_trans [OF al(2) d(2)] al(2) istream_inside_buffer [OF al(2)] st
      by (cases ok2) auto
  qed
qed

lemma packed_pointer_loop_safe:
  assumes U: "R = UNIV" "0 < pf_data_size (it_field it)" and t: "PB_LTYPE (pf_type (it_field it)) \<le> 0x05"
    "PB_LTYPE (pf_type (it_field it)) \<in> {0x00, 0x01, 0x02, 0x03, 0x04, 0x05, 0x06, 0x07, 0x08, 0x0A}"
    and buf: "is_buffer (is_source sb0)"
  shows "\<exists>(status :: bool) hp1 sb1 m. c_loop (packed_pointer_step E L it) (al, hp, sb0, st) = Some (status, hp1, sb1, st\<lparr>is_errmsg := m\<rparr>) \<and> istream_inside sb0 sb1"
proof -
  have "\<exists>b. c_loop (packed_pointer_step E L it) (al, hp, sb0, st) = Some b \<and>
      (case b of (_, _, sb1, st1) \<Rightarrow> istream_inside sb0 sb1 \<and> (\<exists>m. st1 = st\<lparr>is_errmsg := m\<rparr>))"
  proof (rule c_loop_total [where R = "measure (\<lambda>(al :: nat, hp :: heap, sb, st). is_bytes_left sb)" and I = "\<lambda>(al :: nat, hp :: heap, sb, st'). istream_inside sb0 sb \<and> st' = st"])
    fix x :: "nat \<times> heap \<times> 's pb_istream \<times> 's pb_istream"
    assume I: "case x of (al, hp, sb, st') \<Rightarrow> istream_inside sb0 sb \<and> st' = st"
    obtain al hp sb where x: "x = (al, hp, sb, st)" and i: "istream_inside sb0 sb" using I by (cases x) auto
    have "is_buffer (is_source sb)" using istream_inside_buffer [OF i] by simp
    from packed_pointer_step_safe [OF U t this, of al hp st] obtain r where r: "packed_pointer_step E L it x = Some r"
      "case r of Inl (_, _, sb', st') \<Rightarrow> istream_inside sb sb' \<and> is_bytes_left sb' < is_bytes_left sb \<and> st' = st
            | Inr (_, _, sb', st') \<Rightarrow> istream_inside sb sb' \<and> (\<exists>m. st' = st\<lparr>is_errmsg := m\<rparr>)"
      unfolding x by blast
    then show "\<exists>r. packed_pointer_step E L it x = Some r \<and>
      (case r of Inl s' \<Rightarrow> (case s' of (al, hp, sb, st') \<Rightarrow> istream_inside sb0 sb \<and> st' = st) \<and> (s', x) \<in> measure (\<lambda>(al, hp, sb, st). is_bytes_left sb)
       | Inr b \<Rightarrow> case b of (_, _, sb1, st1) \<Rightarrow> istream_inside sb0 sb1 \<and> (\<exists>m. st1 = st\<lparr>is_errmsg := m\<rparr>))"
      using istream_inside_trans [OF i] by (intro exI [of _ r]) (auto simp: x split: sum.splits)
  qed (use istream_inside_refl [OF buf] in simp_all)
  then show ?thesis by auto
qed

lemma decode_pointer_field_safe:
  assumes fits: "field_fits sub E R it" "PB_ATYPE (pf_type (it_field it)) = PB_ATYPE_POINTER" and s: "is_buffer (is_source s)"
  shows "safe_result R hp s (decode_pointer_field E L wt it hp s)"
proof -
  let ?f = "it_field it"
  have U: "R = UNIV" "0 < pf_data_size ?f" and t: "PB_LTYPE (pf_type ?f) \<in> {0x00, 0x01, 0x02, 0x03, 0x04, 0x05, 0x06, 0x07, 0x08, 0x0A}"
    and sub: "\<And>p. PB_LTYPE (pf_type ?f) = 0x08 \<Longrightarrow> sub (sub_fields E ?f) p"
    using fits by (simp_all add: field_fits_def Let_def)
  note init = init_then_decode_safe [OF U(1) t sub]
  have alloc: "safe_result UNIV hp s (dec_bind (allocate_field_at E p n m) g hp s)"
    if "\<And>hp s. is_buffer (is_source s) \<Longrightarrow> safe_result UNIV hp s (g hp s)" for p n m g hp
    by (rule safe_result_bind, rule allocate_field_at_safe [OF s], rule that)
  have rel: "heap_keeps UNIV (\<lambda>hp. if PB_LTYPE (pf_type ?f) = 0x08 \<and> c hp then lv_release_single_field L it hp else Some hp)" for c
    using heap_keepsD [OF release [OF fits(1)]] by (auto simp: heap_keeps_def)
  have single: "safe_result UNIV hp s (Option.bind (if PB_LTYPE (pf_type ?f) = 0x08 \<and> read_pointer (hp_mem hp) (it_pData it) \<noteq> 0 then lv_release_single_field L it hp else Some hp)
       (\<lambda>hp1. let hp2 = (if PB_HTYPE (pf_type ?f) = PB_HTYPE_ONEOF then store_size (it_pSize it) (unat (pf_tag ?f)) hp1 else hp1)
             in if PB_LTYPE (pf_type ?f) = 0x07 \<or> PB_LTYPE (pf_type ?f) = 0x06 then lv_func E L ?f (it_pData it) hp2 s
                else dec_bind (allocate_field_at E (it_pData it) (pf_data_size ?f) 1) (init_then_decode E L it (\<lambda>hp3. read_pointer (hp_mem hp3) (it_pData it))) hp2 s))"
    by (rule safe_result_heap [OF rel [of "\<lambda>hp. read_pointer (hp_mem hp) (it_pData it) \<noteq> 0"] s])
       (simp add: Let_def safe_result_store [OF same_outside_UNIV s alloc [OF init]] safe_result_store [OF same_outside_UNIV s func_UNIV_safe [OF U(1) t sub s]])
  have packed: "safe_result UNIV hp s (dec_read (pb_make_string_substream (de_read E)) (\<lambda>sub hp stream.
                Option.bind (c_loop (packed_pointer_step E L it) (read_size (hp_mem hp) (it_pSize it), hp, sub, stream)) (\<lambda>(status, hp1, sub1, stream1).
                  dec_read (pb_close_string_substream (de_read E) sub1) (\<lambda>_ hp stream. Some (status, hp, stream)) hp1 stream1)) hp s)"
    if "PB_LTYPE (pf_type ?f) \<le> 0x05"
  proof (rule safe_result_fork [OF s])
    fix sb s1
    assume f: "forked s sb s1"
    then have "is_buffer (is_source sb)" using forked_inside by blast
    from packed_pointer_loop_safe [OF U that t this, of "read_size (hp_mem hp) (it_pSize it)" hp s1]
    show "safe_result UNIV hp s (Option.bind (c_loop (packed_pointer_step E L it) (read_size (hp_mem hp) (it_pSize it), hp, sb, s1)) (\<lambda>(status, hp1, sub1, stream1).
                  dec_read (pb_close_string_substream (de_read E) sub1) (\<lambda>_ hp stream. Some (status, hp, stream)) hp1 stream1))"
      by (auto intro!: safe_result_close [OF forked_errmsg [OF f]])
  qed
  have entry: "safe_result UNIV hp s (dec_bind (allocate_field_at E (it_pData it) (pf_data_size ?f) n) (\<lambda>hp1.
                        let count1 = read_size (hp_mem hp1) (it_pSize it)
                        in init_then_decode E L it (\<lambda>_. size_add (read_pointer (hp_mem hp1) (it_pData it)) (size_mul (pf_data_size ?f) count1))
                             (store_size (it_pSize it) (count1 + 1) hp1)) hp s)" for n
    by (rule alloc) (unfold Let_def, rule safe_result_store [OF same_outside_UNIV _ init])
  show ?thesis
    unfolding decode_pointer_field_def U(1) Let_def [of "it_field it"] Let_def [of "PB_LTYPE (pf_type (it_field it))"] Let_def [of "PB_HTYPE (pf_type (it_field it))"]
      Let_def [of "lv_func E L (it_field it)"] Let_def [of "it_pData it"] Let_def [of "it_pSize it"] Let_def [of "read_size (hp_mem hp) (it_pSize it)"]
    using single packed entry safe_result_fail [OF s] by simp
qed

lemma callback_loop_safe:
  fixes cb :: "'s decoder"
  assumes cb: "callback_ok R cb" and buf: "is_buffer (is_source sb0)"
  shows "safe_result R hp0 sb0 (callback_loop cb hp0 sb0)"
proof -
  have "\<exists>b. c_loop (\<lambda>(hp, sub). map_option (\<lambda>(ok, hp1, sub1). if ok \<and> is_bytes_left sub1 \<noteq> 0 then Inl (hp1, sub1) else Inr (ok, hp1, sub1)) (cb hp sub)) (hp0, sb0) = Some b \<and>
            safe_result R hp0 sb0 (Some b)"
  proof (rule c_loop_total [where R = "measure (\<lambda>(hp :: heap, sb). is_bytes_left sb)" and I = "\<lambda>(hp, sb). istream_inside sb0 sb \<and> same_outside R hp0 hp"])
    show "case (hp0, sb0) of (hp, sb) \<Rightarrow> istream_inside sb0 sb \<and> same_outside R hp0 hp" using buf by (simp add: istream_inside_refl)
    fix x :: "heap \<times> 's pb_istream"
    assume I: "case x of (hp, sb) \<Rightarrow> istream_inside sb0 sb \<and> same_outside R hp0 hp"
    obtain hp sb where x: "x = (hp, sb)" and i: "istream_inside sb0 sb" "same_outside R hp0 hp" using I by (cases x) auto
    have b: "is_buffer (is_source sb)" using istream_inside_buffer [OF i(1)] by simp
    have "safe_result R hp sb (cb hp sb)" using cb b by (simp add: callback_ok_def keepsD)
    then obtain ok hp1 sb1 where r: "cb hp sb = Some (ok, hp1, sb1)" "istream_inside sb sb1" "same_outside R hp hp1" by (rule safe_resultE)
    have "ok \<Longrightarrow> is_bytes_left sb1 \<noteq> 0 \<Longrightarrow> is_bytes_left sb1 < is_bytes_left sb" using cb b r(1) by (auto simp: callback_ok_def)
    then show "\<exists>r. (case x of (hp, sub) \<Rightarrow> map_option (\<lambda>(ok, hp1, sub1). if ok \<and> is_bytes_left sub1 \<noteq> 0 then Inl (hp1, sub1) else Inr (ok, hp1, sub1)) (cb hp sub)) = Some r \<and>
         (case r of Inl s' \<Rightarrow> (case s' of (hp, sb) \<Rightarrow> istream_inside sb0 sb \<and> same_outside R hp0 hp) \<and> (s', x) \<in> measure (\<lambda>(hp :: heap, sb). is_bytes_left sb)
          | Inr b \<Rightarrow> safe_result R hp0 sb0 (Some b))"
      using r istream_inside_trans [OF i(1) r(2)] same_outside_trans [OF i(2) r(3)] by (auto simp: x)
  qed simp
  then show ?thesis unfolding callback_loop_def by auto
qed

lemma decode_callback_field_safe:
  assumes fits: "field_fits sub E R it" "PB_ATYPE (pf_type (it_field it)) = PB_ATYPE_CALLBACK" and s: "is_buffer (is_source s)"
  shows "safe_result R hp s (decode_callback_field E wt it hp s)"
proof -
  have cb: "callback_ok R (de_callbacks E d (it_field it) (size_add (it_pData it) 8))" for d
    using fits by (simp add: field_fits_def Let_def PB_ATYPE_CALLBACK_def PB_ATYPE_STATIC_def PB_ATYPE_POINTER_def)
  have fork: "safe_result R hp s (dec_read (pb_make_string_substream (de_read E)) (\<lambda>sub hp stream.
             Option.bind (callback_loop cb hp sub) (\<lambda>(ok, hp1, sub1).
               if \<not> ok then dec_fail ''callback failed'' hp1 stream
               else dec_read (pb_close_string_substream (de_read E) sub1) (\<lambda>_ hp stream. Some (True, hp, stream)) hp1 stream)) hp s)"
    if "callback_ok R cb" for cb
  proof (rule safe_result_fork [OF s])
    fix sb s1
    assume f: "forked s sb s1"
    then have "safe_result R hp sb (callback_loop cb hp sb)" using forked_inside by (intro callback_loop_safe [OF that]) blast
    then show "safe_result R hp s (Option.bind (callback_loop cb hp sb) (\<lambda>(ok, hp1, sub1).
               if \<not> ok then dec_fail ''callback failed'' hp1 s1
               else dec_read (pb_close_string_substream (de_read E) sub1) (\<lambda>_ hp stream. Some (True, hp, stream)) hp1 s1))"
      by (rule safe_resultE) (auto intro!: safe_result_fail_fork [OF f] safe_result_close [OF f])
  qed
  have raw: "safe_result R hp s1 (map_option (\<lambda>(ok, hp1, _). (ok, hp1, s1)) (cb hp (pb_istream_from_buffer bs n)))"
    if "callback_ok R cb" "is_buffer (is_source s1)" for cb s1 bs n
  proof -
    have "safe_result R hp (pb_istream_from_buffer bs n) (cb hp (pb_istream_from_buffer bs n))"
      using that(1) by (simp add: callback_ok_def keepsD pb_istream_from_buffer_def)
    then show ?thesis using istream_inside_refl [OF that(2)] by (auto elim!: safe_resultE)
  qed
  show ?thesis
    unfolding decode_callback_field_def Let_def
    by (auto intro!: fork [OF cb] raw [OF cb] safe_result_read [OF stays_inside_raw_value s] safe_result_read [OF stays_inside_skip_field s] simp: istream_inside_refl)
qed

lemma field_fits_type: "field_fits sub E R it \<Longrightarrow> PB_LTYPE (pf_type (it_field it)) \<noteq> 0x09"
  by (auto simp: field_fits_def Let_def)

lemma field_fits_walk:
  assumes walk: "\<And>i. i < max 1 (length flds) \<Longrightarrow> field_fits sub E R (iter_at flds dest i)" and frame: "within R frame 4"
    and it: "on_walk flds dest frame it"
  shows "field_fits sub E R it"
proof -
  have "static_fits sub E R (it\<lparr>it_pSize := frame\<rparr>)" if "static_fits sub E R it" "PB_HTYPE (pf_type (it_field it)) = PB_HTYPE_REPEATED" for it
    using that frame by (simp add: static_fits_def Let_def)
  then have "field_fits sub E R (it\<lparr>it_pSize := frame\<rparr>)" if "field_fits sub E R it" "PB_HTYPE (pf_type (it_field it)) = PB_HTYPE_REPEATED" for it
    using that unfolding field_fits_def Let_def by auto
  then show ?thesis using it walk by (auto simp: on_walk_def simp del: iter_at.simps)
qed

lemma pb_release_union_field_safe:
  assumes walk: "\<And>i. i < max 1 (length flds) \<Longrightarrow> field_fits sub E R (iter_at flds dest i)" and frame: "within R frame 4"
    and it: "on_walk flds dest frame it" and s: "is_buffer (is_source s)"
  shows "\<exists>ok it' hp' s'. pb_release_union_field L it hp s = Some (ok, it', hp', s') \<and> on_walk flds dest frame it' \<and>
           istream_inside s s' \<and> same_outside R hp hp'"
proof -
  define old where "old = (of_nat (read_size (hp_mem hp) (it_pSize it)) :: u32)"
  obtain found it1 where f1: "pb_field_iter_find it old = Some (found, it1)" "on_walk flds dest frame it1"
    using iter_search_walk [OF it] unfolding pb_field_iter_find_def by blast
  obtain hp1 where rel: "lv_release_single_field L it1 hp = Some hp1" "same_outside R hp hp1"
    using heap_keepsD [OF release [OF field_fits_walk [OF walk frame f1(2)]]] by blast
  obtain found2 it2 where f2: "pb_field_iter_find it1 (pf_tag (it_field it)) = Some (found2, it2)" "on_walk flds dest frame it2"
    using iter_search_walk [OF f1(2)] unfolding pb_field_iter_find_def by blast
  have "R = UNIV" if "PB_ATYPE (pf_type (it_field it2)) = PB_ATYPE_POINTER"
    using field_fits_walk [OF walk frame f2(2)] that by (simp add: field_fits_def Let_def)
  then have "same_outside R hp (if PB_ATYPE (pf_type (it_field it2)) = PB_ATYPE_POINTER then store_pointer (it_pData it2) 0 hp1 else hp1)"
    using rel(2) by auto
  then show ?thesis using f1 rel f2 it istream_inside_refl [OF s]
    by (auto simp: pb_release_union_field_def Let_def old_def [symmetric])
qed

lemma decode_field_safe:
  assumes walk: "\<And>i. i < max 1 (length flds) \<Longrightarrow> field_fits sub E R (iter_at flds dest i)" and frame: "within R frame 4"
    and it: "on_walk flds dest frame it" and s: "is_buffer (is_source s)"
  shows "\<exists>ok it' hp' s'. decode_field E L wt it hp s = Some (ok, it', hp', s') \<and> on_walk flds dest frame it' \<and>
           istream_inside s s' \<and> same_outside R hp hp'"
proof -
  obtain ok it1 hp1 s1 where u: "(if PB_HTYPE (pf_type (it_field it)) = PB_HTYPE_ONEOF then pb_release_union_field L it hp s
      else Some (True, it, hp, s)) = Some (ok, it1, hp1, s1)" and it1: "on_walk flds dest frame it1"
    and i: "istream_inside s s1" "same_outside R hp hp1"
    using pb_release_union_field_safe [OF walk frame it s, of hp] it istream_inside_refl [OF s] by (cases "PB_HTYPE (pf_type (it_field it)) = PB_HTYPE_ONEOF") auto
  have s1: "is_buffer (is_source s1)" using istream_inside_buffer [OF i(1)] by simp
  have fits: "field_fits sub E R it1" by (rule field_fits_walk [OF walk frame it1])
  define a where "a = PB_ATYPE (pf_type (it_field it1))"
  define r where "r = (if a = PB_ATYPE_STATIC then decode_static_field E L wt it1 hp1 s1
             else if a = PB_ATYPE_POINTER then decode_pointer_field E L wt it1 hp1 s1
             else if a = PB_ATYPE_CALLBACK then decode_callback_field E wt it1 hp1 s1
             else dec_fail ''invalid field type'' hp1 s1)"
  have "safe_result R hp1 s1 r"
    using fits decode_static_field_safe [OF _ _ s1, of it1] decode_pointer_field_safe [OF fits _ s1] decode_callback_field_safe [OF fits _ s1] safe_result_fail [OF s1]
    by (auto simp: r_def a_def field_fits_def Let_def)
  then obtain ok2 hp2 s2 where r: "r = Some (ok2, hp2, s2)" "istream_inside s1 s2" "same_outside R hp1 hp2" by (rule safe_resultE)
  have "decode_field E L wt it hp s = (if \<not> ok then Some (False, it1, hp1, s1) else map_option (\<lambda>(ok, hp2, stream2). (ok, it1, hp2, stream2)) r)"
    unfolding decode_field_def u r_def a_def by (simp add: Let_def)
  then show ?thesis using r it1 i istream_inside_trans [OF i(1) r(2)] same_outside_trans [OF i(2) r(3)] by (cases ok) auto
qed

text \<open>The state of the loop of \<open>pb_decode_noinit\<close>, started with the memory \<open>hp\<close> and the stream \<open>s\<close>.\<close>

definition decode_inv :: "pb_field list \<Rightarrow> nat \<Rightarrow> nat \<Rightarrow> heap \<Rightarrow> 's pb_istream \<Rightarrow> 's decode_state \<Rightarrow> bool" where
  "decode_inv flds dest frame hp s ds \<longleftrightarrow>
     on_walk flds dest frame (ds_iter ds) \<and> istream_inside s (ds_stream ds) \<and> same_outside R hp (ds_heap ds)"

lemma decode_inv_after: "decode_inv flds dest frame hp s ds \<Longrightarrow> decode_inv flds dest frame (ds_heap ds) (ds_stream ds) ds' \<Longrightarrow> decode_inv flds dest frame hp s ds'"
  by (auto simp: decode_inv_def intro: istream_inside_trans same_outside_trans)

lemma decode_inv_start: "on_walk flds dest frame (ds_iter ds) \<Longrightarrow> is_buffer (is_source (ds_stream ds)) \<Longrightarrow> decode_inv flds dest frame (ds_heap ds) (ds_stream ds) ds"
  by (simp add: decode_inv_def istream_inside_refl)

lemma unknown_field_safe:
  assumes walk: "\<And>i. i < max 1 (length flds) \<Longrightarrow> field_fits sub E R (iter_at flds dest i)"
    and it: "on_walk flds dest frame (ds_iter ds)" and s: "is_buffer (is_source (ds_stream ds))"
    and tag: "unat (dt_tag dt) < 2 ^ 29"
  shows "\<exists>ok ds'. unknown_field E L dt ds = Some (ok, ds') \<and> decode_inv flds dest frame (ds_heap ds) (ds_stream ds) ds'"
proof -
  obtain found it1 where f: "find_extension_field (ds_iter ds) = Some (found, it1)" "on_walk flds dest frame it1"
    "found \<longrightarrow> PB_LTYPE (pf_type (it_field it1)) = 0x09"
    using iter_search_walk [OF it] unfolding find_extension_field_def by blast
  have "PB_LTYPE (pf_type (it_field it1)) \<noteq> 0x09"
    using f(2) field_fits_type [OF walk] by (auto simp: on_walk_def simp del: iter_at.simps)
  then have nf: "\<not> found" using f(3) by blast
  have "\<not> (- 1 \<le> dt_tag dt)" using tag by (simp add: word_le_nat_alt unsigned_minus_1_eq_mask mask_eq_exp_minus_1)
  moreover obtain r s1 where sk: "pb_skip_field (de_read E) (dt_wire_type dt) (ds_stream ds) = (r, s1)"
    by (cases "pb_skip_field (de_read E) (dt_wire_type dt) (ds_stream ds)")
  moreover have "istream_inside (ds_stream ds) s1" by (rule stays_insideD' [OF stays_inside_skip_field s sk])
  ultimately show ?thesis using nf f it
    by (cases "ds_extension_range_start ds \<le> dt_tag dt") (simp_all add: unknown_field_def Let_def decode_inv_def)
qed

lemma enter_fixed_count_safe:
  assumes it: "on_walk flds dest frame (ds_iter ds)" and frame: "within R frame 4" and s: "is_buffer (is_source (ds_stream ds))"
    and e: "enter_fixed_count frame ds = (ok, ds')"
  shows "decode_inv flds dest frame (ds_heap ds) (ds_stream ds) ds'"
proof (cases "PB_HTYPE (pf_type (it_field (ds_iter ds))) = PB_HTYPE_REPEATED \<and> it_pSize (ds_iter ds) = it_pData (ds_iter ds)")
  case True
  have "on_walk flds dest frame ((ds_iter ds)\<lparr>it_pSize := frame\<rparr>)"
    using it True by (auto simp: on_walk_def simp del: iter_at.simps)
  then show ?thesis using e True it istream_inside_refl [OF s] frame
    by (auto simp: enter_fixed_count_def Let_def decode_inv_def split: if_splits)
next
  case False
  then have "ds' = ds" using e by (auto simp: enter_fixed_count_def Let_def)
  then show ?thesis using it s by (simp add: decode_inv_start)
qed

lemma known_field_safe:
  assumes walk: "\<And>i. i < max 1 (length flds) \<Longrightarrow> field_fits sub E R (iter_at flds dest i)" and frame: "within R frame 4"
    and it: "on_walk flds dest frame (ds_iter ds)" and s: "is_buffer (is_source (ds_stream ds))"
  shows "\<exists>ok ds'. known_field frame E L wt ds = Some (ok, ds') \<and> decode_inv flds dest frame (ds_heap ds) (ds_stream ds) ds'"
proof -
  obtain ok ds1 where e: "enter_fixed_count frame ds = (ok, ds1)" by (cases "enter_fixed_count frame ds")
  have inv: "decode_inv flds dest frame (ds_heap ds) (ds_stream ds) ds1" by (rule enter_fixed_count_safe [OF it frame s e])
  then have "on_walk flds dest frame (ds_iter ds1)" "is_buffer (is_source (ds_stream ds1))"
    using istream_inside_buffer by (auto simp: decode_inv_def)
  from decode_field_safe [OF walk frame this, of wt "ds_heap ds1"] obtain ok2 it2 hp2 s2 where
    d: "decode_field E L wt (ds_iter ds1) (ds_heap ds1) (ds_stream ds1) = Some (ok2, it2, hp2, s2)" "on_walk flds dest frame it2"
      "istream_inside (ds_stream ds1) s2" "same_outside R (ds_heap ds1) hp2" by blast
  have "decode_inv flds dest frame (ds_heap ds) (ds_stream ds) (ds1\<lparr>ds_iter := it2, ds_fields_seen := x, ds_heap := hp2, ds_stream := s2\<rparr>)" for x
    by (rule decode_inv_after [OF inv]) (use d(2-4) in \<open>simp add: decode_inv_def\<close>)
  then show ?thesis using inv by (cases ok) (auto simp: known_field_def e d(1) Let_def)
qed

lemma decode_step_safe:
  assumes walk: "\<And>i. i < max 1 (length flds) \<Longrightarrow> field_fits sub E R (iter_at flds dest i)" and frame: "within R frame 4"
    and inv: "decode_inv flds dest frame hp s ds"
  shows "\<exists>r. decode_step frame E L ds = Some r \<and>
           (case r of Inl ds' \<Rightarrow> decode_inv flds dest frame hp s ds' \<and> is_bytes_left (ds_stream ds') < is_bytes_left (ds_stream ds)
            | Inr (_, ds') \<Rightarrow> decode_inv flds dest frame hp s ds')"
proof -
  have it: "on_walk flds dest frame (ds_iter ds)" and i: "istream_inside s (ds_stream ds)" and buf: "is_buffer (is_source (ds_stream ds))"
    using inv istream_inside_buffer by (auto simp: decode_inv_def)
  obtain ok dt s1 where tag: "pb_decode_tag (de_read E) (ds_stream ds) = (ok, dt, s1)" by (cases "pb_decode_tag (de_read E) (ds_stream ds)")
  have i1: "istream_inside (ds_stream ds) s1" using istream_inside_moved [OF pb_decode_tag_moved [OF buf, of "de_read E"]] tag by simp
  obtain found it1 where f: "pb_field_iter_find (ds_iter ds) (dt_tag dt) = Some (found, it1)" "on_walk flds dest frame it1"
    using iter_search_walk [OF it] unfolding pb_field_iter_find_def by blast
  let ?ds = "ds\<lparr>ds_iter := it1, ds_stream := s1\<rparr>"
  have inv1: "decode_inv flds dest frame hp s ?ds" and inv1': "decode_inv flds dest frame hp s (ds\<lparr>ds_stream := s1\<rparr>)"
    using inv f(2) istream_inside_trans [OF i i1] by (simp_all add: decode_inv_def)
  have b1: "is_buffer (is_source s1)" using istream_inside_buffer [OF i1] by simp
  show ?thesis
  proof (cases "is_bytes_left (ds_stream ds) = 0 \<or> \<not> ok")
    case True
    then show ?thesis using inv inv1' tag by (auto simp: decode_step_def)
  next
    case False
    then have ok: "is_bytes_left s1 < is_bytes_left (ds_stream ds)" "unat (dt_tag dt) < 2 ^ 29"
      using pb_decode_tag_consumes [OF buf, of "de_read E" dt s1] tag by auto
    define r where "r = (if found then known_field frame E L (dt_wire_type dt) ?ds else unknown_field E L dt ?ds)"
    have "\<exists>ok ds'. r = Some (ok, ds') \<and> decode_inv flds dest frame (ds_heap ?ds) (ds_stream ?ds) ds'"
      using known_field_safe [OF walk frame, of ?ds "dt_wire_type dt"] unknown_field_safe [OF walk, of frame ?ds dt] f(2) b1 ok(2) unfolding r_def by simp
    then obtain ok2 ds2 where r: "r = Some (ok2, ds2)" "decode_inv flds dest frame (ds_heap ?ds) (ds_stream ?ds) ds2" by blast
    have "decode_inv flds dest frame hp s ds2" by (rule decode_inv_after [OF inv1 r(2)])
    moreover have "is_bytes_left (ds_stream ds2) < is_bytes_left (ds_stream ds)"
      using r(2) ok(1) istream_inside_buffer [of s1 "ds_stream ds2"] by (simp add: decode_inv_def)
    moreover have "decode_step frame E L ds = map_option (\<lambda>(ok, ds2). if ok then Inl ds2 else Inr (False, ds2)) r"
      using False tag f(1) by (simp add: decode_step_def r_def Let_def)
    ultimately show ?thesis using r(1) by (cases ok2) simp_all
  qed
qed

lemma decode_message_safe:
  assumes walk: "\<And>i. i < max 1 (length flds) \<Longrightarrow> field_fits sub E R (iter_at flds dest i)" and frame: "within R frame 4"
  shows "keeps R (decode_message frame E L flds dest)"
proof (rule keepsI)
  fix hp :: heap and s :: "'s pb_istream"
  assume s: "is_buffer (is_source s)"
  let ?ds = "\<lparr>ds_iter = snd (pb_field_iter_begin flds dest), ds_fields_seen = [0, 0], ds_extension_range_start = 0,
           ds_fixed_count_field = None, ds_heap = store_size frame 0 hp, ds_stream = s\<rparr>"
  have "on_walk flds dest frame (snd (pb_field_iter_begin flds dest))" unfolding on_walk_def by (intro exI [of _ 0]) simp
  then have start: "decode_inv flds dest frame hp s ?ds" using s frame by (simp add: decode_inv_def istream_inside_refl)
  have "\<exists>b. c_loop (decode_step frame E L) ?ds = Some b \<and> (case b of (_, ds) \<Rightarrow> decode_inv flds dest frame hp s ds)"
  proof (rule c_loop_total [where R = "measure (\<lambda>ds. is_bytes_left (ds_stream ds))" and I = "decode_inv flds dest frame hp s"])
    fix ds
    assume "decode_inv flds dest frame hp s ds"
    from decode_step_safe [OF walk frame this]
    show "\<exists>r. decode_step frame E L ds = Some r \<and> (case r of Inl s' \<Rightarrow> decode_inv flds dest frame hp s s' \<and> (s', ds) \<in> measure (\<lambda>ds. is_bytes_left (ds_stream ds))
            | Inr b \<Rightarrow> case b of (_, ds) \<Rightarrow> decode_inv flds dest frame hp s ds)"
      by (auto split: sum.splits)
  qed (use start in simp_all)
  then show "safe_result R hp s (decode_message frame E L flds dest hp s)"
    by (auto simp: decode_message_def decode_inv_def decode_end_def Let_def)
qed

end
subsection \<open>Defaults and release\<close>

lemma set_field_to_default_keeps:
  assumes fits: "field_fits sub E R it" and rec: "\<And>flds p. sub flds p \<Longrightarrow> heap_keeps R (heap_all rec (message_iters flds p))"
  shows "heap_keeps R (set_field_to_default rec E it)"
proof -
  let ?f = "it_field it"
  have single: "heap_keeps R (\<lambda>hp. if PB_LTYPE (pf_type ?f) = 0x08 then heap_all rec (message_iters (sub_fields E ?f) (it_pData it)) hp
                 else case pf_ptr ?f of
                        Some dflt \<Rightarrow> Some (heap_store (it_pData it) (mem_read (hp_mem hp) dflt (pf_data_size ?f)) hp)
                      | None \<Rightarrow> Some (heap_store (it_pData it) (replicate (pf_data_size ?f) 0) hp))" if "item_fits sub E R ?f (it_pData it)"
  proof (cases "PB_LTYPE (pf_type ?f) = 0x08")
    case True
    then show ?thesis using that rec by (simp add: item_fits_def)
  next
    case False
    have "within R (it_pData it) (pf_data_size ?f)" using that by (auto simp: item_fits_def intro: block_fits_within)
    then show ?thesis using False by (auto simp: heap_keeps_def intro: same_outside_store split: option.split)
  qed
  have ext: "PB_LTYPE (pf_type ?f) \<noteq> 0x09" using fits by (auto simp: field_fits_def Let_def)
  show ?thesis unfolding heap_keeps_def
  proof
    fix hp
    define opt where "opt = (PB_HTYPE (pf_type ?f) = PB_HTYPE_OPTIONAL \<and> it_pSize it \<noteq> it_pData it)"
    have "PB_ATYPE (pf_type ?f) = PB_ATYPE_STATIC \<Longrightarrow> static_fits sub E R it" "PB_ATYPE (pf_type ?f) = PB_ATYPE_POINTER \<Longrightarrow> R = UNIV"
      using fits by (auto simp: field_fits_def Let_def)
    moreover have flag: "same_outside R hp hp'" if "it_pSize it \<in> R" "same_outside R (store_bool (it_pSize it) False hp) hp'" for hp'
      by (rule same_outside_trans [OF same_outside_bool [OF that(1)] that(2)])
    ultimately show "\<exists>hp'. set_field_to_default rec E it hp = Some hp' \<and> same_outside R hp hp'"
      using ext heap_keepsD [OF single, of "if opt then store_bool (it_pSize it) False hp else hp"]
      by (auto simp: set_field_to_default_def Let_def static_fits_def opt_def intro: flag split: if_splits)
  qed
qed

lemma release_items_keeps:
  "(\<And>i. i < count \<Longrightarrow> heap_keeps R (rel (size_add p (size_mul ds i)))) \<Longrightarrow> p < 2 ^ 64 \<Longrightarrow> heap_keeps R (release_items rel ds count p)"
proof (induction count arbitrary: p)
  case (Suc count)
  have "size_add (size_add p ds) (size_mul ds i) = size_add p (size_mul ds (Suc i))" for i
    by (simp add: size_add_def size_mul_def mod_simps algebra_simps)
  then have "heap_keeps R (release_items rel ds count (size_add p ds))" using Suc(2) [of "Suc _"] by (intro Suc(1)) (simp_all add: size_add_def)
  moreover have "heap_keeps R (rel p)" using Suc(2) [of 0] Suc(3) by (simp add: size_mul_def)
  ultimately show ?case unfolding heap_keeps_def release_items.simps by (metis bind.bind_lunit same_outside_trans)
qed (simp add: heap_keeps_def)

lemma release_field_keeps:
  assumes fits: "field_fits sub E R it" and rec: "\<And>flds p. sub flds p \<Longrightarrow> heap_keeps R (release_message rec flds p)"
  shows "heap_keeps R (release_field rec E it)"
proof -
  let ?f = "it_field it"
  define inside where "inside = (\<lambda>hp. if PB_LTYPE (pf_type ?f) = 0x08 \<and> PB_ATYPE (pf_type ?f) \<noteq> PB_ATYPE_CALLBACK \<and>
         (if PB_ATYPE (pf_type ?f) = PB_ATYPE_POINTER then read_pointer (hp_mem hp) (it_pData it) else it_pData it) \<noteq> 0
       then release_items (release_message rec (sub_fields E ?f)) (pf_data_size ?f) (release_count it hp)
              (if PB_ATYPE (pf_type ?f) = PB_ATYPE_POINTER then read_pointer (hp_mem hp) (it_pData it) else it_pData it) hp
       else Some hp)"
  have ext: "PB_LTYPE (pf_type ?f) \<noteq> 0x09" using fits by (auto simp: field_fits_def Let_def)
  have ptr: "R = UNIV" if "PB_ATYPE (pf_type ?f) = PB_ATYPE_POINTER" using fits that by (auto simp: field_fits_def Let_def)
  have inside: "\<exists>hp1. inside hp = Some hp1 \<and> same_outside R hp hp1" for hp
  proof -
    have "heap_keeps R (release_items (release_message rec (sub_fields E ?f)) (pf_data_size ?f) (release_count it hp) (read_pointer (hp_mem hp) (it_pData it)))"
      if "PB_ATYPE (pf_type ?f) = PB_ATYPE_POINTER" "PB_LTYPE (pf_type ?f) = 0x08"
      using fits that by (intro release_items_keeps rec) (auto simp: field_fits_def Let_def read_pointer_def intro: order.strict_trans2 [OF unsigned_less])
    moreover have "heap_keeps R (release_items (release_message rec (sub_fields E ?f)) (pf_data_size ?f) (release_count it hp) (it_pData it))"
      if "PB_ATYPE (pf_type ?f) = PB_ATYPE_STATIC" "PB_LTYPE (pf_type ?f) = 0x08"
    proof (cases "PB_HTYPE (pf_type ?f) = PB_HTYPE_REPEATED")
      case True
      then have "release_count it hp \<le> pf_array_size ?f" using that(1) by (simp add: release_count_def Let_def)
      then show ?thesis using fits that True by (intro release_items_keeps rec) (auto simp: field_fits_def static_fits_def item_fits_def Let_def)
    next
      case False
      then have "release_count it hp = Suc 0" by (simp add: release_count_def Let_def)
      moreover have "heap_keeps R (release_message rec (sub_fields E ?f) (it_pData it))"
        using fits that False by (intro rec) (auto simp: field_fits_def static_fits_def item_fits_def Let_def)
      ultimately show ?thesis unfolding heap_keeps_def by (metis bind.bind_lunit release_items.simps)
    qed
    moreover have "PB_ATYPE (pf_type ?f) \<in> {PB_ATYPE_STATIC, PB_ATYPE_POINTER, PB_ATYPE_CALLBACK}" using fits unfolding field_fits_def Let_def by blast
    ultimately show ?thesis using heap_keepsD by (auto simp: inside_def)
  qed
  show ?thesis unfolding heap_keeps_def
  proof
    fix hp
    obtain hp1 where hp1: "inside hp = Some hp1" "same_outside R hp hp1" using inside by blast
    have "release_field rec E it hp =
      (if PB_HTYPE (pf_type ?f) = PB_HTYPE_ONEOF \<and> of_nat (read_size (hp_mem hp) (it_pSize it)) \<noteq> pf_tag ?f then Some hp
       else map_option (\<lambda>hp1. if PB_ATYPE (pf_type ?f) = PB_ATYPE_POINTER then release_pointer it hp1 else hp1) (inside hp))"
      unfolding release_field_def inside_def Let_def using ext by (simp only: if_False)
    moreover have "same_outside R hp (if PB_ATYPE (pf_type ?f) = PB_ATYPE_POINTER then release_pointer it hp1 else hp1)"
      using hp1(2) ptr by auto
    ultimately show "\<exists>hp'. release_field rec E it hp = Some hp' \<and> same_outside R hp hp'" unfolding hp1(1) by auto
  qed
qed

subsection \<open>Nested messages\<close>

text \<open>
  A structure fits: each of its fields does, with submessages nested less than \<open>n\<close> deep, and so does the local counter of
  each level. An empty structure needs one byte, as the decoder takes the terminator of its descriptors for a
  boolean field with the number 0.
\<close>

primrec fits :: "nat \<Rightarrow> 's pb_denv \<Rightarrow> nat set \<Rightarrow> pb_field list \<Rightarrow> nat \<Rightarrow> bool" where
  "fits 0 E R flds dest \<longleftrightarrow> False"
| "fits (Suc n) E R flds dest \<longleftrightarrow>
     within R (de_frame E (Suc n)) 4 \<and> (\<forall>i \<in> {0..<max 1 (length flds)}. field_fits (fits n E R) E R (iter_at flds dest i))"

lemma fits_iters: "fits (Suc n) E R flds dest \<Longrightarrow> it \<in> set (message_iters flds dest) \<Longrightarrow> field_fits (fits n E R) E R it"
  by (auto simp: message_iters_at simp del: iter_at.simps)

lemma defaults_keep: "fits n E R flds p \<Longrightarrow> heap_keeps R (pb_message_set_to_defaults n E flds p)"
proof (induction n arbitrary: flds p)
  case (Suc n)
  show ?case unfolding pb_message_set_to_defaults_def
  proof (rule heap_keeps_all)
    fix it
    assume "it \<in> set (message_iters flds p)"
    from set_field_to_default_keeps [OF fits_iters [OF Suc(2) this] Suc(1) [unfolded pb_message_set_to_defaults_def]]
    show "heap_keeps R (pb_field_set_to_default (Suc n) E it)" by (simp add: heap_keeps_def)
  qed
qed simp

lemma release_keeps:
  "fits n E R flds p \<Longrightarrow> heap_keeps R (pb_release n E flds p)"
  "field_fits (fits n E R) E R it \<Longrightarrow> heap_keeps R (pb_release_single_field (Suc n) E it)"
proof -
  have single: "heap_keeps R (pb_release_single_field (Suc n) E it)"
    if "field_fits (fits n E R) E R it" "\<And>flds p. fits n E R flds p \<Longrightarrow> heap_keeps R (pb_release n E flds p)" for n it
    using release_field_keeps [OF that(1) that(2) [unfolded pb_release_def]] by (simp add: heap_keeps_def)
  have rel: "fits n E R flds p \<Longrightarrow> heap_keeps R (pb_release n E flds p)" for n flds p
  proof (induction n arbitrary: flds p)
    case (Suc n)
    have "heap_keeps R (heap_all (pb_release_single_field (Suc n) E) (message_iters flds p))"
      using single [OF fits_iters [OF Suc(2)] Suc(1)] by (intro heap_keeps_all) blast
    then show ?case by (auto simp: pb_release_def release_message_def heap_keeps_def)
  qed simp
  then show "fits n E R flds p \<Longrightarrow> heap_keeps R (pb_release n E flds p)" .
  show "field_fits (fits n E R) E R it \<Longrightarrow> heap_keeps R (pb_release_single_field (Suc n) E it)" using single rel by blast
qed

lemma decode_init_keeps:
  assumes fits: "fits n E R flds p" and noinit: "keeps R (noinit flds p)"
  shows "keeps R (decode_init n E noinit flds p)"
proof (rule keepsI)
  fix hp :: heap and s :: "'a pb_istream"
  assume s: "is_buffer (is_source s)"
  show "safe_result R hp s (decode_init n E noinit flds p hp s)"
    unfolding decode_init_def
  proof (rule safe_result_heap [OF defaults_keep [OF fits] s])
    fix hp1
    obtain ok hp2 s2 where r: "noinit flds p hp1 s = Some (ok, hp2, s2)" "istream_inside s s2" "same_outside R hp1 hp2"
      using keepsD [OF noinit s] by (rule safe_resultE)
    moreover obtain hp3 where "pb_release n E flds p hp2 = Some hp3" "same_outside R hp2 hp3"
      using heap_keepsD [OF release_keeps(1) [OF fits]] by blast
    ultimately show "safe_result R hp1 s (Option.bind (noinit flds p hp1 s) (\<lambda>(status, hp2, stream2).
         if status then Some (True, hp2, stream2) else map_option (\<lambda>hp3. (False, hp3, stream2)) (pb_release n E flds p hp2)))"
      by (auto intro: same_outside_trans)
  qed
qed

lemma safe_level_at: "safe_level E R (fits n E R) (level_below n E (pb_decode_noinit n E))"
proof (induction n)
  case 0
  show ?case
  proof
    show "heap_keeps R (lv_release_single_field (level_below 0 E (pb_decode_noinit 0 E)) it)" if "field_fits (fits 0 E R) E R it" for it
      using release_keeps(2) [OF that] by (simp add: level_below_def)
  qed simp_all
next
  case (Suc n)
  have noinit: "keeps R (pb_decode_noinit (Suc n) E flds p)" if "fits (Suc n) E R flds p" for flds p
  proof -
    have "keeps R (decode_message (de_frame E (Suc n)) E (level_below n E (pb_decode_noinit n E)) flds p)"
      using that by (intro safe_level.decode_message_safe [OF Suc]) (simp_all del: iter_at.simps)
    then show ?thesis by (simp add: keeps_def)
  qed
  moreover have "keeps R (decode_init (Suc n) E (pb_decode_noinit (Suc n) E) flds p)" if "fits (Suc n) E R flds p" for flds p
    by (rule decode_init_keeps [OF that], rule noinit [OF that])
  ultimately show ?case
    using defaults_keep [of "Suc n" E R] release_keeps(2) [of "Suc n" E R]
    by unfold_locales (simp_all add: level_below_def del: fits.simps pb_decode_noinit.simps pb_release_single_field.simps)
qed

interpretation decoder_level: safe_level E R "fits n E R" "level_below n E (pb_decode_noinit n E)" for E R n
  by (rule safe_level_at)

lemma pb_decode_keeps: "fits n E R flds dest \<Longrightarrow> keeps R (pb_decode n E flds dest)"
  using decoder_level.decode [of n E R flds dest] by (simp add: level_below_def pb_decode_def)

subsection \<open>The storage of a message\<close>

text \<open>\<open>n\<close> bytes from the address \<open>p\<close> on.\<close>

primrec cells :: "nat \<Rightarrow> nat \<Rightarrow> nat set" where
  "cells p 0 = {}"
| "cells p (Suc n) = insert p (cells (size_add p 1) n)"

text \<open>The bytes of one item of a field, with those of the message in it.\<close>

definition item_storage :: "(pb_field list \<Rightarrow> nat \<Rightarrow> nat set) \<Rightarrow> 's pb_denv \<Rightarrow> pb_field \<Rightarrow> nat \<Rightarrow> nat set" where
  "item_storage sub E f p = cells p (pf_data_size f) \<union> (if PB_LTYPE (pf_type f) = 0x08 then sub (sub_fields E f) p else {})"

text \<open>
  The bytes of a field: its items and its counter, \<open>has_\<close> flag or \<open>which_\<close> tag. An array with a fixed count has no counter, and
  a field for a callback has no storage of its own that the decoder writes.
\<close>

definition field_storage :: "(pb_field list \<Rightarrow> nat \<Rightarrow> nat set) \<Rightarrow> 's pb_denv \<Rightarrow> pb_field_iter \<Rightarrow> nat set" where
  "field_storage sub E it =
     (let f = it_field it; h = PB_HTYPE (pf_type f)
      in if PB_ATYPE (pf_type f) \<noteq> PB_ATYPE_STATIC then {}
         else if h = PB_HTYPE_REPEATED then
           (if pf_size_offset f = 0 then {} else cells (it_pSize it) 4) \<union>
           (\<Union>i < pf_array_size f. item_storage sub E f (size_add (it_pData it) (size_mul (pf_data_size f) i)))
         else item_storage sub E f (it_pData it) \<union>
           (if h = PB_HTYPE_ONEOF then cells (it_pSize it) 4
            else if h = PB_HTYPE_OPTIONAL \<and> it_pSize it \<noteq> it_pData it then cells (it_pSize it) 1 else {}))"

text \<open>The bytes of a message structure, and the local counters of the calls of \<open>pb_decode_noinit\<close> on it and its submessages.\<close>

primrec storage :: "nat \<Rightarrow> 's pb_denv \<Rightarrow> pb_field list \<Rightarrow> nat \<Rightarrow> nat set" where
  "storage 0 E flds dest = {}"
| "storage (Suc n) E flds dest =
     cells (de_frame E (Suc n)) 4 \<union> (\<Union>it \<in> set (message_iters flds dest). field_storage (storage n E) E it)"

text \<open>
  Fields without pointers and extensions: static fields and fields for callbacks. A static field has the size of its type; a
  submessage has a type with fields, of a lower rank; and an array with a fixed count has at least the four bytes of the
  counter that is stored in its place (\<open>set_to_defaults_past_array\<close> in \<open>PbRequired\<close> shows what happens otherwise).
\<close>

definition safe_field :: "'s pb_denv \<Rightarrow> (nat \<Rightarrow> nat) \<Rightarrow> nat \<Rightarrow> pb_field \<Rightarrow> bool" where
  "safe_field E rk d f \<longleftrightarrow>
     (let t = PB_LTYPE (pf_type f); a = PB_ATYPE (pf_type f)
      in t \<in> {0x00, 0x01, 0x02, 0x03, 0x04, 0x05, 0x06, 0x07, 0x08, 0x0A} \<and> a \<in> {PB_ATYPE_STATIC, PB_ATYPE_CALLBACK} \<and>
         (a = PB_ATYPE_STATIC \<longrightarrow>
            (t = 0x00 \<longrightarrow> pf_data_size f = 1) \<and> (t = 0x04 \<longrightarrow> pf_data_size f = 4) \<and> (t = 0x05 \<longrightarrow> pf_data_size f = 8) \<and>
            (t = 0x08 \<longrightarrow> (case pf_ptr f of None \<Rightarrow> False | Some d' \<Rightarrow> rk d' < rk d \<and> de_descs E d' \<noteq> [])) \<and>
            (PB_HTYPE (pf_type f) = PB_HTYPE_REPEATED \<and> pf_size_offset f = 0 \<longrightarrow> 4 \<le> pf_data_size f * pf_array_size f)))"

lemma within_cells: "within R p n \<longleftrightarrow> cells p n \<subseteq> R"
  by (induction n arbitrary: p) auto

lemma cells_add: "p < 2 ^ 64 \<Longrightarrow> cells p (n + m) = cells p n \<union> cells (size_add p n) m"
proof (induction n arbitrary: p)
  case 0
  then show ?case by (simp add: size_add_def)
next
  case (Suc n)
  have "size_add p 1 < 2 ^ 64" by (simp add: size_add_def)
  from Suc(1) [OF this] show ?case by (simp add: size_add_assoc)
qed

lemma cells_mono: "n \<le> m \<Longrightarrow> cells p n \<subseteq> cells p m"
  using within_mono [of "cells p m" p m n] by (simp add: within_cells)

lemma cells_items:
  assumes "p < 2 ^ 64"
  shows "cells p (k * n) \<subseteq> (\<Union>i < n. cells (size_add p (size_mul k i)) k)"
proof (induction n)
  case (Suc n)
  have "size_add p (k * n) = size_add p (size_mul k n)" by (simp add: size_add_def size_mul_def mod_simps)
  then have "cells p (k * n + k) = cells p (k * n) \<union> cells (size_add p (size_mul k n)) k" using cells_add [OF assms] by simp
  then show ?case using Suc by (auto simp: lessThan_Suc add.commute)
qed simp

lemma callback_ok_mono: "callback_ok R cb \<Longrightarrow> R \<subseteq> R' \<Longrightarrow> callback_ok R' cb"
  unfolding callback_ok_def keeps_def safe_result_def same_outside_def by (meson subsetD)

lemma iter_at_pData: "it_pData (iter_at flds dest i) < 2 ^ 64"
  by (induction i) (auto simp: pb_field_iter_begin_def pb_field_iter_next_def Let_def size_add_def)

lemma iter_at_pSize:
  assumes "i < length flds" "PB_HTYPE (pf_type (flds ! i)) = PB_HTYPE_REPEATED" "pf_size_offset (flds ! i) = 0"
  shows "it_pSize (iter_at flds dest i) = it_pData (iter_at flds dest i)"
proof (cases i)
  case 0
  then show ?thesis using assms by (cases flds) (auto simp: pb_field_iter_begin_def Let_def addr_add_def size_add_def nat_mod_distrib)
next
  case (Suc j)
  then show ?thesis using assms iter_at_pos(3) [of j flds dest]
    by (auto simp: pb_field_iter_next_def Let_def addr_add_def size_add_def PB_HTYPE_REPEATED_def PB_HTYPE_ONEOF_def nat_mod_distrib simp del: iter_at_pos(3))
qed

lemma static_storage_fits:
  assumes i: "i < length flds" and f: "safe_field E rk d (flds ! i)" "PB_ATYPE (pf_type (flds ! i)) = PB_ATYPE_STATIC"
    and st: "field_storage sto E (iter_at flds p i) \<subseteq> R"
    and item: "\<And>q. item_storage sto E (flds ! i) q \<subseteq> R \<Longrightarrow> q < 2 ^ 64 \<Longrightarrow> item_fits sub E R (flds ! i) q"
  shows "static_fits sub E R (iter_at flds p i)"
proof -
  let ?f = "flds ! i" and ?it = "iter_at flds p i"
  have it: "it_field ?it = ?f" "it_pData ?it < 2 ^ 64" using i iter_at_pData by simp_all
  show ?thesis
  proof (cases "PB_HTYPE (pf_type ?f) = PB_HTYPE_REPEATED")
    case True
    have items: "item_storage sto E ?f (size_add (it_pData ?it) (size_mul (pf_data_size ?f) j)) \<subseteq> R" if "j < pf_array_size ?f" for j
      using st that True f(2) it(1) by (auto simp: field_storage_def Let_def simp del: iter_at.simps)
    have "cells (it_pSize ?it) 4 \<subseteq> R"
    proof (cases "pf_size_offset ?f = 0")
      case F: True
      have "4 \<le> pf_data_size ?f * pf_array_size ?f" using f True F by (simp add: safe_field_def Let_def)
      then have "cells (it_pData ?it) 4 \<subseteq> (\<Union>j < pf_array_size ?f. cells (size_add (it_pData ?it) (size_mul (pf_data_size ?f) j)) (pf_data_size ?f))"
        using cells_items [OF it(2)] cells_mono by (meson order.trans)
      also have "\<dots> \<subseteq> R" using items by (intro UN_least) (simp add: item_storage_def del: iter_at.simps)
      finally show ?thesis using iter_at_pSize [OF i True F] by (simp del: iter_at.simps)
    qed (use st True f(2) it(1) in \<open>simp add: field_storage_def Let_def del: iter_at.simps\<close>)
    moreover have "item_fits sub E R ?f (size_add (it_pData ?it) (size_mul (pf_data_size ?f) j))" if "j < pf_array_size ?f" for j
      using item [OF items [OF that]] by (simp add: size_add_def)
    ultimately show ?thesis using True it by (simp add: static_fits_def Let_def within_cells del: iter_at.simps)
  next
    case False
    have st': "item_storage sto E ?f (it_pData ?it) \<subseteq> R" "PB_HTYPE (pf_type ?f) = PB_HTYPE_ONEOF \<Longrightarrow> cells (it_pSize ?it) 4 \<subseteq> R"
      "PB_HTYPE (pf_type ?f) = PB_HTYPE_OPTIONAL \<Longrightarrow> it_pSize ?it \<noteq> it_pData ?it \<Longrightarrow> cells (it_pSize ?it) 1 \<subseteq> R"
      using st False f(2) it(1) by (simp_all add: field_storage_def Let_def PB_HTYPE_ONEOF_def PB_HTYPE_OPTIONAL_def del: iter_at.simps)
    then show ?thesis using False it item [OF st'(1) it(2)] by (simp add: static_fits_def Let_def within_cells del: iter_at.simps One_nat_def)
  qed
qed

lemma safe_fits:
  assumes types: "\<And>d f. f \<in> set (de_descs E d) \<Longrightarrow> safe_field E rk d f"
    and cb: "\<And>decode f arg. callback_ok R (de_callbacks E decode f arg)"
  shows "rk d < n \<Longrightarrow> de_descs E d \<noteq> [] \<Longrightarrow> storage n E (de_descs E d) p \<subseteq> R \<Longrightarrow> fits n E R (de_descs E d) p"
proof (induction n arbitrary: d p)
  case (Suc n d p)
  have field: "field_fits (fits n E R) E R (iter_at (de_descs E d) p i)" if i: "i < length (de_descs E d)" for i
  proof -
    let ?f = "de_descs E d ! i" and ?it = "iter_at (de_descs E d) p i"
    have f: "safe_field E rk d ?f" using types i by simp
    have st: "field_storage (storage n E) E ?it \<subseteq> R" using Suc.prems(3) i by (simp add: message_iters_at UN_subset_iff del: iter_at.simps)
    have item: "item_fits (fits n E R) E R ?f q" if "PB_ATYPE (pf_type ?f) = PB_ATYPE_STATIC" "item_storage (storage n E) E ?f q \<subseteq> R" "q < 2 ^ 64" for q
    proof -
      have "field_bytes ?f = pf_data_size ?f" using f that(1) by (auto simp: field_bytes_def safe_field_def Let_def)
      moreover have "fits n E R (sub_fields E ?f) q" if t: "PB_LTYPE (pf_type ?f) = 0x08"
      proof -
        obtain d' where d': "pf_ptr ?f = Some d'" "rk d' < rk d" "de_descs E d' \<noteq> []"
          using f t \<open>PB_ATYPE (pf_type ?f) = PB_ATYPE_STATIC\<close> by (auto simp: safe_field_def Let_def split: option.splits)
        then show ?thesis using Suc.IH [of d' q] Suc.prems(1) \<open>item_storage (storage n E) E ?f q \<subseteq> R\<close> t
          by (simp add: item_storage_def sub_fields_def)
      qed
      ultimately show ?thesis using that
        by (auto simp: item_fits_def block_fits_def item_storage_def within_cells PB_ATYPE_STATIC_def PB_ATYPE_POINTER_def)
    qed
    have "static_fits (fits n E R) E R ?it" if "PB_ATYPE (pf_type ?f) = PB_ATYPE_STATIC"
      by (rule static_storage_fits [OF i f that st item [OF that]])
    moreover have "PB_LTYPE (pf_type ?f) \<in> {0x00, 0x01, 0x02, 0x03, 0x04, 0x05, 0x06, 0x07, 0x08, 0x0A}"
      and "PB_ATYPE (pf_type ?f) \<in> {PB_ATYPE_STATIC, PB_ATYPE_POINTER, PB_ATYPE_CALLBACK}" and "PB_ATYPE (pf_type ?f) \<noteq> PB_ATYPE_POINTER"
      using f unfolding safe_field_def Let_def PB_ATYPE_STATIC_def PB_ATYPE_CALLBACK_def PB_ATYPE_POINTER_def by (blast, blast, force)
    moreover have "it_field ?it = ?f" using i by simp
    ultimately show ?thesis unfolding field_fits_def Let_def using cb by metis
  qed
  have "max 1 (length (de_descs E d)) = length (de_descs E d)" using Suc.prems(2) by (cases "de_descs E d") auto
  then show ?case using field Suc.prems(3) by (auto simp: within_cells simp del: iter_at.simps)
qed simp

subsection \<open>Properties\<close>

text \<open>C29. No input makes the decoder write outside of the message, for message types made of static fields and callbacks. Whatever
  the bytes in its buffer are, valid or not, \<open>pb_decode\<close> returns, has read no more than the bytes that the stream had left, and
  has changed no memory but the \<open>storage\<close> of the message (its fields and their counters, flags and tags, as the
  descriptors lay them out, submessages included), its own local counters, and the memory \<open>C\<close> that the callbacks write:
  strings, byte arrays, packed and plain repeated fields, oneofs and nested messages all stay in their storage,
  also when decoding fails half-way and the message is released. The conditions on the descriptors are those of
  \<open>safe_field\<close>: no fields behind pointers, no extensions, arrays with a fixed count of four bytes at least, and no
  message type without fields. The last two are needed: \<open>set_to_defaults_past_array\<close> and
  \<open>pb_decode_empty_message_type\<close> in \<open>PbRequired\<close> write past such a structure.
\<close>

theorem pb_decode_memory_safe:
  assumes types: "\<And>d f. f \<in> set (de_descs E d) \<Longrightarrow> safe_field E rk d f" and ne: "de_descs E d \<noteq> []"
    and callbacks: "\<And>decode f arg. callback_ok C (de_callbacks E decode f arg)"
    and rank: "rk d < n" and buf: "is_buffer (is_source s)"
  shows "\<exists>ok hp' s'. pb_decode n E (de_descs E d) dest hp s = Some (ok, hp', s') \<and> istream_inside s s' \<and>
           (\<forall>a. a \<notin> storage n E (de_descs E d) dest \<union> C \<longrightarrow> hp_mem hp' a = hp_mem hp a)"
proof -
  have "callback_ok (storage n E (de_descs E d) dest \<union> C) (de_callbacks E decode f arg)" for decode f arg
    using callbacks by (rule callback_ok_mono) simp
  with types have "fits n E (storage n E (de_descs E d) dest \<union> C) (de_descs E d) dest" using rank ne by (intro safe_fits) auto
  from keepsD [OF pb_decode_keeps [OF this] buf, of hp] show ?thesis unfolding safe_result_def same_outside_def by blast
qed

text \<open>A number, a string of four bytes, an optional message of one boolean and an array of two 32-bit numbers, in 24 bytes.\<close>

definition safe_fields :: "nat \<Rightarrow> pb_field list" where
  "safe_fields d =
     (if d = 3
      then [\<lparr>pf_tag = 1, pf_type = 0x00, pf_data_offset = 0, pf_size_offset = 0, pf_data_size = 1, pf_array_size = 0, pf_ptr = None\<rparr>]
      else [\<lparr>pf_tag = 1, pf_type = 0x02, pf_data_offset = 0, pf_size_offset = 0, pf_data_size = 4, pf_array_size = 0, pf_ptr = None\<rparr>,
            \<lparr>pf_tag = 2, pf_type = 0x07, pf_data_offset = 0, pf_size_offset = 0, pf_data_size = 4, pf_array_size = 0, pf_ptr = None\<rparr>,
            \<lparr>pf_tag = 3, pf_type = 0x18, pf_data_offset = 1, pf_size_offset = - 1, pf_data_size = 1, pf_array_size = 0, pf_ptr = Some 3\<rparr>,
            \<lparr>pf_tag = 4, pf_type = 0x22, pf_data_offset = 6, pf_size_offset = - 4, pf_data_size = 4, pf_array_size = 2, pf_ptr = None\<rparr>])"

definition safe_env :: "unit pb_denv" where
  "safe_env =
     \<lparr>de_read = null_read, de_descs = safe_fields, de_extension_types = (\<lambda>_. \<lparr>et_decode = None, et_arg = PB_LAST_FIELD\<rparr>),
      de_callbacks = (\<lambda>_ _ _ hp s. Some (False, hp, s)), de_place = (\<lambda>_ _. 0), de_frame = (\<lambda>n. 1000 + 4 * n)\<rparr>"

lemma safe_nth:
  "length (safe_fields 2) = 4" "safe_fields 3 = [\<lparr>pf_tag = 1, pf_type = 0x00, pf_data_offset = 0, pf_size_offset = 0, pf_data_size = 1, pf_array_size = 0, pf_ptr = None\<rparr>]"
  "safe_fields 2 ! 0 = \<lparr>pf_tag = 1, pf_type = 0x02, pf_data_offset = 0, pf_size_offset = 0, pf_data_size = 4, pf_array_size = 0, pf_ptr = None\<rparr>"
  "safe_fields 2 ! Suc 0 = \<lparr>pf_tag = 2, pf_type = 0x07, pf_data_offset = 0, pf_size_offset = 0, pf_data_size = 4, pf_array_size = 0, pf_ptr = None\<rparr>"
  "safe_fields 2 ! 2 = \<lparr>pf_tag = 3, pf_type = 0x18, pf_data_offset = 1, pf_size_offset = - 1, pf_data_size = 1, pf_array_size = 0, pf_ptr = Some 3\<rparr>"
  "safe_fields 2 ! 3 = \<lparr>pf_tag = 4, pf_type = 0x22, pf_data_offset = 6, pf_size_offset = - 4, pf_data_size = 4, pf_array_size = 2, pf_ptr = None\<rparr>"
  by (simp_all add: safe_fields_def)

lemma safe_iters:
  "message_iters (safe_fields 2) 16 =
     [\<lparr>it_start = safe_fields 2, it_pos = 0, it_required_field_index = 0, it_dest_struct = 16, it_pData = 16, it_pSize = 16\<rparr>,
      \<lparr>it_start = safe_fields 2, it_pos = 1, it_required_field_index = 1, it_dest_struct = 16, it_pData = 20, it_pSize = 20\<rparr>,
      \<lparr>it_start = safe_fields 2, it_pos = 2, it_required_field_index = 2, it_dest_struct = 16, it_pData = 25, it_pSize = 24\<rparr>,
      \<lparr>it_start = safe_fields 2, it_pos = 3, it_required_field_index = 2, it_dest_struct = 16, it_pData = 32, it_pSize = 28\<rparr>]"
  "message_iters (safe_fields 3) 25 = [\<lparr>it_start = safe_fields 3, it_pos = 0, it_required_field_index = 0, it_dest_struct = 25, it_pData = 25, it_pSize = 25\<rparr>]"
proof -
  let ?it = "\<lambda>i r d z. \<lparr>it_start = safe_fields 2, it_pos = i, it_required_field_index = r, it_dest_struct = 16, it_pData = d, it_pSize = z\<rparr>"
  note nxt = pb_field_iter_next_def Let_def field_type_simps addr_add_def field_extent_def safe_nth PB_SIZE_MAX_def numeral_2_eq_2 [symmetric]
  have 0: "iter_at (safe_fields 2) 16 0 = ?it 0 0 16 16" by (simp add: pb_field_iter_begin_def Let_def safe_fields_def addr_add_def)
  have 1: "iter_at (safe_fields 2) 16 (Suc 0) = ?it 1 1 20 20" unfolding iter_at.simps(2) 0 by (simp add: nxt)
  have 2: "iter_at (safe_fields 2) 16 (Suc (Suc 0)) = ?it 2 2 25 24" unfolding iter_at.simps(2) [of _ _ "Suc 0"] 1 by (simp add: nxt)
  have 3: "iter_at (safe_fields 2) 16 (Suc (Suc (Suc 0))) = ?it 3 2 32 28" unfolding iter_at.simps(2) [of _ _ "Suc (Suc 0)"] 2 by (simp add: nxt)
  have "[0..<length (safe_fields 2)] = [0, Suc 0, Suc (Suc 0), Suc (Suc (Suc 0))]" by (simp add: safe_fields_def)
  then show "message_iters (safe_fields 2) 16 = [?it 0 0 16 16, ?it 1 1 20 20, ?it 2 2 25 24, ?it 3 2 32 28]"
    unfolding message_iters_at by (simp only: list.map 0 1 2 3)
  show "message_iters (safe_fields 3) 25 = [\<lparr>it_start = safe_fields 3, it_pos = 0, it_required_field_index = 0, it_dest_struct = 25, it_pData = 25, it_pSize = 25\<rparr>]"
    by (simp add: message_iters_at pb_field_iter_begin_def Let_def safe_fields_def addr_add_def)
qed

lemma cells_interval: "p + n \<le> 2 ^ 64 \<Longrightarrow> cells p n = {p..<p + n}"
proof (induction n arbitrary: p)
  case (Suc n)
  then show ?case
  proof (cases "n = 0")
    case False
    then have "size_add p 1 = Suc p" using Suc.prems by (simp add: size_add_def)
    then show ?thesis using Suc.IH [of "Suc p"] Suc.prems by auto
  qed auto
qed simp

lemma safe_storage: "storage 2 safe_env (safe_fields 2) 16 \<subseteq> {16..<40} \<union> {1004..<1012}"
proof -
  have sub: "sub_fields safe_env (safe_fields 2 ! 2) = safe_fields 3" by (simp add: sub_fields_def safe_env_def safe_fields_def)
  note st = field_storage_def item_storage_def it_field_def safe_nth field_type_simps Let_def cells_interval size_add_def size_mul_def
  have frame: "de_frame safe_env (Suc 0) = 1004" "de_frame safe_env (Suc (Suc 0)) = 1008" by (simp_all add: safe_env_def)
  have one: "storage (Suc 0) safe_env (safe_fields 3) 25 \<subseteq> {25..<26} \<union> {1004..<1008}"
    unfolding storage.simps safe_iters(2) by (simp add: st frame)
  have two: "(\<Union>it \<in> set (message_iters (safe_fields 2) 16). field_storage sto safe_env it) \<subseteq> {16..<40} \<union> sto (safe_fields 3) 25" for sto
    unfolding safe_iters(1) sub [symmetric] by (auto simp: st)
  have "cells 1008 4 = {1008..<1012}" by (simp add: cells_interval)
  then have "storage (Suc (Suc 0)) safe_env (safe_fields 2) 16 = {1008..<1012} \<union> (\<Union>it \<in> set (message_iters (safe_fields 2) 16). field_storage (storage (Suc 0) safe_env) safe_env it)"
    by (simp only: storage.simps(2) [of "Suc 0"] frame)
  also have "\<dots> \<subseteq> {1008..<1012} \<union> ({16..<40} \<union> ({25..<26} \<union> {1004..<1008}))" using two [of "storage (Suc 0) safe_env"] one by blast
  also have "\<dots> \<subseteq> {16..<40} \<union> {1004..<1012}" by auto
  finally show ?thesis by (simp only: numeral_2_eq_2)
qed

lemma pb_decode_memory_safe_witness:
  "\<exists>ok hp' s'. pb_decode 2 safe_env (safe_fields 2) 16 \<lparr>hp_mem = (\<lambda>_. 7), hp_blocks = (\<lambda>_. None)\<rparr> (pb_istream_from_buffer [0x12, 0xFF, 0x07] 3) = Some (ok, hp', s') \<and>
     istream_inside (pb_istream_from_buffer [0x12, 0xFF, 0x07] 3) s' \<and> (\<forall>a. a \<notin> {16..<40} \<union> {1004..<1012} \<longrightarrow> hp_mem hp' a = 7)"
proof -
  have types: "safe_field safe_env (\<lambda>d. if d = 3 then 0 else 1) d f" if "f \<in> set (de_descs safe_env d)" for d f
    using that by (auto simp: safe_env_def safe_fields_def safe_field_def Let_def field_type_simps split: if_splits)
  have cb: "callback_ok {} (de_callbacks safe_env decode f arg)" for decode f arg
    by (simp add: safe_env_def callback_ok_def keeps_def istream_inside_refl)
  show ?thesis
    using pb_decode_memory_safe [where rk = "\<lambda>d. if d = 3 then 0 else 1" and E = safe_env and d = 2 and n = 2 and dest = 16
        and s = "pb_istream_from_buffer [0x12, 0xFF, 0x07] 3" and hp = "\<lparr>hp_mem = (\<lambda>_. 7), hp_blocks = (\<lambda>_. None)\<rparr>", OF types _ cb] safe_storage
    by (fastforce simp: pb_istream_from_buffer_def safe_env_def safe_fields_def)
qed

text \<open>
  Message types that the decoder has a function for: no extensions, items of a size behind pointers, and submessages
  of a lower rank than the message around them.
\<close>

definition decodable :: "(nat \<Rightarrow> nat) \<Rightarrow> nat \<Rightarrow> pb_field \<Rightarrow> bool" where
  "decodable rk d f \<longleftrightarrow>
     (let t = PB_LTYPE (pf_type f); a = PB_ATYPE (pf_type f)
      in t \<in> {0x00, 0x01, 0x02, 0x03, 0x04, 0x05, 0x06, 0x07, 0x08, 0x0A} \<and> a \<in> {PB_ATYPE_STATIC, PB_ATYPE_POINTER, PB_ATYPE_CALLBACK} \<and>
         (a = PB_ATYPE_POINTER \<longrightarrow> 0 < pf_data_size f) \<and> (t = 0x08 \<longrightarrow> (case pf_ptr f of None \<Rightarrow> False | Some d' \<Rightarrow> rk d' < rk d)))"

lemma decodable_fits:
  assumes types: "\<And>d f. f \<in> set (de_descs E d) \<Longrightarrow> decodable rk d f"
    and cb: "\<And>decode f arg. callback_ok UNIV (de_callbacks E decode f arg)"
  shows "rk d < n \<Longrightarrow> fits n E UNIV (de_descs E d) p"
proof (induction n arbitrary: d p)
  case (Suc n d p)
  have field: "field_fits (fits n E UNIV) E UNIV (iter_at (de_descs E d) p i)" if "i < length (de_descs E d)" for i
  proof -
    let ?f = "de_descs E d ! i"
    have f: "decodable rk d ?f" using types that by simp
    have sub: "fits n E UNIV (sub_fields E ?f) q" if "PB_LTYPE (pf_type ?f) = 0x08" for q
      using f that Suc by (auto simp: decodable_def Let_def sub_fields_def split: option.splits)
    show ?thesis using f sub that cb iter_at_pData [of "de_descs E d" p i]
      by (auto simp: field_fits_def static_fits_def item_fits_def block_fits_def decodable_def Let_def simp del: iter_at.simps fits.simps)
  qed
  have "field_fits (fits n E UNIV) E UNIV (iter_at (de_descs E d) p 0)" if "de_descs E d = []"
    using that by (simp add: field_fits_def static_fits_def item_fits_def block_fits_def it_field_def PB_LAST_FIELD_def field_type_simps)
  then have "field_fits (fits n E UNIV) E UNIV (iter_at (de_descs E d) p i)" if "i < max 1 (length (de_descs E d))" for i
    using field that by (cases "de_descs E d") auto
  then show ?case by simp
qed simp

text \<open>C30. The decoder always comes to an end. For message types with fields of every kind (static, behind pointers,
  through callbacks, packed, repeated, oneof and nested, but no extensions), and callbacks that take a byte
  whenever they leave some, \<open>pb_decode\<close> returns on every sequence of bytes, and it has read no more than the bytes that the
  stream had left. Any bound on the nesting above the rank of the message type is enough, and the result does not
  have to be memory-safe for that: an allocator may fail, or place blocks anywhere.
\<close>

theorem pb_decode_returns:
  assumes types: "\<And>d f. f \<in> set (de_descs E d) \<Longrightarrow> decodable rk d f"
    and callbacks: "\<And>decode f arg. callback_ok UNIV (de_callbacks E decode f arg)"
    and rank: "rk d < n" and buf: "is_buffer (is_source s)"
  shows "\<exists>ok hp' s'. pb_decode n E (de_descs E d) dest hp s = Some (ok, hp', s') \<and> istream_inside s s'"
  using keepsD [OF pb_decode_keeps [OF decodable_fits [OF types callbacks rank]] buf, of hp dest] by (auto simp: safe_result_def)


text \<open>An optional string behind a pointer, an array of numbers for a callback and an array of messages behind a pointer.\<close>

definition live_fields :: "nat \<Rightarrow> pb_field list" where
  "live_fields d =
     (if d = 3
      then [\<lparr>pf_tag = 1, pf_type = 0x00, pf_data_offset = 0, pf_size_offset = 0, pf_data_size = 1, pf_array_size = 0, pf_ptr = None\<rparr>]
      else [\<lparr>pf_tag = 1, pf_type = 0x97, pf_data_offset = 0, pf_size_offset = 0, pf_data_size = 1, pf_array_size = 0, pf_ptr = None\<rparr>,
            \<lparr>pf_tag = 2, pf_type = 0x62, pf_data_offset = 0, pf_size_offset = 0, pf_data_size = 16, pf_array_size = 0, pf_ptr = None\<rparr>,
            \<lparr>pf_tag = 3, pf_type = 0xA8, pf_data_offset = 8, pf_size_offset = - 8, pf_data_size = 1, pf_array_size = 0, pf_ptr = Some 3\<rparr>])"

definition live_env :: "unit pb_denv" where
  "live_env =
     \<lparr>de_read = null_read, de_descs = live_fields, de_extension_types = (\<lambda>_. \<lparr>et_decode = None, et_arg = PB_LAST_FIELD\<rparr>),
      de_callbacks = (\<lambda>_ _ _ hp s. Some (True, hp, s\<lparr>is_bytes_left := 0\<rparr>)), de_place = (\<lambda>_ n. 4096), de_frame = (\<lambda>n. 1000 + 4 * n)\<rparr>"

lemma pb_decode_returns_witness:
  "\<exists>ok hp' s'. pb_decode 2 live_env (live_fields 2) 16 \<lparr>hp_mem = (\<lambda>_. 7), hp_blocks = (\<lambda>_. None)\<rparr> (pb_istream_from_buffer [0x0A, 0x01, 0x41, 0x10, 0xFF] 5) = Some (ok, hp', s') \<and>
     istream_inside (pb_istream_from_buffer [0x0A, 0x01, 0x41, 0x10, 0xFF] 5) s'"
proof -
  have types: "decodable (\<lambda>d. if d = 3 then 0 else 1) d f" if "f \<in> set (de_descs live_env d)" for d f
    using that by (auto simp: live_env_def live_fields_def decodable_def Let_def field_type_simps split: if_splits)
  have cb: "callback_ok UNIV (de_callbacks live_env decode f arg)" for decode f arg
    by (auto simp: live_env_def callback_ok_def keeps_def safe_result_def istream_inside_def is_buffer_def intro!: exI [of _ 0])
  show ?thesis
    using pb_decode_returns [where rk = "\<lambda>d. if d = 3 then 0 else 1" and E = live_env and d = 2 and n = 2 and
        s = "pb_istream_from_buffer [0x0A, 0x01, 0x41, 0x10, 0xFF] 5", OF types cb]
    by (simp add: pb_istream_from_buffer_def live_env_def)
qed

end
