(* ===== verification/PbRequired.thy ===== *)
theory PbRequired
  imports PbSafety
begin

text \<open>
  The check for missing required fields at the end of \<open>pb_decode_noinit\<close>, as an invariant of its loop: the loop as a
  relation \<open>decode_run\<close> that records the field numbers it has read, and what \<open>fields_seen\<close> says about them. At the
  end, two inputs on which the decoder and the default values write outside of the structure.
\<close>

section \<open>Required fields\<close>

abbreviation required :: "pb_field \<Rightarrow> bool" where
  "required f \<equiv> PB_HTYPE (pf_type f) = PB_HTYPE_REQUIRED"

subsection \<open>The count of required fields\<close>

lemma required_index_at: "j < length flds \<Longrightarrow> it_required_field_index (iter_at flds dest j) = length (filter required (take j flds))"
proof (induction j)
  case 0
  show ?case by (simp add: pb_field_iter_begin_def Let_def)
next
  case (Suc j)
  let ?it = "iter_at flds dest j"
  have pos: "it_start ?it ! it_pos ?it = flds ! j" "it_start ?it ! (it_pos ?it + 1) = flds ! Suc j" using Suc(2) by simp_all
  have "it_required_field_index (snd (pb_field_iter_next ?it)) = it_required_field_index ?it + (if required (flds ! j) then 1 else 0)"
    using Suc(2) pos by (auto simp: pb_field_iter_next_def Let_def PB_HTYPE_REQUIRED_def PB_HTYPE_ONEOF_def simp del: iter_at.simps)
  then show ?case using Suc by (simp add: take_Suc_conv_app_nth)
qed

lemma on_walk_cases:
  assumes "on_walk flds dest frame it" "flds \<noteq> []"
  obtains i where "i < length flds" "it_pos it = i" "it_start it = flds" "it_field it = flds ! i"
    "it_required_field_index it = it_required_field_index (iter_at flds dest i)"
    "pb_field_iter_next it = pb_field_iter_next (iter_at flds dest i)"
proof -
  have "max 1 (length flds) = length flds" using assms(2) by (cases flds) auto
  then show thesis using assms(1) that by (auto simp: on_walk_def next_pSize simp del: iter_at.simps)
qed

lemma req_field_count_walk:
  assumes "on_walk flds dest frame it"
  shows "req_field_count it = min (length (filter required flds)) PB_MAX_REQUIRED_FIELDS"
proof (cases "flds = []")
  case True
  then have it: "it = iter_at [] dest 0"
    using assms by (auto simp: on_walk_def it_field_def PB_LAST_FIELD_def PB_HTYPE_def PB_HTYPE_REPEATED_def pb_field_iter_begin_def Let_def)
  have "iterations it = [it]" unfolding it by (subst iterations.simps) (simp add: pb_field_iter_next_def)
  then show ?thesis using True unfolding it by (simp add: req_field_count_def Let_def pb_field_iter_begin_def)
next
  case False
  with assms obtain i where i: "i < length flds" "it_pos it = i" "it_start it = flds" "it_field it = flds ! i"
    "it_required_field_index it = it_required_field_index (iter_at flds dest i)"
    "pb_field_iter_next it = pb_field_iter_next (iter_at flds dest i)" by (rule on_walk_cases)
  define l where "l = last (iterations it)"
  have l: "it_required_field_index l = it_required_field_index (iter_at flds dest (length flds - 1))" "it_field l = flds ! (length flds - 1)"
  proof -
    have "it_required_field_index l = it_required_field_index (iter_at flds dest (length flds - 1)) \<and> it_field l = flds ! (length flds - 1)"
    proof (cases "Suc i < length flds")
      case True
      then have "iterations it = it # map (iter_at flds dest) [Suc i..<length flds]"
        using i by (subst iterations.simps) (simp add: pb_field_iter_next_at iterations_at del: iter_at.simps)
      then have "l = iter_at flds dest (length flds - 1)" using True False by (simp add: l_def last_map del: iter_at.simps)
      then show ?thesis using True by (simp del: iter_at.simps)
    next
      case F: False
      then have "iterations it = [it]" using i by (subst iterations.simps) (simp add: pb_field_iter_next_at del: iter_at.simps)
      moreover have "i = length flds - 1" using F i(1) by simp
      ultimately show ?thesis using i by (simp add: l_def)
    qed
    then show "it_required_field_index l = it_required_field_index (iter_at flds dest (length flds - 1))" "it_field l = flds ! (length flds - 1)" by auto
  qed
  have split: "flds = take (length flds - 1) flds @ [flds ! (length flds - 1)]" using False by (metis append_butlast_last_id butlast_conv_take last_conv_nth)
  have "length (filter required flds) = length (filter required (take (length flds - 1) flds)) + (if required (flds ! (length flds - 1)) then 1 else 0)"
    by (subst split) (simp del: take_Suc_conv_app_nth)
  then show ?thesis using l False i(3) by (simp add: req_field_count_def l_def [symmetric] Let_def required_index_at del: iter_at.simps)
qed

subsection \<open>The bits of \<open>fields_seen\<close>\<close>

definition seen_set :: "u32 list \<Rightarrow> nat set" where
  "seen_set seen = {k. k < 64 \<and> bit (seen ! (k div 32)) (k mod 32)}"

lemma div_32: "k < 64 \<longleftrightarrow> k div 32 < 2" for k :: nat
  by auto

lemma seen_set_see_field:
  assumes "length seen = 2" "k < 64"
  shows "seen_set (see_field k seen) = insert k (seen_set seen)" "length (see_field k seen) = 2"
proof -
  have nth: "see_field k seen ! i = (if i = k div 32 then seen ! i OR push_bit (k mod 32) 1 else seen ! i)" for i
    using assms by (simp add: see_field_def nth_list_update)
  have eq: "j = k \<longleftrightarrow> j div 32 = k div 32 \<and> j mod 32 = k mod 32" for j :: nat by (metis div_mult_mod_eq)
  have "bit (see_field k seen ! (j div 32)) (j mod 32) \<longleftrightarrow> j = k \<or> bit (seen ! (j div 32)) (j mod 32)" for j
    unfolding nth eq by (auto simp: bit_or_iff bit_push_bit_iff bit_exp_iff)
  then show "seen_set (see_field k seen) = insert k (seen_set seen)" using assms(2) by (auto simp: seen_set_def)
  show "length (see_field k seen) = 2" using assms(1) by (simp add: see_field_def)
qed

lemma word_all_ones: "w = - 1 \<longleftrightarrow> (\<forall>k<32. bit w k)" for w :: u32
  by (auto simp: bit_eq_iff)

lemma word_low_ones: "m < 32 \<Longrightarrow> w = drop_bit (32 - m) (- 1) \<longleftrightarrow> (\<forall>k<32. bit w k \<longleftrightarrow> k < m)" for w :: u32
  by (auto simp: bit_eq_iff bit_drop_bit_eq bit_mask_iff)

lemma required_present_iff:
  assumes len: "length seen = 2" and count: "count \<le> 64" and bound: "\<And>k. k \<in> seen_set seen \<Longrightarrow> k < count"
  shows "required_present seen count \<longleftrightarrow> {0..<count} \<subseteq> seen_set seen"
proof -
  have bit: "bit (seen ! i) k \<longleftrightarrow> 32 * i + k \<in> seen_set seen" if "i < 2" "k < 32" for i k
    using that by (auto simp: seen_set_def)
  have low: "(\<forall>i\<in>{0..<count div 32}. seen ! i = - 1) \<longleftrightarrow> {0..<32 * (count div 32)} \<subseteq> seen_set seen"
  proof -
    have "(\<forall>i\<in>{0..<count div 32}. seen ! i = - 1) \<longleftrightarrow> (\<forall>i<count div 32. \<forall>k<32. 32 * i + k \<in> seen_set seen)"
      using count bit by (auto simp: word_all_ones)
    also have "\<dots> \<longleftrightarrow> (\<forall>j<32 * (count div 32). j \<in> seen_set seen)"
    proof (intro iffI allI impI)
      fix j
      assume a: "\<forall>i<count div 32. \<forall>k<32. 32 * i + k \<in> seen_set seen" and j: "j < 32 * (count div 32)"
      then have "j div 32 < count div 32" by (simp add: div_less_iff_less_mult mult.commute)
      then have "32 * (j div 32) + j mod 32 \<in> seen_set seen" using a [rule_format, of "j div 32" "j mod 32"] by simp
      then show "j \<in> seen_set seen" by simp
    qed auto
    finally show ?thesis by auto
  qed
  have high: "(count mod 32 \<noteq> 0 \<longrightarrow> seen ! (count div 32) = drop_bit (32 - count mod 32) (- 1)) \<longleftrightarrow>
      {32 * (count div 32)..<count} \<subseteq> seen_set seen"
  proof (cases "count mod 32 = 0")
    case True
    then show ?thesis by auto
  next
    case False
    then have i: "count div 32 < 2" using count by (cases "count = 64") auto
    have "seen ! (count div 32) = drop_bit (32 - count mod 32) (- 1) \<longleftrightarrow> (\<forall>k<32. 32 * (count div 32) + k \<in> seen_set seen \<longleftrightarrow> k < count mod 32)"
      using bit [OF i] by (subst word_low_ones) auto
    also have "\<dots> \<longleftrightarrow> (\<forall>k<count mod 32. 32 * (count div 32) + k \<in> seen_set seen)"
    proof -
      have "k < count mod 32" if "32 * (count div 32) + k \<in> seen_set seen" for k
        using bound [OF that] by (metis add_less_cancel_left mult_div_mod_eq)
      moreover have "count mod 32 < 32" by simp
      ultimately show ?thesis by (meson order.strict_trans)
    qed
    also have "\<dots> \<longleftrightarrow> {32 * (count div 32)..<count} \<subseteq> seen_set seen"
    proof -
      have img: "{32 * (count div 32)..<count} = (\<lambda>k. 32 * (count div 32) + k) ` {0..<count mod 32}" by (simp add: image_add_atLeastLessThan)
      show ?thesis unfolding img image_subset_iff by (simp add: Ball_def)
    qed
    finally show ?thesis using False by simp
  qed
  have "{0..<count} = {0..<32 * (count div 32)} \<union> {32 * (count div 32)..<count}" by (simp add: ivl_disj_un_two(3))
  then show ?thesis unfolding required_present_def low high by auto
qed

subsection \<open>Runs of the decoder\<close>

text \<open>
  The varint of 32 bits at the start of what is left of the input, and the field number it contains. A message ends
  where no bytes are left, or at a tag of zero: nanopb takes messages that are terminated by a zero byte.
\<close>

definition tag_varint :: "'s pb_denv \<Rightarrow> 's decode_state \<Rightarrow> u32 option" where
  "tag_varint E ds = fst (pb_decode_varint32 (de_read E) (ds_stream ds))"

definition next_tag :: "'s pb_denv \<Rightarrow> 's decode_state \<Rightarrow> u32" where
  "next_tag E ds = (case tag_varint E ds of None \<Rightarrow> 0 | Some v \<Rightarrow> drop_bit 3 v)"

definition message_end :: "'s pb_denv \<Rightarrow> 's decode_state \<Rightarrow> bool" where
  "message_end E ds \<longleftrightarrow> is_bytes_left (ds_stream ds) = 0 \<or> tag_varint E ds = Some 0"

text \<open>
  The rounds of the loop in \<open>pb_decode_noinit\<close>, with the field numbers they have read.
\<close>

inductive decode_run :: "nat \<Rightarrow> 's pb_denv \<Rightarrow> 's pb_level \<Rightarrow> 's decode_state \<Rightarrow> u32 list \<Rightarrow> 's decode_state \<Rightarrow> bool"
  for frame E L ds0 where
  run_start: "decode_run frame E L ds0 [] ds0"
| run_step: "decode_run frame E L ds0 tags ds \<Longrightarrow> decode_step frame E L ds = Some (Inl ds') \<Longrightarrow>
    decode_run frame E L ds0 (tags @ [next_tag E ds]) ds'"

lemma decode_tag_Some:
  assumes "pb_decode_tag (de_read E) (ds_stream ds) = (True, dt, s)"
  shows "next_tag E ds = dt_tag dt" "tag_varint E ds \<noteq> Some 0"
  using assms by (auto simp: next_tag_def tag_varint_def pb_decode_varint32_def pb_decode_tag_def split: option.splits if_splits prod.splits)

lemma readbyte_buffer:
  assumes "is_buffer (is_source s)" "is_bytes_left s \<noteq> 0"
  shows "fst (pb_readbyte rd s) \<noteq> None"
  using assms by (cases "is_source s") (auto simp: pb_readbyte_def st_bind_def st_return_def istream_take_def istream_callback_def)

lemma decode_tag_None:
  assumes "is_buffer (is_source (ds_stream ds))" "is_bytes_left (ds_stream ds) \<noteq> 0"
    and "pb_decode_tag (de_read E) (ds_stream ds) = (False, dt, s)"
  shows "dt_eof dt \<longleftrightarrow> tag_varint E ds = Some 0"
proof -
  obtain r eof s1 where e: "pb_decode_varint32_eof (de_read E) (ds_stream ds) = (r, eof, s1)" by (metis surj_pair)
  have "\<not> eof"
    using e readbyte_buffer [OF assms(1,2), of "de_read E"] by (auto simp: pb_decode_varint32_eof_def split: prod.splits option.splits if_splits)
  then show ?thesis
    using assms(3) e by (auto simp: pb_decode_tag_def tag_varint_def pb_decode_varint32_def split: option.splits if_splits)
qed

text \<open>The last round: the loop is left with success exactly at the end of the message, and then only the stream has moved.\<close>

lemma decode_step_last:
  assumes buf: "is_buffer (is_source (ds_stream ds))" and st: "decode_step frame E L ds = Some (Inr (fin, ds'))"
  shows "fin \<longleftrightarrow> message_end E ds" "fin \<Longrightarrow> \<exists>s. ds' = ds\<lparr>ds_stream := s\<rparr>"
proof -
  obtain ok dt s1 where tag: "pb_decode_tag (de_read E) (ds_stream ds) = (ok, dt, s1)" by (cases "pb_decode_tag (de_read E) (ds_stream ds)")
  show "fin \<longleftrightarrow> message_end E ds"
  proof (cases "is_bytes_left (ds_stream ds) = 0")
    case False
    then have "ok \<Longrightarrow> \<not> fin" "\<not> ok \<Longrightarrow> fin \<longleftrightarrow> dt_eof dt"
      using st tag by (auto simp: decode_step_def Let_def bind_eq_Some_conv split: if_splits bool.splits prod.splits)
    then show ?thesis using False tag decode_tag_Some(2) [of E ds dt s1] decode_tag_None [OF buf False, of E dt s1] by (cases ok) (simp_all add: message_end_def)
  qed (use st in \<open>simp add: decode_step_def message_end_def\<close>)
  show "\<exists>s. ds' = ds\<lparr>ds_stream := s\<rparr>" if fin
    using st that
    by (auto simp: decode_step_def Let_def bind_eq_Some_conv split: if_splits prod.splits bool.splits intro: exI [of _ "ds_stream ds"])
qed

lemma c_loop_run:
  assumes "c_loop (decode_step frame E L) ds0 = Some b"
  shows "\<exists>tags ds. decode_run frame E L ds0 tags ds \<and> decode_step frame E L ds = Some (Inr b)"
proof -
  have "\<exists>tags ds. decode_run frame E L ds0 tags ds \<and> decode_step frame E L ds = Some (Inr b')"
    if "decode_step frame E L ds = Some (Inr b')" "\<exists>tags. decode_run frame E L ds0 tags ds" for ds b'
    using that by blast
  with assms show ?thesis
    by (rule_tac c_loop_partial [where I = "\<lambda>ds. \<exists>tags. decode_run frame E L ds0 tags ds" and s = ds0 and body = "decode_step frame E L"])
       (auto intro: decode_run.intros split: sum.split)
qed

lemma find_walk:
  assumes "on_walk flds dest frame it" "pb_field_iter_find it tag = Some (found, it')"
  shows "on_walk flds dest frame it'" "found \<Longrightarrow> pf_tag (it_field it') = tag \<and> PB_LTYPE (pf_type (it_field it')) \<noteq> 0x09"
    "\<not> found \<Longrightarrow> \<forall>f \<in> set flds. \<not> (pf_tag f = tag \<and> PB_LTYPE (pf_type f) \<noteq> 0x09)"
  using iter_search_walk [OF assms(1), of "\<lambda>f. pf_tag f = tag \<and> PB_LTYPE (pf_type f) \<noteq> 0x09"] assms(2)
  unfolding pb_field_iter_find_def by auto

lemma release_union_walk:
  assumes it: "on_walk flds dest frame it" and u: "pb_release_union_field L it hp s = Some (ok, it', hp', s')"
  shows "on_walk flds dest frame it'"
proof -
  define old where "old = (of_nat (read_size (hp_mem hp) (it_pSize it)) :: u32)"
  show ?thesis
  proof (cases "old = 0 \<or> old = pf_tag (it_field it)")
    case True
    then show ?thesis using u it by (auto simp: pb_release_union_field_def old_def [symmetric] Let_def)
  next
    case False
    then obtain found it1 where f: "pb_field_iter_find it old = Some (found, it1)"
      using u by (auto simp: pb_release_union_field_def old_def [symmetric] Let_def bind_eq_Some_conv)
    note it1 = find_walk(1) [OF it f]
    show ?thesis
    proof (cases found)
      case True
      then obtain hp1 found2 it2 where "lv_release_single_field L it1 hp = Some hp1" "pb_field_iter_find it1 (pf_tag (it_field it)) = Some (found2, it2)"
        and "it' = it2"
        using u False f by (auto simp: pb_release_union_field_def old_def [symmetric] Let_def bind_eq_Some_conv split: if_splits)
      then show ?thesis using find_walk(1) [OF it1] by blast
    next
      case F: False
      then show ?thesis using u False f it1 by (auto simp: pb_release_union_field_def old_def [symmetric] Let_def)
    qed
  qed
qed

lemma decode_field_walk:
  assumes it: "on_walk flds dest frame it" and d: "decode_field E L wt it hp s = Some (ok, it', hp', s')"
  shows "on_walk flds dest frame it'"
proof (cases "PB_HTYPE (pf_type (it_field it)) = PB_HTYPE_ONEOF")
  case True
  then obtain ok1 it1 hp1 s1 where u: "pb_release_union_field L it hp s = Some (ok1, it1, hp1, s1)"
    using d by (auto simp: decode_field_def bind_eq_Some_conv)
  then have "it' = it1" using d True by (auto simp: decode_field_def Let_def split: if_splits)
  then show ?thesis using release_union_walk [OF it u] by simp
next
  case False
  then have "it' = it" using d by (auto simp: decode_field_def Let_def split: if_splits)
  then show ?thesis using it by simp
qed

text \<open>The indices of the required fields whose numbers have been read, as far as there are bits for them.\<close>

definition indices :: "pb_field list \<Rightarrow> u32 set \<Rightarrow> nat set" where
  "indices flds ts = (\<lambda>j. length (filter required (take j flds))) ` {j. j < length flds \<and> required (flds ! j) \<and> pf_tag (flds ! j) \<in> ts} \<inter> {..<64}"

definition seen_inv :: "pb_field list \<Rightarrow> nat \<Rightarrow> nat \<Rightarrow> u32 list \<Rightarrow> 's decode_state \<Rightarrow> bool" where
  "seen_inv flds dest frame tags ds \<longleftrightarrow>
     on_walk flds dest frame (ds_iter ds) \<and> length (ds_fields_seen ds) = 2 \<and>
     (flds \<noteq> [] \<longrightarrow> seen_set (ds_fields_seen ds) = indices flds (set tags))"

lemma indices_insert:
  assumes "i < length flds" "pf_tag (flds ! i) = t" "distinct (map pf_tag flds)"
  shows "indices flds (insert t ts) =
           (if required (flds ! i) \<and> length (filter required (take i flds)) < 64
            then insert (length (filter required (take i flds))) (indices flds ts) else indices flds ts)"
proof -
  have uniq: "j = i" if "j < length flds" "pf_tag (flds ! j) = t" for j
    using nth_eq_iff_index_eq [OF assms(3), of j i] assms(1,2) that by simp
  have "{j. j < length flds \<and> required (flds ! j) \<and> pf_tag (flds ! j) \<in> insert t ts} =
      {j. j < length flds \<and> required (flds ! j) \<and> pf_tag (flds ! j) \<in> ts} \<union> (if required (flds ! i) then {i} else {})"
    using assms(1,2) by (auto dest: uniq)
  then show ?thesis unfolding indices_def by simp
qed

lemma enter_fixed_count_walk:
  assumes it: "on_walk flds dest frame (ds_iter ds)" and e: "enter_fixed_count frame ds = (ok, ds')"
  shows "on_walk flds dest frame (ds_iter ds')" "ds_fields_seen ds' = ds_fields_seen ds" "it_field (ds_iter ds') = it_field (ds_iter ds)"
    "it_required_field_index (ds_iter ds') = it_required_field_index (ds_iter ds)" "\<not> ok \<Longrightarrow> \<not> required (it_field (ds_iter ds))"
proof -
  have "on_walk flds dest frame (ds_iter ds') \<and> ds_fields_seen ds' = ds_fields_seen ds \<and> it_field (ds_iter ds') = it_field (ds_iter ds) \<and>
    it_required_field_index (ds_iter ds') = it_required_field_index (ds_iter ds) \<and> (\<not> ok \<longrightarrow> \<not> required (it_field (ds_iter ds)))"
  proof (cases "PB_HTYPE (pf_type (it_field (ds_iter ds))) = PB_HTYPE_REPEATED \<and> it_pSize (ds_iter ds) = it_pData (ds_iter ds)")
    case True
    have "on_walk flds dest frame ((ds_iter ds)\<lparr>it_pSize := frame\<rparr>)" using it True by (auto simp: on_walk_def simp del: iter_at.simps)
    then show ?thesis using e True it
      by (auto simp: enter_fixed_count_def Let_def PB_HTYPE_REPEATED_def PB_HTYPE_REQUIRED_def split: if_splits)
  next
    case False
    then have "ds' = ds" "ok" using e by (auto simp: enter_fixed_count_def Let_def)
    then show ?thesis using it by simp
  qed
  then show "on_walk flds dest frame (ds_iter ds')" "ds_fields_seen ds' = ds_fields_seen ds" "it_field (ds_iter ds') = it_field (ds_iter ds)"
    "it_required_field_index (ds_iter ds') = it_required_field_index (ds_iter ds)" "\<not> ok \<Longrightarrow> \<not> required (it_field (ds_iter ds))" by auto
qed

lemma known_field_seen:
  assumes flds: "flds \<noteq> [] \<Longrightarrow> distinct (map pf_tag flds)"
    and inv: "seen_inv flds dest frame tags ds" and k: "known_field frame E L wt ds = Some (ok, ds')"
    and t: "pf_tag (it_field (ds_iter ds)) = t"
  shows "seen_inv flds dest frame (tags @ [t]) ds'"
proof -
  obtain ok1 ds1 where e: "enter_fixed_count frame ds = (ok1, ds1)" by (cases "enter_fixed_count frame ds")
  have w: "on_walk flds dest frame (ds_iter ds)" using inv by (simp add: seen_inv_def)
  note inv1 = enter_fixed_count_walk [OF w e]
  define seen where "seen = (if required (it_field (ds_iter ds)) \<and> it_required_field_index (ds_iter ds) < 64
      then see_field (it_required_field_index (ds_iter ds)) (ds_fields_seen ds) else ds_fields_seen ds)"
  have seen: "length seen = 2" "flds \<noteq> [] \<longrightarrow> seen_set seen = indices flds (set (tags @ [t]))"
  proof -
    show "length seen = 2" using inv by (simp add: seen_def seen_inv_def seen_set_see_field(2))
    show "flds \<noteq> [] \<longrightarrow> seen_set seen = indices flds (set (tags @ [t]))"
    proof
      assume ne: "flds \<noteq> []"
      obtain i where i: "i < length flds" "it_field (ds_iter ds) = flds ! i" "it_required_field_index (ds_iter ds) = it_required_field_index (iter_at flds dest i)"
        using on_walk_cases [OF w ne] by metis
      then show "seen_set seen = indices flds (set (tags @ [t]))"
        using inv t ne indices_insert [OF i(1) _ flds [OF ne], of t "set tags"]
        by (auto simp: seen_def seen_inv_def required_index_at seen_set_see_field(1) simp del: iter_at.simps)
    qed
  qed
  show ?thesis
  proof (cases ok1)
    case True
    then obtain it2 hp2 s2 where d: "decode_field E L wt (ds_iter ds1) (ds_heap ds1) (ds_stream ds1) = Some (ok, it2, hp2, s2)"
      and ds': "ds' = ds1\<lparr>ds_iter := it2, ds_fields_seen := seen, ds_heap := hp2, ds_stream := s2\<rparr>"
      using k e inv1 by (auto simp: known_field_def Let_def seen_def PB_MAX_REQUIRED_FIELDS_def)
    show ?thesis using decode_field_walk [OF inv1(1) d] seen by (simp add: seen_inv_def ds')
  next
    case False
    then have "ds' = ds1" "seen = ds_fields_seen ds" using k e inv1(5) by (auto simp: known_field_def seen_def)
    then show ?thesis using inv1 seen by (simp add: seen_inv_def)
  qed
qed

lemma unknown_field_seen:
  assumes inv: "seen_inv flds dest frame tags ds" and u: "unknown_field E L dt ds = Some (ok, ds')"
  shows "on_walk flds dest frame (ds_iter ds') \<and> ds_fields_seen ds' = ds_fields_seen ds"
proof -
  have w: "on_walk flds dest frame (ds_iter ds)" using inv by (simp add: seen_inv_def)
  obtain found it1 where f: "find_extension_field (ds_iter ds) = Some (found, it1)" "on_walk flds dest frame it1"
    using iter_search_walk [OF w] unfolding find_extension_field_def by blast
  show ?thesis using u f w
    by (auto simp: unknown_field_def Let_def bind_eq_Some_conv split: if_splits prod.splits)
qed

lemma decode_step_seen:
  assumes flds: "flds \<noteq> [] \<Longrightarrow> distinct (map pf_tag flds)" "\<And>f. f \<in> set flds \<Longrightarrow> required f \<Longrightarrow> PB_LTYPE (pf_type f) \<noteq> 0x09"
    and inv: "seen_inv flds dest frame tags ds" and st: "decode_step frame E L ds = Some (Inl ds')"
  shows "seen_inv flds dest frame (tags @ [next_tag E ds]) ds'"
proof -
  obtain ok dt s1 where tag: "pb_decode_tag (de_read E) (ds_stream ds) = (ok, dt, s1)" by (cases "pb_decode_tag (de_read E) (ds_stream ds)")
  have ok: "is_bytes_left (ds_stream ds) \<noteq> 0" "ok" using st tag by (auto simp: decode_step_def split: if_splits bool.splits)
  have t: "next_tag E ds = dt_tag dt" by (rule decode_tag_Some(1)) (use tag ok(2) in simp)
  obtain found it1 where f: "pb_field_iter_find (ds_iter ds) (dt_tag dt) = Some (found, it1)"
    using st tag ok by (auto simp: decode_step_def bind_eq_Some_conv)
  have w: "on_walk flds dest frame (ds_iter ds)" using inv by (simp add: seen_inv_def)
  note find = find_walk [OF w f]
  let ?ds = "ds\<lparr>ds_iter := it1, ds_stream := s1\<rparr>"
  have inv1: "seen_inv flds dest frame tags ?ds" using inv find(1) by (simp add: seen_inv_def)
  have r: "(if found then known_field frame E L (dt_wire_type dt) ?ds else unknown_field E L dt ?ds) = Some (True, ds')"
    using st tag ok f by (auto simp: decode_step_def Let_def split: if_splits)
  show ?thesis
  proof (cases found)
    case True
    then show ?thesis using r find(2) known_field_seen [OF flds(1) inv1, of E L "dt_wire_type dt" True ds' "dt_tag dt"] t by simp
  next
    case False
    then have "\<not> (required f \<and> pf_tag f = dt_tag dt)" if "f \<in> set flds" for f using find(3) flds(2) that by blast
    then have "indices flds (set (tags @ [dt_tag dt])) = indices flds (set tags)" by (auto simp: indices_def)
    then show ?thesis using r False unknown_field_seen [OF inv1, of E L dt True ds'] inv1 t by (simp add: seen_inv_def)
  qed
qed

lemma run_seen:
  assumes flds: "flds \<noteq> [] \<Longrightarrow> distinct (map pf_tag flds)" "\<And>f. f \<in> set flds \<Longrightarrow> required f \<Longrightarrow> PB_LTYPE (pf_type f) \<noteq> 0x09"
    and run: "decode_run frame E L ds0 tags ds" and start: "seen_inv flds dest frame [] ds0"
  shows "seen_inv flds dest frame tags ds"
  using run
proof induction
  case run_start
  show ?case by (rule start)
next
  case (run_step tags ds ds')
  from flds run_step(3,2) show ?case by (rule decode_step_seen)
qed

lemma required_positions:
  "(\<lambda>j. length (filter required (take j flds))) ` {j. j < length flds \<and> required (flds ! j) \<and> pf_tag (flds ! j) \<in> ts} =
     {k. k < length (filter required flds) \<and> pf_tag (filter required flds ! k) \<in> ts}"
proof (induction flds rule: rev_induct)
  case (snoc f flds)
  have "{j. j < length (flds @ [f]) \<and> required ((flds @ [f]) ! j) \<and> pf_tag ((flds @ [f]) ! j) \<in> ts} =
      {j. j < length flds \<and> required (flds ! j) \<and> pf_tag (flds ! j) \<in> ts} \<union> (if required f \<and> pf_tag f \<in> ts then {length flds} else {})"
    by (auto simp: nth_append less_Suc_eq)
  moreover have "(\<lambda>j. length (filter required (take j (flds @ [f])))) ` {j. j < length flds \<and> required (flds ! j) \<and> pf_tag (flds ! j) \<in> ts} =
      {k. k < length (filter required flds) \<and> pf_tag (filter required flds ! k) \<in> ts}"
    unfolding snoc [symmetric] by (intro image_cong refl) simp
  moreover have "{k. k < length (filter required (flds @ [f])) \<and> pf_tag (filter required (flds @ [f]) ! k) \<in> ts} =
      {k. k < length (filter required flds) \<and> pf_tag (filter required flds ! k) \<in> ts} \<union> (if required f \<and> pf_tag f \<in> ts then {length (filter required flds)} else {})"
    by (auto simp: nth_append less_Suc_eq)
  ultimately show ?case by (simp add: image_Un)
qed simp

lemma all_required_seen:
  "{0..<min (length (filter required flds)) 64} \<subseteq> indices flds ts \<longleftrightarrow> (\<forall>f \<in> set (take 64 (filter required flds)). pf_tag f \<in> ts)"
  unfolding indices_def required_positions all_set_conv_all_nth by auto

lemma seen_required:
  assumes inv: "seen_inv flds dest frame tags ds"
  shows "required_present (ds_fields_seen ds) (req_field_count (ds_iter ds)) \<longleftrightarrow> (\<forall>f \<in> set (take 64 (filter required flds)). pf_tag f \<in> set tags)"
proof -
  have count: "req_field_count (ds_iter ds) = min (length (filter required flds)) 64"
    using inv req_field_count_walk by (auto simp: seen_inv_def PB_MAX_REQUIRED_FIELDS_def)
  show ?thesis
  proof (cases "flds = []")
    case False
    have "k < min (length (filter required flds)) 64" if "k \<in> indices flds (set tags)" for k
      using that unfolding indices_def required_positions by auto
    then show ?thesis using inv False required_present_iff [of "ds_fields_seen ds" "min (length (filter required flds)) 64"]
        all_required_seen [of flds "set tags"]
      by (auto simp: seen_inv_def count)
  qed (simp add: count required_present_def)
qed

lemma seen_start:
  assumes "ds_iter ds = snd (pb_field_iter_begin flds dest)" "ds_fields_seen ds = [0, 0]"
  shows "seen_inv flds dest frame [] ds"
proof -
  have "on_walk flds dest frame (ds_iter ds)" unfolding on_walk_def by (intro exI [of _ 0]) (simp add: assms)
  then show ?thesis using assms by (auto simp: seen_inv_def seen_set_def indices_def nth_Cons split: nat.splits)
qed

text \<open>The state of \<open>pb_decode_noinit\<close> in front of its loop.\<close>

definition decode_start :: "nat \<Rightarrow> pb_field list \<Rightarrow> nat \<Rightarrow> heap \<Rightarrow> 's pb_istream \<Rightarrow> 's decode_state" where
  "decode_start frame flds dest hp s =
     \<lparr>ds_iter = snd (pb_field_iter_begin flds dest), ds_fields_seen = [0, 0], ds_extension_range_start = 0,
      ds_fixed_count_field = None, ds_heap = store_size frame 0 hp, ds_stream = s\<rparr>"

lemma run_inv:
  fixes E :: "'s pb_denv"
  assumes fits: "fits (Suc n) E UNIV flds dest" and buf: "is_buffer (is_source s)"
    and run: "decode_run (de_frame E (Suc n)) E (level_below n E (pb_decode_noinit n E)) (decode_start (de_frame E (Suc n)) flds dest hp s) tags ds"
  shows "safe_level.decode_inv UNIV flds dest (de_frame E (Suc n)) hp s ds"
  using run
proof induction
  case run_start
  have "on_walk flds dest (de_frame E (Suc n)) (snd (pb_field_iter_begin flds dest))" unfolding on_walk_def by (intro exI [of _ 0]) simp
  then show ?case using buf by (simp add: decoder_level.decode_inv_def decode_start_def istream_inside_refl)
next
  case (run_step tags ds ds')
  have "\<And>i. i < max 1 (length flds) \<Longrightarrow> field_fits (fits n E UNIV) E UNIV (iter_at flds dest i)" using fits by (simp del: iter_at.simps)
  from decoder_level.decode_step_safe [OF this _ run_step.IH] run_step.hyps(2) show ?case by simp
qed


text \<open>Facts that evaluate the decoder on a buffer whose bytes are given.\<close>

lemmas decode_eval = decode_message_def decode_step_def decode_end_def c_loop.simps iterations.simps Let_def
  fixed_count_unfinished_def required_present_def req_field_count_def see_field_def PB_MAX_REQUIRED_FIELDS_def
  pb_field_iter_begin_def pb_field_iter_next_def pb_field_iter_find_def iter_search_def it_field_def field_type_simps addr_add_def
  pb_decode_tag_def pb_decode_varint32_def pb_decode_varint32_eof_def pb_readbyte_at
  known_field_def enter_fixed_count_def decode_field_def decode_static_field_def lv_func_def pb_decoder_def dec_bytes_of_def pb_dec_bool_def mem_write_def

text \<open>The submessage of \<open>safe_fields\<close>, a required boolean.\<close>

lemma noinit_example:
  "pb_decode_noinit (Suc 0) safe_env (safe_fields 3) 25 hp (pb_istream_from_buffer [0x08, 0x01] 2) =
     Some (True, heap_store 25 [1] (store_size 1004 0 hp), istream_at [] 0 None)"
  unfolding pb_istream_from_buffer_at numeral_2_eq_2 by (simp add: decode_eval safe_nth) (simp add: safe_env_def)

text \<open>One round on the same input, a round on a zero tag, and both: the zero ends the message, and the byte behind it stays in the stream.\<close>

lemma step_example:
  "decode_step 1004 safe_env L \<lparr>ds_iter = snd (pb_field_iter_begin (safe_fields 3) 25), ds_fields_seen = [0, 0], ds_extension_range_start = 0,
           ds_fixed_count_field = None, ds_heap = hp, ds_stream = istream_at (0x08 # 0x01 # bs) (Suc (Suc k)) None\<rparr> =
  Some (Inl \<lparr>ds_iter = snd (pb_field_iter_begin (safe_fields 3) 25), ds_fields_seen = [1, 0], ds_extension_range_start = 0,
           ds_fixed_count_field = None, ds_heap = heap_store 25 [1] hp, ds_stream = istream_at bs k None\<rparr>)"
  by (simp add: decode_eval safe_nth)

lemma decode_step_zero:
  "decode_step frame E L (ds\<lparr>ds_stream := istream_at (0x00 # bs) (Suc k) None\<rparr>) =
  Some (Inr (True, ds\<lparr>ds_stream := istream_at bs k None\<rparr>))"
  by (simp add: decode_step_def pb_decode_tag_def pb_decode_varint32_eof_def pb_readbyte_at)

lemma noinit_zero_tag:
  "pb_decode_noinit (Suc 0) safe_env (safe_fields 3) 25 hp (pb_istream_from_buffer [0x08, 0x01, 0x00, 0xFF] 4) =
     Some (True, heap_store 25 [1] (store_size 1004 0 hp), istream_at [0xFF] (Suc 0) None)"
proof -
  let ?L = "level_below 0 safe_env (pb_decode_noinit 0 safe_env)" and ?it = "snd (pb_field_iter_begin (safe_fields 3) 25)"
  define ds where "ds seen h s = \<lparr>ds_iter = ?it, ds_fields_seen = seen, ds_extension_range_start = 0,
           ds_fixed_count_field = None, ds_heap = h, ds_stream = s\<rparr>" for seen :: "u32 list" and h :: heap and s :: "unit pb_istream"
  let ?hp = "store_size 1004 0 hp"
  have 1: "decode_step 1004 safe_env ?L (ds [0, 0] ?hp (istream_at [0x08, 0x01, 0x00, 0xFF] (Suc (Suc (Suc (Suc 0)))) None)) =
      Some (Inl (ds [1, 0] (heap_store 25 [1] ?hp) (istream_at [0x00, 0xFF] (Suc (Suc 0)) None)))" unfolding ds_def by (rule step_example)
  have 2: "decode_step 1004 safe_env ?L (ds seen h (istream_at [0x00, 0xFF] (Suc (Suc 0)) None)) = Some (Inr (True, ds seen h (istream_at [0xFF] (Suc 0) None)))" for seen h
    using decode_step_zero [where ds = "ds seen h undefined" and bs = "[0xFF]" and k = "Suc 0"] by (simp add: ds_def)
  have 3: "decode_end 1004 (ds [1, 0] h s) = (True, h, s)" for h s
    by (simp add: ds_def decode_eval safe_nth)
  have "(pb_istream_from_buffer [0x08, 0x01, 0x00, 0xFF] 4 :: unit pb_istream) = istream_at [0x08, 0x01, 0x00, 0xFF] (Suc (Suc (Suc (Suc 0)))) None"
    by (simp add: pb_istream_from_buffer_at)
  moreover have "de_frame safe_env (Suc 0) = 1004" by (simp add: safe_env_def)
  ultimately show ?thesis
    by (simp add: decode_message_def ds_def [symmetric] c_loop.simps [of _ "ds seen h s" for seen h s] 1 2 3)
qed


subsection \<open>Writes outside of a structure\<close>

text \<open>
  A message type without fields accepts a field with number 0, which no message may have: \<open>pb_field_iter_find\<close> finds the
  terminator of the descriptor array, whose type reads as a required boolean, and a byte is stored in the
  structure, which has none. With \<open>fits\<close>, an empty message type has to own this byte.
\<close>

lemma pb_decode_empty_message_type:
  assumes "0 < dest" "dest < 2 ^ 64"
  shows "pb_decode (Suc 0) E [] dest hp (pb_istream_from_buffer [0x05, 0x01] 2) =
     Some (True, heap_store dest [1] (store_size (de_frame E 1) 0 hp), istream_at [] 0 None)"
proof -
  have buf: "pb_istream_from_buffer [0x05, 0x01] 2 = istream_at [0x05, 0x01] (Suc (Suc 0)) None" by (simp add: pb_istream_from_buffer_at)
  have "size_add dest 0 = dest" using assms(2) by (simp add: size_add_def)
  then show ?thesis
    unfolding buf using assms(1) by (simp add: decode_eval pb_decode_def decode_init_def pb_message_set_to_defaults_def message_iters_def PB_LAST_FIELD_def)
qed

text \<open>
  An array of two booleans with a fixed count, which has no counter: its \<open>pSize\<close> is its \<open>pData\<close>. Setting the count to
  0 stores four bytes in the array, and past its end.
\<close>

definition flag_pair :: pb_field where
  "flag_pair = \<lparr>pf_tag = 1, pf_type = 0x20, pf_data_offset = 0, pf_size_offset = 0, pf_data_size = 1, pf_array_size = 2, pf_ptr = None\<rparr>"

lemma set_to_defaults_past_array:
  "pb_message_set_to_defaults (Suc 0) E [flag_pair] 16 \<lparr>hp_mem = (\<lambda>_. 7), hp_blocks = (\<lambda>_. None)\<rparr> =
     Some \<lparr>hp_mem = (\<lambda>a. if a \<in> {16..<20} then 0 else 7), hp_blocks = (\<lambda>_. None)\<rparr>"
proof -
  have z: "le_bytes 4 0 = [0, 0, 0, 0 :: byte]" by (simp add: le_bytes_def numeral_eq_Suc)
  show ?thesis
  by (auto simp: pb_message_set_to_defaults_def message_iters_at pb_field_iter_begin_def Let_def flag_pair_def set_field_to_default_def
   it_field_def field_type_simps addr_add_def store_size_def heap_store_def z size_add_def fun_eq_iff)
qed

end
