(* ===== verification/PbRoundtrip.thy ===== *)
theory PbRoundtrip
  imports PbRequired
begin

text \<open>
  Encoder and decoder of nanopb together: what \<open>pb_encode\<close> writes for a structure in memory, \<open>pb_decode\<close> turns into a copy of
  it. \<open>struct_layout\<close> says that the fields of a structure do not overlap, \<open>copied\<close> compares two structures field by field,
  \<open>cleared\<close> is the state of a structure after \<open>pb_message_set_to_defaults\<close>. The locale \<open>reading_level\<close> is what the decoder of a
  message relies on for the messages inside it; it is interpreted for every level of nesting.
\<close>

section \<open>Round trip of messages\<close>

subsection \<open>Memory without wrap-around\<close>

lemma size_add_1: "q + Suc n \<le> 2 ^ 64 \<Longrightarrow> n = 0 \<or> size_add q 1 = Suc q"
  by (cases n) simp_all

lemma mem_read_upt: "q + n \<le> 2 ^ 64 \<Longrightarrow> mem_read mem q n = map mem [q..<q + n]"
proof (induction n arbitrary: q)
  case (Suc n)
  have "n = 0 \<or> size_add q 1 = Suc q" using Suc(2) by (rule size_add_1)
  moreover have "[q..<q + Suc n] = q # [Suc q..<Suc q + n]" by (subst upt_conv_Cons) simp_all
  ultimately show ?case using Suc(1) [of "Suc q"] Suc(2) by auto
qed simp

lemma mem_put_apply:
  "q + length bs \<le> 2 ^ 64 \<Longrightarrow> mem_put mem q bs a = (if q \<le> a \<and> a < q + length bs then bs ! (a - q) else mem a)"
proof (induction bs arbitrary: mem q)
  case (Cons b bs)
  then have "size_add q 1 = Suc q \<or> bs = []" by (cases bs) simp_all
  moreover have "a - q = Suc (a - Suc q)" if "Suc q \<le> a" using that by simp
  ultimately show ?case using Cons by (cases "a = q") auto
qed auto

lemma mem_read_store: "q + length bs \<le> 2 ^ 64 \<Longrightarrow> mem_read (mem_put mem q bs) q (length bs) = bs"
  by (auto simp: mem_read_upt mem_put_apply intro: nth_equalityI)

lemma mem_read_cong: "q + n \<le> 2 ^ 64 \<Longrightarrow> (\<And>a. q \<le> a \<Longrightarrow> a < q + n \<Longrightarrow> m a = m' a) \<Longrightarrow> mem_read m q n = mem_read m' q n"
  by (simp add: mem_read_upt)

lemma within_upt: "q + n \<le> 2 ^ 64 \<Longrightarrow> {q..<q + n} \<subseteq> R \<Longrightarrow> within R q n"
proof (induction n arbitrary: q)
  case (Suc n)
  have "n = 0 \<or> size_add q 1 = Suc q" using Suc(2) by (rule size_add_1)
  moreover have "{Suc q..<Suc q + n} \<subseteq> R" "q \<in> R" using Suc(3) by (auto simp: subset_iff)
  ultimately show ?case using Suc(1) [of "Suc q"] Suc(2) by auto
qed simp

subsection \<open>Structures and their copies\<close>

text \<open>
  Required fields, and optional fields with a flag, in static storage: booleans, integers of every width and
  encoding, strings, byte arrays, bytes of a fixed length, and messages.
\<close>

definition plain_field :: "pb_field \<Rightarrow> bool" where
  "plain_field f \<longleftrightarrow>
     (let t = PB_LTYPE (pf_type f); h = PB_HTYPE (pf_type f); n = pf_data_size f
      in PB_ATYPE (pf_type f) = PB_ATYPE_STATIC \<and> (h = PB_HTYPE_REQUIRED \<or> h = PB_HTYPE_OPTIONAL \<and> pf_size_offset f \<noteq> 0) \<and>
         0 < unat (pf_tag f) \<and> unat (pf_tag f) < 2 ^ 29 \<and>
         (t = 0x00 \<and> n = 1 \<or> t \<in> {0x01, 0x02, 0x03} \<and> n \<in> {1, 2, 4, 8} \<or> t = 0x04 \<and> n = 4 \<or> t = 0x05 \<and> n = 8 \<or>
          t = 0x06 \<and> 4 \<le> n \<and> n < 2 ^ 32 \<or> t = 0x07 \<and> n < 2 ^ 32 \<or> t = 0x0A \<and> n < 2 ^ 32 \<or> t = 0x08 \<and> pf_ptr f \<noteq> None))"

abbreviation optional :: "pb_field \<Rightarrow> bool" where
  "optional f \<equiv> PB_HTYPE (pf_type f) = PB_HTYPE_OPTIONAL"

abbreviation data_at :: "pb_field list \<Rightarrow> nat \<Rightarrow> nat \<Rightarrow> nat" where
  "data_at flds dest i \<equiv> it_pData (iter_at flds dest i)"

abbreviation flag_at :: "pb_field list \<Rightarrow> nat \<Rightarrow> nat \<Rightarrow> nat" where
  "flag_at flds dest i \<equiv> it_pSize (iter_at flds dest i)"

definition data_slot :: "pb_field list \<Rightarrow> nat \<Rightarrow> nat \<Rightarrow> nat set" where
  "data_slot flds dest i = {data_at flds dest i..<data_at flds dest i + pf_data_size (flds ! i)}"

definition slot :: "pb_field list \<Rightarrow> nat \<Rightarrow> nat \<Rightarrow> nat set" where
  "slot flds dest i = data_slot flds dest i \<union> (if optional (flds ! i) then {flag_at flds dest i} else {})"

definition region :: "pb_field list \<Rightarrow> nat \<Rightarrow> nat set" where
  "region flds dest = (\<Union>i\<in>{0..<length flds}. slot flds dest i)"

text \<open>
  A structure at \<open>dest\<close> whose fields do not overlap, with the structures of submessages in the storage of
  their fields.
\<close>

primrec struct_layout :: "nat \<Rightarrow> 's pb_denv \<Rightarrow> pb_field list \<Rightarrow> nat \<Rightarrow> bool" where
  "struct_layout 0 E flds dest \<longleftrightarrow> False"
| "struct_layout (Suc n) E flds dest \<longleftrightarrow>
     flds \<noteq> [] \<and> distinct (map pf_tag flds) \<and>
     (\<forall>i\<in>{0..<length flds}.
        plain_field (flds ! i) \<and> data_at flds dest i + pf_data_size (flds ! i) \<le> 2 ^ 64 \<and>
        (optional (flds ! i) \<longrightarrow> flag_at flds dest i \<notin> data_slot flds dest i \<and> flag_at flds dest i \<noteq> data_at flds dest i) \<and>
        (PB_LTYPE (pf_type (flds ! i)) = 0x08 \<longrightarrow>
           struct_layout n E (sub_fields E (flds ! i)) (data_at flds dest i) \<and>
           region (sub_fields E (flds ! i)) (data_at flds dest i) \<subseteq> data_slot flds dest i)) \<and>
     (\<forall>i\<in>{0..<length flds}. \<forall>j\<in>{0..<length flds}. i \<noteq> j \<longrightarrow> slot flds dest i \<inter> slot flds dest j = {})"

text \<open>
  The structure at \<open>dest\<close> in \<open>mem'\<close> is a copy of that at \<open>src\<close> in \<open>mem\<close>, field by field; booleans and flags are 0 or 1 in it.
\<close>

definition absent :: "memory \<Rightarrow> pb_field \<Rightarrow> nat \<Rightarrow> bool" where
  "absent mem f p \<longleftrightarrow> optional f \<and> mem (addr_add p (pf_size_offset f)) = 0"

text \<open>The bytes that hold the value at \<open>p\<close>: a string up to its terminator, a byte array with its size.\<close>

definition stored :: "pb_field \<Rightarrow> memory \<Rightarrow> nat \<Rightarrow> byte list" where
  "stored f mem p =
     (let t = PB_LTYPE (pf_type f)
      in if t = 0x00 then [if mem p \<noteq> 0 then 1 else 0]
         else if t = 0x06 then mem_read mem p (4 + read_size mem p)
         else if t = 0x07 then string_at mem f p @ [0]
         else mem_read mem p (pf_data_size f))"

definition value_copied :: "(pb_field list \<Rightarrow> nat \<Rightarrow> nat \<Rightarrow> bool) \<Rightarrow> 's pb_denv \<Rightarrow> pb_field \<Rightarrow> memory \<Rightarrow> nat \<Rightarrow> memory \<Rightarrow> nat \<Rightarrow> bool" where
  "value_copied sub E f mem p mem' q \<longleftrightarrow>
     (if PB_LTYPE (pf_type f) = 0x08 then sub (sub_fields E f) p q
      else length (stored f mem p) \<le> pf_data_size f \<and> mem_read mem' q (length (stored f mem p)) = stored f mem p)"

text \<open>
  A string in static storage has a terminator within it. (Without one, the encoder writes all of the storage and
  the decoder, which needs room for a terminator, refuses the result.)
\<close>

definition value_sound :: "(pb_field list \<Rightarrow> nat \<Rightarrow> bool) \<Rightarrow> 's pb_denv \<Rightarrow> memory \<Rightarrow> pb_field \<Rightarrow> nat \<Rightarrow> bool" where
  "value_sound sub E mem f p \<longleftrightarrow>
     (let t = PB_LTYPE (pf_type f)
      in (t = 0x06 \<or> t = 0x07 \<longrightarrow> p \<noteq> 0) \<and> (t = 0x07 \<longrightarrow> c_strnlen mem (pf_data_size f) p < pf_data_size f) \<and> (t = 0x08 \<longrightarrow> sub (sub_fields E f) p))"

primrec sound :: "nat \<Rightarrow> 's pb_denv \<Rightarrow> memory \<Rightarrow> pb_field list \<Rightarrow> nat \<Rightarrow> bool" where
  "sound 0 E mem flds src \<longleftrightarrow> False"
| "sound (Suc n) E mem flds src \<longleftrightarrow>
     (\<forall>i\<in>{0..<length flds}. absent mem (flds ! i) (data_at flds src i) \<or> value_sound (sound n E mem) E mem (flds ! i) (data_at flds src i))"

definition field_copied ::
    "(pb_field list \<Rightarrow> nat \<Rightarrow> nat \<Rightarrow> bool) \<Rightarrow> 's pb_denv \<Rightarrow> memory \<Rightarrow> memory \<Rightarrow> pb_field list \<Rightarrow> nat \<Rightarrow> nat \<Rightarrow> nat \<Rightarrow> bool" where
  "field_copied sub E mem mem' flds src dest i \<longleftrightarrow>
     (let f = flds ! i; p = data_at flds src i
      in (optional f \<longrightarrow> mem' (flag_at flds dest i) = (if absent mem f p then 0 else 1)) \<and>
         (absent mem f p \<or> value_copied sub E f mem p mem' (data_at flds dest i)))"

primrec copied :: "nat \<Rightarrow> 's pb_denv \<Rightarrow> memory \<Rightarrow> memory \<Rightarrow> pb_field list \<Rightarrow> nat \<Rightarrow> nat \<Rightarrow> bool" where
  "copied 0 E mem mem' flds src dest \<longleftrightarrow> False"
| "copied (Suc n) E mem mem' flds src dest \<longleftrightarrow> (\<forall>i\<in>{0..<length flds}. field_copied (copied n E mem mem') E mem mem' flds src dest i)"

text \<open>No optional field is present.\<close>

definition field_cleared :: "(pb_field list \<Rightarrow> nat \<Rightarrow> bool) \<Rightarrow> 's pb_denv \<Rightarrow> memory \<Rightarrow> pb_field list \<Rightarrow> nat \<Rightarrow> nat \<Rightarrow> bool" where
  "field_cleared sub E mem flds dest i \<longleftrightarrow>
     (optional (flds ! i) \<longrightarrow> mem (flag_at flds dest i) = 0) \<and>
     (PB_LTYPE (pf_type (flds ! i)) = 0x08 \<longrightarrow> sub (sub_fields E (flds ! i)) (data_at flds dest i))"

primrec cleared :: "nat \<Rightarrow> 's pb_denv \<Rightarrow> memory \<Rightarrow> pb_field list \<Rightarrow> nat \<Rightarrow> bool" where
  "cleared 0 E mem flds dest \<longleftrightarrow> False"
| "cleared (Suc n) E mem flds dest \<longleftrightarrow> (\<forall>i\<in>{0..<length flds}. field_cleared (cleared n E mem) E mem flds dest i)"

lemma slot_region: "i < length flds \<Longrightarrow> slot flds dest i \<subseteq> region flds dest"
  by (auto simp: region_def)

lemma data_slot_region: "i < length flds \<Longrightarrow> data_slot flds dest i \<subseteq> region flds dest"
  by (auto simp: region_def slot_def)

lemma flag_region: "i < length flds \<Longrightarrow> optional (flds ! i) \<Longrightarrow> flag_at flds dest i \<in> region flds dest"
  by (auto simp: region_def slot_def)

lemma layoutD:
  assumes "struct_layout (Suc n) E flds dest" "i < length flds"
  shows "plain_field (flds ! i)" "data_at flds dest i + pf_data_size (flds ! i) \<le> 2 ^ 64"
    "optional (flds ! i) \<Longrightarrow> flag_at flds dest i \<notin> data_slot flds dest i" "optional (flds ! i) \<Longrightarrow> flag_at flds dest i \<noteq> data_at flds dest i"
    "PB_LTYPE (pf_type (flds ! i)) = 0x08 \<Longrightarrow> struct_layout n E (sub_fields E (flds ! i)) (data_at flds dest i)"
    "PB_LTYPE (pf_type (flds ! i)) = 0x08 \<Longrightarrow> region (sub_fields E (flds ! i)) (data_at flds dest i) \<subseteq> data_slot flds dest i"
    "j < length flds \<Longrightarrow> i \<noteq> j \<Longrightarrow> slot flds dest i \<inter> slot flds dest j = {}"
  using assms by (simp_all del: iter_at.simps power_numeral)

lemma layout_tags: "struct_layout n E flds dest \<Longrightarrow> flds \<noteq> [] \<and> distinct (map pf_tag flds)"
  by (cases n) simp_all

lemma plain_no_extension: "plain_field f \<Longrightarrow> PB_LTYPE (pf_type f) \<noteq> 0x09"
  by (auto simp: plain_field_def Let_def)

text \<open>Both depend only on the storage of the structure, and of a field on its slot.\<close>

lemma sub_region_slot:
  "struct_layout (Suc n) E flds dest \<Longrightarrow> i < length flds \<Longrightarrow> PB_LTYPE (pf_type (flds ! i)) = 0x08 \<Longrightarrow>
     region (sub_fields E (flds ! i)) (data_at flds dest i) \<subseteq> slot flds dest i"
  using layoutD(6) by (auto simp: slot_def)

lemma field_cleared_cong:
  assumes l: "struct_layout (Suc n) E flds dest" "i < length flds"
    and sub: "\<And>flds d. struct_layout n E flds d \<Longrightarrow> (\<And>a. a \<in> region flds d \<Longrightarrow> m' a = m a) \<Longrightarrow> cleared n E m flds d \<Longrightarrow> cleared n E m' flds d"
    and eq: "\<And>a. a \<in> slot flds dest i \<Longrightarrow> m' a = m a"
    and c: "field_cleared (cleared n E m) E m flds dest i"
  shows "field_cleared (cleared n E m') E m' flds dest i"
proof -
  have "m' (flag_at flds dest i) = m (flag_at flds dest i)" if "optional (flds ! i)" using that by (intro eq) (simp add: slot_def)
  moreover have "cleared n E m' (sub_fields E (flds ! i)) (data_at flds dest i)" if "PB_LTYPE (pf_type (flds ! i)) = 0x08"
    using c that sub_region_slot [OF l that] by (intro sub layoutD(5) [OF l] eq) (auto simp: field_cleared_def)
  ultimately show ?thesis using c by (simp add: field_cleared_def)
qed

lemma cleared_cong:
  "struct_layout n E flds dest \<Longrightarrow> (\<And>a. a \<in> region flds dest \<Longrightarrow> m' a = m a) \<Longrightarrow> cleared n E m flds dest \<Longrightarrow> cleared n E m' flds dest"
proof (induction n arbitrary: flds dest)
  case (Suc n)
  have "field_cleared (cleared n E m') E m' flds dest i" if i: "i < length flds" for i
    by (rule field_cleared_cong [where m = m and m' = m', OF Suc(2) i Suc(1)]) (use Suc(3,4) slot_region [OF i, of dest] i in auto)
  then show ?case by simp
qed simp

lemma field_copied_cong:
  assumes l: "struct_layout (Suc n) E flds dest" "i < length flds"
    and sub: "\<And>flds p d. struct_layout n E flds d \<Longrightarrow> (\<And>a. a \<in> region flds d \<Longrightarrow> m' a = m a) \<Longrightarrow> copied n E mem m flds p d \<Longrightarrow> copied n E mem m' flds p d"
    and eq: "\<And>a. a \<in> slot flds dest i \<Longrightarrow> m' a = m a"
    and c: "field_copied (copied n E mem m) E mem m flds src dest i"
  shows "field_copied (copied n E mem m') E mem m' flds src dest i"
proof -
  let ?f = "flds ! i" and ?p = "data_at flds src i" and ?q = "data_at flds dest i"
  have data: "a \<in> slot flds dest i" if "a \<in> data_slot flds dest i" for a using that by (simp add: slot_def)
  have "m' (flag_at flds dest i) = m (flag_at flds dest i)" if "optional ?f" using that by (intro eq) (simp add: slot_def)
  moreover have "mem_read m' ?q k = mem_read m ?q k" if "k \<le> pf_data_size ?f" for k
    using layoutD(2) [OF l] that by (intro mem_read_cong eq data) (auto simp: data_slot_def)
  moreover have "copied n E mem m' (sub_fields E ?f) ?p ?q"
    if "PB_LTYPE (pf_type ?f) = 0x08" "copied n E mem m (sub_fields E ?f) ?p ?q"
    using that(2) sub_region_slot [OF l that(1)] by (intro sub layoutD(5) [OF l that(1)] eq) auto
  ultimately show ?thesis using c by (auto simp: field_copied_def value_copied_def Let_def simp del: iter_at.simps)
qed

lemma copied_cong:
  "struct_layout n E flds dest \<Longrightarrow> (\<And>a. a \<in> region flds dest \<Longrightarrow> m' a = m a) \<Longrightarrow> copied n E mem m flds src dest \<Longrightarrow> copied n E mem m' flds src dest"
proof (induction n arbitrary: flds src dest)
  case (Suc n)
  have "field_copied (copied n E mem m') E mem m' flds src dest i" if i: "i < length flds" for i
    by (rule field_copied_cong [where m = m and m' = m', OF Suc(2) i Suc(1)]) (use Suc(3,4) slot_region [OF i, of dest] i in auto)
  then show ?case by simp
qed simp

subsection \<open>The storage of a structure\<close>

definition counters :: "'s pb_denv \<Rightarrow> nat set" where
  "counters E = {a. \<exists>n. de_frame E n \<le> a \<and> a < de_frame E n + 4}"

text \<open>The local counters are variables of their own.\<close>

definition counters_ok :: "'s pb_denv \<Rightarrow> bool" where
  "counters_ok E \<longleftrightarrow> (\<forall>n. de_frame E n + 4 \<le> 2 ^ 64)"

lemma frame_within: "counters_ok E \<Longrightarrow> counters E \<subseteq> R \<Longrightarrow> within R (de_frame E n) 4"
  by (rule within_upt) (force simp: counters_ok_def counters_def)+

lemma flag_outside:
  assumes "struct_layout (Suc n) E flds dest" "i < length flds" "counters E \<inter> region flds dest = {}" "optional (flds ! i)"
  shows "flag_at flds dest i \<notin> data_slot flds dest i \<union> counters E"
  using layoutD(3) [OF assms(1,2,4)] flag_region [OF assms(2,4), of dest] assms(3) by blast

lemma other_slots:
  assumes "struct_layout (Suc n) E flds dest" "i < length flds" "j < length flds" "i \<noteq> j" "counters E \<inter> region flds dest = {}"
    and "same_outside (slot flds dest i \<union> counters E) hp hp'" "a \<in> slot flds dest j"
  shows "hp_mem hp' a = hp_mem hp a"
  using layoutD(7) [OF assms(1,2,3,4)] assms(5-7) slot_region [OF assms(3), of dest] unfolding same_outside_def by blast

subsection \<open>Values\<close>

lemma mem_put_app: "xs \<noteq> [] \<or> p < 2 ^ 64 \<Longrightarrow> mem_put mem p (xs @ ys) = mem_put (mem_put mem p xs) (size_add p (length xs)) ys"
proof (induction xs arbitrary: mem p)
  case (Cons x xs)
  have "size_add p 1 < 2 ^ 64" by (simp add: size_add_def)
  then show ?case using Cons(1) [of "size_add p 1"] by (simp add: size_add_assoc)
qed (simp add: size_add_def)

lemma heap_store_append: "xs \<noteq> [] \<or> p < 2 ^ 64 \<Longrightarrow> heap_store (size_add p (length xs)) ys (heap_store p xs hp) = heap_store p (xs @ ys) hp"
  by (simp add: heap_store_def mem_put_app)

lemma mem_read_append: "0 < m \<Longrightarrow> mem_read mem p (m + k) = mem_read mem p m @ mem_read mem (size_add p m) k"
proof (induction m arbitrary: p)
  case (Suc m)
  then show ?case using Suc(1) [of "size_add p 1"] by (cases m) (simp_all add: size_add_assoc)
qed simp

lemma read_to_at: "read_to E p (length bs) hp (istream_at (bs @ rest) (length bs + k) None) = Some (True, heap_store p bs hp, istream_at rest k None)"
  by (simp add: read_to_def dec_read_def pb_read_at)

lemma string_decoded:
  assumes "PB_ATYPE (pf_type f) = PB_ATYPE_STATIC" "length bs < pf_data_size f" "pf_data_size f < 2 ^ 32" "q < 2 ^ 64"
  shows "dec_string_at E f q hp (istream_at (string_bytes bs @ rest) (length (string_bytes bs) + k) None) = Some (True, heap_store q (bs @ [0]) hp, istream_at rest k None)"
proof -
  have len: "length bs < 2 ^ 32" "unat (of_nat (length bs) :: u32) = length bs" "unat (of_nat (length bs) + 1 :: u32) = Suc (length bs)"
    using assms(2,3) alloc_size_string [of "length bs"] unat_of_nat_u32 [of "length bs"] by simp_all
  then show ?thesis using assms
    by (simp add: dec_string_at_def dec_read_def string_prefix_at Let_def read_to_at heap_store_append PB_ATYPE_STATIC_def PB_ATYPE_POINTER_def del: unsigned_of_nat)
qed

lemma bytes_decoded:
  assumes "PB_ATYPE (pf_type f) = PB_ATYPE_STATIC" "length bs + 4 \<le> pf_data_size f" "pf_data_size f < 2 ^ 32"
  shows "dec_bytes_at E f q hp (istream_at (string_bytes bs @ rest) (length (string_bytes bs) + k) None) =
           Some (True, heap_store q (le_bytes 4 (of_nat (length bs)) @ bs) hp, istream_at rest k None)"
proof -
  have len: "length bs < 2 ^ 32" "unat (of_nat (length bs) :: u32) = length bs" using assms(2,3) unat_of_nat_u32 [of "length bs"] by simp_all
  have "le_bytes 4 v \<noteq> []" for v using length_le_bytes [of 4 v] by (metis length_0_conv zero_neq_numeral)
  then have "heap_store (size_add q 4) bs (store_size q (length bs) hp) = heap_store q (le_bytes 4 (of_nat (length bs)) @ bs) hp"
    using heap_store_append [of "le_bytes 4 (of_nat (length bs))" q bs hp] by (simp add: store_size_def)
  then show ?thesis using len assms alloc_size_bytes [of "of_nat (length bs)"]
    by (simp add: dec_bytes_at_def dec_read_def string_prefix_at Let_def read_to_at offsetof_bytes_def PB_ATYPE_STATIC_def PB_ATYPE_POINTER_def del: unsigned_of_nat alloc_size_bytes)
qed

lemma dec_bytes_of_at:
  assumes "\<And>dest. wire_codec enc bs (dec dest) (\<lambda>s. (True, mem_write v dest, s))" "length v = n"
  shows "dec_bytes_of n dec q hp (istream_at (bs @ rest) (length bs + k) None) = Some (True, heap_store q v hp, istream_at rest k None)"
  using wire_codec.reads [OF assms(1), of "mem_read (hp_mem hp) q n" rest k] assms(2)
  by (simp add: dec_bytes_of_def mem_write_def)

text \<open>\<open>codec_decodes\<close> puts together what a type gives: its wire bytes, its decoder and what it stores.\<close>

lemma codec_decodes:
  assumes "value_wire EE msg f p = Some bs"
    and "value_wire EE msg f p = Some ws" "lv_func E L f = dec_bytes_of n dec" "stored f (env_mem EE) p = v"
    and "\<And>dest. wire_codec enc ws (dec dest) (\<lambda>s. (True, mem_write v dest, s))" "length v = n"
  shows "lv_func E L f q hp (istream_at (bs @ rest) (length bs + k) None) = Some (True, heap_store q (stored f (env_mem EE) p) hp, istream_at rest k None)"
proof -
  have "bs = ws" using assms(1,2) by simp
  then show ?thesis unfolding assms(3,4) using dec_bytes_of_at [OF assms(5,6)] by simp
qed

lemma scalar_decoded:
  assumes f: "plain_field f" "PB_LTYPE (pf_type f) \<notin> {0x06, 0x07, 0x08}" and w: "value_wire EE msg f p = Some bs"
  shows "lv_func E L f q hp (istream_at (bs @ rest) (length bs + k) None) = Some (True, heap_store q (stored f (env_mem EE) p) hp, istream_at rest k None)"
proof -
  let ?src = "mem_read (env_mem EE) p (pf_data_size f)" and ?n = "pf_data_size f"
  have len: "length ?src = ?n" by simp
  note dec = codec_decodes [OF w, where E = E and L = L and q = q and hp = hp and rest = rest and k = k]
  note unf = value_wire_def Let_def lv_func_def pb_decoder_def stored_def
  consider "PB_LTYPE (pf_type f) = 0x00" "?n = 1" | "PB_LTYPE (pf_type f) = 0x01" "?n \<in> {1, 2, 4, 8}" | "PB_LTYPE (pf_type f) = 0x02" "?n \<in> {1, 2, 4, 8}"
    | "PB_LTYPE (pf_type f) = 0x03" "?n \<in> {1, 2, 4, 8}" | "PB_LTYPE (pf_type f) = 0x04" "?n = 4" | "PB_LTYPE (pf_type f) = 0x05" "?n = 8"
    | "PB_LTYPE (pf_type f) = 0x0A" "?n < 2 ^ 32"
    using f unfolding plain_field_def Let_def by blast
  then show ?thesis
  proof cases
    case 1
    show ?thesis by (rule dec [where n = 1 and v = "[if safe_read_bool (mem_read (env_mem EE) p 1) then 1 else 0]", OF _ _ _ bool_field_codec [of null_write]])
        (use 1 in \<open>simp_all add: unf safe_read_bool_def\<close>)
  next
    case 2
    show ?thesis by (rule dec [OF _ _ _ varint_field_codec [OF 2(2) len, of null_write] len]) (use 2 in \<open>simp_all add: unf\<close>)
  next
    case 3
    show ?thesis by (rule dec [OF _ _ _ uvarint_field_codec [OF 3(2) len, of null_write] len]) (use 3 in \<open>simp_all add: unf\<close>)
  next
    case 4
    show ?thesis by (rule dec [OF _ _ _ svarint_field_codec [OF 4(2) len, of null_write] len]) (use 4 in \<open>simp_all add: unf\<close>)
  next
    case 5
    with len have l: "length ?src = 4" by simp
    show ?thesis by (rule dec [OF _ _ _ fixed_field_codec(1) [OF l, of null_write] l]) (use 5 in \<open>simp_all add: unf\<close>)
  next
    case 6
    with len have l: "length ?src = 8" by simp
    show ?thesis by (rule dec [OF _ _ _ fixed_field_codec(2) [OF l, of null_write] l]) (use 6 in \<open>simp_all add: unf\<close>)
  next
    case 7
    show ?thesis by (rule dec [OF _ _ _ fixed_length_field_codec [OF len 7(2), of null_write] len]) (use 7 in \<open>simp_all add: unf\<close>)
  qed
qed

lemma array_stored:
  assumes "plain_field f" "PB_LTYPE (pf_type f) = 0x06" "p \<noteq> 0" "value_wire EE msg f p = Some bs"
  obtains ws where "bs = string_bytes ws" "stored f (env_mem EE) p = le_bytes 4 (of_nat (length ws)) @ ws" "length ws + 4 \<le> pf_data_size f"
proof
  let ?mem = "env_mem EE" and ?ws = "mem_read (env_mem EE) (size_add p 4) (read_size (env_mem EE) p)"
  have f: "PB_ATYPE (pf_type f) = PB_ATYPE_STATIC" "4 \<le> pf_data_size f" "pf_data_size f < 2 ^ 32" using assms(1,2) by (auto simp: plain_field_def Let_def)
  then have "pf_data_size f + (2 ^ 64 - 4) = 2 ^ 64 + (pf_data_size f - 4)" "pf_data_size f - 4 < 2 ^ 64" by simp_all
  then have room: "size_add (pf_data_size f) (2 ^ 64 - 4) = pf_data_size f - 4" by (simp only: size_add_def mod_add_self1 mod_less)
  have "\<not> pf_data_size f - 4 < read_size ?mem p \<and> Some bs = Some (string_bytes ?ws)"
    using assms(2-4) f(1) unfolding value_wire_def Let_def offsetof_bytes_def room by (simp split: if_splits)
  then show "bs = string_bytes ?ws" "length ?ws + 4 \<le> pf_data_size f" using f(2) unfolding length_mem_read by (simp, linarith)
  have "le_bytes 4 (of_nat (read_size ?mem p)) = mem_read ?mem p 4"
    using le_bytes_le_word [of "mem_read ?mem p 4"] by (simp add: read_size_def)
  then show "stored f ?mem p = le_bytes 4 (of_nat (length ?ws)) @ ?ws"
    using assms(2) mem_read_append [of 4 ?mem p "read_size ?mem p"] by (simp only: stored_def Let_def length_mem_read) simp
qed

lemma stored_decoded:
  assumes f: "plain_field f" "PB_LTYPE (pf_type f) \<noteq> 0x08" and w: "value_wire EE msg f p = Some bs"
    and snd: "value_sound sb E (env_mem EE) f p" and q: "q < 2 ^ 64"
  shows "lv_func E L f q hp (istream_at (bs @ rest) (length bs + k) None) = Some (True, heap_store q (stored f (env_mem EE) p) hp, istream_at rest k None)"
    and "length (stored f (env_mem EE) p) \<le> pf_data_size f"
proof -
  let ?mem = "env_mem EE"
  let ?goal = "lv_func E L f q hp (istream_at (bs @ rest) (length bs + k) None) = Some (True, heap_store q (stored f ?mem p) hp, istream_at rest k None) \<and>
    length (stored f ?mem p) \<le> pf_data_size f"
  have static: "PB_ATYPE (pf_type f) = PB_ATYPE_STATIC" using f(1) by (simp add: plain_field_def Let_def)
  consider "PB_LTYPE (pf_type f) = 0x06" | "PB_LTYPE (pf_type f) = 0x07" | "PB_LTYPE (pf_type f) \<notin> {0x06, 0x07, 0x08}" using f(2) by blast
  then have ?goal
  proof cases
    case 1
    have "p \<noteq> 0" using snd 1 by (simp add: value_sound_def)
    with f(1) 1 obtain ws where ws: "bs = string_bytes ws" "stored f ?mem p = le_bytes 4 (of_nat (length ws)) @ ws" "length ws + 4 \<le> pf_data_size f"
      using w by (rule array_stored)
    have "pf_data_size f < 2 ^ 32" using f(1) 1 by (auto simp: plain_field_def Let_def)
    then show ?thesis using bytes_decoded [OF static ws(3)] 1 ws by (simp add: lv_func_def pb_decoder_def)
  next
    case 2
    let ?ws = "string_at ?mem f p"
    have "c_strnlen ?mem (pf_data_size f) p < pf_data_size f" "p \<noteq> 0" using snd 2 by (simp_all add: value_sound_def)
    then have ws: "length ?ws < pf_data_size f" "bs = string_bytes ?ws" "pf_data_size f < 2 ^ 32"
      using w 2 f(1) static by (auto simp: string_at_def value_wire_def Let_def plain_field_def PB_ATYPE_STATIC_def PB_ATYPE_POINTER_def)
    then show ?thesis using string_decoded [OF static ws(1,3) q] 2 by (simp add: lv_func_def pb_decoder_def stored_def)
  next
    case 3
    then have "length (stored f ?mem p) = pf_data_size f" using f(1) by (auto simp: stored_def plain_field_def Let_def)
    then show ?thesis using scalar_decoded [OF f(1) 3 w] by simp
  qed
  then show "lv_func E L f q hp (istream_at (bs @ rest) (length bs + k) None) = Some (True, heap_store q (stored f ?mem p) hp, istream_at rest k None)"
    "length (stored f ?mem p) \<le> pf_data_size f" by simp_all
qed

text \<open>
  A string that fills its storage without a terminator is encoded, and refused by the decoder of the same field.
\<close>

lemma unterminated_string_refused:
  assumes f: "PB_LTYPE (pf_type f) = 0x07" "PB_ATYPE (pf_type f) = PB_ATYPE_STATIC" "pf_data_size f < 2 ^ 32 - 1"
    and s: "p \<noteq> 0" "c_strnlen (env_mem EE) (pf_data_size f) p = pf_data_size f"
  shows "\<exists>bs. value_wire EE msg f p = Some bs \<and>
           lv_func E L f q hp (istream_at (bs @ rest) (length bs + k) None) =
             Some (False, hp, istream_at (mem_read (env_mem EE) p (pf_data_size f) @ rest) (pf_data_size f + k) (Some ''string overflow''))"
proof -
  let ?ws = "mem_read (env_mem EE) p (pf_data_size f)"
  have a: "PB_ATYPE_STATIC \<noteq> PB_ATYPE_POINTER" by (simp add: PB_ATYPE_STATIC_def PB_ATYPE_POINTER_def)
  have "value_wire EE msg f p = Some (string_bytes ?ws)" using f s a by (simp add: value_wire_def Let_def string_at_def)
  moreover have "pb_decode_varint32 (de_read E) (istream_at (string_bytes ?ws @ rest) (length (string_bytes ?ws) + k) None) =
      (Some (of_nat (pf_data_size f)), istream_at (?ws @ rest) (pf_data_size f + k) None)"
    using string_prefix_at [of ?ws "de_read E" rest k] f(3) by simp
  moreover have "unat (of_nat (pf_data_size f) :: u32) = pf_data_size f" "unat (of_nat (pf_data_size f) + 1 :: u32) = Suc (pf_data_size f)"
    using f(3) alloc_size_string [of "pf_data_size f"] unat_of_nat_u32 [of "pf_data_size f"] by simp_all
  ultimately show ?thesis using f a
    by (simp add: lv_func_def pb_decoder_def dec_string_at_def dec_read_def Let_def dec_fail_def PB_SET_IERROR_def del: unsigned_of_nat)
qed

lemma tag_decoded:
  fixes rd :: "'a icallback"
  assumes "plain_field f" "tag_wire f = Some tw"
  obtains wt where "tw \<noteq> []" "\<And>rest k. pb_decode_tag rd (istream_at (tw @ rest) (length tw + k) None) =
    (True, \<lparr>dt_wire_type = wt, dt_tag = pf_tag f, dt_eof = False\<rparr>, istream_at rest k None)"
proof -
  obtain wt where wt: "tw = varint_bytes (tag_word wt (pf_tag f))" "unat wt < 8"
    using assms by (auto simp: tag_wire_def Let_def PB_WT_defs split: if_splits)
  have tag: "0 < unat (pf_tag f)" "unat (pf_tag f) < 2 ^ 29" using assms(1) by (auto simp: plain_field_def Let_def)
  have "varint_bytes v \<noteq> []" for v using varint_bytes_length(1) [of v] by auto
  then show thesis using wire_codec.reads [OF tag_codec [OF tag wt(2), of null_write rd]] by (intro that [of wt]) (simp_all add: wt(1))
qed

lemma field_wire_plain:
  assumes "plain_field f" "field_wire m EE msg cb f p = Some w"
  shows "absent (env_mem EE) f p \<and> w = [] \<or>
         \<not> absent (env_mem EE) f p \<and> (\<exists>tw bs. tag_wire f = Some tw \<and> value_wire EE msg f p = Some bs \<and> w = tw @ bs)"
proof -
  have f: "PB_ATYPE (pf_type f) = PB_ATYPE_STATIC" "required f \<and> \<not> optional f \<or> optional f \<and> \<not> required f \<and> pf_size_offset f \<noteq> 0"
    using assms(1) by (auto simp: plain_field_def Let_def PB_HTYPE_REQUIRED_def PB_HTYPE_OPTIONAL_def)
  have a: "PB_ATYPE_STATIC \<noteq> PB_ATYPE_POINTER" "PB_ATYPE_STATIC \<noteq> PB_ATYPE_CALLBACK"
    by (simp_all add: PB_ATYPE_STATIC_def PB_ATYPE_POINTER_def PB_ATYPE_CALLBACK_def)
  have val: "\<exists>tw bs. tag_wire f = Some tw \<and> value_wire EE msg f p = Some bs \<and> w = tw @ bs" if "app_opt (tag_wire f) (value_wire EE msg f p) = Some w"
    using that by (auto simp: app_opt_def split: option.splits)
  from f(2) show ?thesis
  proof (elim disjE conjE)
    assume "required f" "\<not> optional f"
    then show ?thesis using assms(2) f(1) a val by (auto simp: field_wire_def Let_def absent_def split: if_splits)
  next
    assume "optional f" "\<not> required f" "pf_size_offset f \<noteq> 0"
    then show ?thesis using assms(2) f(1) a val
      by (auto simp: field_wire_def Let_def absent_def safe_read_bool_def split: if_splits bool.splits)
  qed
qed

subsection \<open>One level of nesting\<close>

text \<open>Encoder and decoder have the same message types, and no local counter wraps around the end of memory.\<close>

definition paired :: "'e pb_env \<Rightarrow> 's pb_denv \<Rightarrow> bool" where
  "paired EE E \<longleftrightarrow> env_descs EE = de_descs E \<and> counters_ok E"

text \<open>
  What the decoder of a message relies on for the messages inside: from a structure without optional fields and the
  bytes of a message, \<open>pb_decode_noinit\<close> makes a copy of the message, and writes nowhere else.
\<close>

definition reads_copy :: "'e pb_env \<Rightarrow> 's pb_denv \<Rightarrow> nat \<Rightarrow>
    (pb_field list \<Rightarrow> nat \<Rightarrow> 's decoder) \<Rightarrow> pb_field list \<Rightarrow> nat \<Rightarrow> nat \<Rightarrow> heap \<Rightarrow> byte list \<Rightarrow> byte list \<Rightarrow> bool" where
  "reads_copy EE E n dec flds src dest hp bs rest \<longleftrightarrow>
     (\<exists>hp'. dec flds dest hp (istream_at (bs @ rest) (length bs) None) = Some (True, hp', istream_at rest 0 None) \<and>
            copied n E (env_mem EE) (hp_mem hp') flds src dest \<and> same_outside (region flds dest \<union> counters E) hp hp')"

text \<open>The loop in front of field \<open>i\<close>: the fields before it are copies, the others are as they were at the start.\<close>

definition copying :: "'e pb_env \<Rightarrow> 's pb_denv \<Rightarrow> nat \<Rightarrow> pb_field list \<Rightarrow> nat \<Rightarrow> nat \<Rightarrow> nat \<Rightarrow> nat \<Rightarrow> 's decode_state \<Rightarrow> bool" where
  "copying EE E n flds src dest frame i ds \<longleftrightarrow>
     (let m = hp_mem (ds_heap ds)
      in (\<exists>j<length flds. ds_iter ds = iter_at flds dest j) \<and> ds_fixed_count_field ds = None \<and>
         (\<exists>tags. seen_inv flds dest frame tags ds \<and> (\<forall>j<i. required (flds ! j) \<longrightarrow> pf_tag (flds ! j) \<in> set tags)) \<and>
         (\<forall>j<i. field_copied (copied n E (env_mem EE) m) E (env_mem EE) m flds src dest j) \<and>
         (\<forall>j<length flds. i \<le> j \<longrightarrow> field_cleared (cleared n E m) E m flds dest j))"

locale reading_level =
  fixes EE :: "'e pb_env" and E :: "'s pb_denv" and cb :: "pb_field \<Rightarrow> nat \<Rightarrow> byte list option" and exw :: "'e pb_extension \<Rightarrow> byte list option"
    and n :: nat and L :: "'s pb_level"
  assumes sub: "paired EE E \<Longrightarrow> sound n E (env_mem EE) flds src \<Longrightarrow> msg_wire n EE cb exw flds src = Some bs \<Longrightarrow> length bs < 2 ^ 32 \<Longrightarrow> struct_layout n E flds dest \<Longrightarrow> counters E \<inter> region flds dest = {} \<Longrightarrow>
                cleared n E (hp_mem hp) flds dest \<Longrightarrow> reads_copy EE E n (lv_decode_noinit L) flds src dest hp bs rest"
begin

lemma stored_copied:
  assumes l: "struct_layout (Suc n) E flds dest" "i < length flds" and t: "PB_LTYPE (pf_type (flds ! i)) \<noteq> 0x08"
    and len: "length (stored (flds ! i) mem p) \<le> pf_data_size (flds ! i)"
    and hp': "hp' = heap_store (data_at flds dest i) (stored (flds ! i) mem p) hp"
  shows "value_copied sb E (flds ! i) mem p (hp_mem hp') (data_at flds dest i)" "same_outside (data_slot flds dest i \<union> counters E) hp hp'"
proof -
  let ?f = "flds ! i" and ?q = "data_at flds dest i"
  note plain = layoutD(2) [OF l]
  have "mem_read (hp_mem hp') ?q (length (stored ?f mem p)) = stored ?f mem p"
    using mem_read_store [of ?q "stored ?f mem p" "hp_mem hp"] plain len by (simp add: hp' heap_store_def del: iter_at.simps)
  then show "value_copied sb E ?f mem p (hp_mem hp') ?q" using t len by (simp add: value_copied_def del: iter_at.simps)
  have "within (data_slot flds dest i \<union> counters E) ?q (pf_data_size ?f)" by (rule within_upt [OF plain]) (auto simp: data_slot_def)
  then show "same_outside (data_slot flds dest i \<union> counters E) hp hp'" unfolding hp' using len by (rule same_outside_store)
qed

lemma value_decoded:
  assumes pr: "paired EE E" and sd: "value_sound (sound n E (env_mem EE)) E (env_mem EE) (flds ! i) p" and l: "struct_layout (Suc n) E flds dest" "i < length flds" and fr: "counters E \<inter> region flds dest = {}"
    and w: "value_wire EE (msg_wire n EE cb exw) (flds ! i) p = Some bs" "length bs < 2 ^ 32"
    and c: "PB_LTYPE (pf_type (flds ! i)) = 0x08 \<Longrightarrow> cleared n E (hp_mem hp) (sub_fields E (flds ! i)) (data_at flds dest i)"
  shows "\<exists>hp'. lv_func E L (flds ! i) (data_at flds dest i) hp (istream_at (bs @ rest) (length bs + k) None) = Some (True, hp', istream_at rest k None) \<and>
           value_copied (copied n E (env_mem EE) (hp_mem hp')) E (flds ! i) (env_mem EE) p (hp_mem hp') (data_at flds dest i) \<and>
           same_outside (data_slot flds dest i \<union> counters E) hp hp'"
proof (cases "PB_LTYPE (pf_type (flds ! i)) = 0x08")
  case False
  show ?thesis using stored_decoded [OF layoutD(1) [OF l] False w(1) sd iter_at_pData] stored_copied [OF l False _ refl] by blast
next
  case True
  let ?f = "flds ! i" and ?q = "data_at flds dest i" and ?flds = "sub_fields E (flds ! i)"
  obtain bs' d where m: "pf_ptr ?f = Some d" "msg_wire n EE cb exw ?flds p = Some bs'" and bs: "bs = string_bytes bs'"
    using w(1) True pr by (auto simp: value_wire_def Let_def sub_fields_def paired_def split: option.splits)
  have short: "length bs' < 2 ^ 32" using w(2) by (simp add: bs string_bytes_def)
  have region: "region ?flds ?q \<subseteq> data_slot flds dest i" by (rule layoutD(6) [OF l True])
  have "counters E \<inter> region ?flds ?q = {}" using fr region data_slot_region [OF l(2), of dest] by blast
  from sub [OF pr _ m(2) short layoutD(5) [OF l True] this c [OF True], of rest] sd True
  obtain hp' where hp': "lv_decode_noinit L ?flds ?q hp (istream_at (bs' @ rest) (length bs') None) = Some (True, hp', istream_at rest 0 None)"
    "copied n E (env_mem EE) (hp_mem hp') ?flds p ?q" "same_outside (region ?flds ?q \<union> counters E) hp hp'" by (auto simp: reads_copy_def value_sound_def)
  have "PB_HTYPE (pf_type ?f) \<noteq> PB_HTYPE_REPEATED"
    using layoutD(1) [OF l] by (auto simp: plain_field_def Let_def PB_HTYPE_REQUIRED_def PB_HTYPE_OPTIONAL_def PB_HTYPE_REPEATED_def)
  then have "pb_dec_submessage (de_read E) ?f (dec_total (lv_decode L ?flds ?q)) (dec_total (lv_decode_noinit L ?flds ?q)) (Some hp)
      (istream_at (string_bytes bs' @ rest) (length (string_bytes bs') + k) None) = (True, Some hp', istream_at rest k None)"
    using hp'(1) m(1) by (intro pb_dec_submessage_at [where j = "length bs'", OF short]) (simp_all add: dec_total_def)
  then have "lv_func E L ?f ?q hp (istream_at (bs @ rest) (length bs + k) None) = Some (True, hp', istream_at rest k None)"
    using True by (simp add: lv_func_def pb_decoder_def dec_submessage_at_def bs del: iter_at.simps)
  moreover have "same_outside (data_slot flds dest i \<union> counters E) hp hp'" using hp'(3) region by (auto simp: same_outside_def)
  ultimately show ?thesis using hp'(2) True by (auto simp: value_copied_def simp del: iter_at.simps)
qed

lemma field_decoded:
  assumes pr: "paired EE E" and sd: "value_sound (sound n E (env_mem EE)) E (env_mem EE) (flds ! i) (data_at flds src i)" and l: "struct_layout (Suc n) E flds dest" "i < length flds" and fr: "counters E \<inter> region flds dest = {}"
    and w: "value_wire EE (msg_wire n EE cb exw) (flds ! i) (data_at flds src i) = Some bs" "length bs < 2 ^ 32"
    and c: "field_cleared (cleared n E (hp_mem hp)) E (hp_mem hp) flds dest i" and present: "\<not> absent (env_mem EE) (flds ! i) (data_at flds src i)"
  shows "\<exists>hp'. decode_field E L wt (iter_at flds dest i) hp (istream_at (bs @ rest) (length bs + k) None) =
             Some (True, iter_at flds dest i, hp', istream_at rest k None) \<and>
           field_copied (copied n E (env_mem EE) (hp_mem hp')) E (env_mem EE) (hp_mem hp') flds src dest i \<and>
           same_outside (slot flds dest i \<union> counters E) hp hp'"
proof -
  let ?f = "flds ! i" and ?p = "data_at flds src i" and ?q = "data_at flds dest i" and ?z = "flag_at flds dest i"
  define hp1 where "hp1 = (if optional ?f then store_bool ?z True hp else hp)"
  note plain = layoutD(1) [OF l]
  have h: "PB_ATYPE (pf_type ?f) = PB_ATYPE_STATIC" "PB_HTYPE (pf_type ?f) = PB_HTYPE_REQUIRED \<or> optional ?f" "PB_HTYPE (pf_type ?f) \<noteq> PB_HTYPE_ONEOF"
    "optional ?f \<Longrightarrow> PB_HTYPE (pf_type ?f) \<noteq> PB_HTYPE_REQUIRED"
    using plain by (auto simp: plain_field_def Let_def PB_HTYPE_REQUIRED_def PB_HTYPE_OPTIONAL_def PB_HTYPE_ONEOF_def)
  have flag: "?z \<notin> data_slot flds dest i \<union> counters E" if "optional ?f" by (rule flag_outside [OF l fr that])
  have outside: "hp_mem hp1 a = hp_mem hp a" if "a \<noteq> ?z \<or> \<not> optional ?f" for a
    using that by (auto simp: hp1_def store_bool_def heap_store_def)
  have "cleared n E (hp_mem hp1) (sub_fields E ?f) ?q" if t: "PB_LTYPE (pf_type ?f) = 0x08"
  proof (rule cleared_cong [OF layoutD(5) [OF l t]])
    show "cleared n E (hp_mem hp) (sub_fields E ?f) ?q" using c t by (simp add: field_cleared_def)
    fix a assume "a \<in> region (sub_fields E ?f) ?q"
    then show "hp_mem hp1 a = hp_mem hp a" using layoutD(6) [OF l t] flag by (intro outside) blast
  qed
  from value_decoded [OF pr sd l fr w this, of rest k] obtain hp' where
    hp': "lv_func E L ?f ?q hp1 (istream_at (bs @ rest) (length bs + k) None) = Some (True, hp', istream_at rest k None)"
    "value_copied (copied n E (env_mem EE) (hp_mem hp')) E ?f (env_mem EE) ?p (hp_mem hp') ?q" "same_outside (data_slot flds dest i \<union> counters E) hp1 hp'"
    by blast
  have "decode_static_field E L wt (iter_at flds dest i) hp (istream_at (bs @ rest) (length bs + k) None) = Some (True, hp', istream_at rest k None)"
    using hp'(1) h layoutD(4) [OF l] by (auto simp: decode_static_field_def hp1_def Let_def it_field_at [OF l(2)] simp del: iter_at.simps)
  then have "decode_field E L wt (iter_at flds dest i) hp (istream_at (bs @ rest) (length bs + k) None) =
      Some (True, iter_at flds dest i, hp', istream_at rest k None)"
    using h by (simp add: decode_field_def Let_def it_field_at [OF l(2)] del: iter_at.simps)
  moreover have "hp_mem hp' ?z = 1" if "optional ?f"
  proof -
    have "hp_mem hp' ?z = hp_mem hp1 ?z" using hp'(3) flag [OF that] by (simp add: same_outside_def)
    then show ?thesis using that by (simp add: hp1_def store_bool_def heap_store_def)
  qed
  then have "field_copied (copied n E (env_mem EE) (hp_mem hp')) E (env_mem EE) (hp_mem hp') flds src dest i"
    using hp'(2) present by (simp add: field_copied_def Let_def del: iter_at.simps)
  moreover have "same_outside (slot flds dest i \<union> counters E) hp hp'"
    using hp'(3) outside by (auto simp: same_outside_def slot_def simp del: iter_at.simps)
  ultimately show ?thesis by blast
qed

lemma step_decoded:
  assumes pr: "paired EE E" and sd: "value_sound (sound n E (env_mem EE)) E (env_mem EE) (flds ! i) (data_at flds src i)" and l: "struct_layout (Suc n) E flds dest" "i < length flds" and fr: "counters E \<inter> region flds dest = {}"
    and tw: "tag_wire (flds ! i) = Some tw"
    and w: "value_wire EE (msg_wire n EE cb exw) (flds ! i) (data_at flds src i) = Some bs" "length bs < 2 ^ 32"
    and c: "field_cleared (cleared n E (hp_mem (ds_heap ds))) E (hp_mem (ds_heap ds)) flds dest i"
    and present: "\<not> absent (env_mem EE) (flds ! i) (data_at flds src i)"
    and ds: "j < length flds" "ds_iter ds = iter_at flds dest j" "ds_stream ds = istream_at (tw @ bs @ rest) (length tw + length bs + k) None"
  shows "\<exists>ds'. decode_step frame E L ds = Some (Inl ds') \<and> next_tag E ds = pf_tag (flds ! i) \<and> ds_iter ds' = iter_at flds dest i \<and>
           ds_fixed_count_field ds' = ds_fixed_count_field ds \<and> ds_stream ds' = istream_at rest k None \<and>
           field_copied (copied n E (env_mem EE) (hp_mem (ds_heap ds'))) E (env_mem EE) (hp_mem (ds_heap ds')) flds src dest i \<and>
           same_outside (slot flds dest i \<union> counters E) (ds_heap ds) (ds_heap ds')"
proof -
  let ?f = "flds ! i"
  note plain = layoutD(1) [OF l]
  obtain wt where tag: "tw \<noteq> []" "\<And>rest k. pb_decode_tag (de_read E) (istream_at (tw @ rest) (length tw + k) None) =
    (True, \<lparr>dt_wire_type = wt, dt_tag = pf_tag ?f, dt_eof = False\<rparr>, istream_at rest k None)" using tag_decoded [OF plain tw, of "de_read E"] by metis
  have tag1: "pb_decode_tag (de_read E) (ds_stream ds) =
      (True, \<lparr>dt_wire_type = wt, dt_tag = pf_tag ?f, dt_eof = False\<rparr>, istream_at (bs @ rest) (length bs + k) None)"
    using tag(2) [of "bs @ rest" "length bs + k"] ds(3) by (simp add: add.assoc)
  have find: "pb_field_iter_find (ds_iter ds) (pf_tag ?f) = Some (True, iter_at flds dest i)"
    unfolding ds(2) using plain_no_extension [OF plain] layout_tags [OF l(1)] by (intro pb_field_iter_find_unique [OF ds(1) l(2)]) simp_all
  let ?ds = "ds\<lparr>ds_iter := iter_at flds dest i, ds_stream := istream_at (bs @ rest) (length bs + k) None\<rparr>"
  have fixed: "enter_fixed_count frame ?ds = (True, ?ds)" using plain l(2)
    by (auto simp: enter_fixed_count_def plain_field_def Let_def PB_HTYPE_REQUIRED_def PB_HTYPE_OPTIONAL_def PB_HTYPE_REPEATED_def simp del: iter_at.simps)
  obtain hp' where hp': "decode_field E L wt (iter_at flds dest i) (ds_heap ds) (istream_at (bs @ rest) (length bs + k) None) =
      Some (True, iter_at flds dest i, hp', istream_at rest k None)"
    "field_copied (copied n E (env_mem EE) (hp_mem hp')) E (env_mem EE) (hp_mem hp') flds src dest i"
    "same_outside (slot flds dest i \<union> counters E) (ds_heap ds) hp'"
    using field_decoded [OF pr sd l fr w c present] by blast
  have "\<exists>ds'. known_field frame E L wt ?ds = Some (True, ds') \<and> ds_iter ds' = iter_at flds dest i \<and>
      ds_fixed_count_field ds' = ds_fixed_count_field ds \<and> ds_stream ds' = istream_at rest k None \<and> ds_heap ds' = hp'"
    unfolding known_field_def fixed using hp'(1) by (simp add: Let_def del: iter_at.simps)
  moreover have "is_bytes_left (ds_stream ds) \<noteq> 0" using tag(1) ds(3) by simp
  ultimately show ?thesis using hp'(2,3)
    by (auto simp: decode_step_def tag1 find decode_tag_Some(1) [OF tag1] Let_def simp del: iter_at.simps)
qed

lemma copying_absent:
  assumes inv: "copying EE E n flds src dest frame i ds" and i: "i < length flds" and a: "absent (env_mem EE) (flds ! i) (data_at flds src i)"
  shows "copying EE E n flds src dest frame (Suc i) ds"
proof -
  have opt: "optional (flds ! i)" using a by (simp add: absent_def)
  then have "\<not> required (flds ! i)" by (simp add: PB_HTYPE_REQUIRED_def PB_HTYPE_OPTIONAL_def)
  moreover have "field_copied (copied n E (env_mem EE) (hp_mem (ds_heap ds))) E (env_mem EE) (hp_mem (ds_heap ds)) flds src dest i"
    using inv i a opt by (auto simp: copying_def field_copied_def field_cleared_def Let_def simp del: iter_at.simps)
  ultimately show ?thesis using inv unfolding copying_def Let_def less_Suc_eq by (auto simp del: iter_at.simps)
qed

lemma copying_present:
  assumes pr: "paired EE E" and sd: "value_sound (sound n E (env_mem EE)) E (env_mem EE) (flds ! i) (data_at flds src i)" and l: "struct_layout (Suc n) E flds dest" "i < length flds" and fr: "counters E \<inter> region flds dest = {}"
    and inv: "copying EE E n flds src dest frame i ds"
    and tw: "tag_wire (flds ! i) = Some tw"
    and w: "value_wire EE (msg_wire n EE cb exw) (flds ! i) (data_at flds src i) = Some bs" "length bs < 2 ^ 32"
    and present: "\<not> absent (env_mem EE) (flds ! i) (data_at flds src i)"
    and s: "ds_stream ds = istream_at (tw @ bs @ rest) (length tw + length bs + k) None"
  shows "\<exists>ds'. decode_step frame E L ds = Some (Inl ds') \<and> copying EE E n flds src dest frame (Suc i) ds' \<and> ds_stream ds' = istream_at rest k None \<and>
           same_outside (region flds dest \<union> counters E) (ds_heap ds) (ds_heap ds')"
proof -
  obtain j tags where j: "j < length flds" "ds_iter ds = iter_at flds dest j" "ds_fixed_count_field ds = None" "seen_inv flds dest frame tags ds"
    "\<forall>j<i. required (flds ! j) \<longrightarrow> pf_tag (flds ! j) \<in> set tags" using inv by (auto simp: copying_def Let_def)
  have c: "field_cleared (cleared n E (hp_mem (ds_heap ds))) E (hp_mem (ds_heap ds)) flds dest i" using inv l(2) by (simp add: copying_def Let_def)
  obtain ds' where ds': "decode_step frame E L ds = Some (Inl ds')" "next_tag E ds = pf_tag (flds ! i)" "ds_iter ds' = iter_at flds dest i"
    "ds_fixed_count_field ds' = ds_fixed_count_field ds" "ds_stream ds' = istream_at rest k None"
    "field_copied (copied n E (env_mem EE) (hp_mem (ds_heap ds'))) E (env_mem EE) (hp_mem (ds_heap ds')) flds src dest i"
    "same_outside (slot flds dest i \<union> counters E) (ds_heap ds) (ds_heap ds')"
    using step_decoded [OF pr sd l fr tw w c present j(1,2) s] by blast
  have flds: "PB_LTYPE (pf_type f) \<noteq> 0x09" if "f \<in> set flds" for f
    using that plain_no_extension layoutD(1) [OF l(1)] by (auto simp: in_set_conv_nth)
  have "seen_inv flds dest frame (tags @ [pf_tag (flds ! i)]) ds'"
    using decode_step_seen [OF _ flds j(4) ds'(1)] layout_tags [OF l(1)] unfolding ds'(2) by blast
  moreover have "field_copied (copied n E (env_mem EE) (hp_mem (ds_heap ds'))) E (env_mem EE) (hp_mem (ds_heap ds')) flds src dest j" if "j < i" for j
    using that l inv by (intro field_copied_cong [OF l(1) _ copied_cong other_slots [OF l _ _ fr ds'(7)]]) (auto simp: copying_def Let_def)
  moreover have "field_cleared (cleared n E (hp_mem (ds_heap ds'))) E (hp_mem (ds_heap ds')) flds dest j" if "Suc i \<le> j" "j < length flds" for j
    using that l inv by (intro field_cleared_cong [OF l(1) _ cleared_cong other_slots [OF l _ _ fr ds'(7)]]) (auto simp: copying_def Let_def)
  ultimately have "copying EE E n flds src dest frame (Suc i) ds'" unfolding copying_def Let_def less_Suc_eq
    using l(2) ds'(3,4,6) j(3,5) by (auto simp del: iter_at.simps intro!: exI [of _ "tags @ [pf_tag (flds ! i)]"])
  moreover have "same_outside (region flds dest \<union> counters E) (ds_heap ds) (ds_heap ds')"
    using ds'(7) slot_region [OF l(2), of dest] unfolding same_outside_def by blast
  ultimately show ?thesis using ds'(1,5) by blast
qed

lemma loop_decoded:
  assumes pr: "paired EE E" and sd: "sound (Suc n) E (env_mem EE) flds src" and l: "struct_layout (Suc n) E flds dest" and fr: "counters E \<inter> region flds dest = {}"
  shows "i \<le> length flds \<Longrightarrow> copying EE E n flds src dest frame i ds \<Longrightarrow>
      concat_opt (map (\<lambda>i. field_wire (Suc n) EE (msg_wire n EE cb exw) cb (flds ! i) (data_at flds src i)) [i..<length flds]) = Some bs \<Longrightarrow>
      length bs < 2 ^ 32 \<Longrightarrow> ds_stream ds = istream_at (bs @ rest) (length bs) None \<Longrightarrow>
      \<exists>ds'. c_loop (decode_step frame E L) ds = Some (True, ds') \<and> copying EE E n flds src dest frame (length flds) ds' \<and>
            ds_stream ds' = istream_at rest 0 None \<and> same_outside (region flds dest \<union> counters E) (ds_heap ds) (ds_heap ds')"
proof (induction "length flds - i" arbitrary: i bs ds)
  case 0
  then have "bs = []" by (simp add: concat_opt_def)
  then show ?case using 0 by (subst c_loop.simps) (simp add: decode_step_def)
next
  case (Suc m)
  let ?fw = "\<lambda>i. field_wire (Suc n) EE (msg_wire n EE cb exw) cb (flds ! i) (data_at flds src i)"
  have i: "i < length flds" "m = length flds - Suc i" "[i..<length flds] = i # [Suc i..<length flds]" using Suc(2) by (simp_all add: upt_conv_Cons)
  obtain w bs' where w: "?fw i = Some w" "concat_opt (map ?fw [Suc i..<length flds]) = Some bs'" "bs = w @ bs'"
    using Suc(5) unfolding i(3) by (auto simp: concat_opt_def app_opt_def split: option.splits)
  note IH = Suc(1) [OF i(2) _ _ w(2)]
  from field_wire_plain [OF layoutD(1) [OF l i(1)] w(1)] show ?case
  proof (elim disjE conjE exE)
    assume "absent (env_mem EE) (flds ! i) (data_at flds src i)" "w = []"
    then show ?thesis using IH [of ds] copying_absent [OF Suc(4) i(1)] i(1) Suc(6,7) w(3) by simp
  next
    fix tw vs
    assume v: "\<not> absent (env_mem EE) (flds ! i) (data_at flds src i)" "tag_wire (flds ! i) = Some tw"
      "value_wire EE (msg_wire n EE cb exw) (flds ! i) (data_at flds src i) = Some vs" "w = tw @ vs"
    have s: "ds_stream ds = istream_at (tw @ vs @ bs' @ rest) (length tw + length vs + length bs') None" "length vs < 2 ^ 32"
      using Suc(6,7) w(3) v(4) by simp_all
    have sd1: "value_sound (sound n E (env_mem EE)) E (env_mem EE) (flds ! i) (data_at flds src i)"
      using sd v(1) i(1) by (auto simp del: iter_at.simps)
    obtain ds1 where ds1: "decode_step frame E L ds = Some (Inl ds1)" "copying EE E n flds src dest frame (Suc i) ds1"
      "ds_stream ds1 = istream_at (bs' @ rest) (length bs') None" "same_outside (region flds dest \<union> counters E) (ds_heap ds) (ds_heap ds1)"
      using copying_present [OF pr sd1 l i(1) fr Suc(4) v(2,3) s(2) v(1) s(1)] by blast
    have "c_loop (decode_step frame E L) ds = c_loop (decode_step frame E L) ds1" by (subst c_loop.simps) (simp add: ds1(1))
    moreover obtain ds' where "c_loop (decode_step frame E L) ds1 = Some (True, ds')" "copying EE E n flds src dest frame (length flds) ds'"
      "ds_stream ds' = istream_at rest 0 None" "same_outside (region flds dest \<union> counters E) (ds_heap ds1) (ds_heap ds')"
      using IH [OF _ ds1(2) _ ds1(3)] i(1) Suc(6) w(3) by auto
    ultimately show ?thesis using same_outside_trans [OF ds1(4)] by auto
  qed
qed

lemma message_decoded:
  assumes pr: "paired EE E" and sd: "sound (Suc n) E (env_mem EE) flds src" and l: "struct_layout (Suc n) E flds dest" and fr: "counters E \<inter> region flds dest = {}"
    and w: "msg_wire (Suc n) EE cb exw flds src = Some bs" "length bs < 2 ^ 32"
    and c: "cleared (Suc n) E (hp_mem hp) flds dest"
  shows "reads_copy EE E (Suc n) (decode_message (de_frame E (Suc n)) E L) flds src dest hp bs rest"
proof -
  let ?frame = "de_frame E (Suc n)" and ?hp = "store_size (de_frame E (Suc n)) 0 hp"
  let ?ds = "\<lparr>ds_iter = snd (pb_field_iter_begin flds dest), ds_fields_seen = [0, 0], ds_extension_range_start = 0, ds_fixed_count_field = None,
    ds_heap = ?hp, ds_stream = istream_at (bs @ rest) (length bs) None\<rparr>"
  have flds: "flds \<noteq> []" using layout_tags [OF l] by simp
  have store: "same_outside (region flds dest \<union> counters E) hp ?hp" "same_outside (counters E) hp ?hp"
    using pr by (auto simp: paired_def intro!: same_outside_stores frame_within)
  have "cleared (Suc n) E (hp_mem ?hp) flds dest"
    by (rule cleared_cong [OF l _ c]) (use store(2) fr in \<open>auto simp: same_outside_def\<close>)
  then have "copying EE E n flds src dest ?frame 0 ?ds"
    using flds seen_start [of ?ds flds dest ?frame] by (auto simp: copying_def Let_def intro: exI [of _ 0])
  moreover have "concat_opt (map (\<lambda>i. field_wire (Suc n) EE (msg_wire n EE cb exw) cb (flds ! i) (data_at flds src i)) [0..<length flds]) = Some bs"
  proof -
    have "map (\<lambda>(field, pData). if PB_LTYPE (pf_type field) = 0x09
         then concat_opt (map (extension_wire (Suc n) EE (msg_wire n EE cb exw) cb exw) (env_extensions EE pData))
         else field_wire (Suc n) EE (msg_wire n EE cb exw) cb field pData) (message_fields flds src) =
       map (\<lambda>i. field_wire (Suc n) EE (msg_wire n EE cb exw) cb (flds ! i) (data_at flds src i)) [0..<length flds]"
      using plain_no_extension [OF layoutD(1) [OF l]] by (simp add: message_fields_at del: iter_at.simps)
    then show ?thesis using w(1) by simp
  qed
  ultimately obtain ds' where ds': "c_loop (decode_step ?frame E L) ?ds = Some (True, ds')" "copying EE E n flds src dest ?frame (length flds) ds'"
    "ds_stream ds' = istream_at rest 0 None" "same_outside (region flds dest \<union> counters E) ?hp (ds_heap ds')"
    using loop_decoded [OF pr sd l fr, of 0 ?frame ?ds bs rest] w(2) by auto
  obtain tags where tags: "seen_inv flds dest ?frame tags ds'" "\<forall>j<length flds. required (flds ! j) \<longrightarrow> pf_tag (flds ! j) \<in> set tags"
    using ds'(2) by (auto simp: copying_def Let_def)
  have "\<forall>f \<in> set (take 64 (filter required flds)). pf_tag f \<in> set tags" using tags(2) by (auto simp: in_set_conv_nth dest!: in_set_takeD)
  then have "decode_end ?frame ds' = (True, ds_heap ds', istream_at rest 0 None)"
    using ds'(2,3) seen_required [OF tags(1)] by (simp add: decode_end_def fixed_count_unfinished_def copying_def Let_def)
  then show ?thesis using ds' same_outside_trans [OF store(1) ds'(4)]
    by (auto simp: reads_copy_def decode_message_def copying_def Let_def)
qed

end

lemma reading_level_at: "reading_level EE E cb exw n (level_below n E (pb_decode_noinit n E))"
proof (induction n)
  case 0
  show ?case by unfold_locales simp
next
  case (Suc n)
  show ?case
  proof
    fix flds src bs dest rest and hp :: heap
    assume "paired EE E" "sound (Suc n) E (env_mem EE) flds src" "msg_wire (Suc n) EE cb exw flds src = Some bs" "length bs < 2 ^ 32" "struct_layout (Suc n) E flds dest"
      "counters E \<inter> region flds dest = {}" "cleared (Suc n) E (hp_mem hp) flds dest"
    from reading_level.message_decoded [OF Suc this(1,2,5,6,3,4,7), of rest]
    show "reads_copy EE E (Suc n) (lv_decode_noinit (level_below (Suc n) E (pb_decode_noinit (Suc n) E))) flds src dest hp bs rest"
      by (simp add: level_below_def reads_copy_def)
  qed
qed

interpretation noinit_level: reading_level EE E cb exw n "level_below n E (pb_decode_noinit n E)" for EE E cb exw n
  by (rule reading_level_at)

subsection \<open>Default values\<close>

definition clears :: "nat \<Rightarrow> 's pb_denv \<Rightarrow> bool" where
  "clears n E \<longleftrightarrow>
     (\<forall>flds dest hp. struct_layout n E flds dest \<longrightarrow> counters E \<inter> region flds dest = {} \<longrightarrow>
        (\<exists>hp'. pb_message_set_to_defaults n E flds dest hp = Some hp' \<and> cleared n E (hp_mem hp') flds dest \<and>
               same_outside (region flds dest \<union> counters E) hp hp'))"

lemma field_defaults:
  assumes sub: "clears n E" and l: "struct_layout (Suc n) E flds dest" "i < length flds" and fr: "counters E \<inter> region flds dest = {}"
  shows "\<exists>hp'. pb_field_set_to_default (Suc n) E (iter_at flds dest i) hp = Some hp' \<and>
           field_cleared (cleared n E (hp_mem hp')) E (hp_mem hp') flds dest i \<and> same_outside (slot flds dest i \<union> counters E) hp hp'"
proof -
  let ?f = "flds ! i" and ?q = "data_at flds dest i" and ?z = "flag_at flds dest i"
  define hp1 where "hp1 = (if optional ?f then store_bool ?z False hp else hp)"
  note plain = layoutD(1,2) [OF l]
  have h: "PB_ATYPE (pf_type ?f) = PB_ATYPE_STATIC" "PB_HTYPE (pf_type ?f) \<noteq> PB_HTYPE_REPEATED" "PB_HTYPE (pf_type ?f) \<noteq> PB_HTYPE_ONEOF"
    using plain(1) by (auto simp: plain_field_def Let_def PB_HTYPE_REQUIRED_def PB_HTYPE_OPTIONAL_def PB_HTYPE_ONEOF_def PB_HTYPE_REPEATED_def)
  have flag: "?z \<notin> data_slot flds dest i \<union> counters E" if "optional ?f" by (rule flag_outside [OF l fr that])
  define rest where "rest = (if PB_LTYPE (pf_type ?f) = 0x08 then pb_message_set_to_defaults n E (sub_fields E ?f) ?q hp1
      else Some (heap_store ?q (case pf_ptr ?f of Some dflt \<Rightarrow> mem_read (hp_mem hp1) dflt (pf_data_size ?f) | None \<Rightarrow> replicate (pf_data_size ?f) 0) hp1))"
  have step: "pb_field_set_to_default (Suc n) E (iter_at flds dest i) hp = rest"
    using h plain_no_extension [OF plain(1)] layoutD(4) [OF l]
    by (auto simp: set_field_to_default_def Let_def it_field_at [OF l(2)] hp1_def rest_def pb_message_set_to_defaults_def split: option.split simp del: iter_at.simps)
  have "\<exists>hp'. rest = Some hp' \<and> (PB_LTYPE (pf_type ?f) = 0x08 \<longrightarrow> cleared n E (hp_mem hp') (sub_fields E ?f) ?q) \<and>
      same_outside (data_slot flds dest i \<union> counters E) hp1 hp'"
  proof (cases "PB_LTYPE (pf_type ?f) = 0x08")
    case True
    note region = layoutD(6) [OF l True]
    have "counters E \<inter> region (sub_fields E ?f) ?q = {}" using region fr data_slot_region [OF l(2), of dest] by blast
    then show ?thesis using sub layoutD(5) [OF l True] region True unfolding clears_def rest_def same_outside_def by fastforce
  next
    case False
    have "within (data_slot flds dest i \<union> counters E) ?q (pf_data_size ?f)" by (rule within_upt [OF plain(2)]) (auto simp: data_slot_def)
    then show ?thesis using False by (auto simp: rest_def split: option.split intro!: same_outside_store simp del: iter_at.simps)
  qed
  then obtain hp' where hp': "rest = Some hp'" "PB_LTYPE (pf_type ?f) = 0x08 \<longrightarrow> cleared n E (hp_mem hp') (sub_fields E ?f) ?q"
    "same_outside (data_slot flds dest i \<union> counters E) hp1 hp'" by blast
  have "hp_mem hp' ?z = 0" if "optional ?f"
    using hp'(3) flag [OF that] that by (simp add: same_outside_def hp1_def store_bool_def heap_store_def)
  moreover have "same_outside (slot flds dest i \<union> counters E) hp hp'"
    using hp'(3) by (auto simp: same_outside_def slot_def hp1_def store_bool_def heap_store_def simp del: iter_at.simps)
  ultimately show ?thesis using hp'(1,2) step by (simp add: field_cleared_def del: iter_at.simps)
qed

lemma fields_defaults:
  assumes sub: "clears n E" and l: "struct_layout (Suc n) E flds dest" and fr: "counters E \<inter> region flds dest = {}"
  shows "i \<le> length flds \<Longrightarrow> (\<forall>j<i. field_cleared (cleared n E (hp_mem hp)) E (hp_mem hp) flds dest j) \<Longrightarrow>
      \<exists>hp'. heap_all (pb_field_set_to_default (Suc n) E) (map (iter_at flds dest) [i..<length flds]) hp = Some hp' \<and>
            cleared (Suc n) E (hp_mem hp') flds dest \<and> same_outside (region flds dest \<union> counters E) hp hp'"
proof (induction "length flds - i" arbitrary: i hp)
  case (Suc m)
  have i: "i < length flds" "m = length flds - Suc i" "[i..<length flds] = i # [Suc i..<length flds]" using Suc(2) by (simp_all add: upt_conv_Cons)
  obtain hp1 where hp1: "pb_field_set_to_default (Suc n) E (iter_at flds dest i) hp = Some hp1"
    "field_cleared (cleared n E (hp_mem hp1)) E (hp_mem hp1) flds dest i" "same_outside (slot flds dest i \<union> counters E) hp hp1"
    using field_defaults [OF sub l i(1) fr] by blast
  have "field_cleared (cleared n E (hp_mem hp1)) E (hp_mem hp1) flds dest j" if "j < i" for j
    using that i(1) Suc(4) by (intro field_cleared_cong [OF l _ cleared_cong other_slots [OF l i(1) _ _ fr hp1(3)]]) auto
  then have "\<forall>j<Suc i. field_cleared (cleared n E (hp_mem hp1)) E (hp_mem hp1) flds dest j" using hp1(2) by (auto simp: less_Suc_eq)
  from Suc(1) [OF i(2) _ this] i(1) obtain hp' where
    hp': "heap_all (pb_field_set_to_default (Suc n) E) (map (iter_at flds dest) [Suc i..<length flds]) hp1 = Some hp'"
    "cleared (Suc n) E (hp_mem hp') flds dest" "same_outside (region flds dest \<union> counters E) hp1 hp'" by auto
  moreover have "same_outside (region flds dest \<union> counters E) hp hp1"
    using hp1(3) slot_region [OF i(1), of dest] unfolding same_outside_def by blast
  ultimately show ?case unfolding i(3) list.map heap_all.simps hp1(1) by (auto intro: same_outside_trans simp del: iter_at.simps cleared.simps)
qed simp

lemma clears_all: "clears n E"
proof (induction n)
  case (Suc n)
  show ?case using fields_defaults [OF Suc, of _ _ 0] unfolding clears_def pb_message_set_to_defaults_def message_iters_at by blast
qed (simp add: clears_def)

subsection \<open>The round trip\<close>

text \<open>C28. A message survives the round trip. A structure that has an encoding of less than 4 gigabytes is encoded into any buffer
  with room for it, and from the bytes in the buffer \<open>pb_decode\<close> makes a copy of the structure, at any place that is laid out
  for the message type: it succeeds, reads all of the bytes, every optional field is present exactly when it was, every
  value is the same, to any depth of nested messages, no required field is reported missing, and no other memory is
  written. This is for message types of required and optional fields in static storage, with values of all
  scalar types, strings (which must have their terminator), byte arrays and messages.
\<close>

theorem pb_message_roundtrip:
  assumes enc: "callbacks_encode EE cb exw" "msg_wire n EE cb exw flds src = Some bs" "length bs < 2 ^ 32" "length bs \<le> sz" "sz < 2 ^ 64"
    and pair: "paired EE E" and sd: "sound n E (env_mem EE) flds src" and l: "struct_layout n E flds dest" "counters E \<inter> region flds dest = {}"
  shows "\<exists>out hp'. pb_encode n EE flds src (pb_ostream_from_buffer sz) = (Some (), out) \<and> os_sink out = OBuffer bs \<and>
           pb_decode n E flds dest hp (pb_istream_from_buffer bs (length bs)) = Some (True, hp', pb_istream_from_buffer [] 0) \<and>
           copied n E (env_mem EE) (hp_mem hp') flds src dest \<and> same_outside (region flds dest \<union> counters E) hp hp'"
proof -
  have "wire_encoder (pb_encode n EE flds src) bs" using encodes_message [OF enc(1), of n flds src] enc(2) by (simp add: encodes_def)
  note room = wire_encoder.to_buffer [OF this enc(5,4)]
  obtain hp1 where hp1: "pb_message_set_to_defaults n E flds dest hp = Some hp1" "cleared n E (hp_mem hp1) flds dest"
    "same_outside (region flds dest \<union> counters E) hp hp1" using clears_all [of n E] l unfolding clears_def by blast
  from noinit_level.sub [OF pair sd enc(2,3) l hp1(2), of "[]"] obtain hp' where
    "pb_decode_noinit n E flds dest hp1 (istream_at bs (length bs) None) = Some (True, hp', istream_at [] 0 None)"
    "copied n E (env_mem EE) (hp_mem hp') flds src dest" "same_outside (region flds dest \<union> counters E) hp1 hp'"
    by (auto simp: reads_copy_def level_below_def)
  then show ?thesis using room hp1(1) same_outside_trans [OF hp1(3)]
    by (auto simp: pb_decode_def decode_init_def pb_istream_from_buffer_at)
qed

text \<open>The message of \<open>example_env\<close>, read back at address 64: a number at 64 and a boolean at 68.\<close>

definition copy_env :: "unit pb_denv" where
  "copy_env =
     \<lparr>de_read = null_read, de_descs = example_fields, de_extension_types = (\<lambda>_. \<lparr>et_decode = None, et_arg = PB_LAST_FIELD\<rparr>),
      de_callbacks = (\<lambda>_ _ _ hp s. Some (False, hp, s)), de_place = (\<lambda>_ _. 0), de_frame = (\<lambda>_. 1000)\<rparr>"

lemma example_iters:
  "length (example_fields 2) = 2" "length (example_fields 3) = 1"
  "data_at (example_fields 2) 64 0 = 64" "data_at (example_fields 2) 64 (Suc 0) = 68" "data_at (example_fields 3) 68 0 = 68"
  by (simp_all add: example_fields_def pb_field_iter_begin_def pb_field_iter_next_def Let_def size_add_def field_extent_def field_type_simps)

lemma example_types:
  "example_fields 2 ! 0 = \<lparr>pf_tag = 1, pf_type = 0x02, pf_data_offset = 0, pf_size_offset = 0, pf_data_size = 4, pf_array_size = 0, pf_ptr = None\<rparr>"
  "example_fields 2 ! Suc 0 = \<lparr>pf_tag = 2, pf_type = 0x08, pf_data_offset = 0, pf_size_offset = 0, pf_data_size = 1, pf_array_size = 0, pf_ptr = Some 3\<rparr>"
  "example_fields 3 ! 0 = \<lparr>pf_tag = 1, pf_type = 0x00, pf_data_offset = 0, pf_size_offset = 0, pf_data_size = 1, pf_array_size = 0, pf_ptr = None\<rparr>"
  by (simp_all add: example_fields_def)

lemma example_tags:
  "example_fields 2 \<noteq> []" "distinct (map pf_tag (example_fields 2))" "example_fields 3 \<noteq> []" "distinct (map pf_tag (example_fields 3))"
  by (simp_all add: example_fields_def)

lemma example_slots:
  "data_slot (example_fields 2) 64 0 = {64..<68}" "data_slot (example_fields 2) 64 (Suc 0) = {68}" "data_slot (example_fields 3) 68 0 = {68}"
  "slot (example_fields 2) 64 0 = {64..<68}" "slot (example_fields 2) 64 (Suc 0) = {68}" "slot (example_fields 3) 68 0 = {68}"
  unfolding slot_def data_slot_def example_iters example_types by (auto simp: field_type_simps)

lemma example_indices: "{0..<length (example_fields 2)} = {0, Suc 0}" "{0..<length (example_fields 3)} = {0}"
  unfolding example_iters by auto

lemma example_regions: "region (example_fields 3) 68 = {68}" "region (example_fields 2) 64 = {64..<68} \<union> {68}"
  unfolding region_def example_indices by (simp_all add: example_slots)

lemma example_plain: "plain_field (example_fields 2 ! 0)" "plain_field (example_fields 2 ! Suc 0)" "plain_field (example_fields 3 ! 0)"
  "\<not> optional (example_fields 2 ! 0)" "\<not> optional (example_fields 2 ! Suc 0)" "\<not> optional (example_fields 3 ! 0)"
  "PB_LTYPE (pf_type (example_fields 2 ! 0)) = 2" "PB_LTYPE (pf_type (example_fields 2 ! Suc 0)) = 8" "PB_LTYPE (pf_type (example_fields 3 ! 0)) = 0"
  "pf_data_size (example_fields 2 ! 0) = 4" "pf_data_size (example_fields 2 ! Suc 0) = 1" "pf_data_size (example_fields 3 ! 0) = 1"
  unfolding plain_field_def example_types by (simp_all add: field_type_simps)

lemma copy_env_sub: "sub_fields copy_env (example_fields 2 ! Suc 0) = example_fields 3"
  by (simp add: sub_fields_def copy_env_def example_types)

lemmas example_simps = example_indices example_iters example_tags example_slots example_plain copy_env_sub

lemma copy_env_layout: "struct_layout 2 copy_env (example_fields 2) 64"
proof -
  have "struct_layout (Suc 0) copy_env (example_fields 3) 68"
    unfolding struct_layout.simps example_indices by (simp add: example_simps del: iter_at.simps)
  then have "struct_layout (Suc (Suc 0)) copy_env (example_fields 2) 64"
    unfolding struct_layout.simps(2) [of "Suc 0"] example_indices by (simp add: example_simps example_regions del: iter_at.simps struct_layout.simps)
  then show ?thesis by (simp only: numeral_2_eq_2)
qed

lemma example_source: "data_at (example_fields 2) 16 0 = 16" "data_at (example_fields 2) 16 (Suc 0) = 20" "data_at (example_fields 3) 20 0 = 20"
  by (simp_all add: example_fields_def pb_field_iter_begin_def pb_field_iter_next_def Let_def size_add_def field_extent_def field_type_simps)

lemma copy_env_sound: "sound 2 copy_env (env_mem example_env) (example_fields 2) 16"
proof -
  have "sound (Suc (Suc 0)) copy_env (env_mem example_env) (example_fields 2) 16"
    unfolding sound.simps example_indices by (simp add: value_sound_def example_simps example_source del: iter_at.simps)
  then show ?thesis by (simp only: numeral_2_eq_2)
qed

lemma pb_message_roundtrip_witness:
  "\<exists>hp'. pb_decode 2 copy_env (example_fields 2) 64 \<lparr>hp_mem = (\<lambda>_. 7), hp_blocks = (\<lambda>_. None)\<rparr>
            (pb_istream_from_buffer [0x08, 0x96, 0x01, 0x12, 0x02, 0x08, 0x01] 7) = Some (True, hp', pb_istream_from_buffer [] 0) \<and>
          hp_mem hp' 64 = 150 \<and> hp_mem hp' 68 = 1 \<and> hp_mem hp' 69 = 7"
proof -
  let ?bs = "[0x08, 0x96, 0x01, 0x12, 0x02, 0x08, 0x01] :: byte list" and ?hp = "\<lparr>hp_mem = (\<lambda>_. 7), hp_blocks = (\<lambda>_. None)\<rparr>"
  have cb: "callbacks_encode example_env (\<lambda>_ _. Some []) (\<lambda>_. None)" by (simp add: callbacks_encode_def example_env_def)
  have w: "msg_wire 2 example_env (\<lambda>_ _. Some []) (\<lambda>_. None) (example_fields 2) 16 = Some ?bs"
    using example_wire [of 0] by (simp only: numeral_2_eq_2)
  have fr: "counters copy_env = {1000..<1004}" by (auto simp: counters_def copy_env_def)
  have "paired example_env copy_env" by (simp add: paired_def counters_ok_def example_env_def copy_env_def)
  moreover have len: "length ?bs = 7" by simp
  ultimately obtain hp' where
    hp': "pb_decode 2 copy_env (example_fields 2) 64 ?hp (pb_istream_from_buffer ?bs 7) = Some (True, hp', pb_istream_from_buffer [] 0)"
    "copied 2 copy_env (env_mem example_env) (hp_mem hp') (example_fields 2) 16 64" "same_outside (region (example_fields 2) 64 \<union> counters copy_env) ?hp hp'"
    using pb_message_roundtrip [OF cb w _ _ _ _ copy_env_sound copy_env_layout, of 8 ?hp] unfolding len by (auto simp: fr example_regions)
  have "copied (Suc (Suc 0)) copy_env (env_mem example_env) (hp_mem hp') (example_fields 2) 16 64" using hp'(2) by (simp only: numeral_2_eq_2)
  then have "mem_read (hp_mem hp') 64 4 = mem_read (env_mem example_env) 16 4" "hp_mem hp' 68 = (if env_mem example_env 20 \<noteq> 0 then 1 else 0)"
    unfolding copied.simps example_indices by (simp_all add: field_copied_def value_copied_def stored_def absent_def example_simps example_source Let_def del: iter_at.simps)
  moreover have "hp_mem hp' 69 = 7" using hp'(3) by (simp add: same_outside_def fr example_regions)
  ultimately show ?thesis using hp'(1) by (simp add: mem_read_4 example_env_def)
qed

end
