(* ===== verification/Spec2Isabelle.thy ===== *)
theory Spec2Isabelle
  imports Ber Stack Lhash Base64 PbRoundtrip
begin

text \<open>
  A verification library for the C code of the repository.

  \<^bold>\<open>The program.\<close> The repository holds four iOS applications (ChatMate, Exchanger, and two to-do lists).
  The applications are written in Swift; the C code is what the storyboard to-do application links
  through CocoaPods, under src/TODO storyboard/Pods: BoringSSL-GRPC, nanopb, Libuv-gRPC and the upb
  runtime of gRPC-Core. Firestore stores documents as protocol buffers, which nanopb encodes and
  decodes, and talks to its servers through gRPC over the TLS of BoringSSL, whose certificates and
  handshake messages go through BoringSSL's byte string library. The library models the C code that
  reads and writes bytes coming from outside, and the containers beneath it.

  \<^bold>\<open>Conventions.\<close> Machine integers are words of their width (byte, u16, u32, u64), \<open>size_t\<close> is a natural
  number with its wrap-around written out (\<open>size_add\<close>, \<open>size_mul\<close>, modulo 2^64; the targets are 64-bit
  and little-endian). A function that changes an object and can fail is a state transformer
  \<open>('s, 'a) stm\<close>: a result or None, and the object afterwards, so that what a failing call leaves
  behind is part of the model. Memory that is allocated comes from an argument (\<open>allocator\<close>, \<open>realloc\<close>)
  that may refuse; callbacks, comparison functions and libc's \<open>qsort\<close> are arguments too, with what
  the code relies on as named hypotheses.

  \<^bold>\<open>Theories and sources.\<close>

  \<^item> Prelude: types, the state transformers, loops that may run forever (\<open>c_loop\<close>), lemmas on lists and words that the
    components share.

  \<^item> Mem: BoringSSL crypto/mem.c and the inline helpers of crypto/internal.h: allocation with a
    size header, \<open>CRYPTO_memcmp\<close>, hashing, bounded string functions, constant-time masks.
    The masks equal the comparisons they stand for; \<open>OPENSSL_strlcpy\<close> always terminates its output.

  \<^item> Cbs and Der: crypto/bytestring/cbs.c, the reader. A CBS is the list of the bytes ahead. Der shows
    that the element readers accept exactly the DER encodings (minimal tags, minimal lengths), that
    integers are accepted exactly in minimal two's complement form, and that a failing call restores
    the reader.

  \<^item> Cbb and Writer: crypto/bytestring/cbb.c, the writer. A CBB is a buffer with a chain of open
    children whose length prefixes are pending. Writer has the abstract writer, an expression of nested
    elements, and the refinement: any sequence of the calls of \<open>wcmd\<close> gives the bytes of the abstract writer, or fails
    for the reasons it names. A call that fails sets the error flag, and the writer cannot be finished any more, whatever is
    called afterwards (\<open>later_calls\<close>). Codec is the interface (a locale) between an encoding
    and its reader, with uniqueness and prefix-freeness proved once; Der and Unicode interpret it.

  \<^item> Unicode: crypto/bytestring/unicode.c, readers and writers of four encodings of code points.

  \<^item> Qsort and Oid: what \<open>qsort\<close> promises; OIDs as text and as octets, and the canonical order of a SET OF.

  \<^item> Ber: crypto/bytestring/ber.c, conversion of BER to DER. The abstract values are trees; the conversion
    accepts exactly the sequences of BER encodings nested at most \<open>kMaxDepth\<close> deep and returns their DER encodings.

  \<^item> Stack: crypto/stack/stack.c, arrays of pointers with an optional order. The locale \<open>sequence\<close> states what
    an indexed sequence promises; any sequence of operations
    behaves like the same operations on a list; \<open>sk_find\<close> finds the first match because the flag
    \<open>sorted\<close> is honest as long as \<open>sk_set\<close> is not used. After \<open>sk_set\<close>, the search finds all of the elements, if they are
    different, exactly when the order is not broken.

  \<^item> Lhash: crypto/lhash/lhash.c, hash tables with chaining and resizing. The locale \<open>dictionary\<close> states what a
    table promises; the invariant relates buckets, cached hashes and counts; any sequence of operations
    gives the results of a map, where an insertion fails exactly when its allocator has no room for a new item.

  \<^item> Base64: crypto/base64/base64.c, block and streaming forms. The decoder accepts exactly the
    encodings; the streaming forms do not depend on how their input is cut.

  \<^item> PbEncode, PbDecode, PbWire: nanopb/pb_encode.c and pb_decode.c below the level of messages. A stream is
    a buffer, a client's callback, or (output) a counter. The locale \<open>wire_encoder\<close> is the contract of an
    encoder of given bytes, with the lemmas on sizes, buffers and submessages proved once; \<open>wire_codec\<close> adds
    the decoder that reads them. Every value and field type is an instance, which gives the round
    trips; unknown fields are skipped exactly; no decoder leaves its buffer.

  \<^item> PbCommon: memory and the field iterator of nanopb/pb_common.c. The search for a field number returns the first field with that number on the way round.

  \<^item> PbMessage: pb_encode of whole messages. \<open>msg_wire\<close> is the bytes of a
    message, by the descriptors and the memory; pb_encode writes them on every stream, or refuses.

  \<^item> PbHeap and PbDecodeMessage: the rest of pb_decode.c. Memory is a function from addresses to bytes, with a map of
    the blocks that \<open>realloc\<close> has handed out; structures are reached through the addresses that the iterator
    computes, so that the model has the aliasing of the code. PbHeap has default values and \<open>pb_release\<close>,
    PbDecodeMessage the decoder of messages: static, pointer and callback fields, packed and fixed-count arrays, oneofs,
    extensions, required fields and submessages.

  \<^item> PbSafety: for every input the decoder returns and reads inside its buffer; with message types of static fields and
    callbacks it writes inside the \<open>storage\<close> that the descriptors give to the message. The locale \<open>safe_level\<close> is the
    contract between two levels of nesting.

  \<^item> PbRequired: the loop of \<open>pb_decode_noinit\<close> as a relation, and the check for missing required fields as its
    invariant: success means that the fields that were read lead to the end of the message and that no required one
    of the first 64 is missing.

  \<^item> PbRoundtrip: what pb_encode writes, pb_decode turns into a copy of the structure (\<open>copied\<close>), by way of the locale
    \<open>reading_level\<close>.

  \<^bold>\<open>Loops and bounds.\<close> Loops are recursive functions with termination proofs: on the input that is left,
  on the distance to the end of a table, or, in nanopb's readers, on \<open>bytes_left\<close>, which every round
  lowers. The loops of the message decoder are \<open>c_loop\<close>, None when a loop does not end; \<open>pb_decode_returns\<close> shows that they
  do. Some recursions carry a bound. \<open>cbs_convert_ber\<close> and \<open>cbs_find_ber\<close> have the depth
  limit of the source. \<open>pb_encode\<close> nests as deep as the message; its first argument bounds the nesting,
  and \<open>pb_encode_levels\<close> shows that any bound above the rank of the message type gives the same
  result. \<open>pb_decode\<close>, \<open>pb_message_set_to_defaults\<close> and \<open>pb_release\<close> have such a bound too, and None when it is exceeded; a bound
  above the rank is enough (\<open>pb_decode_returns\<close>). Two streams of nanopb keep what a callback does abstract: a client's reader delivers bytes, fails,
  or reports the end of its input, and its state is the \<open>state\<close> member itself.

  \<^bold>\<open>What the proofs found.\<close> \<open>cbs_find_ber\<close> loses a nested finding when another element follows
  (\<open>find_ber_forgets_nested_ber\<close>), so that BER is returned unconverted; and \<open>CBS_asn1_ber_to_der\<close> converts
  all of its input, where internal.h says one element (\<open>ber_to_der_exact\<close>). \<open>sk_set\<close> leaves a stack marked as
  sorted (\<open>sk_set_search_exact\<close>). nanopb's \<open>pb_decode_varint32\<close> does not bound the length of a varint and its bit
  position wraps at 256 (\<open>pb_decode_varint32_wraps\<close>), and it accepts some 64-bit values that are neither
  below 2^32 nor sign-extended 32-bit integers (\<open>pb_decode_varint32_exact\<close>). A message type without fields accepts
  field number 0 and stores a byte (\<open>pb_decode_empty_message_type\<close>); the default of a fixed-count array is written past
  an array of less than four bytes (\<open>set_to_defaults_past_array\<close>); a string without terminator is encoded but
  cannot be decoded (\<open>unterminated_string_refused\<close>).

  \<^bold>\<open>Not modelled.\<close> The safety of the message decoder does not follow blocks from \<open>realloc\<close>: for message types with
  fields behind pointers it is shown that the decoder returns and stays in its input, not where it writes, and
  for extensions neither. A fixed-count array of less than four bytes and a message type without fields are left out
  of the memory safety, since the code writes past them.
  The rest of BoringSSL: ciphers, digests, public-key algorithms, X.509 and
  TLS, whose correctness is cryptographic or protocol-level and rests on far more code than the codecs.
  libuv: an event loop over operating system calls; its timer heap and address
  parsers are candidates. upb: a second implementation of the wire format. gRPC, Abseil, LevelDB and
  Firebase are C++ and Objective-C, the applications Swift.
\<close>

end
